(* ===== verification/Prelude.thy ===== *)
theory Prelude
  imports Main "HOL-Library.Word" "HOL-Library.While_Combinator"
begin

text \<open>
  Shared vocabulary of the development: the C integer types that are kept at their width,
  the failure values of the library's functions, the allocator, the state-and-failure monad
  in which every allocating function is written, and the two judgements by which such a
  function is specified.

  The allocator. Every \<^verbatim>\<open>malloc\<close>, \<^verbatim>\<open>calloc\<close> and \<^verbatim>\<open>strdup\<close> of the C code consults the field
  \<open>script\<close> of the heap: a list of the outcomes of the coming requests (\<open>False\<close> is a
  \<^verbatim>\<open>NULL\<close> return); when the list is exhausted, requests succeed. A heap with an empty script
  is thus a machine with enough memory, and an arbitrary script covers every pattern of
  allocation failures. \<^verbatim>\<open>free\<close> has no observable effect in the model.
\<close>

unbundle bit_operations_syntax

type_synonym u8 = "8 word"
type_synonym u32 = "32 word"

text \<open>
  The conversion of a wider integer (a \<^verbatim>\<open>size_t\<close> or a difference of pointers) to the 32-bit type
  \<^verbatim>\<open>int\<close>, which keeps the low 32 bits and reads them as a signed number.
\<close>

definition int32 :: "int \<Rightarrow> int" where
  "int32 k = signed_take_bit 31 k"

lemma int32_id: "- (2 ^ 31) \<le> k \<Longrightarrow> k < 2 ^ 31 \<Longrightarrow> int32 k = k"
  by (simp add: int32_def signed_take_bit_int_eq_self)

lemma int32_length [simp]: "n < 2 ^ 31 \<Longrightarrow> int32 (int n) = int n"
  by (rule int32_id) (simp, metis of_nat_less_iff of_nat_numeral of_nat_power)

lemma int32_negative: "2 ^ 31 \<le> n \<Longrightarrow> n < 2 ^ 32 \<Longrightarrow> int32 (int n) < 0"
proof -
  assume n: "2 ^ 31 \<le> n" "n < 2 ^ 32"
  then have "n div 2 ^ 31 = 1" by (intro div_nat_eqI) simp_all
  then have "bit n 31" by (simp only: bit_iff_odd) simp
  then have "bit (int n) 31" by (simp only: bit_of_nat_iff_bit)
  then show ?thesis by (simp add: int32_def)
qed

named_theorems delivers_rules \<open>introduction rules for the judgement delivers\<close>
named_theorems acts_rules \<open>introduction rules for the judgement acts\<close>

subsection \<open>Failures\<close>

text \<open>
  \<open>EINVAL\<close>, \<open>ENOMEM\<close> and \<open>ERANGE\<close> are the values of \<^verbatim>\<open>errno\<close> the library sets on a failing
  return; \<open>NOERRNO\<close> is a failing return that sets no \<^verbatim>\<open>errno\<close>; \<open>CRASH\<close> is undefined
  behaviour that the code runs into (an access through a null pointer or outside of a block); \<open>DIVERGES\<close> is a loop that
  never ends.
\<close>

datatype failure = EINVAL | ENOMEM | ERANGE | NOERRNO | CRASH | DIVERGES

subsection \<open>The heap and the state-and-failure monad\<close>

record heap =
  script :: "bool list"

type_synonym ('s, 'a) M = "'s \<Rightarrow> (failure + 'a) \<times> 's"

definition retM :: "'a \<Rightarrow> ('s, 'a) M" where
  "retM a = (\<lambda>s. (Inr a, s))"

definition failM :: "failure \<Rightarrow> ('s, 'a) M" where
  "failM e = (\<lambda>s. (Inl e, s))"

definition bindM :: "('s, 'a) M \<Rightarrow> ('a \<Rightarrow> ('s, 'b) M) \<Rightarrow> ('s, 'b) M" where
  "bindM f g = (\<lambda>s. case f s of (Inl e, s') \<Rightarrow> (Inl e, s') | (Inr a, s') \<Rightarrow> g a s')"

text \<open>\<open>tryM f\<close> runs \<open>f\<close> and hands its outcome, failed or not, to the caller.\<close>

definition tryM :: "('s, 'a) M \<Rightarrow> ('s, failure + 'a) M" where
  "tryM f = (\<lambda>s. case f s of (r, s') \<Rightarrow> (Inr r, s'))"

fun foldM :: "('b \<Rightarrow> 'a \<Rightarrow> ('s, 'b) M) \<Rightarrow> 'b \<Rightarrow> 'a list \<Rightarrow> ('s, 'b) M" where
  "foldM f b [] = retM b"
| "foldM f b (x # xs) = bindM (f b x) (\<lambda>b'. foldM f b' xs)"

definition malloc :: "('z heap_scheme, unit) M" where
  "malloc = (\<lambda>s. case script s of
       [] \<Rightarrow> (Inr (), s)
     | b # bs \<Rightarrow> (if b then Inr () else Inl ENOMEM, s\<lparr>script := bs\<rparr>))"

lemma bindM_retM [simp]: "bindM (retM a) g = g a"
  by (simp add: bindM_def retM_def)

lemma bindM_failM [simp]: "bindM (failM e) g = failM e"
  by (simp add: bindM_def failM_def)

lemma retM_apply [simp]: "retM a s = (Inr a, s)"
  by (simp add: retM_def)

lemma failM_apply [simp]: "failM e s = (Inl e, s)"
  by (simp add: failM_def)

lemma bindM_assoc: "bindM (bindM f g) h = bindM f (\<lambda>a. bindM (g a) h)"
  by (rule ext) (simp add: bindM_def split: prod.splits sum.splits)

lemma bindM_run: "f s = (Inr a, s') \<Longrightarrow> bindM f g s = g a s'" "f s = (Inl e, s') \<Longrightarrow> bindM f g s = (Inl e, s')"
  by (simp_all add: bindM_def)

lemma bindM_Inr:
  "bindM f g s = (Inr b, s') \<longleftrightarrow> (\<exists>a t. f s = (Inr a, t) \<and> g a t = (Inr b, s'))"
  by (auto simp: bindM_def split: prod.splits sum.splits)

lemma malloc_enough [simp]: "script s = [] \<Longrightarrow> malloc s = (Inr (), s)"
  by (simp add: malloc_def)

subsection \<open>Specification judgements\<close>

text \<open>
  \<open>delivers I f r\<close>: from any heap with the invariant \<open>I\<close>, the function \<open>f\<close> keeps \<open>I\<close>,
  its outcome is \<open>r\<close> or an allocation failure, and it is \<open>r\<close> when no allocation fails.
  \<open>runs I f r\<close> is the last part alone, for the functions that react to an allocation failure
  in another way than by failing.
\<close>

definition delivers :: "('z heap_scheme \<Rightarrow> bool) \<Rightarrow> ('z heap_scheme, 'a) M \<Rightarrow> failure + 'a \<Rightarrow> bool"
  where
  "delivers I f r \<longleftrightarrow> (\<forall>s. I s \<longrightarrow>
     I (snd (f s)) \<and> (fst (f s) = r \<or> fst (f s) = Inl ENOMEM) \<and>
     (script s = [] \<longrightarrow> fst (f s) = r \<and> script (snd (f s)) = []))"

definition runs :: "('z heap_scheme \<Rightarrow> bool) \<Rightarrow> ('z heap_scheme, 'a) M \<Rightarrow> failure + 'a \<Rightarrow> bool"
  where
  "runs I f r \<longleftrightarrow> (\<forall>s. I s \<longrightarrow> script s = [] \<longrightarrow> (\<exists>s'. f s = (r, s') \<and> I s' \<and> script s' = []))"

lemma delivers_runs: "delivers I f r \<Longrightarrow> runs I f r"
  by (auto simp: delivers_def runs_def prod_eq_iff)

lemma runs_bind: "runs I f (Inr a) \<Longrightarrow> runs I (g a) r \<Longrightarrow> runs I (bindM f g) r"
  by (fastforce simp: runs_def bindM_def)

lemma runs_bind_fail: "runs I f (Inl e) \<Longrightarrow> runs I (bindM f g) (Inl e)"
  by (fastforce simp: runs_def bindM_def)

lemma runs_try: "runs I f r \<Longrightarrow> runs I (tryM f) (Inr r)"
  by (fastforce simp: runs_def tryM_def)

lemma deliversD:
  assumes "delivers I f r" and "f s = (r', s')" and "I s"
  shows "I s' \<and> (r' = r \<or> r' = Inl ENOMEM \<and> script s \<noteq> [])"
  using assms unfolding delivers_def by (metis fst_conv snd_conv)

lemma delivers_ret: "delivers I (retM a) (Inr a)"
  by (simp add: delivers_def)

lemma delivers_ret_eq [delivers_rules]: "r = Inr a \<Longrightarrow> delivers I (retM a) r"
  by (simp add: delivers_def)

lemma delivers_Pair [delivers_rules]: "r = Inr a \<Longrightarrow> delivers I (Pair (Inr a)) r"
  by (simp add: delivers_def)

lemma delivers_fail [delivers_rules]: "r = Inl e \<Longrightarrow> delivers I (failM e) r"
  by (simp add: delivers_def)

lemma delivers_eq: "delivers I f r \<Longrightarrow> r = r' \<Longrightarrow> delivers I f r'"
  by simp

lemma delivers_bind:
  assumes "delivers I f (Inr a)" and "delivers I (g a) r"
  shows "delivers I (bindM f g) r"
  unfolding delivers_def
proof (intro allI impI)
  fix s assume "I s"
  with assms(1) have f: "I (snd (f s))" "fst (f s) = Inr a \<or> fst (f s) = Inl ENOMEM"
    "script s = [] \<Longrightarrow> fst (f s) = Inr a \<and> script (snd (f s)) = []"
    by (auto simp: delivers_def)
  from f(1) assms(2) have g: "I (snd (g a (snd (f s))))"
    "fst (g a (snd (f s))) = r \<or> fst (g a (snd (f s))) = Inl ENOMEM"
    "script (snd (f s)) = [] \<Longrightarrow> fst (g a (snd (f s))) = r \<and> script (snd (g a (snd (f s)))) = []"
    by (auto simp: delivers_def)
  from f g show "I (snd (bindM f g s)) \<and> (fst (bindM f g s) = r \<or> fst (bindM f g s) = Inl ENOMEM) \<and>
      (script s = [] \<longrightarrow> fst (bindM f g s) = r \<and> script (snd (bindM f g s)) = [])"
    by (auto simp: bindM_def split: prod.splits sum.splits)
qed

lemma delivers_bind_fail: "delivers I f (Inl e) \<Longrightarrow> delivers I (bindM f g) (Inl e)"
  unfolding delivers_def bindM_def by (force split: prod.splits sum.splits)

text \<open>A function that picks its computation by looking at the heap first.\<close>

lemma delivers_cases:
  assumes "\<And>s. I s \<Longrightarrow> \<exists>g. f s = g s \<and> delivers I g r"
  shows "delivers I f r"
  using assms unfolding delivers_def by metis

lemma delivers_foldM:
  assumes "\<And>b x. x \<in> set xs \<Longrightarrow> delivers I (f b x) (Inr (g b x))"
  shows "delivers I (foldM f b xs) (Inr (foldl g b xs))"
  using assms by (induction xs arbitrary: b) (auto intro!: delivers_rules delivers_bind)

text \<open>
  What a heap invariant must satisfy for the allocator to keep it: it does not look at the
  script of pending allocation outcomes.
\<close>

locale heap_invariant =
  fixes I :: "'z heap_scheme \<Rightarrow> bool"
  assumes script_update: "I s \<Longrightarrow> I (s\<lparr>script := m\<rparr>)"
begin

lemma malloc_delivers: "delivers I malloc (Inr ())"
  unfolding delivers_def malloc_def by (auto simp: script_update split: list.splits)

lemma malloc_then [delivers_rules]: "delivers I (g ()) r \<Longrightarrow> delivers I (bindM malloc g) r"
  by (rule delivers_bind [OF malloc_delivers])

end

interpretation any_heap: heap_invariant "\<lambda>_. True"
  by unfold_locales simp

subsection \<open>Functions on an object\<close>

text \<open>
  A function that changes an object through a pointer, and may do so before it fails, is a
  computation over the pair of the object and the heap. \<open>lift\<close> runs a computation that does
  not touch the object; \<open>call\<close> runs a function on another object and returns that object too.
\<close>

type_synonym ('x, 's, 'a) OM = "('x \<times> 's, 'a) M"

definition lift :: "('s, 'a) M \<Rightarrow> ('x, 's, 'a) OM" where
  "lift f = (\<lambda>(x, s). case f s of (r, s') \<Rightarrow> (r, (x, s')))"

definition getO :: "('x, 's, 'x) OM" where
  "getO = (\<lambda>(x, s). (Inr x, (x, s)))"

definition putO :: "'x \<Rightarrow> ('x, 's, unit) OM" where
  "putO y = (\<lambda>(x, s). (Inr (), (y, s)))"

definition call :: "('y, 's, 'a) OM \<Rightarrow> 'y \<Rightarrow> ('x, 's, 'a \<times> 'y) OM" where
  "call f y = (\<lambda>(x, s). case f (y, s) of
       (Inl e, (y', s')) \<Rightarrow> (Inl e, (x, s'))
     | (Inr a, (y', s')) \<Rightarrow> (Inr (a, y'), (x, s')))"

text \<open>\<open>evalO f x\<close> runs \<open>f\<close> on an object that is freed afterwards.\<close>

definition evalO :: "('x, 's, 'a) OM \<Rightarrow> 'x \<Rightarrow> ('s, 'a) M" where
  "evalO f x = (\<lambda>s. case f (x, s) of (r, (_, s')) \<Rightarrow> (r, s'))"

text \<open>
  \<open>acts I f x r y\<close>: on a heap with the invariant \<open>I\<close> where no allocation fails, \<open>f\<close> turns the
  object \<open>x\<close> into \<open>y\<close> with the outcome \<open>r\<close> and keeps \<open>I\<close>.
\<close>

definition acts ::
    "('z heap_scheme \<Rightarrow> bool) \<Rightarrow> ('x, 'z heap_scheme, 'a) OM \<Rightarrow> 'x \<Rightarrow> failure + 'a \<Rightarrow> 'x \<Rightarrow> bool"
  where
  "acts I f x r y \<longleftrightarrow> (\<forall>s. I s \<longrightarrow> script s = [] \<longrightarrow>
     (\<exists>s'. f (x, s) = (r, (y, s')) \<and> I s' \<and> script s' = []))"

lemma acts_ret [acts_rules]: "r = Inr a \<Longrightarrow> y = x \<Longrightarrow> acts I (retM a) x r y"
  by (simp add: acts_def)

lemma acts_fail [acts_rules]: "r = Inl e \<Longrightarrow> y = x \<Longrightarrow> acts I (failM e) x r y"
  by (simp add: acts_def)

lemma acts_bind: "acts I f x (Inr a) y \<Longrightarrow> acts I (g a) y r z \<Longrightarrow> acts I (bindM f g) x r z"
  by (fastforce simp: acts_def bindM_def)

lemma acts_bind_fail: "acts I f x (Inl e) y \<Longrightarrow> acts I (bindM f g) x (Inl e) y"
  by (fastforce simp: acts_def bindM_def)

lemma acts_lift: "runs I f r \<Longrightarrow> acts I (lift f) x r x"
  by (fastforce simp: acts_def runs_def lift_def)

lemma acts_lift_then: "runs I f (Inr a) \<Longrightarrow> acts I (g a) x r y \<Longrightarrow> acts I (bindM (lift f) g) x r y"
  by (rule acts_bind [OF acts_lift])

lemma acts_get_then [acts_rules]: "acts I (g x) x r y \<Longrightarrow> acts I (bindM getO g) x r y"
  by (simp add: acts_def getO_def bindM_def)

lemma acts_put [acts_rules]: "r = Inr () \<Longrightarrow> z = y \<Longrightarrow> acts I (putO y) x r z"
  by (simp add: acts_def putO_def)

lemma acts_put_then [acts_rules]: "acts I (g ()) y r z \<Longrightarrow> acts I (bindM (putO y) g) x r z"
  by (simp add: acts_def putO_def bindM_def)

lemma acts_call_then:
  "acts I f y (Inr a) y' \<Longrightarrow> acts I (g (a, y')) x r z \<Longrightarrow> acts I (bindM (call f y) g) x r z"
  by (fastforce simp: acts_def call_def bindM_def)

end
