(* ===== verification/RScode.thy ===== *)
theory RScode
  imports Prelude
begin

text \<open>
  The Reed-Solomon codec of \<^verbatim>\<open>qrencode/rscode.c\<close>: the control block, the construction of the
  Galois field tables and of the generator polynomial, the cache of control blocks, and the
  encoder. \<^verbatim>\<open>data_t\<close> is \<open>u8\<close>; the C \<^verbatim>\<open>int\<close> fields are \<open>int\<close>.
\<close>

subsection \<open>Control block\<close>

record RS =
  rs_mm :: int
  rs_nn :: int
  rs_alpha_to :: "u8 list"
  rs_index_of :: "u8 list"
  rs_genpoly :: "u8 list"
  rs_nroots :: int
  rs_fcr :: int
  rs_prim :: int
  rs_iprim :: int
  rs_pad :: int
  rs_gfpoly :: int

record rs_heap = heap +
  rslist :: "RS list"

definition modnn :: "int \<Rightarrow> int \<Rightarrow> int \<Rightarrow> int" where
  "modnn nn mm x =
     while (\<lambda>x. nn \<le> x) (\<lambda>x. let x = x - nn in drop_bit (nat mm) x + (x AND nn)) x"

subsection \<open>Galois field tables\<close>

text \<open>One turn of the shift register: \<^verbatim>\<open>sr <<= 1; if(sr & (1<<symsize)) sr ^= gfpoly; sr &= nn\<close>.\<close>

definition sr_step :: "int \<Rightarrow> int \<Rightarrow> int \<Rightarrow> int" where
  "sr_step symsize gfpoly sr =
     (let sr = push_bit 1 sr;
          sr = (if sr AND 2 ^ nat symsize \<noteq> 0 then sr XOR gfpoly else sr)
      in sr AND (2 ^ nat symsize - 1))"

text \<open>
  The table loop, over the initial contents of the two allocated arrays. The result holds
  the two tables and the final content of the shift register.
\<close>

definition gf_tables :: "int \<Rightarrow> int \<Rightarrow> u8 list \<Rightarrow> u8 list \<Rightarrow> u8 list \<times> u8 list \<times> int" where
  "gf_tables symsize gfpoly alpha0 index0 =
     (let nn = 2 ^ nat symsize - 1 :: nat
      in foldl (\<lambda>(alpha, index, sr) i.
             (alpha[i := of_int sr], index[nat sr := of_nat i], sr_step symsize gfpoly sr))
           (alpha0[nn := 0], index0[0 := of_nat nn], 1) [0..<nn])"

subsection \<open>Generator polynomial\<close>

text \<open>The inner loop \<^verbatim>\<open>for (j = i; j > 0; j--)\<close>.\<close>

fun genpoly_inner :: "(u8 \<Rightarrow> u8) \<Rightarrow> nat \<Rightarrow> u8 list \<Rightarrow> u8 list" where
  "genpoly_inner mult 0 g = g"
| "genpoly_inner mult (Suc j) g =
     genpoly_inner mult j
       (g[Suc j := (if g ! Suc j \<noteq> 0 then g ! j XOR mult (g ! Suc j) else g ! j)])"

text \<open>
  The outer loop over \<open>i\<close>, with \<open>root = fcr * prim + i * prim\<close>; \<open>genpoly_mult\<close> is
  \<^verbatim>\<open>alpha_to[modnn(rs, index_of[v] + root)]\<close>.
\<close>

definition genpoly_mult :: "RS \<Rightarrow> int \<Rightarrow> u8 \<Rightarrow> u8" where
  "genpoly_mult rs root v =
     rs_alpha_to rs ! nat (modnn (rs_nn rs) (rs_mm rs) (uint (rs_index_of rs ! unat v) + root))"

definition genpoly_round :: "RS \<Rightarrow> u8 list \<Rightarrow> nat \<Rightarrow> u8 list" where
  "genpoly_round rs g i =
     (let root = rs_fcr rs * rs_prim rs + int i * rs_prim rs;
          g = genpoly_inner (genpoly_mult rs root) i (g[i + 1 := 1])
      in g[0 := genpoly_mult rs root (g ! 0)])"

definition genpoly_loop :: "RS \<Rightarrow> u8 list \<Rightarrow> u8 list" where
  "genpoly_loop rs g0 = foldl (genpoly_round rs) (g0[0 := 1]) [0..<nat (rs_nroots rs)]"

definition find_iprim :: "int \<Rightarrow> int \<Rightarrow> int option" where
  "find_iprim nn prim =
     map_option (\<lambda>ip. ip div prim) (while_option (\<lambda>ip. ip mod prim \<noteq> 0) (\<lambda>ip. ip + nn) 1)"

definition init_rs_char ::
    "int \<Rightarrow> int \<Rightarrow> int \<Rightarrow> int \<Rightarrow> int \<Rightarrow> int \<Rightarrow> ('z heap_scheme, RS) M" where
  "init_rs_char symsize gfpoly fcr prim nroots pad =
     (if symsize < 0 \<or> symsize > 8 then failM NOERRNO
      else if fcr < 0 \<or> fcr \<ge> 2 ^ nat symsize then failM NOERRNO
      else if prim \<le> 0 \<or> prim \<ge> 2 ^ nat symsize then failM NOERRNO
      else if nroots < 0 \<or> nroots \<ge> 2 ^ nat symsize then failM NOERRNO
      else if pad < 0 \<or> pad \<ge> 2 ^ nat symsize - 1 - nroots then failM NOERRNO
      else
        bindM malloc (\<lambda>_. bindM malloc (\<lambda>_. bindM malloc (\<lambda>_.
          let nn = 2 ^ nat symsize - 1 :: nat;
              (alpha, index, sr) =
                gf_tables symsize gfpoly (replicate (nn + 1) 0) (replicate (nn + 1) 0)
          in if sr \<noteq> 1 then failM NOERRNO
             else bindM malloc (\<lambda>_.
               case find_iprim (int nn) prim of
                 None \<Rightarrow> failM DIVERGES
               | Some iprim \<Rightarrow>
                   let rs = \<lparr>rs_mm = symsize, rs_nn = int nn, rs_alpha_to = alpha,
                             rs_index_of = index, rs_genpoly = replicate (nat nroots + 1) 0,
                             rs_nroots = nroots, rs_fcr = fcr, rs_prim = prim,
                             rs_iprim = iprim, rs_pad = pad, rs_gfpoly = gfpoly\<rparr>;
                       g = genpoly_loop rs (rs_genpoly rs)
                   in retM (rs\<lparr>rs_genpoly := map (\<lambda>v. rs_index_of rs ! unat v) g\<rparr>))))))"

subsection \<open>Cache of control blocks\<close>

definition init_rs ::
    "int \<Rightarrow> int \<Rightarrow> int \<Rightarrow> int \<Rightarrow> int \<Rightarrow> int \<Rightarrow> ('z rs_heap_scheme, RS) M" where
  "init_rs symsize gfpoly fcr prim nroots pad = (\<lambda>s.
     case find (\<lambda>rs. rs_pad rs = pad \<and> rs_nroots rs = nroots \<and> rs_mm rs = symsize \<and>
                     rs_gfpoly rs = gfpoly \<and> rs_fcr rs = fcr \<and> rs_prim rs = prim) (rslist s) of
       Some rs \<Rightarrow> (Inr rs, s)
     | None \<Rightarrow> bindM (init_rs_char symsize gfpoly fcr prim nroots pad)
                 (\<lambda>rs s. (Inr rs, s\<lparr>rslist := rs # rslist s\<rparr>)) s)"

definition free_rs_cache :: "('z rs_heap_scheme, unit) M" where
  "free_rs_cache = (\<lambda>s. (Inr (), s\<lparr>rslist := []\<rparr>))"

subsection \<open>Encoder\<close>

text \<open>One data symbol through the encoder's shift register.\<close>

definition encode_rs_step :: "RS \<Rightarrow> u8 list \<Rightarrow> u8 \<Rightarrow> u8 list" where
  "encode_rs_step rs parity d =
     (let NN = rs_nn rs;
          NROOTS = nat (rs_nroots rs);
          feedback = rs_index_of rs ! unat (d XOR parity ! 0);
          term = (\<lambda>j. rs_alpha_to rs !
                    nat (modnn NN (rs_mm rs) (uint feedback + uint (rs_genpoly rs ! j))));
          parity = (if uint feedback \<noteq> NN
                    then foldl (\<lambda>p j. p[j := p ! j XOR term (NROOTS - j)]) parity [1..<NROOTS]
                    else parity)
      in tl parity @ [if uint feedback \<noteq> NN then term 0 else 0])"

definition encode_rs_char :: "RS \<Rightarrow> u8 list \<Rightarrow> u8 list" where
  "encode_rs_char rs data =
     foldl (\<lambda>parity i. encode_rs_step rs parity (data ! i))
       (replicate (nat (rs_nroots rs)) 0)
       [0..<nat (rs_nn rs - rs_nroots rs - rs_pad rs)]"

end
