(* ===== verification/BitStream.thy ===== *)
theory BitStream
  imports Prelude
begin

text \<open>
  The bit stream of \<^verbatim>\<open>qrencode/bitstream.c\<close>: an array with one byte per bit (0 or 1) and its
  length. A stream whose \<^verbatim>\<open>data\<close> is \<^verbatim>\<open>NULL\<close> has the empty list. A function that changes a
  stream through its pointer returns the new stream; on failure the caller still holds the
  old one, as the C code leaves it unchanged.
\<close>

subsection \<open>Operations\<close>

record BitStream =
  bs_length :: int
  bs_data :: "u8 list"

definition BitStream_new :: "('z heap_scheme, BitStream) M" where
  "BitStream_new = bindM malloc (\<lambda>_. retM \<lparr>bs_length = 0, bs_data = []\<rparr>)"

definition BitStream_allocate :: "BitStream \<Rightarrow> int \<Rightarrow> ('z heap_scheme, BitStream) M" where
  "BitStream_allocate bstream len =
     bindM malloc (\<lambda>_. retM (bstream\<lparr>bs_length := len, bs_data := replicate (nat len) 0\<rparr>))"

text \<open>The bytes that the loop of \<^verbatim>\<open>BitStream_newFromNum\<close> writes, one per turn.\<close>

fun num_loop :: "nat \<Rightarrow> u32 \<Rightarrow> u32 \<Rightarrow> u8 list" where
  "num_loop 0 msk num = []"
| "num_loop (Suc i) msk num =
     (if num AND msk \<noteq> 0 then 1 else 0) # num_loop i (drop_bit 1 msk) num"

definition BitStream_newFromNum :: "int \<Rightarrow> u32 \<Rightarrow> ('z heap_scheme, BitStream) M" where
  "BitStream_newFromNum bits num =
     bindM BitStream_new (\<lambda>bstream.
     bindM (BitStream_allocate bstream bits) (\<lambda>bstream.
     retM (bstream\<lparr>bs_data := num_loop (nat bits) (push_bit (nat (bits - 1)) 1) num\<rparr>)))"

fun byte_loop :: "nat \<Rightarrow> u8 \<Rightarrow> u8 \<Rightarrow> u8 list" where
  "byte_loop 0 msk c = []"
| "byte_loop (Suc j) msk c =
     (if c AND msk \<noteq> 0 then 1 else 0) # byte_loop j (drop_bit 1 msk) c"

definition BitStream_newFromBytes :: "int \<Rightarrow> u8 list \<Rightarrow> ('z heap_scheme, BitStream) M" where
  "BitStream_newFromBytes sz data =
     bindM BitStream_new (\<lambda>bstream.
     bindM (BitStream_allocate bstream (sz * 8)) (\<lambda>bstream.
     retM (bstream\<lparr>bs_data := concat (map (\<lambda>i. byte_loop 8 0x80 (data ! i)) [0..<nat sz])\<rparr>)))"

text \<open>The second argument may be a null pointer.\<close>

definition BitStream_append ::
    "BitStream \<Rightarrow> BitStream option \<Rightarrow> ('z heap_scheme, BitStream) M" where
  "BitStream_append bstream arg =
     (case arg of
        None \<Rightarrow> failM NOERRNO
      | Some arg \<Rightarrow>
          if bs_length arg = 0 then retM bstream
          else if bs_length bstream = 0 then
            bindM (BitStream_allocate bstream (bs_length arg)) (\<lambda>bstream.
            retM (bstream\<lparr>bs_data := take (nat (bs_length arg)) (bs_data arg)\<rparr>))
          else
            bindM malloc (\<lambda>_.
            retM (bstream\<lparr>bs_length := bs_length bstream + bs_length arg,
                          bs_data := take (nat (bs_length bstream)) (bs_data bstream) @
                                     take (nat (bs_length arg)) (bs_data arg)\<rparr>)))"

definition BitStream_appendNum :: "BitStream \<Rightarrow> int \<Rightarrow> u32 \<Rightarrow> ('z heap_scheme, BitStream) M" where
  "BitStream_appendNum bstream bits num =
     (if bits = 0 then retM bstream
      else bindM (BitStream_newFromNum bits num) (\<lambda>b. BitStream_append bstream (Some b)))"

definition BitStream_appendBytes ::
    "BitStream \<Rightarrow> int \<Rightarrow> u8 list \<Rightarrow> ('z heap_scheme, BitStream) M" where
  "BitStream_appendBytes bstream sz data =
     (if sz = 0 then retM bstream
      else bindM (BitStream_newFromBytes sz data) (\<lambda>b. BitStream_append bstream (Some b)))"

text \<open>The inner loops of \<^verbatim>\<open>BitStream_toByte\<close>: \<^verbatim>\<open>v = v << 1; v |= *p\<close>.\<close>

definition pack_bits :: "u8 list \<Rightarrow> u8" where
  "pack_bits ps = foldl (\<lambda>v p. push_bit 1 v OR p) 0 ps"

definition BitStream_toByte :: "BitStream \<Rightarrow> ('z heap_scheme, u8 list) M" where
  "BitStream_toByte bstream =
     (let sz = nat (bs_length bstream) in
      if sz = 0 then failM NOERRNO
      else bindM malloc (\<lambda>_.
        let bytes = sz div 8 in
        retM (map (\<lambda>i. pack_bits (take 8 (drop (8 * i) (bs_data bstream)))) [0..<bytes] @
              (if sz mod 8 \<noteq> 0
               then [pack_bits (take (sz mod 8) (drop (8 * bytes) (bs_data bstream)))]
               else []))))"

subsection \<open>Reference: streams as lists of bits\<close>

definition bs_of :: "u8 list \<Rightarrow> BitStream" where
  "bs_of xs = \<lparr>bs_length = int (length xs), bs_data = xs\<rparr>"

text \<open>The \<open>k\<close> low bits of a number, most significant first.\<close>

definition nbits :: "nat \<Rightarrow> nat \<Rightarrow> u8 list" where
  "nbits k n = map (\<lambda>i. of_bool (bit n (k - 1 - i))) [0..<k]"

definition bits_val :: "u8 list \<Rightarrow> nat" where
  "bits_val bs = foldl (\<lambda>v b. 2 * v + unat b) 0 bs"

definition bit_list :: "u8 list \<Rightarrow> bool" where
  "bit_list xs \<longleftrightarrow> set xs \<subseteq> {0, 1}"

lemma bs_of_sel [simp]: "bs_length (bs_of xs) = int (length xs)" "bs_data (bs_of xs) = xs"
  by (simp_all add: bs_of_def)

lemma bs_of_update [simp]:
  "bs_of xs\<lparr>bs_data := ys\<rparr> = \<lparr>bs_length = int (length xs), bs_data = ys\<rparr>"
  by (simp add: bs_of_def)

lemma length_nbits [simp]: "length (nbits k n) = k"
  by (simp add: nbits_def)

lemma nbits_0 [simp]: "nbits 0 n = []"
  by (simp add: nbits_def)

lemma nbits_Suc: "nbits (Suc k) n = of_bool (bit n k) # nbits k n"
  unfolding nbits_def by (subst upt_conv_Cons) (simp_all add: map_Suc_upt [symmetric] del: upt_Suc)

lemma bit_list_nbits [simp]: "bit_list (nbits k n)"
  by (auto simp: bit_list_def nbits_def)

lemma num_loop_nbits: "i \<le> 32 \<Longrightarrow> num_loop i (push_bit (i - 1) 1) num = nbits i (unat num)"
proof (induction i)
  case (Suc i)
  have "num AND push_bit i 1 \<noteq> 0 \<longleftrightarrow> bit num i"
    using Suc.prems by (simp add: bit_iff_and_push_bit_not_eq_0)
  moreover have "drop_bit 1 (push_bit i (1 :: u32)) = push_bit (i - 1) 1" if "0 < i"
    using that Suc.prems by (cases i) (auto intro!: bit_word_eqI simp: bit_simps)
  ultimately show ?case using Suc
    by (cases "i = 0") (simp_all add: nbits_Suc bit_unsigned_iff)
qed simp

lemma byte_loop_upto: "i \<le> 8 \<Longrightarrow> byte_loop i (push_bit (i - 1) 1) c = nbits i (unat c)"
proof (induction i)
  case (Suc i)
  have "c AND push_bit i 1 \<noteq> 0 \<longleftrightarrow> bit c i"
    using Suc.prems by (simp add: bit_iff_and_push_bit_not_eq_0)
  moreover have "drop_bit 1 (push_bit i (1 :: u8)) = push_bit (i - 1) 1" if "0 < i"
    using that Suc.prems by (cases i) (auto intro!: bit_word_eqI simp: bit_simps)
  ultimately show ?case using Suc
    by (cases "i = 0") (simp_all add: nbits_Suc bit_unsigned_iff)
qed simp

lemma byte_loop_nbits: "byte_loop 8 0x80 c = nbits 8 (unat c)"
  using byte_loop_upto [of 8 c] by (simp add: push_bit_eq_mult)

subsection \<open>The operations on well-formed streams\<close>

definition bytes_bits :: "u8 list \<Rightarrow> u8 list" where
  "bytes_bits data = concat (map (\<lambda>c. nbits 8 (unat c)) data)"

lemma bytes_bits_simps [simp]: "bytes_bits [] = []"
  "bytes_bits (c # cs) = nbits 8 (unat c) @ bytes_bits cs"
  by (simp_all add: bytes_bits_def)

lemma length_bytes_bits [simp]: "length (bytes_bits data) = 8 * length data"
  by (induction data) simp_all

lemma bit_list_append [simp]: "bit_list (xs @ ys) \<longleftrightarrow> bit_list xs \<and> bit_list ys"
  by (auto simp: bit_list_def)

lemma bit_list_Nil [simp]: "bit_list []"
  by (simp add: bit_list_def)

lemma bit_list_bytes_bits [simp]: "bit_list (bytes_bits data)"
  by (induction data) simp_all

lemma bytes_loop:
  assumes "nat sz \<le> length data"
  shows "concat (map (\<lambda>i. byte_loop 8 0x80 (data ! i)) [0..<nat sz]) = bytes_bits (take (nat sz) data)"
proof -
  have "take (nat sz) data = map ((!) data) [0..<nat sz]"
    using assms by (auto intro!: nth_equalityI)
  then show ?thesis by (simp add: byte_loop_nbits bytes_bits_def comp_def)
qed

context heap_invariant
begin

lemma BitStream_new_delivers: "delivers I BitStream_new (Inr (bs_of []))"
  by (auto simp: BitStream_new_def bs_of_def intro!: delivers_rules)

lemmas BitStream_new_then [delivers_rules] = delivers_bind [OF BitStream_new_delivers]

lemma BitStream_append_delivers:
  "delivers I (BitStream_append (bs_of xs) (Some (bs_of ys))) (Inr (bs_of (xs @ ys)))"
  by (auto simp: BitStream_append_def BitStream_allocate_def bindM_assoc bs_of_def
      intro!: delivers_rules)

lemmas BitStream_append_then [delivers_rules] = delivers_bind [OF BitStream_append_delivers]

lemma BitStream_newFromNum_delivers:
  assumes "0 < bits" and "bits \<le> 32"
  shows "delivers I (BitStream_newFromNum bits num) (Inr (bs_of (nbits (nat bits) (unat num))))"
proof -
  have "num_loop (nat bits) (push_bit (nat (bits - 1)) 1) num = nbits (nat bits) (unat num)"
    using num_loop_nbits [of "nat bits" num] assms by (simp add: nat_diff_distrib)
  then show ?thesis using assms
    unfolding BitStream_newFromNum_def BitStream_allocate_def bindM_assoc
    by (auto simp: bs_of_def intro!: delivers_rules)
qed

lemma BitStream_appendNum_delivers:
  assumes "0 \<le> bits" and "bits \<le> 32"
  shows "delivers I (BitStream_appendNum (bs_of xs) bits num)
    (Inr (bs_of (xs @ nbits (nat bits) (unat num))))"
proof (cases "bits = 0")
  case False
  then show ?thesis using assms unfolding BitStream_appendNum_def
    by (auto intro!: delivers_bind [OF BitStream_newFromNum_delivers] BitStream_append_delivers)
qed (simp add: BitStream_appendNum_def delivers_ret)

lemmas BitStream_appendNum_then [delivers_rules] = delivers_bind [OF BitStream_appendNum_delivers]

lemma BitStream_newFromBytes_delivers:
  assumes "0 \<le> sz" and "nat sz \<le> length data"
  shows "delivers I (BitStream_newFromBytes sz data) (Inr (bs_of (bytes_bits (take (nat sz) data))))"
  unfolding BitStream_newFromBytes_def BitStream_allocate_def bindM_assoc bytes_loop [OF assms(2)]
  using assms by (auto simp: bs_of_def intro!: delivers_rules)

lemma BitStream_appendBytes_delivers:
  assumes "0 \<le> sz" and "nat sz \<le> length data"
  shows "delivers I (BitStream_appendBytes (bs_of xs) sz data)
    (Inr (bs_of (xs @ bytes_bits (take (nat sz) data))))"
proof (cases "sz = 0")
  case False
  then show ?thesis using assms unfolding BitStream_appendBytes_def
    by (auto intro!: delivers_bind [OF BitStream_newFromBytes_delivers] BitStream_append_delivers)
qed (simp add: BitStream_appendBytes_def delivers_ret)

lemmas BitStream_appendBytes_then [delivers_rules] = delivers_bind [OF BitStream_appendBytes_delivers]

end

subsection \<open>Reading numbers and bytes back\<close>

lemma bits_val_nbits: "bits_val (nbits k n) = n mod 2 ^ k"
proof -
  have "foldl (\<lambda>v b. 2 * v + unat b) a (nbits k n) = a * 2 ^ k + n mod 2 ^ k" for a
  proof (induction k arbitrary: a)
    case (Suc k)
    have "n mod 2 ^ Suc k = of_bool (bit n k) * 2 ^ k + n mod 2 ^ k"
      using take_bit_Suc_from_most [of k n] by (simp add: take_bit_eq_mod ac_simps)
    with Suc show ?case by (cases "bit n k") (simp_all add: nbits_Suc algebra_simps)
  qed simp
  from this [of 0] show ?thesis by (simp add: bits_val_def)
qed

lemma pack_bits_val:
  assumes "bit_list ps" and "length ps \<le> 8"
  shows "unat (pack_bits ps) = bits_val ps"
proof -
  have "unat (foldl (\<lambda>v p. push_bit 1 v OR p) 0 ps) = foldl (\<lambda>v b. 2 * v + unat b) 0 ps \<and>
     foldl (\<lambda>v b. 2 * v + unat b) 0 ps < 2 ^ length ps"
    using assms
  proof (induction ps rule: rev_induct)
    case (snoc p ps)
    define v where "v = foldl (\<lambda>v p. push_bit 1 v OR p) 0 ps"
    have v: "unat v = foldl (\<lambda>v b. 2 * v + unat b) 0 ps" "unat v < 2 ^ length ps"
      and p: "p = 0 \<or> p = 1" and l: "length ps \<le> 7"
      using snoc by (auto simp: v_def bit_list_def)
    have "unat v < 128"
      using v(2) l power_increasing [of "length ps" 7 "2 :: nat"] by simp
    then have d: "unat (push_bit 1 v) = 2 * unat v"
      by (simp add: push_bit_eq_mult unat_word_ariths)
    have "unat (push_bit 1 v OR p) = 2 * unat v + unat p"
      using p
    proof
      assume "p = 1"
      moreover have "push_bit 1 v AND (1 :: u8) = 0"
        by (simp add: push_bit_eq_mult and_one_eq mod_2_eq_odd)
      ultimately have "push_bit 1 v OR p = push_bit 1 v + p"
        by (simp add: disjunctive_add_eq_or)
      then show ?thesis using \<open>p = 1\<close> d \<open>unat v < 128\<close> by (simp add: unat_word_ariths)
    qed (use d in simp)
    moreover have "2 * unat v + unat p < 2 ^ length (ps @ [p])"
      using v(2) p by auto
    ultimately show ?case using v(1) by (simp add: v_def)
  qed simp
  then show ?thesis by (simp add: pack_bits_def bits_val_def)
qed

lemma pack_bits_byte: "pack_bits (nbits 8 (unat c)) = c"
proof -
  have "unat (pack_bits (nbits 8 (unat c))) = unat c"
    by (simp add: pack_bits_val bits_val_nbits unsigned_less [of c, where ?'a = nat, simplified])
  then show ?thesis by (simp add: word_unat_eq_iff)
qed

subsection \<open>Packing a stream into bytes\<close>

definition bs_bytes :: "u8 list \<Rightarrow> u8 list" where
  "bs_bytes xs = map (\<lambda>i. pack_bits (take 8 (drop (8 * i) xs))) [0..<length xs div 8] @
     (if length xs mod 8 \<noteq> 0
      then [pack_bits (take (length xs mod 8) (drop (8 * (length xs div 8)) xs))] else [])"

context heap_invariant
begin

lemma BitStream_toByte_delivers:
  "delivers I (BitStream_toByte (bs_of xs)) (if xs = [] then Inl NOERRNO else Inr (bs_bytes xs))"
  by (auto simp: BitStream_toByte_def bs_bytes_def Let_def intro!: delivers_rules)

end

lemma length_bs_bytes: "length (bs_bytes xs) = (length xs + 7) div 8"
proof -
  have "(length xs + 7) div 8 = length xs div 8 + (if length xs mod 8 \<noteq> 0 then 1 else 0)"
    by presburger
  then show ?thesis by (simp add: bs_bytes_def)
qed

lemma bytes_bits_chunk:
  "i < length data \<Longrightarrow> take 8 (drop (8 * i) (bytes_bits data)) = nbits 8 (unat (data ! i))"
proof (induction data arbitrary: i)
  case (Cons c cs)
  then show ?case by (cases i) simp_all
qed simp

lemma bs_bytes_bytes_bits: "bs_bytes (bytes_bits data) = data"
  by (rule nth_equalityI) (simp_all add: bs_bytes_def bytes_bits_chunk pack_bits_byte)

lemma nbits_bits_val: "bit_list ps \<Longrightarrow> nbits (length ps) (bits_val ps) = ps"
proof (induction ps rule: rev_induct)
  case (snoc p ps)
  then have p: "p = 0 \<or> p = 1" and IH: "nbits (length ps) (bits_val ps) = ps"
    by (auto simp: bit_list_def)
  have "nbits (Suc k) (2 * v + unat p) = nbits k v @ [p]" for k v
  proof (induction k)
    case 0
    then show ?case using p by (auto simp: nbits_Suc bit_0)
  next
    case (Suc k)
    have "bit (2 * v + unat p) (Suc k) = bit v k"
      using p by (auto simp: bit_Suc)
    with Suc show ?case by (simp add: nbits_Suc [of "Suc k"] nbits_Suc [of k v])
  qed
  with IH show ?case by (simp add: bits_val_def)
qed simp

lemma nbits_pack_bits: "bit_list ps \<Longrightarrow> length ps = 8 \<Longrightarrow> nbits 8 (unat (pack_bits ps)) = ps"
  using nbits_bits_val [of ps] pack_bits_val [of ps] by simp

lemma bs_bytes_Cons:
  assumes "8 \<le> length xs"
  shows "bs_bytes xs = pack_bits (take 8 xs) # bs_bytes (drop 8 xs)"
proof -
  obtain m where m: "length xs div 8 = Suc m" "(length xs - 8) div 8 = m"
    using assms by (metis le_add_diff_inverse2 div_add_self2 Suc_eq_plus1 zero_neq_numeral)
  have "length xs mod 8 = (length xs - 8) mod 8" using assms by (simp add: le_mod_geq)
  then show ?thesis unfolding bs_bytes_def length_drop m
    by (subst upt_conv_Cons) (simp_all add: map_Suc_upt [symmetric] add.commute del: upt_Suc)
qed

lemma bytes_bits_bs_bytes:
  "bit_list xs \<Longrightarrow> length xs mod 8 = 0 \<Longrightarrow> bytes_bits (bs_bytes xs) = xs"
proof (induction xs rule: length_induct)
  case (1 xs)
  show ?case
  proof (cases "xs = []")
    case False
    then have len: "8 \<le> length xs" using "1.prems" by (meson dvd_imp_le length_greater_0_conv mod_0_imp_dvd)
    have "bit_list (take 8 xs)" "bit_list (drop 8 xs)"
      using "1.prems" bit_list_append [of "take 8 xs" "drop 8 xs"] by simp_all
    moreover have "length (drop 8 xs) mod 8 = 0" using "1.prems" len by (simp add: le_mod_geq)
    ultimately show ?thesis using "1.IH" len
      by (simp add: bs_bytes_Cons nbits_pack_bits)
  qed (simp add: bs_bytes_def)
qed

end
