(* ===== verification/QRtypes.thy ===== *)
theory QRtypes
  imports RScode BitStream
begin

text \<open>
  The types and constants of \<^verbatim>\<open>qrencode.h\<close>, \<^verbatim>\<open>qrspec.h\<close>, \<^verbatim>\<open>mqrspec.h\<close> and \<^verbatim>\<open>qrinput.h\<close> that
  several components share, and the static state of the library: the cache of control blocks
  of the codec and the caches of initial frames.

  An error correction level is a number, as the code compares levels with \<open>QR_ECLEVEL_H\<close> to
  reject the values of the C enumeration type beyond the declared ones. C \<^verbatim>\<open>int\<close> values are
  \<open>int\<close> (signed overflow is undefined in C, so an execution that C defines never wraps);
  widths and offsets into frames, which come from the tables, are \<open>nat\<close>.
\<close>

datatype QRencodeMode =
    QR_MODE_NUL | QR_MODE_NUM | QR_MODE_AN | QR_MODE_8 | QR_MODE_KANJI
  | QR_MODE_STRUCTURE | QR_MODE_ECI | QR_MODE_FNC1FIRST | QR_MODE_FNC1SECOND

type_synonym QRecLevel = nat

abbreviation (input) QR_ECLEVEL_L :: QRecLevel where "QR_ECLEVEL_L \<equiv> 0"
abbreviation (input) QR_ECLEVEL_M :: QRecLevel where "QR_ECLEVEL_M \<equiv> 1"
abbreviation (input) QR_ECLEVEL_Q :: QRecLevel where "QR_ECLEVEL_Q \<equiv> 2"
abbreviation (input) QR_ECLEVEL_H :: QRecLevel where "QR_ECLEVEL_H \<equiv> 3"

abbreviation (input) QRSPEC_VERSION_MAX :: int where "QRSPEC_VERSION_MAX \<equiv> 40"
abbreviation (input) MQRSPEC_VERSION_MAX :: int where "MQRSPEC_VERSION_MAX \<equiv> 4"

text \<open>The value of a mode in the C enumeration, used as an index for the first four.\<close>

fun mode_value :: "QRencodeMode \<Rightarrow> int" where
  "mode_value QR_MODE_NUL = -1"
| "mode_value QR_MODE_NUM = 0"
| "mode_value QR_MODE_AN = 1"
| "mode_value QR_MODE_8 = 2"
| "mode_value QR_MODE_KANJI = 3"
| "mode_value QR_MODE_STRUCTURE = 4"
| "mode_value QR_MODE_ECI = 5"
| "mode_value QR_MODE_FNC1FIRST = 6"
| "mode_value QR_MODE_FNC1SECOND = 7"

definition QRinput_isSplittableMode :: "QRencodeMode \<Rightarrow> bool" where
  "QRinput_isSplittableMode mode \<longleftrightarrow>
     mode_value QR_MODE_NUM \<le> mode_value mode \<and> mode_value mode \<le> mode_value QR_MODE_KANJI"

subsection \<open>Static state\<close>

type_synonym frame = "u8 list"

record qr_heap = rs_heap +
  frames :: "nat \<Rightarrow> frame option"
  mqr_frames :: "nat \<Rightarrow> frame option"

subsection \<open>Writing into a frame\<close>

definition fill :: "frame \<Rightarrow> nat \<Rightarrow> u8 \<Rightarrow> nat \<Rightarrow> frame" where
  "fill f i v n = foldl (\<lambda>f k. f[i + k := v]) f [0..<n]"

text \<open>A list of writes, in order.\<close>

definition writes :: "frame \<Rightarrow> (nat \<times> u8) list \<Rightarrow> frame" where
  "writes f ws = foldl (\<lambda>f (i, v). f[i := v]) f ws"

lemma writes_simps [simp]: "writes f [] = f" "writes f ((i, v) # ws) = writes (f[i := v]) ws"
  by (simp_all add: writes_def)

lemma writes_append [simp]: "writes f (ws @ ws') = writes (writes f ws) ws'"
  by (simp add: writes_def)

lemma length_writes [simp]: "length (writes f ws) = length f"
  by (induction ws arbitrary: f) auto

lemma fill_writes: "fill f i v n = writes f (map (\<lambda>k. (i + k, v)) [0..<n])"
  by (simp add: fill_def writes_def foldl_map)

lemma length_fill [simp]: "length (fill f i v n) = length f"
  by (simp add: fill_writes)

lemma writes_values:
  "x \<in> set (writes f ws) \<Longrightarrow> x \<in> set f \<or> (\<exists>i. (i, x) \<in> set ws)"
proof (induction ws arbitrary: f)
  case (Cons w ws)
  obtain i v where w: "w = (i, v)" by (cases w)
  with Cons.prems have "x \<in> set (writes (f[i := v]) ws)" by simp
  from Cons.IH [OF this] show ?case
    using set_update_subset_insert [of f i v] by (auto simp: w)
qed simp

lemma writes_nth:
  "j < length f \<Longrightarrow> j \<notin> fst ` set ws \<Longrightarrow> writes f ws ! j = f ! j"
  by (induction ws arbitrary: f) (auto simp: nth_list_update)

end
