(* ===== verification/QRspec.thy ===== *)
theory QRspec
  imports QRtypes
begin

text \<open>
  The tables of the standard and the initial frames of \<^verbatim>\<open>qrencode/qrspec.c\<close>.
\<close>

subsection \<open>Version and capacity\<close>

record QRspec_Capacity =
  cap_width :: nat
  cap_words :: int
  cap_remainder :: int
  cap_ec :: "int list"

definition capacity :: "nat \<Rightarrow> int \<Rightarrow> int \<Rightarrow> int list \<Rightarrow> QRspec_Capacity" where
  "capacity w n r e = \<lparr>cap_width = w, cap_words = n, cap_remainder = r, cap_ec = e\<rparr>"

definition qrspecCapacity :: "QRspec_Capacity list" where
  "qrspecCapacity =
    [capacity 0 0 0 [0, 0, 0, 0],
     capacity 21 26 0 [7, 10, 13, 17],
     capacity 25 44 7 [10, 16, 22, 28],
     capacity 29 70 7 [15, 26, 36, 44],
     capacity 33 100 7 [20, 36, 52, 64],
     capacity 37 134 7 [26, 48, 72, 88],
     capacity 41 172 7 [36, 64, 96, 112],
     capacity 45 196 0 [40, 72, 108, 130],
     capacity 49 242 0 [48, 88, 132, 156],
     capacity 53 292 0 [60, 110, 160, 192],
     capacity 57 346 0 [72, 130, 192, 224],
     capacity 61 404 0 [80, 150, 224, 264],
     capacity 65 466 0 [96, 176, 260, 308],
     capacity 69 532 0 [104, 198, 288, 352],
     capacity 73 581 3 [120, 216, 320, 384],
     capacity 77 655 3 [132, 240, 360, 432],
     capacity 81 733 3 [144, 280, 408, 480],
     capacity 85 815 3 [168, 308, 448, 532],
     capacity 89 901 3 [180, 338, 504, 588],
     capacity 93 991 3 [196, 364, 546, 650],
     capacity 97 1085 3 [224, 416, 600, 700],
     capacity 101 1156 4 [224, 442, 644, 750],
     capacity 105 1258 4 [252, 476, 690, 816],
     capacity 109 1364 4 [270, 504, 750, 900],
     capacity 113 1474 4 [300, 560, 810, 960],
     capacity 117 1588 4 [312, 588, 870, 1050],
     capacity 121 1706 4 [336, 644, 952, 1110],
     capacity 125 1828 4 [360, 700, 1020, 1200],
     capacity 129 1921 3 [390, 728, 1050, 1260],
     capacity 133 2051 3 [420, 784, 1140, 1350],
     capacity 137 2185 3 [450, 812, 1200, 1440],
     capacity 141 2323 3 [480, 868, 1290, 1530],
     capacity 145 2465 3 [510, 924, 1350, 1620],
     capacity 149 2611 3 [540, 980, 1440, 1710],
     capacity 153 2761 3 [570, 1036, 1530, 1800],
     capacity 157 2876 0 [570, 1064, 1590, 1890],
     capacity 161 3034 0 [600, 1120, 1680, 1980],
     capacity 165 3196 0 [630, 1204, 1770, 2100],
     capacity 169 3362 0 [660, 1260, 1860, 2220],
     capacity 173 3532 0 [720, 1316, 1950, 2310],
     capacity 177 3706 0 [750, 1372, 2040, 2430]]"

definition QRspec_getDataLength :: "int \<Rightarrow> QRecLevel \<Rightarrow> int" where
  "QRspec_getDataLength version level =
     cap_words (qrspecCapacity ! nat version) - cap_ec (qrspecCapacity ! nat version) ! level"

definition QRspec_getECCLength :: "int \<Rightarrow> QRecLevel \<Rightarrow> int" where
  "QRspec_getECCLength version level = cap_ec (qrspecCapacity ! nat version) ! level"

definition QRspec_getMinimumVersion :: "int \<Rightarrow> QRecLevel \<Rightarrow> int" where
  "QRspec_getMinimumVersion sz level =
     (case find (\<lambda>i. cap_words (qrspecCapacity ! i) - cap_ec (qrspecCapacity ! i) ! level \<ge> sz)
             [1..<41] of
        Some i \<Rightarrow> int i
      | None \<Rightarrow> -1)"

definition QRspec_getWidth :: "int \<Rightarrow> nat" where
  "QRspec_getWidth version = cap_width (qrspecCapacity ! nat version)"

definition QRspec_getRemainder :: "int \<Rightarrow> int" where
  "QRspec_getRemainder version = cap_remainder (qrspecCapacity ! nat version)"

subsection \<open>Length indicator\<close>

definition lengthTableBits :: "int list list" where
  "lengthTableBits = [[10, 12, 14], [9, 11, 13], [8, 16, 16], [8, 10, 12]]"

definition QRspec_lengthIndicator :: "QRencodeMode \<Rightarrow> int \<Rightarrow> int" where
  "QRspec_lengthIndicator mode version =
     (if \<not> QRinput_isSplittableMode mode then 0
      else let l = (if version \<le> 9 then 0 else if version \<le> 26 then 1 else 2)
           in lengthTableBits ! nat (mode_value mode) ! l)"

definition QRspec_maximumWords :: "QRencodeMode \<Rightarrow> int \<Rightarrow> int" where
  "QRspec_maximumWords mode version =
     (if \<not> QRinput_isSplittableMode mode then 0
      else let l = (if version \<le> 9 then 0 else if version \<le> 26 then 1 else 2);
               bits = lengthTableBits ! nat (mode_value mode) ! l;
               words = 2 ^ nat bits - 1
           in if mode = QR_MODE_KANJI then words * 2 else words)"

subsection \<open>Error correction code\<close>

definition eccTable :: "(int \<times> int) list list" where
  "eccTable =
    [[(0, 0), (0, 0), (0, 0), (0, 0)],
     [(1, 0), (1, 0), (1, 0), (1, 0)],
     [(1, 0), (1, 0), (1, 0), (1, 0)],
     [(1, 0), (1, 0), (2, 0), (2, 0)],
     [(1, 0), (2, 0), (2, 0), (4, 0)],
     [(1, 0), (2, 0), (2, 2), (2, 2)],
     [(2, 0), (4, 0), (4, 0), (4, 0)],
     [(2, 0), (4, 0), (2, 4), (4, 1)],
     [(2, 0), (2, 2), (4, 2), (4, 2)],
     [(2, 0), (3, 2), (4, 4), (4, 4)],
     [(2, 2), (4, 1), (6, 2), (6, 2)],
     [(4, 0), (1, 4), (4, 4), (3, 8)],
     [(2, 2), (6, 2), (4, 6), (7, 4)],
     [(4, 0), (8, 1), (8, 4), (12, 4)],
     [(3, 1), (4, 5), (11, 5), (11, 5)],
     [(5, 1), (5, 5), (5, 7), (11, 7)],
     [(5, 1), (7, 3), (15, 2), (3, 13)],
     [(1, 5), (10, 1), (1, 15), (2, 17)],
     [(5, 1), (9, 4), (17, 1), (2, 19)],
     [(3, 4), (3, 11), (17, 4), (9, 16)],
     [(3, 5), (3, 13), (15, 5), (15, 10)],
     [(4, 4), (17, 0), (17, 6), (19, 6)],
     [(2, 7), (17, 0), (7, 16), (34, 0)],
     [(4, 5), (4, 14), (11, 14), (16, 14)],
     [(6, 4), (6, 14), (11, 16), (30, 2)],
     [(8, 4), (8, 13), (7, 22), (22, 13)],
     [(10, 2), (19, 4), (28, 6), (33, 4)],
     [(8, 4), (22, 3), (8, 26), (12, 28)],
     [(3, 10), (3, 23), (4, 31), (11, 31)],
     [(7, 7), (21, 7), (1, 37), (19, 26)],
     [(5, 10), (19, 10), (15, 25), (23, 25)],
     [(13, 3), (2, 29), (42, 1), (23, 28)],
     [(17, 0), (10, 23), (10, 35), (19, 35)],
     [(17, 1), (14, 21), (29, 19), (11, 46)],
     [(13, 6), (14, 23), (44, 7), (59, 1)],
     [(12, 7), (12, 26), (39, 14), (22, 41)],
     [(6, 14), (6, 34), (46, 10), (2, 64)],
     [(17, 4), (29, 14), (49, 10), (24, 46)],
     [(4, 18), (13, 32), (48, 14), (42, 32)],
     [(20, 4), (40, 7), (43, 22), (10, 67)],
     [(19, 6), (18, 31), (34, 34), (20, 61)]]"

text \<open>The array \<^verbatim>\<open>spec[5]\<close> that the C function fills.\<close>

definition QRspec_getEccSpec :: "int \<Rightarrow> QRecLevel \<Rightarrow> int list" where
  "QRspec_getEccSpec version level =
     (let b1 = fst (eccTable ! nat version ! level);
          b2 = snd (eccTable ! nat version ! level);
          data = QRspec_getDataLength version level;
          ecc = QRspec_getECCLength version level
      in if b2 = 0 then [b1, data div b1, ecc div b1, 0, 0]
         else [b1, data div (b1 + b2), ecc div (b1 + b2), b2, data div (b1 + b2) + 1])"

definition QRspec_rsBlockNum :: "int list \<Rightarrow> int" where
  "QRspec_rsBlockNum spec = spec ! 0 + spec ! 3"

definition QRspec_rsBlockNum1 :: "int list \<Rightarrow> int" where
  "QRspec_rsBlockNum1 spec = spec ! 0"

definition QRspec_rsDataCodes1 :: "int list \<Rightarrow> int" where
  "QRspec_rsDataCodes1 spec = spec ! 1"

definition QRspec_rsEccCodes1 :: "int list \<Rightarrow> int" where
  "QRspec_rsEccCodes1 spec = spec ! 2"

definition QRspec_rsBlockNum2 :: "int list \<Rightarrow> int" where
  "QRspec_rsBlockNum2 spec = spec ! 3"

definition QRspec_rsDataCodes2 :: "int list \<Rightarrow> int" where
  "QRspec_rsDataCodes2 spec = spec ! 4"

definition QRspec_rsEccCodes2 :: "int list \<Rightarrow> int" where
  "QRspec_rsEccCodes2 spec = spec ! 2"

definition QRspec_rsDataLength :: "int list \<Rightarrow> int" where
  "QRspec_rsDataLength spec = QRspec_rsBlockNum1 spec * QRspec_rsDataCodes1 spec +
     QRspec_rsBlockNum2 spec * QRspec_rsDataCodes2 spec"

definition QRspec_rsEccLength :: "int list \<Rightarrow> int" where
  "QRspec_rsEccLength spec = QRspec_rsBlockNum spec * QRspec_rsEccCodes1 spec"

subsection \<open>Alignment pattern\<close>

definition alignmentPattern :: "(int \<times> int) list" where
  "alignmentPattern =
    [(0, 0),
     (0, 0), (18, 0), (22, 0), (26, 0), (30, 0),
     (34, 0), (22, 38), (24, 42), (26, 46), (28, 50),
     (30, 54), (32, 58), (34, 62), (26, 46), (26, 48),
     (26, 50), (30, 54), (30, 56), (30, 58), (34, 62),
     (28, 50), (26, 50), (30, 54), (28, 54), (32, 58),
     (30, 58), (34, 62), (26, 50), (30, 54), (26, 52),
     (30, 56), (34, 60), (30, 58), (34, 62), (30, 54),
     (24, 50), (28, 54), (32, 58), (26, 54), (30, 58)]"

definition alignment_finder :: "u8 list" where
  "alignment_finder =
    [0xa1, 0xa1, 0xa1, 0xa1, 0xa1,
     0xa1, 0xa0, 0xa0, 0xa0, 0xa1,
     0xa1, 0xa0, 0xa1, 0xa0, 0xa1,
     0xa1, 0xa0, 0xa0, 0xa0, 0xa1,
     0xa1, 0xa1, 0xa1, 0xa1, 0xa1]"

definition QRspec_putAlignmentMarker :: "frame \<Rightarrow> nat \<Rightarrow> int \<Rightarrow> int \<Rightarrow> frame" where
  "QRspec_putAlignmentMarker frame width ox oy =
     (let base = (oy - 2) * int width + ox - 2
      in writes frame
           [(nat (base + int (y * width + x)), alignment_finder ! (5 * y + x)).
              y \<leftarrow> [0..<5], x \<leftarrow> [0..<5]])"

text \<open>
  In the two loops that walk along the axes and over the grid, \<open>cx\<close> and \<open>cy\<close> start at the
  first position and grow by \<open>d\<close> with every turn.
\<close>

definition QRspec_putAlignmentPattern :: "int \<Rightarrow> frame \<Rightarrow> nat \<Rightarrow> frame" where
  "QRspec_putAlignmentPattern version frame width =
     (if version < 2 then frame
      else
        let a0 = fst (alignmentPattern ! nat version);
            d = snd (alignmentPattern ! nat version) - a0;
            w = (if d < 0 then 2 else (int width - a0) div d + 2)
        in if w * w - 3 = 1 then QRspec_putAlignmentMarker frame width a0 a0
           else
             let frame = foldl (\<lambda>f k. QRspec_putAlignmentMarker
                                    (QRspec_putAlignmentMarker f width 6 (a0 + int k * d))
                                    width (a0 + int k * d) 6)
                           frame [0..<nat (w - 2)]
             in foldl (\<lambda>f (j, k). QRspec_putAlignmentMarker f width (a0 + int k * d) (a0 + int j * d))
                  frame [(j, k). j \<leftarrow> [0..<nat (w - 1)], k \<leftarrow> [0..<nat (w - 1)]])"

subsection \<open>Version information pattern and format information\<close>

definition versionPattern :: "u32 list" where
  "versionPattern =
    [0x07c94, 0x085bc, 0x09a99, 0x0a4d3, 0x0bbf6, 0x0c762, 0x0d847, 0x0e60d,
     0x0f928, 0x10b78, 0x1145d, 0x12a17, 0x13532, 0x149a6, 0x15683, 0x168c9,
     0x177ec, 0x18ec4, 0x191e1, 0x1afab, 0x1b08e, 0x1cc1a, 0x1d33f, 0x1ed75,
     0x1f250, 0x209d5, 0x216f0, 0x228ba, 0x2379f, 0x24b0b, 0x2542e, 0x26a64,
     0x27541, 0x28c69]"

definition QRspec_getVersionPattern :: "int \<Rightarrow> u32" where
  "QRspec_getVersionPattern version =
     (if version < 7 \<or> version > QRSPEC_VERSION_MAX then 0 else versionPattern ! nat (version - 7))"

definition formatInfo :: "u32 list list" where
  "formatInfo =
    [[0x77c4, 0x72f3, 0x7daa, 0x789d, 0x662f, 0x6318, 0x6c41, 0x6976],
     [0x5412, 0x5125, 0x5e7c, 0x5b4b, 0x45f9, 0x40ce, 0x4f97, 0x4aa0],
     [0x355f, 0x3068, 0x3f31, 0x3a06, 0x24b4, 0x2183, 0x2eda, 0x2bed],
     [0x1689, 0x13be, 0x1ce7, 0x19d0, 0x0762, 0x0255, 0x0d0c, 0x083b]]"

definition QRspec_getFormatInfo :: "int \<Rightarrow> QRecLevel \<Rightarrow> u32" where
  "QRspec_getFormatInfo msk level =
     (if msk < 0 \<or> msk > 7 then 0 else formatInfo ! level ! nat msk)"

subsection \<open>Frame\<close>

definition finder_pattern :: "u8 list" where
  "finder_pattern =
    [0xc1, 0xc1, 0xc1, 0xc1, 0xc1, 0xc1, 0xc1,
     0xc1, 0xc0, 0xc0, 0xc0, 0xc0, 0xc0, 0xc1,
     0xc1, 0xc0, 0xc1, 0xc1, 0xc1, 0xc0, 0xc1,
     0xc1, 0xc0, 0xc1, 0xc1, 0xc1, 0xc0, 0xc1,
     0xc1, 0xc0, 0xc1, 0xc1, 0xc1, 0xc0, 0xc1,
     0xc1, 0xc0, 0xc0, 0xc0, 0xc0, 0xc0, 0xc1,
     0xc1, 0xc1, 0xc1, 0xc1, 0xc1, 0xc1, 0xc1]"

definition putFinderPattern :: "frame \<Rightarrow> nat \<Rightarrow> nat \<Rightarrow> nat \<Rightarrow> frame" where
  "putFinderPattern frame width ox oy =
     writes frame
       [(oy * width + ox + y * width + x, finder_pattern ! (7 * y + x)).
          y \<leftarrow> [0..<7], x \<leftarrow> [0..<7]]"

text \<open>The parts of \<^verbatim>\<open>QRspec_createFrame\<close>, in their order.\<close>

definition frame_finders :: "frame \<Rightarrow> nat \<Rightarrow> frame" where
  "frame_finders f width =
     putFinderPattern (putFinderPattern (putFinderPattern f width 0 0) width (width - 7) 0)
       width 0 (width - 7)"

definition frame_separators :: "frame \<Rightarrow> nat \<Rightarrow> frame" where
  "frame_separators f width =
     (let f = foldl (\<lambda>f y. writes f [(y * width + 7, 0xc0), (y * width + width - 8, 0xc0),
                                     (width * (width - 7) + y * width + 7, 0xc0)]) f [0..<7]
      in fill (fill (fill f (width * 7) 0xc0 8) (width * 8 - 8) 0xc0 8) (width * (width - 8)) 0xc0 8)"

definition frame_format_area :: "frame \<Rightarrow> nat \<Rightarrow> frame" where
  "frame_format_area f width =
     (let f = fill (fill f (width * 8) 0x84 9) (width * 9 - 8) 0x84 8;
          f = writes f [(8 + y * width, 0x84). y \<leftarrow> [0..<8]]
      in writes f [(width * (width - 7) + 8 + y * width, 0x84). y \<leftarrow> [0..<7]])"

definition frame_timing :: "frame \<Rightarrow> nat \<Rightarrow> frame" where
  "frame_timing f width =
     foldl (\<lambda>f x. writes f [(width * 6 + 8 + (x - 1), 0x90 OR (of_nat x AND 1)),
                            (width * 8 + 6 + (x - 1) * width, 0x90 OR (of_nat x AND 1))])
       f [1..<width - 15]"

text \<open>The bit \<open>k\<close> of \<open>verinfo\<close> is what \<^verbatim>\<open>v & 1\<close> reads after \<open>k\<close> shifts.\<close>

definition frame_version_info :: "frame \<Rightarrow> nat \<Rightarrow> u32 \<Rightarrow> frame" where
  "frame_version_info f width verinfo =
     (let f = writes f [(width * (width - 11) + width * y + x,
                         0x88 OR ucast (drop_bit (3 * x + y) verinfo AND 1)).
                          x \<leftarrow> [0..<6], y \<leftarrow> [0..<3]]
      in writes f [(width - 11 + y * width + x,
                    0x88 OR ucast (drop_bit (3 * y + x) verinfo AND 1)).
                     y \<leftarrow> [0..<6], x \<leftarrow> [0..<3]])"

definition frame_template :: "int \<Rightarrow> frame" where
  "frame_template version =
     (let width = cap_width (qrspecCapacity ! nat version);
          f = replicate (width * width) 0;
          f = frame_finders f width;
          f = frame_separators f width;
          f = frame_format_area f width;
          f = frame_timing f width;
          f = QRspec_putAlignmentPattern version f width;
          f = (if version \<ge> 7 then frame_version_info f width (QRspec_getVersionPattern version)
               else f)
      in f[width * (width - 8) + 8 := 0x81])"

definition QRspec_createFrame :: "int \<Rightarrow> ('z heap_scheme, frame) M" where
  "QRspec_createFrame version = bindM malloc (\<lambda>_. retM (frame_template version))"

definition QRspec_newFrame :: "int \<Rightarrow> ('z qr_heap_scheme, frame) M" where
  "QRspec_newFrame version =
     (if version < 1 \<or> version > QRSPEC_VERSION_MAX then failM NOERRNO
      else
        bindM (\<lambda>s. case frames s (nat version) of
                Some f \<Rightarrow> (Inr f, s)
              | None \<Rightarrow> bindM (QRspec_createFrame version)
                  (\<lambda>f s. (Inr f, s\<lparr>frames := (frames s)(nat version := Some f)\<rparr>)) s)
          (\<lambda>f. bindM malloc (\<lambda>_.
             let width = cap_width (qrspecCapacity ! nat version)
             in retM (take (width * width) f))))"

definition QRspec_clearCache :: "('z qr_heap_scheme, unit) M" where
  "QRspec_clearCache = (\<lambda>s. (Inr (), s\<lparr>frames := (\<lambda>v. if 1 \<le> v \<and> v \<le> 40 then None else frames s v)\<rparr>))"

end
