(* ===== verification/MQRspec.thy ===== *)
theory MQRspec
  imports QRspec
begin

text \<open>
  The tables and the initial frames of Micro QR Code, \<^verbatim>\<open>qrencode/mqrspec.c\<close>. Its file-local
  names that \<^verbatim>\<open>qrspec.c\<close> has too carry the prefix \<open>mqr_\<close>.
\<close>

subsection \<open>Version and capacity\<close>

record MQRspec_Capacity =
  mqr_width :: nat
  mqr_ec :: "int list"

definition mqrspecCapacity :: "MQRspec_Capacity list" where
  "mqrspecCapacity =
    [\<lparr>mqr_width = 0, mqr_ec = [0, 0, 0, 0]\<rparr>,
     \<lparr>mqr_width = 11, mqr_ec = [2, 0, 0, 0]\<rparr>,
     \<lparr>mqr_width = 13, mqr_ec = [5, 6, 0, 0]\<rparr>,
     \<lparr>mqr_width = 15, mqr_ec = [6, 8, 0, 0]\<rparr>,
     \<lparr>mqr_width = 17, mqr_ec = [8, 10, 14, 0]\<rparr>]"

definition MQRspec_getDataLengthBit :: "int \<Rightarrow> QRecLevel \<Rightarrow> int" where
  "MQRspec_getDataLengthBit version level =
     (let w = int (mqr_width (mqrspecCapacity ! nat version)) - 1;
          ecc = mqr_ec (mqrspecCapacity ! nat version) ! level
      in if ecc = 0 then 0 else w * w - 64 - ecc * 8)"

definition MQRspec_getDataLength :: "int \<Rightarrow> QRecLevel \<Rightarrow> int" where
  "MQRspec_getDataLength version level = (MQRspec_getDataLengthBit version level + 4) div 8"

definition MQRspec_getECCLength :: "int \<Rightarrow> QRecLevel \<Rightarrow> int" where
  "MQRspec_getECCLength version level = mqr_ec (mqrspecCapacity ! nat version) ! level"

definition MQRspec_getWidth :: "int \<Rightarrow> nat" where
  "MQRspec_getWidth version = mqr_width (mqrspecCapacity ! nat version)"

subsection \<open>Length indicator\<close>

definition mqr_lengthTableBits :: "int list list" where
  "mqr_lengthTableBits = [[3, 4, 5, 6], [0, 3, 4, 5], [0, 0, 4, 5], [0, 0, 3, 4]]"

definition MQRspec_lengthIndicator :: "QRencodeMode \<Rightarrow> int \<Rightarrow> int" where
  "MQRspec_lengthIndicator mode version =
     mqr_lengthTableBits ! nat (mode_value mode) ! nat (version - 1)"

definition MQRspec_maximumWords :: "QRencodeMode \<Rightarrow> int \<Rightarrow> int" where
  "MQRspec_maximumWords mode version =
     (let bits = mqr_lengthTableBits ! nat (mode_value mode) ! nat (version - 1);
          words = 2 ^ nat bits - 1
      in if mode = QR_MODE_KANJI then words * 2 else words)"

subsection \<open>Format information\<close>

definition mqr_formatInfo :: "u32 list list" where
  "mqr_formatInfo =
    [[0x4445, 0x55ae, 0x6793, 0x7678, 0x06de, 0x1735, 0x2508, 0x34e3],
     [0x4172, 0x5099, 0x62a4, 0x734f, 0x03e9, 0x1202, 0x203f, 0x31d4],
     [0x4e2b, 0x5fc0, 0x6dfd, 0x7c16, 0x0cb0, 0x1d5b, 0x2f66, 0x3e8d],
     [0x4b1c, 0x5af7, 0x68ca, 0x7921, 0x0987, 0x186c, 0x2a51, 0x3bba]]"

definition mqr_typeTable :: "int list list" where
  "mqr_typeTable = [[-1, -1, -1], [0, -1, -1], [1, 2, -1], [3, 4, -1], [5, 6, 7]]"

definition MQRspec_getFormatInfo :: "int \<Rightarrow> int \<Rightarrow> QRecLevel \<Rightarrow> u32" where
  "MQRspec_getFormatInfo msk version level =
     (if msk < 0 \<or> msk > 3 then 0
      else if version \<le> 0 \<or> version > MQRSPEC_VERSION_MAX then 0
      else if level = QR_ECLEVEL_H then 0
      else let type = mqr_typeTable ! nat version ! level
           in if type < 0 then 0 else mqr_formatInfo ! nat msk ! nat type)"

subsection \<open>Frame\<close>

definition mqr_putFinderPattern :: "frame \<Rightarrow> nat \<Rightarrow> nat \<Rightarrow> nat \<Rightarrow> frame" where
  "mqr_putFinderPattern frame width ox oy =
     writes frame
       [(oy * width + ox + y * width + x, finder_pattern ! (7 * y + x)).
          y \<leftarrow> [0..<7], x \<leftarrow> [0..<7]]"

definition mqr_frame_template :: "int \<Rightarrow> frame" where
  "mqr_frame_template version =
     (let width = mqr_width (mqrspecCapacity ! nat version);
          f = replicate (width * width) 0;
          f = mqr_putFinderPattern f width 0 0;
          f = writes f [(y * width + 7, 0xc0). y \<leftarrow> [0..<7]];
          f = fill f (width * 7) 0xc0 8;
          f = fill f (width * 8 + 1) 0x84 8;
          f = writes f [(width + 8 + y * width, 0x84). y \<leftarrow> [0..<7]]
      in foldl (\<lambda>f x. writes f [(8 + (x - 1), 0x90 OR (of_nat x AND 1)),
                                (width * 8 + (x - 1) * width, 0x90 OR (of_nat x AND 1))])
           f [1..<width - 7])"

definition MQRspec_createFrame :: "int \<Rightarrow> ('z heap_scheme, frame) M" where
  "MQRspec_createFrame version = bindM malloc (\<lambda>_. retM (mqr_frame_template version))"

definition MQRspec_newFrame :: "int \<Rightarrow> ('z qr_heap_scheme, frame) M" where
  "MQRspec_newFrame version =
     (if version < 1 \<or> version > MQRSPEC_VERSION_MAX then failM NOERRNO
      else
        bindM (\<lambda>s. case mqr_frames s (nat version) of
                Some f \<Rightarrow> (Inr f, s)
              | None \<Rightarrow> bindM (MQRspec_createFrame version)
                  (\<lambda>f s. (Inr f, s\<lparr>mqr_frames := (mqr_frames s)(nat version := Some f)\<rparr>)) s)
          (\<lambda>f. bindM malloc (\<lambda>_.
             let width = mqr_width (mqrspecCapacity ! nat version)
             in retM (take (width * width) f))))"

definition MQRspec_clearCache :: "('z qr_heap_scheme, unit) M" where
  "MQRspec_clearCache =
     (\<lambda>s. (Inr (), s\<lparr>mqr_frames := (\<lambda>v. if 1 \<le> v \<and> v \<le> 4 then None else mqr_frames s v)\<rparr>))"

end
