(* ===== verification/QRinput.thy ===== *)
theory QRinput
  imports MQRspec "HOL-Library.Signed_Division"
begin

text \<open>
  The input object of \<^verbatim>\<open>qrencode/qrinput.c\<close>: entries of typed data, their validation, the
  estimate of their encoded size, their conversion to bit streams, padding, and the packing
  into the data bytes of a symbol.

  A linked list of entries is a list. \<open>in_tail\<close> says that the pointer \<^verbatim>\<open>tail\<close> is not null; it
  then points to the last entry. A function that changes an entry or an input through its
  pointer is a computation over that object and the heap (\<open>OM\<close>), so that the changes made
  before a failure are visible. The arguments \<open>sz\<close> (\<^verbatim>\<open>size\<close>) and \<open>data\<close> are kept apart as in C; a
  caller passes at least \<open>sz\<close> bytes.
\<close>

subsection \<open>Entries and inputs\<close>

record QRinput_List =
  en_mode :: QRencodeMode
  en_size :: int
  en_data :: "u8 list"
  en_bstream :: "BitStream option"

record QRinput =
  in_version :: int
  in_level :: QRecLevel
  in_head :: "QRinput_List list"
  in_tail :: bool
  in_mqr :: bool
  in_fnc1 :: int
  in_appid :: u8

abbreviation (input) MODE_INDICATOR_SIZE :: int where "MODE_INDICATOR_SIZE \<equiv> 4"
abbreviation (input) STRUCTURE_HEADER_SIZE :: int where "STRUCTURE_HEADER_SIZE \<equiv> 20"
abbreviation (input) MAX_STRUCTURED_SYMBOLS :: int where "MAX_STRUCTURED_SYMBOLS \<equiv> 16"

abbreviation (input) QRSPEC_MODEID_ECI :: u32 where "QRSPEC_MODEID_ECI \<equiv> 7"
abbreviation (input) QRSPEC_MODEID_NUM :: u32 where "QRSPEC_MODEID_NUM \<equiv> 1"
abbreviation (input) QRSPEC_MODEID_AN :: u32 where "QRSPEC_MODEID_AN \<equiv> 2"
abbreviation (input) QRSPEC_MODEID_8 :: u32 where "QRSPEC_MODEID_8 \<equiv> 4"
abbreviation (input) QRSPEC_MODEID_KANJI :: u32 where "QRSPEC_MODEID_KANJI \<equiv> 8"
abbreviation (input) QRSPEC_MODEID_FNC1SECOND :: u32 where "QRSPEC_MODEID_FNC1SECOND \<equiv> 9"
abbreviation (input) QRSPEC_MODEID_STRUCTURE :: u32 where "QRSPEC_MODEID_STRUCTURE \<equiv> 3"
abbreviation (input) MQRSPEC_MODEID_NUM :: u32 where "MQRSPEC_MODEID_NUM \<equiv> 0"
abbreviation (input) MQRSPEC_MODEID_AN :: u32 where "MQRSPEC_MODEID_AN \<equiv> 1"
abbreviation (input) MQRSPEC_MODEID_8 :: u32 where "MQRSPEC_MODEID_8 \<equiv> 2"
abbreviation (input) MQRSPEC_MODEID_KANJI :: u32 where "MQRSPEC_MODEID_KANJI \<equiv> 3"

subsection \<open>Validation\<close>

text \<open>
  The checks: \<open>True\<close> is the C result 0. The bytes are compared as unsigned values; a byte
  above 127, negative as a signed \<^verbatim>\<open>char\<close>, is rejected either way.
\<close>

definition QRinput_checkModeNum :: "int \<Rightarrow> u8 list \<Rightarrow> bool" where
  "QRinput_checkModeNum sz data \<longleftrightarrow>
     list_all (\<lambda>i. \<not> (data ! i < 48 \<or> data ! i > 57)) [0..<nat sz]"

definition QRinput_anTable :: "int list" where
  "QRinput_anTable =
    [-1, -1, -1, -1, -1, -1, -1, -1, -1, -1, -1, -1, -1, -1, -1, -1,
     -1, -1, -1, -1, -1, -1, -1, -1, -1, -1, -1, -1, -1, -1, -1, -1,
     36, -1, -1, -1, 37, 38, -1, -1, -1, -1, 39, 40, -1, 41, 42, 43,
      0,  1,  2,  3,  4,  5,  6,  7,  8,  9, 44, -1, -1, -1, -1, -1,
     -1, 10, 11, 12, 13, 14, 15, 16, 17, 18, 19, 20, 21, 22, 23, 24,
     25, 26, 27, 28, 29, 30, 31, 32, 33, 34, 35, -1, -1, -1, -1, -1,
     -1, -1, -1, -1, -1, -1, -1, -1, -1, -1, -1, -1, -1, -1, -1, -1,
     -1, -1, -1, -1, -1, -1, -1, -1, -1, -1, -1, -1, -1, -1, -1, -1]"

definition QRinput_lookAnTable :: "u8 \<Rightarrow> int" where
  "QRinput_lookAnTable c = (if c AND 0x80 \<noteq> 0 then -1 else QRinput_anTable ! unat c)"

definition QRinput_checkModeAn :: "int \<Rightarrow> u8 list \<Rightarrow> bool" where
  "QRinput_checkModeAn sz data \<longleftrightarrow>
     list_all (\<lambda>i. \<not> QRinput_lookAnTable (data ! i) < 0) [0..<nat sz]"

definition kanji_val :: "u8 \<Rightarrow> u8 \<Rightarrow> u32" where
  "kanji_val h l = push_bit 8 (ucast h) OR ucast l"

definition QRinput_checkModeKanji :: "int \<Rightarrow> u8 list \<Rightarrow> bool" where
  "QRinput_checkModeKanji sz data \<longleftrightarrow>
     \<not> odd sz \<and>
     list_all (\<lambda>k. let val = kanji_val (data ! (2 * k)) (data ! (2 * k + 1))
                   in \<not> (val < 0x8140 \<or> (val > 0x9ffc \<and> val < 0xe040) \<or> val > 0xebbf))
       [0..<nat sz div 2]"

definition QRinput_checkModeFNC1Second :: "int \<Rightarrow> u8 list \<Rightarrow> bool" where
  "QRinput_checkModeFNC1Second sz data \<longleftrightarrow> sz = 1"

definition QRinput_check :: "QRencodeMode \<Rightarrow> int \<Rightarrow> u8 list \<Rightarrow> bool" where
  "QRinput_check mode sz data \<longleftrightarrow>
     (if (mode = QR_MODE_FNC1FIRST \<and> sz < 0) \<or> sz \<le> 0 then False
      else case mode of
          QR_MODE_NUM \<Rightarrow> QRinput_checkModeNum sz data
        | QR_MODE_AN \<Rightarrow> QRinput_checkModeAn sz data
        | QR_MODE_KANJI \<Rightarrow> QRinput_checkModeKanji sz data
        | QR_MODE_8 \<Rightarrow> True
        | QR_MODE_STRUCTURE \<Rightarrow> True
        | QR_MODE_ECI \<Rightarrow> True
        | QR_MODE_FNC1FIRST \<Rightarrow> True
        | QR_MODE_FNC1SECOND \<Rightarrow> QRinput_checkModeFNC1Second sz data
        | QR_MODE_NUL \<Rightarrow> False)"

subsection \<open>Creation and setters\<close>

definition new_entry :: "QRencodeMode \<Rightarrow> int \<Rightarrow> u8 list \<Rightarrow> QRinput_List" where
  "new_entry mode sz data =
     \<lparr>en_mode = mode, en_size = sz, en_data = take (nat sz) data, en_bstream = None\<rparr>"

text \<open>
  Both functions below copy \<^verbatim>\<open>size\<close> bytes with \<^verbatim>\<open>memcpy\<close>; a size beyond the block that holds the data
  reads outside of it.
\<close>

definition QRinput_List_newEntry ::
    "QRencodeMode \<Rightarrow> int \<Rightarrow> u8 list \<Rightarrow> ('z heap_scheme, QRinput_List) M" where
  "QRinput_List_newEntry mode sz data =
     (if \<not> QRinput_check mode sz data then failM EINVAL
      else bindM malloc (\<lambda>_.
           if sz > 0 then bindM malloc (\<lambda>_.
             if nat sz \<le> length data then retM (new_entry mode sz data) else failM CRASH)
           else retM (new_entry mode sz [])))"

definition QRinput_List_dup :: "QRinput_List \<Rightarrow> ('z heap_scheme, QRinput_List) M" where
  "QRinput_List_dup entry =
     bindM malloc (\<lambda>_. bindM malloc (\<lambda>_.
     if nat (en_size entry) \<le> length (en_data entry)
     then retM (new_entry (en_mode entry) (en_size entry) (en_data entry)) else failM CRASH))"

text \<open>\<^verbatim>\<open>malloc\<close> leaves \<^verbatim>\<open>appid\<close> uninitialised; it is only read after \<^verbatim>\<open>QRinput_setFNC1Second\<close>.\<close>

definition QRinput_new2 :: "int \<Rightarrow> QRecLevel \<Rightarrow> ('z heap_scheme, QRinput) M" where
  "QRinput_new2 version level =
     (if version < 0 \<or> version > QRSPEC_VERSION_MAX \<or> level > QR_ECLEVEL_H then failM EINVAL
      else bindM malloc (\<lambda>_.
        retM \<lparr>in_version = version, in_level = level, in_head = [], in_tail = False,
              in_mqr = False, in_fnc1 = 0, in_appid = 0\<rparr>))"

definition QRinput_new :: "('z heap_scheme, QRinput) M" where
  "QRinput_new = QRinput_new2 0 QR_ECLEVEL_L"

definition QRinput_newMQR :: "int \<Rightarrow> QRecLevel \<Rightarrow> ('z heap_scheme, QRinput) M" where
  "QRinput_newMQR version level =
     (if version \<le> 0 \<or> version > MQRSPEC_VERSION_MAX then failM EINVAL
      else if MQRspec_getECCLength version level = 0 then failM EINVAL
      else bindM (QRinput_new2 version level) (\<lambda>input. retM (input\<lparr>in_mqr := True\<rparr>)))"

definition QRinput_getVersion :: "QRinput \<Rightarrow> int" where
  "QRinput_getVersion input = in_version input"

definition QRinput_getErrorCorrectionLevel :: "QRinput \<Rightarrow> QRecLevel" where
  "QRinput_getErrorCorrectionLevel input = in_level input"

text \<open>The setters change nothing when they fail.\<close>

definition QRinput_setVersion :: "QRinput \<Rightarrow> int \<Rightarrow> failure + QRinput" where
  "QRinput_setVersion input version =
     (if in_mqr input \<or> version < 0 \<or> version > QRSPEC_VERSION_MAX then Inl EINVAL
      else Inr (input\<lparr>in_version := version\<rparr>))"

definition QRinput_setErrorCorrectionLevel :: "QRinput \<Rightarrow> QRecLevel \<Rightarrow> failure + QRinput" where
  "QRinput_setErrorCorrectionLevel input level =
     (if in_mqr input \<or> level > QR_ECLEVEL_H then Inl EINVAL
      else Inr (input\<lparr>in_level := level\<rparr>))"

definition QRinput_setVersionAndErrorCorrectionLevel ::
    "QRinput \<Rightarrow> int \<Rightarrow> QRecLevel \<Rightarrow> failure + QRinput" where
  "QRinput_setVersionAndErrorCorrectionLevel input version level =
     (let ok = Inr (input\<lparr>in_version := version, in_level := level\<rparr>) in
      if in_mqr input then
        if version \<le> 0 \<or> version > MQRSPEC_VERSION_MAX then Inl EINVAL
        else if MQRspec_getECCLength version level = 0 then Inl EINVAL
        else ok
      else
        if version < 0 \<or> version > QRSPEC_VERSION_MAX then Inl EINVAL
        else if level > QR_ECLEVEL_H then Inl EINVAL
        else ok)"

definition QRinput_setFNC1First :: "QRinput \<Rightarrow> failure + QRinput" where
  "QRinput_setFNC1First input =
     (if in_mqr input then Inl EINVAL else Inr (input\<lparr>in_fnc1 := 1\<rparr>))"

definition QRinput_setFNC1Second :: "QRinput \<Rightarrow> u8 \<Rightarrow> failure + QRinput" where
  "QRinput_setFNC1Second input appid =
     (if in_mqr input then Inl EINVAL else Inr (input\<lparr>in_fnc1 := 2, in_appid := appid\<rparr>))"

subsection \<open>Appending entries\<close>

definition QRinput_appendEntry :: "QRinput \<Rightarrow> QRinput_List \<Rightarrow> QRinput" where
  "QRinput_appendEntry input entry =
     (if \<not> in_tail input then input\<lparr>in_head := [entry], in_tail := True\<rparr>
      else input\<lparr>in_head := in_head input @ [entry]\<rparr>)"

definition QRinput_append ::
    "QRinput \<Rightarrow> QRencodeMode \<Rightarrow> int \<Rightarrow> u8 list \<Rightarrow> ('z heap_scheme, QRinput) M" where
  "QRinput_append input mode sz data =
     bindM (QRinput_List_newEntry mode sz data) (\<lambda>entry. retM (QRinput_appendEntry input entry))"

text \<open>The header goes to the front of the list; \<^verbatim>\<open>tail\<close> is left as it is.\<close>

definition QRinput_insertStructuredAppendHeader ::
    "QRinput \<Rightarrow> int \<Rightarrow> int \<Rightarrow> u8 \<Rightarrow> ('z heap_scheme, QRinput) M" where
  "QRinput_insertStructuredAppendHeader input sz number parity =
     (if sz > MAX_STRUCTURED_SYMBOLS then failM EINVAL
      else if number \<le> 0 \<or> number > sz then failM EINVAL
      else
        bindM (QRinput_List_newEntry QR_MODE_STRUCTURE 3 [of_int sz, of_int number, parity])
          (\<lambda>entry. retM (input\<lparr>in_head := entry # in_head input\<rparr>)))"

definition QRinput_appendECIheader :: "QRinput \<Rightarrow> u32 \<Rightarrow> ('z heap_scheme, QRinput) M" where
  "QRinput_appendECIheader input ecinum =
     (if ecinum > 999999 then failM EINVAL
      else QRinput_append input QR_MODE_ECI 4
        [ucast (ecinum AND 0xff), ucast (drop_bit 8 ecinum AND 0xff),
         ucast (drop_bit 16 ecinum AND 0xff), ucast (drop_bit 24 ecinum AND 0xff)])"

text \<open>The loop of \<^verbatim>\<open>QRinput_calcParity\<close> runs from the last byte of an entry to the first.\<close>

definition QRinput_calcParity :: "QRinput \<Rightarrow> u8" where
  "QRinput_calcParity input =
     foldl (\<lambda>parity entry.
         if en_mode entry \<noteq> QR_MODE_STRUCTURE
         then foldl (\<lambda>parity i. parity XOR en_data entry ! i) parity (rev [0..<nat (en_size entry)])
         else parity) 0 (in_head input)"

definition QRinput_dup :: "QRinput \<Rightarrow> ('z heap_scheme, QRinput) M" where
  "QRinput_dup input =
     bindM (if in_mqr input then QRinput_newMQR (in_version input) (in_level input)
            else QRinput_new2 (in_version input) (in_level input)) (\<lambda>n.
     foldM (\<lambda>n entry. bindM (QRinput_List_dup entry) (\<lambda>e. retM (QRinput_appendEntry n e)))
       n (in_head input))"

subsection \<open>Estimation of the bit length\<close>

definition QRinput_estimateBitsModeNum :: "int \<Rightarrow> int" where
  "QRinput_estimateBitsModeNum sz =
     (let w = sz sdiv 3; bits = w * 10 in
      if sz - w * 3 = 1 then bits + 4 else if sz - w * 3 = 2 then bits + 7 else bits)"

definition QRinput_estimateBitsModeAn :: "int \<Rightarrow> int" where
  "QRinput_estimateBitsModeAn sz =
     (let w = sz sdiv 2; bits = w * 11 in if odd sz then bits + 6 else bits)"

definition QRinput_estimateBitsMode8 :: "int \<Rightarrow> int" where
  "QRinput_estimateBitsMode8 sz = sz * 8"

definition QRinput_estimateBitsModeKanji :: "int \<Rightarrow> int" where
  "QRinput_estimateBitsModeKanji sz = (sz sdiv 2) * 13"

definition QRinput_decodeECIfromByteArray :: "u8 list \<Rightarrow> u32" where
  "QRinput_decodeECIfromByteArray data =
     foldl (\<lambda>ecinum i. push_bit 8 ecinum OR ucast (data ! (3 - i))) 0 [0..<4]"

definition QRinput_estimateBitsModeECI :: "u8 list \<Rightarrow> int" where
  "QRinput_estimateBitsModeECI data =
     (let ecinum = QRinput_decodeECIfromByteArray data in
      if ecinum < 128 then MODE_INDICATOR_SIZE + 8
      else if ecinum < 16384 then MODE_INDICATOR_SIZE + 16
      else MODE_INDICATOR_SIZE + 24)"

text \<open>What the switch leaves in \<^verbatim>\<open>bits\<close>, and the modes that return at once.\<close>

definition QRinput_estimateBitStreamSizeOfEntry :: "QRinput_List \<Rightarrow> int \<Rightarrow> bool \<Rightarrow> int" where
  "QRinput_estimateBitStreamSizeOfEntry entry version mqr =
     (let version = (if version = 0 then 1 else version);
          rest = (\<lambda>bits.
            let l = QRspec_lengthIndicator (en_mode entry) version in
            if mqr then let m = version - 1 in bits + (l + m)
            else
              let m = 2 ^ nat l; num = (en_size entry + m - 1) sdiv m
              in bits + num * (MODE_INDICATOR_SIZE + l))
      in case en_mode entry of
          QR_MODE_NUM \<Rightarrow> rest (QRinput_estimateBitsModeNum (en_size entry))
        | QR_MODE_AN \<Rightarrow> rest (QRinput_estimateBitsModeAn (en_size entry))
        | QR_MODE_8 \<Rightarrow> rest (QRinput_estimateBitsMode8 (en_size entry))
        | QR_MODE_KANJI \<Rightarrow> rest (QRinput_estimateBitsModeKanji (en_size entry))
        | QR_MODE_STRUCTURE \<Rightarrow> STRUCTURE_HEADER_SIZE
        | QR_MODE_ECI \<Rightarrow> rest (QRinput_estimateBitsModeECI (en_data entry))
        | QR_MODE_FNC1FIRST \<Rightarrow> MODE_INDICATOR_SIZE
        | QR_MODE_FNC1SECOND \<Rightarrow> MODE_INDICATOR_SIZE + 8
        | QR_MODE_NUL \<Rightarrow> 0)"

definition QRinput_estimateBitStreamSize :: "QRinput \<Rightarrow> int \<Rightarrow> int" where
  "QRinput_estimateBitStreamSize input version =
     foldl (\<lambda>bits entry. bits + QRinput_estimateBitStreamSizeOfEntry entry version (in_mqr input))
       0 (in_head input)"

text \<open>The \<^verbatim>\<open>do\<close>-\<^verbatim>\<open>while\<close> loop ends because the version only grows, up to the largest one.\<close>

lemma QRspec_getMinimumVersion_le: "QRspec_getMinimumVersion sz level \<le> 40"
  by (auto simp: QRspec_getMinimumVersion_def find_Some_iff split: option.splits)

function estimateVersion_loop :: "QRinput \<Rightarrow> int \<Rightarrow> int" where
  "estimateVersion_loop input prev =
     (let bits = QRinput_estimateBitStreamSize input prev;
          version = QRspec_getMinimumVersion ((bits + 7) sdiv 8) (in_level input)
      in if version < 0 then -1
         else if version > prev then estimateVersion_loop input version
         else version)"
  by pat_completeness auto
termination
  by (relation "measure (\<lambda>(input, prev). nat (41 - prev))")
    (auto dest: less_le_trans [OF _ QRspec_getMinimumVersion_le])

declare estimateVersion_loop.simps [simp del]

definition QRinput_estimateVersion :: "QRinput \<Rightarrow> int" where
  "QRinput_estimateVersion input = estimateVersion_loop input 0"

definition QRinput_lengthOfCode :: "QRencodeMode \<Rightarrow> int \<Rightarrow> int \<Rightarrow> int" where
  "QRinput_lengthOfCode mode version bits =
     (let payload = bits - 4 - QRspec_lengthIndicator mode version;
          sz = (case mode of
              QR_MODE_NUM \<Rightarrow>
                let chunks = payload sdiv 10; remain = payload - chunks * 10; sz = chunks * 3
                in if remain \<ge> 7 then sz + 2 else if remain \<ge> 4 then sz + 1 else sz
            | QR_MODE_AN \<Rightarrow>
                let chunks = payload sdiv 11; remain = payload - chunks * 11; sz = chunks * 2
                in if remain \<ge> 6 then sz + 1 else sz
            | QR_MODE_8 \<Rightarrow> payload sdiv 8
            | QR_MODE_KANJI \<Rightarrow> (payload sdiv 13) * 2
            | QR_MODE_STRUCTURE \<Rightarrow> payload sdiv 8
            | _ \<Rightarrow> 0);
          maxsize = QRspec_maximumWords mode version;
          sz = (if sz < 0 then 0 else sz)
      in if maxsize > 0 \<and> sz > maxsize then maxsize else sz)"

end
