(* ===== verification/QRinput_Stream.thy ===== *)
theory QRinput_Stream
  imports QRinput
begin

text \<open>
  The conversion of entries to bit streams and of an input to the data bytes of a symbol,
  \<^verbatim>\<open>qrencode/qrinput.c\<close> from the \<^verbatim>\<open>encodeMode\<close> functions to \<^verbatim>\<open>QRinput_getByteStream\<close>.
\<close>

subsection \<open>Encoding an entry\<close>

text \<open>
  The frame of the \<^verbatim>\<open>encodeMode\<close> functions: a new stream is stored in the entry, the appends
  follow, and a failure (label \<^verbatim>\<open>ABORT\<close>) leaves a null pointer in the entry.
\<close>

definition with_bstream ::
    "(BitStream \<Rightarrow> ('z heap_scheme, BitStream) M) \<Rightarrow> (QRinput_List, 'z heap_scheme, unit) OM" where
  "with_bstream body = (\<lambda>(entry, s). case bindM BitStream_new body s of
       (Inl e, s') \<Rightarrow> (Inl e, (entry\<lparr>en_bstream := None\<rparr>, s'))
     | (Inr b, s') \<Rightarrow> (Inr (), (entry\<lparr>en_bstream := Some b\<rparr>, s')))"

definition num_val3 :: "u8 \<Rightarrow> u8 \<Rightarrow> u8 \<Rightarrow> u32" where
  "num_val3 a b c = (ucast a - 48) * 100 + (ucast b - 48) * 10 + (ucast c - 48)"

definition num_val2 :: "u8 \<Rightarrow> u8 \<Rightarrow> u32" where
  "num_val2 a b = (ucast a - 48) * 10 + (ucast b - 48)"

text \<open>The outcome of the append of seven bits is not looked at: \<^verbatim>\<open>ret\<close> holds an older value.\<close>

definition QRinput_encodeModeNum ::
    "int \<Rightarrow> bool \<Rightarrow> (QRinput_List, 'z heap_scheme, unit) OM" where
  "QRinput_encodeModeNum version mqr = bindM getO (\<lambda>entry. with_bstream (\<lambda>bs.
     bindM (if mqr then
              bindM (if version > 1 then BitStream_appendNum bs (version - 1) MQRSPEC_MODEID_NUM
                     else retM bs) (\<lambda>bs.
              BitStream_appendNum bs (MQRspec_lengthIndicator QR_MODE_NUM version) (of_int (en_size entry)))
            else
              bindM (BitStream_appendNum bs 4 QRSPEC_MODEID_NUM) (\<lambda>bs.
              BitStream_appendNum bs (QRspec_lengthIndicator QR_MODE_NUM version) (of_int (en_size entry))))
       (\<lambda>bs.
     let words = nat (en_size entry) div 3; d = (\<lambda>i. en_data entry ! i) in
     bindM (foldM (\<lambda>bs i. BitStream_appendNum bs 10 (num_val3 (d (i * 3)) (d (i * 3 + 1)) (d (i * 3 + 2))))
              bs [0..<words]) (\<lambda>bs.
     if en_size entry - int words * 3 = 1 then
       BitStream_appendNum bs 4 (ucast (d (words * 3)) - 48)
     else if en_size entry - int words * 3 = 2 then
       bindM (tryM (BitStream_appendNum bs 7 (num_val2 (d (words * 3)) (d (words * 3 + 1))))) (\<lambda>r.
       retM (case r of Inl _ \<Rightarrow> bs | Inr bs' \<Rightarrow> bs'))
     else retM bs))))"

definition QRinput_encodeModeAn ::
    "int \<Rightarrow> bool \<Rightarrow> (QRinput_List, 'z heap_scheme, unit) OM" where
  "QRinput_encodeModeAn version mqr = bindM getO (\<lambda>entry. with_bstream (\<lambda>bs.
     bindM (if mqr then
              if version < 2 then failM EINVAL
              else
                bindM (BitStream_appendNum bs (version - 1) MQRSPEC_MODEID_AN) (\<lambda>bs.
                BitStream_appendNum bs (MQRspec_lengthIndicator QR_MODE_AN version) (of_int (en_size entry)))
            else
              bindM (BitStream_appendNum bs 4 QRSPEC_MODEID_AN) (\<lambda>bs.
              BitStream_appendNum bs (QRspec_lengthIndicator QR_MODE_AN version) (of_int (en_size entry))))
       (\<lambda>bs.
     let words = nat (en_size entry) div 2;
         look = (\<lambda>i. of_int (QRinput_lookAnTable (en_data entry ! i)) :: u32) in
     bindM (foldM (\<lambda>bs i. BitStream_appendNum bs 11 (look (i * 2) * 45 + look (i * 2 + 1)))
              bs [0..<words]) (\<lambda>bs.
     if odd (en_size entry) then BitStream_appendNum bs 6 (look (words * 2)) else retM bs))))"

definition QRinput_encodeMode8 ::
    "int \<Rightarrow> bool \<Rightarrow> (QRinput_List, 'z heap_scheme, unit) OM" where
  "QRinput_encodeMode8 version mqr = bindM getO (\<lambda>entry. with_bstream (\<lambda>bs.
     bindM (if mqr then
              if version < 3 then failM EINVAL
              else
                bindM (BitStream_appendNum bs (version - 1) MQRSPEC_MODEID_8) (\<lambda>bs.
                BitStream_appendNum bs (MQRspec_lengthIndicator QR_MODE_8 version) (of_int (en_size entry)))
            else
              bindM (BitStream_appendNum bs 4 QRSPEC_MODEID_8) (\<lambda>bs.
              BitStream_appendNum bs (QRspec_lengthIndicator QR_MODE_8 version) (of_int (en_size entry))))
       (\<lambda>bs. BitStream_appendBytes bs (en_size entry) (en_data entry))))"

definition kanji_code :: "u8 \<Rightarrow> u8 \<Rightarrow> u32" where
  "kanji_code c d =
     (let val = kanji_val c d;
          val = (if val \<le> 0x9ffc then val - 0x8140 else val - 0xc140);
          h = drop_bit 8 val * 0xc0
      in (val AND 0xff) + h)"

text \<open>The loop \<^verbatim>\<open>for(i=0; i<entry->size; i+=2)\<close> has one turn for every two bytes begun.\<close>

definition QRinput_encodeModeKanji ::
    "int \<Rightarrow> bool \<Rightarrow> (QRinput_List, 'z heap_scheme, unit) OM" where
  "QRinput_encodeModeKanji version mqr = bindM getO (\<lambda>entry. with_bstream (\<lambda>bs.
     bindM (if mqr then
              if version < 2 then failM EINVAL
              else
                bindM (BitStream_appendNum bs (version - 1) MQRSPEC_MODEID_KANJI) (\<lambda>bs.
                BitStream_appendNum bs (MQRspec_lengthIndicator QR_MODE_KANJI version)
                  (of_int (en_size entry sdiv 2)))
            else
              bindM (BitStream_appendNum bs 4 QRSPEC_MODEID_KANJI) (\<lambda>bs.
              BitStream_appendNum bs (QRspec_lengthIndicator QR_MODE_KANJI version)
                (of_int (en_size entry sdiv 2))))
       (\<lambda>bs.
     foldM (\<lambda>bs k. BitStream_appendNum bs 13
               (kanji_code (en_data entry ! (2 * k)) (en_data entry ! (2 * k + 1))))
       bs [0..<(nat (en_size entry) + 1) div 2])))"

text \<open>\<^verbatim>\<open>entry->data[1] - 1\<close> is an \<^verbatim>\<open>int\<close> that becomes an \<^verbatim>\<open>unsigned int\<close>.\<close>

definition QRinput_encodeModeStructure :: "bool \<Rightarrow> (QRinput_List, 'z heap_scheme, unit) OM" where
  "QRinput_encodeModeStructure mqr =
     (if mqr then failM EINVAL
      else bindM getO (\<lambda>entry. with_bstream (\<lambda>bs.
        bindM (BitStream_appendNum bs 4 QRSPEC_MODEID_STRUCTURE) (\<lambda>bs.
        bindM (BitStream_appendNum bs 4 (ucast (en_data entry ! 1) - 1)) (\<lambda>bs.
        bindM (BitStream_appendNum bs 4 (ucast (en_data entry ! 0) - 1)) (\<lambda>bs.
        BitStream_appendNum bs 8 (ucast (en_data entry ! 2))))))))"

definition QRinput_encodeModeFNC1Second :: "(QRinput_List, 'z heap_scheme, unit) OM" where
  "QRinput_encodeModeFNC1Second = bindM getO (\<lambda>entry. with_bstream (\<lambda>bs.
     bindM (BitStream_appendNum bs 4 QRSPEC_MODEID_FNC1SECOND) (\<lambda>bs.
     BitStream_appendBytes bs 1 (en_data entry))))"

definition eci_words :: "u32 \<Rightarrow> int \<times> u32" where
  "eci_words ecinum =
     (if ecinum < 128 then (1, ecinum)
      else if ecinum < 16384 then (2, 0x8000 + ecinum)
      else (3, 0xc0000 + ecinum))"

definition QRinput_encodeModeECI :: "(QRinput_List, 'z heap_scheme, unit) OM" where
  "QRinput_encodeModeECI = bindM getO (\<lambda>entry. with_bstream (\<lambda>bs.
     let (words, code) = eci_words (QRinput_decodeECIfromByteArray (en_data entry)) in
     bindM (BitStream_appendNum bs 4 QRSPEC_MODEID_ECI) (\<lambda>bs.
     BitStream_appendNum bs (words * 8) code)))"

subsection \<open>Data conversion\<close>

text \<open>\<^verbatim>\<open>BitStream_size\<close> reads through the pointer.\<close>

definition bstream_size :: "(QRinput_List, 's, int) OM" where
  "bstream_size = bindM getO (\<lambda>entry.
     case en_bstream entry of None \<Rightarrow> failM CRASH | Some b \<Rightarrow> retM (bs_length b))"

definition append_bstream :: "BitStream option \<Rightarrow> (QRinput_List, 'z heap_scheme, unit) OM" where
  "append_bstream arg = bindM getO (\<lambda>entry.
     case en_bstream entry of
       None \<Rightarrow> failM CRASH
     | Some b \<Rightarrow> bindM (lift (BitStream_append b arg)) (\<lambda>b. putO (entry\<lparr>en_bstream := Some b\<rparr>)))"

definition encode_mode :: "QRencodeMode \<Rightarrow> int \<Rightarrow> bool \<Rightarrow> (QRinput_List, 'z heap_scheme, unit) OM" where
  "encode_mode mode version mqr =
     (case mode of
        QR_MODE_NUM \<Rightarrow> QRinput_encodeModeNum version mqr
      | QR_MODE_AN \<Rightarrow> QRinput_encodeModeAn version mqr
      | QR_MODE_8 \<Rightarrow> QRinput_encodeMode8 version mqr
      | QR_MODE_KANJI \<Rightarrow> QRinput_encodeModeKanji version mqr
      | QR_MODE_STRUCTURE \<Rightarrow> QRinput_encodeModeStructure mqr
      | QR_MODE_ECI \<Rightarrow> QRinput_encodeModeECI
      | QR_MODE_FNC1SECOND \<Rightarrow> QRinput_encodeModeFNC1Second
      | _ \<Rightarrow> retM ())"

text \<open>
  \<^verbatim>\<open>QRinput_encodeBitStream\<close>, over the entry it is called on. The two parts \<open>st1\<close> and \<open>st2\<close>
  are the entries that the two calls of \<^verbatim>\<open>QRinput_List_newEntry\<close> return when they succeed.
\<close>

lemma QRspec_maximumWords_pos: "QRspec_maximumWords mode version \<ge> 0"
  by (simp add: QRspec_maximumWords_def Let_def)

lemma maximumWords_gt_0: "QRspec_maximumWords mode version \<noteq> 0 \<Longrightarrow> 0 < QRspec_maximumWords mode version"
  using QRspec_maximumWords_pos [of mode version] by simp

function encodeBitStream ::
    "QRinput_List \<Rightarrow> int \<Rightarrow> bool \<Rightarrow> 'z heap_scheme \<Rightarrow> (failure + int) \<times> (QRinput_List \<times> 'z heap_scheme)"
  where
  "encodeBitStream entry version mqr =
     (let entry = entry\<lparr>en_bstream := None\<rparr>;
          words = QRspec_maximumWords (en_mode entry) version
      in if words \<noteq> 0 \<and> en_size entry > words then
           let st1 = new_entry (en_mode entry) words (en_data entry);
               st2 = new_entry (en_mode entry) (en_size entry - words) (drop (nat words) (en_data entry));
               enc1 = encodeBitStream st1 version mqr;
               enc2 = encodeBitStream st2 version mqr
           in (\<lambda>s.
                bindM (lift (QRinput_List_newEntry (en_mode entry) words (en_data entry))) (\<lambda>_.
                bindM (lift (QRinput_List_newEntry (en_mode entry) (en_size entry - words)
                         (drop (nat words) (en_data entry)))) (\<lambda>_.
                bindM (call (\<lambda>(_, s). enc1 s) st1) (\<lambda>(_, st1).
                bindM (call (\<lambda>(_, s). enc2 s) st2) (\<lambda>(_, st2).
                bindM (lift BitStream_new) (\<lambda>b.
                bindM (putO (entry\<lparr>en_bstream := Some b\<rparr>)) (\<lambda>_.
                bindM (append_bstream (en_bstream st1)) (\<lambda>_.
                bindM (append_bstream (en_bstream st2)) (\<lambda>_.
                bstream_size)))))))) (entry, s))
         else (\<lambda>s. bindM (encode_mode (en_mode entry) version mqr) (\<lambda>_. bstream_size) (entry, s)))"
  by pat_completeness auto
termination
  by (relation "measure (\<lambda>(entry, _, _). nat (en_size entry))")
    (auto simp: new_entry_def dest: maximumWords_gt_0)

declare encodeBitStream.simps [simp del]

definition QRinput_encodeBitStream ::
    "int \<Rightarrow> bool \<Rightarrow> (QRinput_List, 'z heap_scheme, int) OM" where
  "QRinput_encodeBitStream version mqr = (\<lambda>(entry, s). encodeBitStream entry version mqr s)"

text \<open>The loop over the entries of an input, which stops at the first failure.\<close>

fun createBitStream_loop ::
    "int \<Rightarrow> bool \<Rightarrow> int \<Rightarrow> QRinput_List list \<Rightarrow> 'z heap_scheme \<Rightarrow>
       (failure + int) \<times> (QRinput_List list \<times> 'z heap_scheme)" where
  "createBitStream_loop version mqr tot [] s = (Inr tot, ([], s))"
| "createBitStream_loop version mqr tot (e # es) s =
     (case QRinput_encodeBitStream version mqr (e, s) of
        (Inl f, (e', s')) \<Rightarrow> (Inl f, (e' # es, s'))
      | (Inr bits, (e', s')) \<Rightarrow>
          (case createBitStream_loop version mqr (tot + bits) es s' of
             (r, (es', s'')) \<Rightarrow> (r, (e' # es', s''))))"

definition QRinput_createBitStream :: "(QRinput, 'z heap_scheme, int) OM" where
  "QRinput_createBitStream = (\<lambda>(input, s).
     case createBitStream_loop (in_version input) (in_mqr input) 0 (in_head input) s of
       (r, (es, s')) \<Rightarrow> (r, (input\<lparr>in_head := es\<rparr>, s')))"

text \<open>A call of \<^verbatim>\<open>QRinput_setVersion\<close> whose result is not looked at.\<close>

definition try_setVersion :: "QRinput \<Rightarrow> int \<Rightarrow> QRinput" where
  "try_setVersion input ver = (case QRinput_setVersion input ver of Inl _ \<Rightarrow> input | Inr i \<Rightarrow> i)"

text \<open>
  The loop of \<^verbatim>\<open>QRinput_convertData\<close> has no bound in the code; \<open>fuel\<close> counts its turns. Every
  turn but the last one raises the version, so 42 turns are enough for an input that is not
  Micro QR Code.
\<close>

fun convertData_loop :: "nat \<Rightarrow> (QRinput, 'z heap_scheme, unit) OM" where
  "convertData_loop 0 = failM DIVERGES"
| "convertData_loop (Suc fuel) =
     bindM QRinput_createBitStream (\<lambda>bits.
     bindM getO (\<lambda>input.
     let ver = QRspec_getMinimumVersion ((bits + 7) sdiv 8) (in_level input) in
     if ver < 0 then failM ERANGE
     else if ver > QRinput_getVersion input then
       bindM (putO (try_setVersion input ver)) (\<lambda>_. convertData_loop fuel)
     else retM ()))"

definition QRinput_convertData :: "(QRinput, 'z heap_scheme, unit) OM" where
  "QRinput_convertData =
     bindM getO (\<lambda>input.
     let ver = QRinput_estimateVersion input in
     bindM (if ver > QRinput_getVersion input then putO (try_setVersion input ver) else retM ())
       (\<lambda>_. convertData_loop 42))"

subsection \<open>Padding\<close>

definition pad_bytes :: "int \<Rightarrow> u8 list" where
  "pad_bytes padlen = map (\<lambda>i. if odd i then 0x11 else 0xec) [0..<nat padlen]"

definition QRinput_appendPaddingBit ::
    "BitStream \<Rightarrow> QRinput \<Rightarrow> ('z heap_scheme, BitStream) M" where
  "QRinput_appendPaddingBit bstream input =
     (let bits = bs_length bstream;
          maxwords = QRspec_getDataLength (in_version input) (in_level input);
          maxbits = maxwords * 8
      in if maxbits < bits then failM ERANGE
         else if maxbits = bits then retM bstream
         else if maxbits - bits \<le> 4 then BitStream_appendNum bstream (maxbits - bits) 0
         else
           let words = (bits + 4 + 7) sdiv 8 in
           bindM BitStream_new (\<lambda>padding.
           bindM (BitStream_appendNum padding (words * 8 - bits) 0) (\<lambda>padding.
           let padlen = maxwords - words in
           bindM (if padlen > 0 then
                    bindM malloc (\<lambda>_. BitStream_appendBytes padding padlen (pad_bytes padlen))
                  else retM padding) (\<lambda>padding.
           BitStream_append bstream (Some padding)))))"

definition QRinput_appendPaddingBitMQR ::
    "BitStream \<Rightarrow> QRinput \<Rightarrow> ('z heap_scheme, BitStream) M" where
  "QRinput_appendPaddingBitMQR bstream input =
     (let bits = bs_length bstream;
          maxbits = MQRspec_getDataLengthBit (in_version input) (in_level input);
          maxwords = maxbits sdiv 8
      in if maxbits < bits then failM ERANGE
         else if maxbits = bits then retM bstream
         else
           let termbits = in_version input * 2 + 1 in
           if maxbits - bits \<le> termbits then BitStream_appendNum bstream (maxbits - bits) 0
           else
             let bits = bits + termbits;
                 words = (bits + 7) sdiv 8;
                 termbits =
                   (if maxbits - words * 8 > 0 then
                      let termbits = termbits + (words * 8 - bits)
                      in if words = maxwords then termbits + (maxbits - words * 8) else termbits
                    else termbits + (words * 8 - bits))
             in bindM BitStream_new (\<lambda>padding.
                bindM (BitStream_appendNum padding termbits 0) (\<lambda>padding.
                let padlen = maxwords - words in
                bindM (if padlen > 0 then
                         bindM malloc (\<lambda>_.
                         bindM (BitStream_appendBytes padding padlen (pad_bytes padlen)) (\<lambda>padding.
                         let termbits = maxbits - maxwords * 8 in
                         if termbits > 0 then BitStream_appendNum padding termbits 0
                         else retM padding))
                       else retM padding) (\<lambda>padding.
                BitStream_append bstream (Some padding)))))"

subsection \<open>Merging\<close>

text \<open>
  The entry for \<^verbatim>\<open>fnc1\<close> stays null for other values than 1 and 2. The head of the list is read
  through its pointer.
\<close>

definition QRinput_insertFNC1Header :: "(QRinput, 'z heap_scheme, unit) OM" where
  "QRinput_insertFNC1Header = bindM getO (\<lambda>input.
     bindM (if in_fnc1 input = 1 then lift (QRinput_List_newEntry QR_MODE_FNC1FIRST 0 [])
            else if in_fnc1 input = 2 then
              lift (QRinput_List_newEntry QR_MODE_FNC1SECOND 1 [in_appid input])
            else failM NOERRNO) (\<lambda>entry.
     case in_head input of
       [] \<Rightarrow> failM CRASH
     | first # rest \<Rightarrow>
         if en_mode first \<noteq> QR_MODE_STRUCTURE \<or> en_mode first \<noteq> QR_MODE_ECI
         then putO (input\<lparr>in_head := entry # first # rest\<rparr>)
         else putO (input\<lparr>in_head := first # entry # rest\<rparr>)))"

definition QRinput_mergeBitStream :: "(QRinput, 'z heap_scheme, BitStream) OM" where
  "QRinput_mergeBitStream = bindM getO (\<lambda>input.
     bindM (if in_mqr input then bindM QRinput_createBitStream (\<lambda>_. retM ())
            else
              bindM (if in_fnc1 input \<noteq> 0 then QRinput_insertFNC1Header else retM ()) (\<lambda>_.
              QRinput_convertData)) (\<lambda>_.
     bindM (lift BitStream_new) (\<lambda>bstream.
     bindM getO (\<lambda>input.
     lift (foldM (\<lambda>b entry. BitStream_append b (en_bstream entry)) bstream (in_head input))))))"

definition QRinput_getBitStream :: "(QRinput, 'z heap_scheme, BitStream) OM" where
  "QRinput_getBitStream = bindM QRinput_mergeBitStream (\<lambda>bstream.
     bindM getO (\<lambda>input.
     lift (if in_mqr input then QRinput_appendPaddingBitMQR bstream input
           else QRinput_appendPaddingBit bstream input)))"

definition QRinput_getByteStream :: "(QRinput, 'z heap_scheme, u8 list) OM" where
  "QRinput_getByteStream = bindM QRinput_getBitStream (\<lambda>bstream. lift (BitStream_toByte bstream))"

end
