(* ===== verification/GF256.thy ===== *)
theory GF256
  imports Prelude
begin

text \<open>
  The field with 256 elements that the QR code standard uses (the bytes modulo the polynomial
  \<open>0x11d\<close>), as a reference for the codec: multiplication is the schoolbook product of
  polynomials over the two-element field, reduced after every shift; addition is \<open>XOR\<close>.
  The table-driven arithmetic of \<^verbatim>\<open>rscode.c\<close> is proved equal to it.
\<close>

subsection \<open>Multiplication by the generator\<close>

definition xt :: "u8 \<Rightarrow> u8" where
  "xt x = push_bit 1 x XOR (if bit x 7 then 0x1d else 0)"

definition alpha :: "nat \<Rightarrow> u8" where
  "alpha n = (xt ^^ n) 1"

text \<open>Schoolbook multiplication: add up the shifts of \<open>b\<close> that the bits of \<open>a\<close> select.\<close>

definition sel :: "bool \<Rightarrow> u8 \<Rightarrow> u8" where
  "sel p x = (if p then x else 0)"

definition gmul :: "u8 \<Rightarrow> u8 \<Rightarrow> u8" where
  "gmul a b = foldr (\<lambda>i acc. sel (bit a i) ((xt ^^ i) b) XOR acc) [0..<8] 0"

lemma u8_all: "(\<forall>x::u8. P x) \<longleftrightarrow> list_all (\<lambda>n. P (of_nat n)) [0..<256]"
proof
  assume r: "list_all (\<lambda>n. P (of_nat n)) [0..<256]"
  show "\<forall>x. P x"
  proof
    fix x :: u8
    have "unat x < 256" using unsigned_less [of x, where ?'a = nat] by simp
    moreover from r have "\<forall>n\<in>set [0..<256]. P (of_nat n)" by (simp only: list_all_iff)
    ultimately have "P (of_nat (unat x))" by (metis atLeastLessThan_iff le0 set_upt)
    then show "P x" by simp
  qed
qed (auto simp: list_all_iff)

lemma unat_u8_less [simp]: "unat (x :: u8) < 256"
  using unsigned_less [of x, where ?'a = nat] by simp

lemma xor_eq_0: "(x :: u8) XOR y = 0 \<longleftrightarrow> x = y"
  by (metis xor.assoc xor.left_neutral xor_self_eq)

lemma xt_xor: "xt (x XOR y) = xt x XOR xt y"
  by (rule bit_word_eqI) (auto simp: xt_def bit_simps)

lemma less_8_cases: "n < (8 :: nat) \<Longrightarrow> n \<in> {0, 1, 2, 3, 4, 5, 6, 7}"
  by auto

lemma u8_eqI:
  fixes x y :: u8
  assumes "bit x 0 = bit y 0" "bit x 1 = bit y 1" "bit x 2 = bit y 2" "bit x 3 = bit y 3"
    "bit x 4 = bit y 4" "bit x 5 = bit y 5" "bit x 6 = bit y 6" "bit x 7 = bit y 7"
  shows "x = y"
proof (rule bit_word_eqI)
  fix n assume "n < LENGTH(8)"
  then have "n \<in> {0, 1, 2, 3, 4, 5, 6, 7}" by (intro less_8_cases) simp
  with assms show "bit x n = bit y n" by auto
qed

lemma bits_xt: "bit (xt a) 0 = bit a 7" "bit (xt a) 1 = bit a 0"
  "bit (xt a) 2 = (bit a 1 \<noteq> bit a 7)" "bit (xt a) 3 = (bit a 2 \<noteq> bit a 7)"
  "bit (xt a) 4 = (bit a 3 \<noteq> bit a 7)" "bit (xt a) 5 = bit a 4"
  "bit (xt a) 6 = bit a 5" "bit (xt a) 7 = bit a 6"
  by (cases "bit a 7"; simp only: xt_def if_True if_False bit_xor_iff bit_push_bit_iff; simp)+

lemma xt_0 [simp]: "xt 0 = 0"
  by (simp add: xt_def)

lemma xt_eq_0: "xt x = 0 \<longleftrightarrow> x = 0"
proof
  assume "xt x = 0"
  then have "\<not> bit (xt x) n" for n by simp
  from this [of 0] this [of 1] this [of 2] this [of 3] this [of 4] this [of 5] this [of 6]
    this [of 7] show "x = 0"
    by (intro u8_eqI) (simp_all only: bits_xt bit_0_eq bot_fun_def bot_bool_def, simp_all)
qed simp

lemma xt_inj: "xt x = xt y \<Longrightarrow> x = y"
  using xt_eq_0 [of "x XOR y"] by (simp add: xt_xor xor_eq_0)

lemma xtn_xor: "(xt ^^ n) (x XOR y) = (xt ^^ n) x XOR (xt ^^ n) y"
  by (induction n) (simp_all add: xt_xor)

lemma xtn_0 [simp]: "(xt ^^ n) 0 = 0"
  by (induction n) simp_all

lemma xtn_eq_0: "(xt ^^ n) x = 0 \<longleftrightarrow> x = 0"
  by (induction n) (simp_all add: xt_eq_0)

lemma xtn_inj: "(xt ^^ n) x = (xt ^^ n) y \<Longrightarrow> x = y"
  by (induction n) (auto dest: xt_inj)

lemma xt_8: "xt (xt (xt (xt (xt (xt (xt (xt b))))))) =
    b XOR xt (xt b) XOR xt (xt (xt b)) XOR xt (xt (xt (xt b)))"
  by (rule u8_eqI) (simp_all only: bits_xt bit_xor_iff, argo+)

subsection \<open>The multiplicative group\<close>

fun orbit :: "nat \<Rightarrow> u8 \<Rightarrow> u8 list" where
  "orbit 0 x = []"
| "orbit (Suc n) x = x # orbit n (xt x)"

lemma orbit_eq: "orbit n x = map (\<lambda>k. (xt ^^ k) x) [0..<n]"
proof (induction n arbitrary: x)
  case (Suc n)
  have "map (\<lambda>k. (xt ^^ k) x) [0..<Suc n] = x # map (\<lambda>k. (xt ^^ Suc k) x) [0..<n]"
    by (subst upt_conv_Cons) (simp_all add: map_Suc_upt [symmetric] del: upt_Suc funpow.simps)
  with Suc show ?case by (simp add: funpow_swap1)
qed simp

lemma orbit_no_1: "list_all (\<lambda>x. x \<noteq> 1) (orbit 254 (xt 1))"
  by code_simp

lemma orbit_back: "last (orbit 255 (xt 1)) = 1"
  by code_simp

lemma alpha_Suc: "alpha (Suc n) = xt (alpha n)"
  by (simp add: alpha_def)

lemma alpha_0 [simp]: "alpha 0 = 1"
  by (simp add: alpha_def)

lemma alpha_nonzero [simp]: "alpha n \<noteq> 0"
  by (simp add: alpha_def xtn_eq_0)

lemma xtn_alpha: "(xt ^^ m) (alpha n) = alpha (m + n)"
  by (simp add: alpha_def funpow_add)

lemma alpha_not_1: "0 < n \<Longrightarrow> n < 255 \<Longrightarrow> alpha n \<noteq> 1"
proof -
  assume "0 < n" "n < 255"
  then obtain k where n: "n = Suc k" and k: "k < 254" by (cases n) auto
  have "(xt ^^ k) (xt 1) \<in> set (orbit 254 (xt 1))"
    using k by (auto simp: orbit_eq)
  with orbit_no_1 have "(xt ^^ k) (xt 1) \<noteq> 1" unfolding list_all_iff by blast
  then show ?thesis by (simp add: n alpha_def funpow_swap1)
qed

lemma alpha_255: "alpha 255 = 1"
proof -
  have "orbit 255 (xt 1) = map (\<lambda>k. (xt ^^ k) (xt 1)) [0..<Suc 254]"
    by (simp only: orbit_eq) simp
  then have "last (orbit 255 (xt 1)) = (xt ^^ 254) (xt 1)"
    by (simp only: upt_Suc) simp
  then have "(xt ^^ Suc 254) 1 = 1"
    using orbit_back by (simp only: funpow_Suc_right comp_apply)
  then show ?thesis by (simp add: alpha_def del: funpow.simps)
qed

lemma alpha_add_255: "alpha (n + 255) = alpha n"
  using xtn_alpha [of n 255] xtn_alpha [of n 0] by (simp add: alpha_255)

lemma alpha_mod: "alpha (n mod 255) = alpha n"
proof -
  have "alpha (m + 255 * k) = alpha m" for m k
  proof (induction k)
    case (Suc k)
    have "alpha (m + 255 * Suc k) = alpha (m + 255 * k + 255)" by (simp add: ac_simps)
    with Suc show ?case by (simp only: alpha_add_255)
  qed simp
  from this [of "n mod 255" "n div 255"] show ?thesis by simp
qed

lemma alpha_inj: "i < 255 \<Longrightarrow> j < 255 \<Longrightarrow> alpha i = alpha j \<Longrightarrow> i = j"
proof (induction i j rule: linorder_wlog)
  case (le a b)
  have "alpha b = (xt ^^ a) (alpha (b - a))" using le by (simp add: xtn_alpha)
  moreover have "alpha a = (xt ^^ a) (alpha 0)" by (simp add: xtn_alpha del: alpha_0)
  ultimately have "alpha (b - a) = alpha 0" using le xtn_inj by metis
  then have "alpha (b - a) = 1" by simp
  with alpha_not_1 [of "b - a"] le show ?case by fastforce
qed simp

lemma alpha_surj: "x \<noteq> 0 \<Longrightarrow> \<exists>i < 255. x = alpha i"
proof -
  assume x: "x \<noteq> 0"
  have inj: "inj_on alpha {..<255}" by (auto intro!: inj_onI alpha_inj)
  have "card (alpha ` {..<255}) = 255" using card_image [OF inj] by simp
  moreover have "card (UNIV - {0 :: u8}) = 255" by (simp add: card_Diff_subset card_word)
  moreover have "alpha ` {..<255} \<subseteq> UNIV - {0}" by auto
  ultimately have "alpha ` {..<255} = UNIV - {0}" by (intro card_subset_eq) auto
  with x show ?thesis by blast
qed

subsection \<open>Field laws\<close>

lemma sel_xor: "sel (p \<noteq> q) x = sel p x XOR sel q x"
  by (simp add: sel_def)

lemma sel_xor2: "sel p (x XOR y) = sel p x XOR sel p y"
  by (simp add: sel_def)

lemma xt_sel: "xt (sel p x) = sel p (xt x)"
  by (simp add: sel_def)

lemma gmul_unfold: "gmul a b = sel (bit a 0) b XOR sel (bit a 1) (xt b) XOR
    sel (bit a 2) (xt (xt b)) XOR sel (bit a 3) (xt (xt (xt b))) XOR
    sel (bit a 4) (xt (xt (xt (xt b)))) XOR sel (bit a 5) (xt (xt (xt (xt (xt b))))) XOR
    sel (bit a 6) (xt (xt (xt (xt (xt (xt b)))))) XOR
    sel (bit a 7) (xt (xt (xt (xt (xt (xt (xt b)))))))"
  by (simp add: gmul_def upt_rec numeral_eq_Suc ac_simps)

lemma xor_cancel: "(x :: u8) XOR (x XOR y) = y"
  by (simp add: xor.assoc [symmetric])

lemma gmul_xt: "gmul (xt a) b = xt (gmul a b)"
  unfolding gmul_unfold bits_xt sel_xor xt_xor xt_sel xt_8 sel_xor2
  by (simp add: ac_simps)

lemma gmul_1 [simp]: "gmul 1 b = b"
  by (simp add: gmul_unfold sel_def bit_1_iff)

lemma gmul_0 [simp]: "gmul 0 b = 0" "gmul a 0 = 0"
  by (simp_all add: gmul_unfold sel_def)

lemma gmul_alpha_left: "gmul (alpha i) b = (xt ^^ i) b"
  by (induction i) (simp_all add: alpha_Suc gmul_xt)

lemma gmul_alpha: "gmul (alpha i) (alpha j) = alpha (i + j)"
  by (simp add: gmul_alpha_left xtn_alpha)

lemma gmul_xor_right: "gmul a (x XOR y) = gmul a x XOR gmul a y"
  by (cases "a = 0") (auto simp: gmul_alpha_left xtn_xor dest!: alpha_surj)

lemma gmul_commute: "gmul a b = gmul b a"
  by (cases "a = 0"; cases "b = 0") (auto simp: gmul_alpha add.commute dest!: alpha_surj)

lemma gmul_xor_left: "gmul (x XOR y) a = gmul x a XOR gmul y a"
  by (metis gmul_commute gmul_xor_right)

lemma gmul_assoc: "gmul (gmul a b) c = gmul a (gmul b c)"
  by (cases "a = 0"; cases "b = 0"; cases "c = 0")
     (auto simp: gmul_alpha add.assoc dest!: alpha_surj)

lemma gmul_eq_0: "gmul a b = 0 \<longleftrightarrow> a = 0 \<or> b = 0"
  by (cases "a = 0"; cases "b = 0") (auto simp: gmul_alpha dest!: alpha_surj)

lemmas gf_linear = gmul_xor_left gmul_xor_right

end
