(* ===== verification/Segments.thy ===== *)
theory Segments
  imports QRinput_Stream GF256
begin

text \<open>
  A reference for the encoded data: the bits of a segment (mode indicator, character count and
  packed characters) for each mode, a reader that decodes them, and the proof that the reader
  gives the data back. The lengths are those that the \<^verbatim>\<open>estimateBitsMode\<close> functions compute.
\<close>

lemma sdiv_nonneg: "0 \<le> a \<Longrightarrow> 0 \<le> b \<Longrightarrow> a sdiv b = a div (b :: int)"
  by (auto simp: signed_divide_int_def sgn_if)

subsection \<open>Numeric data\<close>

text \<open>Three digits take ten bits, two take seven and one takes four.\<close>

fun enc_num :: "u8 list \<Rightarrow> u8 list" where
  "enc_num (a # b # c # ds) = nbits 10 (unat (num_val3 a b c)) @ enc_num ds"
| "enc_num [a, b] = nbits 7 (unat (num_val2 a b))"
| "enc_num [a] = nbits 4 (unat (ucast a - 48 :: u32))"
| "enc_num [] = []"

definition digit :: "nat \<Rightarrow> u8" where
  "digit v = of_nat (v + 48)"

fun dec_num :: "nat \<Rightarrow> u8 list \<Rightarrow> u8 list \<times> u8 list" where
  "dec_num (Suc (Suc (Suc n))) bs =
     (let v = bits_val (take 10 bs); (ds, r) = dec_num n (drop 10 bs)
      in (digit (v div 100) # digit (v div 10 mod 10) # digit (v mod 10) # ds, r))"
| "dec_num (Suc (Suc 0)) bs =
     (let v = bits_val (take 7 bs) in ([digit (v div 10), digit (v mod 10)], drop 7 bs))"
| "dec_num (Suc 0) bs = ([digit (bits_val (take 4 bs))], drop 4 bs)"
| "dec_num 0 bs = ([], bs)"

definition is_digit :: "u8 \<Rightarrow> bool" where
  "is_digit c \<longleftrightarrow> 48 \<le> c \<and> c \<le> 57"

lemma is_digitE:
  assumes "is_digit c"
  obtains x where "x < 10" and "c = digit x" and "ucast c - 48 = (of_nat x :: u32)"
proof -
  have "48 \<le> unat c" "unat c \<le> 57" using assms by (simp_all add: is_digit_def word_le_nat_alt)
  then have "unat c - 48 < 10" "c = digit (unat c - 48)" by (simp_all add: digit_def)
  moreover have "(of_nat (unat c - 48) :: u32) = of_nat (unat c) - of_nat 48"
    using \<open>48 \<le> unat c\<close> by (rule of_nat_diff)
  then have "ucast c - 48 = (of_nat (unat c - 48) :: u32)" by simp
  ultimately show thesis by (rule that)
qed

lemma unat_num_val3:
  "is_digit a \<Longrightarrow> is_digit b \<Longrightarrow> is_digit c \<Longrightarrow>
     \<exists>x y z. x < 10 \<and> y < 10 \<and> z < 10 \<and> a = digit x \<and> b = digit y \<and> c = digit z \<and>
       unat (num_val3 a b c) = 100 * x + 10 * y + z"
proof -
  assume "is_digit a" "is_digit b" "is_digit c"
  then obtain x y z where x: "x < 10" "a = digit x" "ucast a - 48 = (of_nat x :: u32)"
    and y: "y < 10" "b = digit y" "ucast b - 48 = (of_nat y :: u32)"
    and z: "z < 10" "c = digit z" "ucast c - 48 = (of_nat z :: u32)" by (metis is_digitE)
  have "num_val3 a b c = of_nat (100 * x + 10 * y + z)"
    by (simp add: num_val3_def x(3) y(3) z(3))
  then have "unat (num_val3 a b c) = 100 * x + 10 * y + z"
    using x(1) y(1) z(1) by (simp only: unat_of_nat take_bit_eq_mod) simp
  with x y z show ?thesis by blast
qed

lemma unat_num_val2:
  "is_digit a \<Longrightarrow> is_digit b \<Longrightarrow>
     \<exists>x y. x < 10 \<and> y < 10 \<and> a = digit x \<and> b = digit y \<and> unat (num_val2 a b) = 10 * x + y"
proof -
  assume "is_digit a" "is_digit b"
  then obtain x y where x: "x < 10" "a = digit x" "ucast a - 48 = (of_nat x :: u32)"
    and y: "y < 10" "b = digit y" "ucast b - 48 = (of_nat y :: u32)" by (metis is_digitE)
  have "num_val2 a b = of_nat (10 * x + y)" by (simp add: num_val2_def x(3) y(3))
  then have "unat (num_val2 a b) = 10 * x + y"
    using x(1) y(1) by (simp only: unat_of_nat take_bit_eq_mod) simp
  with x y show ?thesis by blast
qed

lemma three_digits:
  fixes x y z :: nat
  assumes "x < 10" "y < 10" "z < 10"
  shows "(100 * x + 10 * y + z) div 100 = x" and "(100 * x + 10 * y + z) div 10 mod 10 = y"
    and "(100 * x + 10 * y + z) mod 10 = z" and "(100 * x + 10 * y + z) mod 1024 = 100 * x + 10 * y + z"
proof -
  have e: "100 * x + 10 * y + z = z + (10 * x + y) * 10" by simp
  have 10: "(100 * x + 10 * y + z) div 10 = 10 * x + y" unfolding e using assms(3) by simp
  then show "(100 * x + 10 * y + z) div 10 mod 10 = y" using assms(2) by simp
  show "(100 * x + 10 * y + z) mod 10 = z" unfolding e using assms(3) by (simp only: mod_mult_self1 mod_less)
  have "(100 * x + 10 * y + z) div 100 = (100 * x + 10 * y + z) div 10 div 10"
    by (simp add: div_mult2_eq [symmetric])
  then show "(100 * x + 10 * y + z) div 100 = x" unfolding 10 using assms(2) by simp
  show "(100 * x + 10 * y + z) mod 1024 = 100 * x + 10 * y + z" using assms by simp
qed

lemma dec_enc_num: "list_all is_digit ds \<Longrightarrow> dec_num (length ds) (enc_num ds @ rest) = (ds, rest)"
proof (induction ds rule: enc_num.induct)
  case (1 a b c ds)
  from 1(2) unat_num_val3 [of a b c] obtain x y z where xyz: "x < 10" "y < 10" "z < 10"
    "a = digit x" "b = digit y" "c = digit z" "unat (num_val3 a b c) = 100 * x + 10 * y + z" by auto
  note three_digits [OF xyz(1-3)]
  with 1 xyz show ?case by (simp add: bits_val_nbits Let_def)
next
  case (2 a b)
  from 2 unat_num_val2 [of a b] obtain x y where "x < 10" "y < 10" "a = digit x" "b = digit y"
    "unat (num_val2 a b) = 10 * x + y" by auto
  then show ?case by (simp add: bits_val_nbits Let_def)
next
  case (3 a)
  then obtain x where "x < 10" "a = digit x" "ucast a - 48 = (of_nat x :: u32)" by (auto elim: is_digitE)
  then show ?case by (simp add: bits_val_nbits unat_of_nat)
qed simp

lemma length_enc_num: "int (length (enc_num ds)) = QRinput_estimateBitsModeNum (int (length ds))"
proof -
  have "length (enc_num ds) = 10 * (length ds div 3) + (if length ds mod 3 = 1 then 4 else if length ds mod 3 = 2 then 7 else 0)"
  proof (induction ds rule: enc_num.induct)
    case (1 a b c ds)
    have "Suc (Suc (Suc n)) div 3 = Suc (n div 3)" "Suc (Suc (Suc n)) mod 3 = n mod 3" for n by presburger+
    with 1 show ?case by simp
  qed simp_all
  moreover have "int (length ds) - int (length ds) sdiv 3 * 3 = int (length ds mod 3)"
    "int (length ds) sdiv 3 = int (length ds div 3)"
    by (simp_all add: sdiv_nonneg zdiv_int zmod_int minus_div_mult_eq_mod)
  ultimately show ?thesis by (auto simp: QRinput_estimateBitsModeNum_def Let_def)
qed


subsection \<open>Alphanumeric data\<close>

fun enc_an :: "u8 list \<Rightarrow> u8 list" where
  "enc_an (a # b # ds) =
     nbits 11 (unat (of_int (QRinput_lookAnTable a) * 45 + of_int (QRinput_lookAnTable b) :: u32)) @ enc_an ds"
| "enc_an [a] = nbits 6 (unat (of_int (QRinput_lookAnTable a) :: u32))"
| "enc_an [] = []"

definition an_char :: "nat \<Rightarrow> u8" where
  "an_char v = of_nat (length (takeWhile (\<lambda>x. x \<noteq> int v) QRinput_anTable))"

fun dec_an :: "nat \<Rightarrow> u8 list \<Rightarrow> u8 list \<times> u8 list" where
  "dec_an (Suc (Suc n)) bs =
     (let v = bits_val (take 11 bs); (ds, r) = dec_an n (drop 11 bs)
      in (an_char (v div 45) # an_char (v mod 45) # ds, r))"
| "dec_an (Suc 0) bs = ([an_char (bits_val (take 6 bs))], drop 6 bs)"
| "dec_an 0 bs = ([], bs)"

definition is_an :: "u8 \<Rightarrow> bool" where
  "is_an c \<longleftrightarrow> 0 \<le> QRinput_lookAnTable c"

lemma look_all: "list_all (\<lambda>n. let v = QRinput_lookAnTable (of_nat n) in
    v < 45 \<and> (0 \<le> v \<longrightarrow> an_char (nat v) = of_nat n)) [0..<256]"
  by code_simp

lemma look_an: "QRinput_lookAnTable c < 45" "is_an c \<Longrightarrow> an_char (nat (QRinput_lookAnTable c)) = c"
proof -
  have "unat c \<in> set [0..<256]" using unat_u8_less [of c] by simp
  from bspec [OF look_all [unfolded list_all_iff] this]
  show "QRinput_lookAnTable c < 45" "is_an c \<Longrightarrow> an_char (nat (QRinput_lookAnTable c)) = c"
    by (simp_all add: Let_def is_an_def)
qed

lemma is_anE:
  assumes "is_an c"
  obtains x where "x < 45" and "c = an_char x" and "QRinput_lookAnTable c = int x"
  using look_an [of c] assms by (intro that [of "nat (QRinput_lookAnTable c)"]) (simp_all add: is_an_def)

lemma dec_enc_an: "list_all is_an ds \<Longrightarrow> dec_an (length ds) (enc_an ds @ rest) = (ds, rest)"
proof (induction ds rule: enc_an.induct)
  case (1 a b ds)
  then obtain x y where x: "x < 45" "a = an_char x" "QRinput_lookAnTable a = int x"
    and y: "y < 45" "b = an_char y" "QRinput_lookAnTable b = int y" by (auto elim!: is_anE)
  have "(of_int (int x) * 45 + of_int (int y) :: u32) = of_nat (x * 45 + y)" by simp
  then have "unat (of_int (QRinput_lookAnTable a) * 45 + of_int (QRinput_lookAnTable b) :: u32) = x * 45 + y"
    unfolding x(3) y(3) using x(1) y(1) by (simp only: unat_of_nat take_bit_eq_mod) simp
  with 1 x y show ?case by (simp add: bits_val_nbits Let_def)
next
  case (2 a)
  then obtain x where "x < 45" "a = an_char x" "QRinput_lookAnTable a = int x" by (auto elim!: is_anE)
  then show ?case by (simp add: bits_val_nbits unat_of_nat)
qed simp

lemma length_enc_an: "int (length (enc_an ds)) = QRinput_estimateBitsModeAn (int (length ds))"
proof -
  have "length (enc_an ds) = 11 * (length ds div 2) + (if odd (length ds) then 6 else 0)"
    by (induction ds rule: enc_an.induct) simp_all
  then show ?thesis by (simp add: QRinput_estimateBitsModeAn_def Let_def sdiv_nonneg zdiv_int)
qed

subsection \<open>Kanji data\<close>

fun enc_kanji :: "u8 list \<Rightarrow> u8 list" where
  "enc_kanji (c # d # ds) = nbits 13 (unat (kanji_code c d)) @ enc_kanji ds"
| "enc_kanji _ = []"

definition kanji_bytes :: "nat \<Rightarrow> u8 \<times> u8" where
  "kanji_bytes v =
     (let w = v div 192 * 256 + v mod 192;
          w = (if w + 0x8140 \<le> 0x9ffc then w + 0x8140 else w + 0xc140)
      in (of_nat (w div 256), of_nat (w mod 256)))"

fun dec_kanji :: "nat \<Rightarrow> u8 list \<Rightarrow> u8 list \<times> u8 list" where
  "dec_kanji (Suc n) bs =
     (let (c, d) = kanji_bytes (bits_val (take 13 bs)); (ds, r) = dec_kanji n (drop 13 bs)
      in (c # d # ds, r))"
| "dec_kanji 0 bs = ([], bs)"

text \<open>
  A pair of bytes that the check accepts and whose second byte is one of a double-byte
  character of Shift JIS.
\<close>

definition is_kanji :: "u8 \<Rightarrow> u8 \<Rightarrow> bool" where
  "is_kanji c d \<longleftrightarrow> (let val = kanji_val c d in
     (0x8140 \<le> val \<and> val \<le> 0x9ffc \<or> 0xe040 \<le> val \<and> val \<le> 0xebbf)) \<and> 0x40 \<le> d"

lemma unat_ucast_byte [simp]: "unat (ucast (c :: u8) :: u32) = unat c"
  using unat_u8_less [of c] by (simp add: unsigned_ucast_eq take_bit_nat_eq_self del: unat_u8_less)

lemma unat_shift_or:
  assumes "unat x < 16777216"
  shows "unat (push_bit 8 x OR ucast c :: u32) = unat x * 256 + unat (c :: u8)"
proof -
  have "push_bit 8 x AND ucast c = 0"
    by (rule bit_word_eqI) (auto simp: bit_simps dest: bit_imp_le_length)
  then have "push_bit 8 x OR ucast c = push_bit 8 x + ucast c"
    by (simp add: disjunctive_add_eq_or)
  also have "\<dots> = of_nat (unat x * 256 + unat c)" by (simp add: push_bit_eq_mult)
  finally have "unat (push_bit 8 x OR ucast c) = (unat x * 256 + unat c) mod 2 ^ 32"
    by (simp only: unat_of_nat take_bit_eq_mod) simp
  moreover have "unat c < 256" by (rule unat_u8_less)
  then have "unat x * 256 + unat c < 4294967296" using assms by linarith
  then have "unat x * 256 + unat c < 2 ^ 32" by simp
  ultimately show ?thesis by (simp only: mod_less)
qed

lemma unat_kanji_val: "unat (kanji_val c d) = unat c * 256 + unat d"
proof -
  have "unat c < 256" by (rule unat_u8_less)
  then have "unat (ucast c :: u32) < 16777216" unfolding unat_ucast_byte by linarith
  from unat_shift_or [OF this] show ?thesis by (simp add: kanji_val_def)
qed

lemma unat_kanji_code:
  "unat (kanji_code c d) =
     (let v = unat (kanji_val c d); t = (if v \<le> 0x9ffc then unat (kanji_val c d - 0x8140) else unat (kanji_val c d - 0xc140))
      in (t mod 256 + t div 256 * 192) mod 2 ^ 32)"
proof -
  have "unat ((t AND 0xff) + drop_bit 8 t * 0xc0) = (unat t mod 256 + unat t div 256 * 192) mod 2 ^ 32" for t :: u32
  proof -
    have "t AND 0xff = take_bit 8 t" by (simp add: take_bit_eq_mask mask_eq_exp_minus_1)
    moreover have "unat (take_bit 8 t) = take_bit 8 (unat t)" by (rule unsigned_take_bit_eq)
    ultimately have "unat (t AND 0xff) = unat t mod 256" by (simp only: take_bit_eq_mod) simp
    moreover have "unat (drop_bit 8 t) = drop_bit 8 (unat t)" by (rule unat_drop_bit_eq)
    then have "unat (drop_bit 8 t) = unat t div 256" by (simp only: drop_bit_eq_div) simp
    ultimately show ?thesis by (simp add: unat_word_ariths mod_simps del: drop_bit_numeral_bit0)
  qed
  then show ?thesis
    by (simp add: kanji_code_def Let_def word_le_nat_alt)
qed


lemma kanji_bytes_code:
  assumes "is_kanji c d"
  shows "kanji_bytes (unat (kanji_code c d)) = (c, d)" and "unat (kanji_code c d) < 2 ^ 13"
proof -
  define v where "v = unat c * 256 + unat d"
  have v: "unat (kanji_val c d) = v" by (simp add: unat_kanji_val v_def)
  have d: "64 \<le> unat d" "unat d < 256"
    using assms unat_u8_less [of d] by (simp_all add: is_kanji_def word_le_nat_alt)
  have r: "0x8140 \<le> v \<and> v \<le> 0x9ffc \<or> 0xe040 \<le> v \<and> v \<le> 0xebbf"
    using assms by (simp add: is_kanji_def Let_def word_le_nat_alt v)
  define off where "off = (if v \<le> 0x9ffc then 0x81 else 0xc1 :: nat)"
  have t: "(if v \<le> 0x9ffc then unat (kanji_val c d - 0x8140) else unat (kanji_val c d - 0xc140))
      = v - (off * 256 + 64)"
    using r by (auto simp: off_def unat_sub_if' word_le_nat_alt v unat_sub word_less_nat_alt)
  have c: "off \<le> unat c"
    using r d by (auto simp: off_def v_def simp del: unat_u8_less split: if_splits)
  have h: "unat c - off < 43"
    using r d by (auto simp: off_def v_def simp del: unat_u8_less split: if_splits)
  define l where "l = unat d - 64"
  have l: "l < 192" "unat d = l + 64" using d by (simp_all add: l_def del: unat_u8_less)
  have split: "v - (off * 256 + 64) = l + (unat c - off) * 256"
    using c by (simp add: v_def l(2) algebra_simps)
  have code: "unat (kanji_code c d) = l + (unat c - off) * 192"
    unfolding unat_kanji_code Let_def v t split using l(1) h by simp
  have "l + (unat c - off) * 256 \<le> 10879"
    unfolding split [symmetric] using r by (auto simp: off_def)
  then have "l + (unat c - off) * 192 < 8192" using l(1) h by (cases "unat c - off = 42") simp_all
  with code show small: "unat (kanji_code c d) < 2 ^ 13" by simp
  have "unat (kanji_code c d) div 192 = unat c - off" "unat (kanji_code c d) mod 192 = l"
    unfolding code using l by simp_all
  then have w: "unat (kanji_code c d) div 192 * 256 + unat (kanji_code c d) mod 192 = v - (off * 256 + 64)"
    unfolding split by simp
  have "(if v - (off * 256 + 64) + 0x8140 \<le> 0x9ffc then v - (off * 256 + 64) + 0x8140
      else v - (off * 256 + 64) + 0xc140) = v"
    using r by (auto simp: off_def)
  then have "kanji_bytes (unat (kanji_code c d)) = (of_nat (v div 256), of_nat (v mod 256))"
    unfolding kanji_bytes_def Let_def w by simp
  then show "kanji_bytes (unat (kanji_code c d)) = (c, d)" using d by (simp add: v_def)
qed


fun kanji_pairs :: "u8 list \<Rightarrow> bool" where
  "kanji_pairs (c # d # ds) \<longleftrightarrow> is_kanji c d \<and> kanji_pairs ds"
| "kanji_pairs [c] \<longleftrightarrow> False"
| "kanji_pairs [] \<longleftrightarrow> True"

lemma dec_enc_kanji: "kanji_pairs ds \<Longrightarrow> dec_kanji (length ds div 2) (enc_kanji ds @ rest) = (ds, rest)"
  using kanji_bytes_code by (induction ds rule: kanji_pairs.induct) (simp_all add: bits_val_nbits Let_def)

lemma length_enc_kanji: "length (enc_kanji ds) = 13 * (length ds div 2)"
  by (induction ds rule: enc_kanji.induct) simp_all

subsection \<open>Segments\<close>

text \<open>
  A segment of a symbol: mode indicator, character count and data. The count has the width
  that \<^verbatim>\<open>QRspec_lengthIndicator\<close> gives, which is none for the modes without a count: the header
  of a structured append, the designator of an extended channel interpretation (ECI) and the
  second FNC1 indicator.
\<close>

definition payload :: "QRencodeMode \<Rightarrow> u8 list \<Rightarrow> u8 list" where
  "payload mode data = (case mode of
       QR_MODE_NUM \<Rightarrow> enc_num data
     | QR_MODE_AN \<Rightarrow> enc_an data
     | QR_MODE_8 \<Rightarrow> bytes_bits data
     | QR_MODE_KANJI \<Rightarrow> enc_kanji data
     | QR_MODE_STRUCTURE \<Rightarrow>
         nbits 4 (unat (data ! 1) - 1) @ nbits 4 (unat (data ! 0) - 1) @ nbits 8 (unat (data ! 2))
     | QR_MODE_ECI \<Rightarrow>
         (case eci_words (QRinput_decodeECIfromByteArray data) of
            (words, code) \<Rightarrow> nbits (nat (words * 8)) (unat code))
     | QR_MODE_FNC1SECOND \<Rightarrow> bytes_bits (take 1 data)
     | _ \<Rightarrow> [])"

definition mode_ids :: "(QRencodeMode \<times> nat) list" where
  "mode_ids = [(QR_MODE_NUM, 1), (QR_MODE_AN, 2), (QR_MODE_8, 4), (QR_MODE_KANJI, 8),
     (QR_MODE_STRUCTURE, 3), (QR_MODE_ECI, 7), (QR_MODE_FNC1SECOND, 9)]"

definition mode_id :: "QRencodeMode \<Rightarrow> nat" where
  "mode_id mode = the (map_of mode_ids mode)"

definition id_mode :: "nat \<Rightarrow> QRencodeMode option" where
  "id_mode v = map_of (map prod.swap mode_ids) v"

definition seg_count :: "QRencodeMode \<Rightarrow> u8 list \<Rightarrow> nat" where
  "seg_count mode data =
     (if \<not> QRinput_isSplittableMode mode then 0
      else if mode = QR_MODE_KANJI then length data div 2 else length data)"

definition seg_bits :: "int \<Rightarrow> QRencodeMode \<Rightarrow> u8 list \<Rightarrow> u8 list" where
  "seg_bits version mode data =
     nbits 4 (mode_id mode) @ nbits (nat (QRspec_lengthIndicator mode version)) (seg_count mode data) @
     payload mode data"

text \<open>
  The reader of a segment: the mode, the data and the bits behind it. It is written from the
  standard: an ECI designator has one, two or three bytes, told apart by its first bits.
\<close>

definition eci_bytes :: "nat \<Rightarrow> u8 list" where
  "eci_bytes n = [of_nat (n mod 256), of_nat (n div 256 mod 256), of_nat (n div 65536), 0]"

definition read_eci :: "u8 list \<Rightarrow> u8 list \<times> u8 list" where
  "read_eci bs =
     (let v = bits_val (take 8 bs) in
      if v < 128 then (eci_bytes v, drop 8 bs)
      else if v < 192 then (eci_bytes (bits_val (take 16 bs) - 0x8000), drop 16 bs)
      else (eci_bytes (bits_val (take 24 bs) - 0xc00000), drop 24 bs))"

definition read_data :: "QRencodeMode \<Rightarrow> nat \<Rightarrow> u8 list \<Rightarrow> u8 list \<times> u8 list" where
  "read_data mode n bs = (case mode of
       QR_MODE_NUM \<Rightarrow> dec_num n bs
     | QR_MODE_AN \<Rightarrow> dec_an n bs
     | QR_MODE_KANJI \<Rightarrow> dec_kanji n bs
     | QR_MODE_8 \<Rightarrow> (bs_bytes (take (8 * n) bs), drop (8 * n) bs)
     | QR_MODE_STRUCTURE \<Rightarrow>
         ([of_nat (bits_val (take 4 (drop 4 bs)) + 1), of_nat (bits_val (take 4 bs) + 1),
           of_nat (bits_val (take 8 (drop 8 bs)))], drop 16 bs)
     | QR_MODE_ECI \<Rightarrow> read_eci bs
     | _ \<Rightarrow> (bs_bytes (take 8 bs), drop 8 bs))"

definition read_seg :: "int \<Rightarrow> u8 list \<Rightarrow> (QRencodeMode \<times> u8 list \<times> u8 list) option" where
  "read_seg version bs = (case id_mode (bits_val (take 4 bs)) of
       None \<Rightarrow> None
     | Some mode \<Rightarrow>
         let l = nat (QRspec_lengthIndicator mode version);
             n = bits_val (take l (drop 4 bs))
         in Some (mode, read_data mode n (drop (4 + l) bs)))"

text \<open>Data that a mode can represent.\<close>

definition data_ok :: "QRencodeMode \<Rightarrow> u8 list \<Rightarrow> bool" where
  "data_ok mode data \<longleftrightarrow> (case mode of
       QR_MODE_NUM \<Rightarrow> list_all is_digit data
     | QR_MODE_AN \<Rightarrow> list_all is_an data
     | QR_MODE_8 \<Rightarrow> True
     | QR_MODE_KANJI \<Rightarrow> kanji_pairs data
     | QR_MODE_STRUCTURE \<Rightarrow>
         length data = 3 \<and> 1 \<le> data ! 0 \<and> data ! 0 \<le> 16 \<and> 1 \<le> data ! 1 \<and> data ! 1 \<le> 16
     | QR_MODE_ECI \<Rightarrow> length data = 4 \<and> QRinput_decodeECIfromByteArray data < 16384
     | QR_MODE_FNC1SECOND \<Rightarrow> length data = 1
     | _ \<Rightarrow> False)"

lemma id_mode_mode_id: "mode \<in> fst ` set mode_ids \<Longrightarrow> id_mode (bits_val (nbits 4 (mode_id mode))) = Some mode"
  by (auto simp: bits_val_nbits mode_id_def id_mode_def mode_ids_def)

lemma data_ok_mode: "data_ok mode data \<Longrightarrow> mode \<in> fst ` set mode_ids"
  by (cases mode) (simp_all add: data_ok_def mode_ids_def)

lemma splittable_modes: "QRinput_isSplittableMode mode \<longleftrightarrow> mode \<in> {QR_MODE_NUM, QR_MODE_AN, QR_MODE_8, QR_MODE_KANJI}"
  by (cases mode) (simp_all add: QRinput_isSplittableMode_def)

lemma read_structure:
  assumes "length data = 3" and "1 \<le> data ! 0" "data ! 0 \<le> 16" and "1 \<le> data ! 1" "data ! 1 \<le> 16"
  shows "read_data QR_MODE_STRUCTURE n (payload QR_MODE_STRUCTURE data @ rest) = (data, rest)"
proof -
  obtain a b c where d: "data = [a, b, c]" using assms(1) by (auto simp: length_Suc_conv numeral_eq_Suc)
  have "1 \<le> unat a" "unat a \<le> 16" "1 \<le> unat b" "unat b \<le> 16"
    using assms(2-5) by (simp_all add: d word_le_nat_alt)
  then show ?thesis by (simp add: d read_data_def payload_def bits_val_nbits)
qed

lemma eci_number:
  "unat (QRinput_decodeECIfromByteArray [a, b, c, d])
     = ((unat d * 256 + unat c) * 256 + unat b) * 256 + unat a"
proof -
  have bytes: "unat a < 256" "unat b < 256" "unat c < 256" "unat d < 256" by (rule unat_u8_less)+
  have four: "foldl f z [0..<4] = f (f (f (f z 0) 1) 2) 3" for f and z :: u32 by (simp add: upt_rec numeral_eq_Suc)
  have nth: "[a, b, c, d] ! (3 - 0) = d" "[a, b, c, d] ! (3 - 1) = c"
    "[a, b, c, d] ! (3 - 2) = b" "[a, b, c, d] ! (3 - 3) = a" by simp_all
  have "QRinput_decodeECIfromByteArray [a, b, c, d] =
      push_bit 8 (push_bit 8 (push_bit 8 (push_bit 8 0 OR ucast d) OR ucast c) OR ucast b) OR ucast a"
    by (simp only: QRinput_decodeECIfromByteArray_def four nth)
  moreover define x1 :: u32 where "x1 = push_bit 8 0 OR ucast d"
  moreover define x2 where "x2 = push_bit 8 x1 OR ucast c"
  moreover define x3 where "x3 = push_bit 8 x2 OR ucast b"
  ultimately have "QRinput_decodeECIfromByteArray [a, b, c, d] = push_bit 8 x3 OR ucast a" by simp
  moreover have x1: "unat x1 = unat d" by (simp add: x1_def)
  moreover have x2: "unat x2 = unat x1 * 256 + unat c"
    unfolding x2_def by (rule unat_shift_or) (use x1 bytes in linarith)
  moreover have x3: "unat x3 = unat x2 * 256 + unat b"
    unfolding x3_def by (rule unat_shift_or) (use x1 x2 bytes in linarith)
  moreover have "unat (push_bit 8 x3 OR ucast a) = unat x3 * 256 + unat a"
    by (rule unat_shift_or) (use x1 x2 x3 bytes in linarith)
  ultimately show ?thesis by (simp only:)
qed

lemma take_nbits: "j \<le> k \<Longrightarrow> take j (nbits k n) = nbits j (n div 2 ^ (k - j))"
  by (auto simp: nbits_def take_map bit_drop_bit_eq simp flip: drop_bit_eq_div)

lemma read_eci_payload:
  assumes "length data = 4" and "QRinput_decodeECIfromByteArray data < 16384"
  shows "read_eci (payload QR_MODE_ECI data @ rest) = (data, rest)"
proof -
  obtain a b c d where data: "data = [a, b, c, d]"
    using assms(1) by (auto simp: length_Suc_conv numeral_eq_Suc)
  define n where "n = unat (QRinput_decodeECIfromByteArray data)"
  have n: "n < 16384" using assms(2) by (simp add: n_def word_less_nat_alt)
  have "n = ((unat d * 256 + unat c) * 256 + unat b) * 256 + unat a" by (simp add: n_def data eci_number)
  with n have "unat d = 0" "unat c = 0" "n = unat b * 256 + unat a" by auto
  then have bytes: "eci_bytes n = data" using n by (simp add: eci_bytes_def data unsigned_eq_0_iff)
  show ?thesis
  proof (cases "n < 128")
    case True
    then have "payload QR_MODE_ECI data = nbits 8 n"
      by (simp add: payload_def eci_words_def word_less_nat_alt n_def)
    then show ?thesis using True bytes by (simp add: read_eci_def bits_val_nbits)
  next
    case False
    then have "payload QR_MODE_ECI data = nbits 16 (unat (0x8000 + QRinput_decodeECIfromByteArray data))"
      using n by (simp add: payload_def eci_words_def word_less_nat_alt n_def)
    moreover have "unat (0x8000 + QRinput_decodeECIfromByteArray data) = 0x8000 + n"
      using n by (simp add: unat_word_ariths n_def)
    ultimately have p: "payload QR_MODE_ECI data = nbits 16 (0x8000 + n)" by simp
    then show ?thesis using False n bytes by (auto simp: read_eci_def Let_def take_nbits bits_val_nbits)
  qed
qed

lemma read_data_payload:
  assumes "data_ok mode data"
  shows "read_data mode (seg_count mode data) (payload mode data @ rest) = (data, rest)"
  using assms read_structure read_eci_payload
  by (cases mode) (auto simp: read_data_def seg_count_def payload_def data_ok_def dec_enc_num dec_enc_an
      dec_enc_kanji bs_bytes_bytes_bits splittable_modes)

lemma read_seg_bits:
  assumes "data_ok mode data" and "seg_count mode data < 2 ^ nat (QRspec_lengthIndicator mode version)"
  shows "read_seg version (seg_bits version mode data @ rest) = Some (mode, data, rest)"
  using id_mode_mode_id [OF data_ok_mode [OF assms(1)]] read_data_payload [OF assms(1), of rest] assms(2)
  by (simp add: read_seg_def seg_bits_def bits_val_nbits Let_def)

end
