(* ===== verification/Encode_Correct.thy ===== *)
theory Encode_Correct
  imports Segments
begin

text \<open>
  Correctness of the encoding of one entry: each of the \<^verbatim>\<open>encodeMode\<close> functions stores the bits of
  the reference encoding in the entry, and \<^verbatim>\<open>QRinput_encodeBitStream\<close> cuts data that is too long
  for the count into parts and joins their streams.
\<close>

subsection \<open>The loops over the characters\<close>

lemma upt_Suc_shift: "[0..<Suc n] = 0 # map Suc [0..<n]"
  by (simp add: upt_conv_Cons map_Suc_upt del: upt_Suc)

lemma enc_num_loop:
  "enc_num ds = concat (map (\<lambda>i. nbits 10 (unat (num_val3 (ds ! (i * 3)) (ds ! (i * 3 + 1)) (ds ! (i * 3 + 2)))))
       [0..<length ds div 3]) @
     (if length ds mod 3 = 1 then nbits 4 (unat (ucast (ds ! (length ds div 3 * 3)) - 48 :: u32))
      else if length ds mod 3 = 2
      then nbits 7 (unat (num_val2 (ds ! (length ds div 3 * 3)) (ds ! (length ds div 3 * 3 + 1))))
      else [])"
proof (induction ds rule: enc_num.induct)
  case (1 a b c ds)
  have "Suc (Suc (Suc n)) div 3 = Suc (n div 3)" "Suc (Suc (Suc n)) mod 3 = n mod 3" for n by presburger+
  with 1 show ?case by (simp add: upt_Suc_shift comp_def del: upt_Suc)
qed simp_all

lemma enc_an_loop:
  "enc_an ds = concat (map (\<lambda>i. nbits 11 (unat (of_int (QRinput_lookAnTable (ds ! (i * 2))) * 45 +
         of_int (QRinput_lookAnTable (ds ! (i * 2 + 1))) :: u32))) [0..<length ds div 2]) @
     (if odd (length ds) then nbits 6 (unat (of_int (QRinput_lookAnTable (ds ! (length ds div 2 * 2))) :: u32)) else [])"
  by (induction ds rule: enc_an.induct) (simp_all add: upt_Suc_shift comp_def del: upt_Suc)

lemma enc_kanji_loop:
  "enc_kanji ds = concat (map (\<lambda>k. nbits 13 (unat (kanji_code (ds ! (2 * k)) (ds ! (2 * k + 1)))))
     [0..<length ds div 2])"
  by (induction ds rule: enc_kanji.induct) (simp_all add: upt_Suc_shift comp_def del: upt_Suc)

subsection \<open>Encoding an entry\<close>

definition mqr_mode_id :: "QRencodeMode \<Rightarrow> nat" where
  "mqr_mode_id mode = (case mode of QR_MODE_NUM \<Rightarrow> 0 | QR_MODE_AN \<Rightarrow> 1 | QR_MODE_8 \<Rightarrow> 2 | _ \<Rightarrow> 3)"

text \<open>The mode indicator and the count.\<close>

definition seg_header :: "int \<Rightarrow> bool \<Rightarrow> QRencodeMode \<Rightarrow> u8 list \<Rightarrow> u8 list" where
  "seg_header version mqr mode data =
     (if mqr then
        nbits (nat (version - 1)) (mqr_mode_id mode) @
        nbits (nat (MQRspec_lengthIndicator mode version)) (seg_count mode data)
      else
        nbits 4 (mode_id mode) @ nbits (nat (QRspec_lengthIndicator mode version)) (seg_count mode data))"

definition enc_seg :: "int \<Rightarrow> bool \<Rightarrow> QRencodeMode \<Rightarrow> u8 list \<Rightarrow> u8 list" where
  "enc_seg version mqr mode data = seg_header version mqr mode data @ payload mode data"

lemma enc_seg_qr: "enc_seg version False mode = seg_bits version mode"
  by (rule ext) (simp add: enc_seg_def seg_header_def seg_bits_def)

text \<open>The smallest version of Micro QR Code that has a mode.\<close>

definition mqr_min_version :: "QRencodeMode \<Rightarrow> int" where
  "mqr_min_version mode = (case mode of QR_MODE_NUM \<Rightarrow> 1 | QR_MODE_AN \<Rightarrow> 2 | QR_MODE_KANJI \<Rightarrow> 2 | _ \<Rightarrow> 3)"

definition mode_ok :: "int \<Rightarrow> bool \<Rightarrow> QRencodeMode \<Rightarrow> bool" where
  "mode_ok version mqr mode \<longleftrightarrow>
     mode \<in> fst ` set mode_ids \<and>
     (mqr \<longrightarrow> QRinput_isSplittableMode mode \<and> mqr_min_version mode \<le> version \<and> version \<le> 4)"

lemma lengthIndicator_bounds:
  "0 \<le> QRspec_lengthIndicator mode version" "QRspec_lengthIndicator mode version \<le> 16"
  by (cases mode; simp add: QRspec_lengthIndicator_def QRinput_isSplittableMode_def lengthTableBits_def Let_def)+

lemma MQR_lengthIndicator_bounds:
  assumes "mode_ok version True mode"
  shows "0 \<le> MQRspec_lengthIndicator mode version" "MQRspec_lengthIndicator mode version \<le> 6"
proof -
  have "version \<in> {1, 2, 3, 4}"
    using assms by (auto simp: mode_ok_def mqr_min_version_def split: QRencodeMode.splits)
  with assms show "0 \<le> MQRspec_lengthIndicator mode version" "MQRspec_lengthIndicator mode version \<le> 6"
    by (auto simp: mode_ok_def splittable_modes MQRspec_lengthIndicator_def mqr_lengthTableBits_def)
qed

lemma nbits_mod: "k \<le> m \<Longrightarrow> nbits k (n mod 2 ^ m) = nbits k n"
  by (auto simp: nbits_def take_bit_eq_mod [symmetric] bit_take_bit_iff)

lemma nbits_of_int: "k \<le> 32 \<Longrightarrow> nbits k (unat (of_int (int n) :: u32)) = nbits k n"
  using nbits_mod [of k 32 n] by (simp add: unat_of_nat take_bit_eq_mod)

lemma rest_3: "int n - int (n div 3) * 3 = int (n mod 3)"
  by (simp add: zdiv_int zmod_int minus_div_mult_eq_mod)

context heap_invariant
begin

lemma header_runs:
  assumes "0 \<le> m" "m \<le> 32" "0 \<le> l" "l \<le> 32"
  shows "runs I (bindM (BitStream_appendNum (bs_of xs) m a) (\<lambda>bs. BitStream_appendNum bs l n))
    (Inr (bs_of (xs @ nbits (nat m) (unat a) @ nbits (nat l) (unat n))))"
proof -
  have "delivers I (BitStream_appendNum (bs_of (xs @ nbits (nat m) (unat a))) l n)
      (Inr (bs_of ((xs @ nbits (nat m) (unat a)) @ nbits (nat l) (unat n))))"
    by (rule BitStream_appendNum_delivers [OF assms(3,4)])
  then show ?thesis
    using delivers_runs [OF BitStream_appendNum_delivers [OF assms(1,2)]]
    by (auto intro: runs_bind delivers_runs)
qed

lemma appendNums_runs:
  assumes "0 \<le> k" and "k \<le> 32"
  shows "runs I (foldM (\<lambda>bs i. BitStream_appendNum bs k (v i)) (bs_of xs) is)
    (Inr (bs_of (xs @ concat (map (\<lambda>i. nbits (nat k) (unat (v i))) is))))"
proof (rule delivers_runs, induction "is" arbitrary: xs)
  case (Cons i "is")
  from Cons.IH [of "xs @ nbits (nat k) (unat (v i))"] show ?case
    by (auto intro!: BitStream_appendNum_then assms)
qed (simp add: delivers_ret)

lemma with_bstream_acts:
  assumes "runs I (body (bs_of [])) (Inr (bs_of bits))"
  shows "acts I (with_bstream body) entry (Inr ()) (entry\<lparr>en_bstream := Some (bs_of bits)\<rparr>)"
proof -
  have "runs I (bindM BitStream_new body) (Inr (bs_of bits))"
    using delivers_runs [OF BitStream_new_delivers] assms by (rule runs_bind)
  then show ?thesis by (fastforce simp: acts_def runs_def with_bstream_def)
qed

lemmas appendNum_runs = delivers_runs [OF BitStream_appendNum_delivers]

lemma appendNum_to:
  "0 \<le> k \<Longrightarrow> k \<le> 32 \<Longrightarrow> ys = xs @ nbits (nat k) (unat n) \<Longrightarrow>
     runs I (BitStream_appendNum (bs_of xs) k n) (Inr (bs_of ys))"
  using appendNum_runs by blast

lemmas appendBytes_runs = delivers_runs [OF BitStream_appendBytes_delivers]

text \<open>The header that the four modes of data share.\<close>

lemma seg_header_runs:
  assumes "mode_ok version mqr mode" and "num = of_int (int (seg_count mode data))"
  shows "runs I (if mqr
      then bindM (BitStream_appendNum (bs_of []) (version - 1) (of_nat (mqr_mode_id mode))) (\<lambda>bs.
           BitStream_appendNum bs (MQRspec_lengthIndicator mode version) num)
      else bindM (BitStream_appendNum (bs_of []) 4 (of_nat (mode_id mode))) (\<lambda>bs.
           BitStream_appendNum bs (QRspec_lengthIndicator mode version) num))
    (Inr (bs_of (seg_header version mqr mode data)))"
proof -
  note nb = nbits_of_int [of _ "seg_count mode data"] nbits_of_int [of _ "mqr_mode_id mode"]
    nbits_of_int [of _ "mode_id mode"]
  show ?thesis
  proof (cases mqr)
    case True
    with assms(1) have "0 \<le> version - 1" "version - 1 \<le> 32"
      by (auto simp: mode_ok_def mqr_min_version_def split: QRencodeMode.splits)
    with header_runs [of "version - 1" "MQRspec_lengthIndicator mode version" "[]" "of_nat (mqr_mode_id mode)" num]
      MQR_lengthIndicator_bounds [of version mode] nb True assms
    show ?thesis by (simp add: seg_header_def)
  next
    case False
    with header_runs [of 4 "QRspec_lengthIndicator mode version" "[]" "of_nat (mode_id mode)" num]
      lengthIndicator_bounds [of mode version] nb assms
    show ?thesis by (simp add: seg_header_def)
  qed
qed

lemmas header_simps = mode_ok_def mqr_min_version_def mqr_mode_id_def mode_id_def mode_ids_def
  seg_count_def splittable_modes

lemma encodeMode8_acts:
  assumes "en_size entry = int (length (en_data entry))" and "mode_ok version mqr QR_MODE_8"
  shows "acts I (QRinput_encodeMode8 version mqr) entry (Inr ())
    (entry\<lparr>en_bstream := Some (bs_of (enc_seg version mqr QR_MODE_8 (en_data entry)))\<rparr>)"
  unfolding QRinput_encodeMode8_def
  apply (intro acts_get_then with_bstream_acts,
      rule runs_bind [where a = "bs_of (seg_header version mqr QR_MODE_8 (en_data entry))"])
  subgoal using seg_header_runs [OF assms(2) refl, of "en_data entry"] assms
    by (cases mqr) (simp_all add: header_simps)
  subgoal using appendBytes_runs [of "en_size entry" "en_data entry"] assms(1)
    by (simp add: enc_seg_def payload_def)
  done

lemma encodeModeAn_acts:
  assumes "en_size entry = int (length (en_data entry))" and "mode_ok version mqr QR_MODE_AN"
  shows "acts I (QRinput_encodeModeAn version mqr) entry (Inr ())
    (entry\<lparr>en_bstream := Some (bs_of (enc_seg version mqr QR_MODE_AN (en_data entry)))\<rparr>)"
  unfolding QRinput_encodeModeAn_def Let_def
  apply (intro acts_get_then with_bstream_acts,
      rule runs_bind [where a = "bs_of (seg_header version mqr QR_MODE_AN (en_data entry))"])
  subgoal using seg_header_runs [OF assms(2) refl, of "en_data entry"] assms
    by (cases mqr) (simp_all add: header_simps)
  apply (rule runs_bind, rule appendNums_runs)
    apply (simp_all add: assms(1) enc_seg_def payload_def)
  by (auto simp: enc_an_loop delivers_runs delivers_ret intro: appendNum_to)

lemma encodeModeKanji_acts:
  assumes "en_size entry = int (length (en_data entry))" and "mode_ok version mqr QR_MODE_KANJI"
    and "even (length (en_data entry))"
  shows "acts I (QRinput_encodeModeKanji version mqr) entry (Inr ())
    (entry\<lparr>en_bstream := Some (bs_of (enc_seg version mqr QR_MODE_KANJI (en_data entry)))\<rparr>)"
  unfolding QRinput_encodeModeKanji_def Let_def
  apply (intro acts_get_then with_bstream_acts,
      rule runs_bind [where a = "bs_of (seg_header version mqr QR_MODE_KANJI (en_data entry))"])
  subgoal using seg_header_runs [OF assms(2) refl, of "en_data entry"] assms
    by (cases mqr) (simp_all add: header_simps sdiv_nonneg zdiv_int)
  subgoal using assms(1,3) appendNums_runs [of 13]
    by (auto simp add: enc_seg_def payload_def enc_kanji_loop elim!: evenE)
  done

lemma encodeModeNum_acts:
  assumes "en_size entry = int (length (en_data entry))" and "mode_ok version mqr QR_MODE_NUM"
  shows "acts I (QRinput_encodeModeNum version mqr) entry (Inr ())
    (entry\<lparr>en_bstream := Some (bs_of (enc_seg version mqr QR_MODE_NUM (en_data entry)))\<rparr>)"
  unfolding QRinput_encodeModeNum_def Let_def
  apply (intro acts_get_then with_bstream_acts,
      rule runs_bind [where a = "bs_of (seg_header version mqr QR_MODE_NUM (en_data entry))"])
  subgoal using seg_header_runs [OF assms(2) refl, of "en_data entry"] assms
    by (cases mqr; cases "version = 1") (simp_all add: header_simps BitStream_appendNum_def)
  apply (rule runs_bind, rule appendNums_runs)
    apply (simp_all add: assms(1) enc_seg_def payload_def)
  by (auto simp: rest_3 enc_num_loop intro!: appendNum_to runs_bind runs_try delivers_runs [OF delivers_ret_eq])

lemma encodeModeStructure_acts:
  assumes "length (en_data entry) = 3" and "1 \<le> en_data entry ! 0" and "1 \<le> en_data entry ! 1"
  shows "acts I (QRinput_encodeModeStructure False) entry (Inr ())
    (entry\<lparr>en_bstream := Some (bs_of (enc_seg version False QR_MODE_STRUCTURE (en_data entry)))\<rparr>)"
proof -
  have minus: "unat (ucast c - 1 :: u32) = unat c - 1" if "1 \<le> c" for c :: u8
    using that by (subst unat_sub) (simp_all add: word_le_nat_alt)
  show ?thesis
    unfolding QRinput_encodeModeStructure_def
    using assms minus
    by (auto simp: enc_seg_def seg_header_def payload_def mode_id_def mode_ids_def QRspec_lengthIndicator_def
        splittable_modes intro!: acts_get_then with_bstream_acts runs_bind appendNum_runs appendNum_to)
qed

lemma encodeModeFNC1Second_acts:
  assumes "length (en_data entry) = 1"
  shows "acts I QRinput_encodeModeFNC1Second entry (Inr ())
    (entry\<lparr>en_bstream := Some (bs_of (enc_seg version False QR_MODE_FNC1SECOND (en_data entry)))\<rparr>)"
proof -
  have "runs I (BitStream_appendBytes (bs_of (nbits 4 9)) 1 (en_data entry))
      (Inr (bs_of (nbits 4 9 @ bytes_bits (take (nat 1) (en_data entry)))))"
    by (rule appendBytes_runs) (simp_all add: assms)
  then show ?thesis
    unfolding QRinput_encodeModeFNC1Second_def
    by (auto simp: enc_seg_def seg_header_def payload_def mode_id_def mode_ids_def QRspec_lengthIndicator_def
        splittable_modes intro!: acts_get_then with_bstream_acts runs_bind appendNum_runs)
qed

lemma encodeModeECI_acts:
  "acts I QRinput_encodeModeECI entry (Inr ())
    (entry\<lparr>en_bstream := Some (bs_of (enc_seg version False QR_MODE_ECI (en_data entry)))\<rparr>)"
proof -
  obtain w c where e: "eci_words (QRinput_decodeECIfromByteArray (en_data entry)) = (w, c)" by fastforce
  then have "0 \<le> w * 8" "w * 8 \<le> 32" by (auto simp: eci_words_def split: if_splits)
  from header_runs [OF _ _ this, of 4 "[]" 7 c] show ?thesis
    by (auto simp: QRinput_encodeModeECI_def e enc_seg_def seg_header_def payload_def mode_id_def mode_ids_def
        QRspec_lengthIndicator_def splittable_modes intro!: acts_get_then with_bstream_acts)
qed

end

text \<open>
  An entry that the library can encode: its data has the size that is recorded, and passes the
  check of its mode; a header has the bytes that the encoder reads.
\<close>

definition entry_ok :: "QRinput_List \<Rightarrow> bool" where
  "entry_ok e \<longleftrightarrow> en_size e = int (length (en_data e)) \<and> QRinput_check (en_mode e) (en_size e) (en_data e) \<and>
     (en_mode e = QR_MODE_STRUCTURE \<longrightarrow>
        length (en_data e) = 3 \<and> 1 \<le> en_data e ! 0 \<and> 1 \<le> en_data e ! 1) \<and>
     (en_mode e = QR_MODE_ECI \<longrightarrow> length (en_data e) = 4)"

lemma entry_ok_update [simp]: "entry_ok (e\<lparr>en_bstream := b\<rparr>) = entry_ok e"
  by (simp add: entry_ok_def)

lemma QRinput_check_pos: "QRinput_check mode sz data \<Longrightarrow> 0 < sz"
  by (auto simp: QRinput_check_def split: if_splits)

lemma check_take:
  assumes "QRinput_check mode sz data" and "0 < n" "n \<le> sz"
    and "QRinput_isSplittableMode mode" and "mode = QR_MODE_KANJI \<longrightarrow> even n"
  shows "QRinput_check mode n data"
  using assms
  by (auto simp: QRinput_check_def splittable_modes QRinput_checkModeNum_def QRinput_checkModeAn_def
      QRinput_checkModeKanji_def list_all_iff Let_def elim!: evenE split: if_splits)

lemma check_prefix [simp]: "QRinput_check mode sz (take (nat sz) data) = QRinput_check mode sz data"
proof -
  have "2 * k < nat sz" "Suc (2 * k) < nat sz" if "k < nat sz div 2" for k using that by auto
  then show ?thesis
    by (auto simp: QRinput_check_def QRinput_checkModeNum_def QRinput_checkModeAn_def QRinput_checkModeKanji_def
        QRinput_checkModeFNC1Second_def list_all_iff Let_def split: QRencodeMode.splits)
qed

lemma checkModeKanji_drop:
  assumes "QRinput_checkModeKanji sz data" and "0 \<le> n" "n < sz" and "nat sz \<le> length data" and "even n"
  shows "QRinput_checkModeKanji (sz - n) (drop (nat n) data)"
proof -
  define P where "P c d \<longleftrightarrow> (let val = kanji_val c d
    in \<not> (val < 0x8140 \<or> (val > 0x9ffc \<and> val < 0xe040) \<or> val > 0xebbf))" for c d
  have kanji: "QRinput_checkModeKanji s ds \<longleftrightarrow> even s \<and> (\<forall>k < nat s div 2. P (ds ! (2 * k)) (ds ! (2 * k + 1)))" for s ds
    by (auto simp: QRinput_checkModeKanji_def list_all_iff P_def)
  obtain b where n: "n = 2 * int b" using assms(2,5) by (auto elim!: evenE intro: that [of "nat _"])
  have "P (drop (nat n) data ! (2 * k)) (drop (nat n) data ! (2 * k + 1))" if "k < nat (sz - n) div 2" for k
  proof -
    have "drop (nat n) data ! (2 * k) = data ! (2 * (k + b))"
      "drop (nat n) data ! (2 * k + 1) = data ! (2 * (k + b) + 1)" "k + b < nat sz div 2"
      using that assms(3,4) by (simp_all add: n algebra_simps nat_mult_distrib)
    moreover have "P (data ! (2 * (k + b))) (data ! (2 * (k + b) + 1))" if "k + b < nat sz div 2"
      using assms(1) that unfolding kanji by blast
    ultimately show ?thesis by simp
  qed
  with assms(1,5) show ?thesis unfolding kanji by simp
qed

lemma check_drop:
  assumes "QRinput_check mode sz data" and "0 \<le> n" "n < sz" and "nat sz \<le> length data"
    and "QRinput_isSplittableMode mode" and "mode = QR_MODE_KANJI \<longrightarrow> even n"
  shows "QRinput_check mode (sz - n) (drop (nat n) data)"
  using assms checkModeKanji_drop [of sz data n]
  by (auto simp: QRinput_check_def splittable_modes QRinput_checkModeNum_def QRinput_checkModeAn_def
      list_all_iff split: if_splits)

subsection \<open>Encoding in parts\<close>

fun chunks :: "nat \<Rightarrow> 'a list \<Rightarrow> 'a list list" where
  "chunks n xs = (if n = 0 \<or> length xs \<le> n then [xs] else take n xs # chunks n (drop n xs))"

declare chunks.simps [simp del]

definition enc_entry :: "int \<Rightarrow> bool \<Rightarrow> QRencodeMode \<Rightarrow> u8 list \<Rightarrow> u8 list" where
  "enc_entry version mqr mode data =
     concat (map (enc_seg version mqr mode) (chunks (nat (QRspec_maximumWords mode version)) data))"

lemma even_maximumWords: "mode = QR_MODE_KANJI \<longrightarrow> even (QRspec_maximumWords mode version)"
  by (simp add: QRspec_maximumWords_def Let_def)

lemma maximumWords_splittable: "QRspec_maximumWords mode version \<noteq> 0 \<Longrightarrow> QRinput_isSplittableMode mode"
  by (rule ccontr) (simp add: QRspec_maximumWords_def)

context heap_invariant
begin

lemma QRinput_List_newEntry_delivers:
  "QRinput_check mode sz data \<Longrightarrow> sz \<le> int (length data) \<Longrightarrow>
     delivers I (QRinput_List_newEntry mode sz data) (Inr (new_entry mode sz data))"
  using QRinput_check_pos [of mode sz data]
  by (auto simp: QRinput_List_newEntry_def intro!: malloc_then delivers_ret_eq simp del: retM_apply)

lemma QRinput_List_newEntry_rejects:
  "\<not> QRinput_check mode sz data \<Longrightarrow> delivers I (QRinput_List_newEntry mode sz data) (Inl EINVAL)"
  by (auto simp: QRinput_List_newEntry_def intro!: delivers_fail)

lemma append_bstream_acts:
  "en_bstream entry = Some (bs_of xs) \<Longrightarrow> acts I (append_bstream (Some (bs_of ys))) entry (Inr ())
     (entry\<lparr>en_bstream := Some (bs_of (xs @ ys))\<rparr>)"
  unfolding append_bstream_def
  by (auto intro!: acts_get_then acts_put acts_lift_then [OF delivers_runs [OF BitStream_append_delivers]])

lemma bstream_size_acts:
  "en_bstream entry = Some (bs_of xs) \<Longrightarrow> acts I bstream_size entry (Inr (int (length xs))) entry"
  unfolding bstream_size_def by (auto intro!: acts_get_then acts_ret)

lemma encode_mode_acts:
  assumes "entry_ok entry" and "mode_ok version mqr (en_mode entry)"
  shows "acts I (encode_mode (en_mode entry) version mqr) entry (Inr ())
    (entry\<lparr>en_bstream := Some (bs_of (enc_seg version mqr (en_mode entry) (en_data entry)))\<rparr>)"
proof -
  have size: "en_size entry = int (length (en_data entry))" using assms(1) by (simp add: entry_ok_def)
  have kanji: "even (length (en_data entry))" if "en_mode entry = QR_MODE_KANJI"
    using assms(1) that by (auto simp: entry_ok_def QRinput_check_def QRinput_checkModeKanji_def split: if_splits)
  have fnc1: "length (en_data entry) = 1" if "en_mode entry = QR_MODE_FNC1SECOND"
    using assms(1) that by (auto simp: entry_ok_def QRinput_check_def QRinput_checkModeFNC1Second_def split: if_splits)
  show ?thesis
    using assms size kanji fnc1
      encodeModeNum_acts [of entry version mqr] encodeModeAn_acts [of entry version mqr]
      encodeMode8_acts [of entry version mqr] encodeModeKanji_acts [of entry version mqr]
      encodeModeStructure_acts [of entry version] encodeModeECI_acts [of entry version]
      encodeModeFNC1Second_acts [of entry version]
    by (cases "en_mode entry") (auto simp: encode_mode_def mode_ok_def mode_ids_def splittable_modes entry_ok_def)
qed

lemma encodeBitStream_actsI:
  assumes "acts I g (entry\<lparr>en_bstream := None\<rparr>) r y"
    and "\<And>s. encodeBitStream entry version mqr s = g (entry\<lparr>en_bstream := None\<rparr>, s)"
  shows "acts I (QRinput_encodeBitStream version mqr) entry r y"
  using assms by (simp add: acts_def QRinput_encodeBitStream_def)

lemma encodeBitStream_acts:
  assumes "entry_ok entry" and "mode_ok version mqr (en_mode entry)"
  shows "acts I (QRinput_encodeBitStream version mqr) entry
    (Inr (int (length (enc_entry version mqr (en_mode entry) (en_data entry)))))
    (entry\<lparr>en_bstream := Some (bs_of (enc_entry version mqr (en_mode entry) (en_data entry)))\<rparr>)"
  using assms
proof (induction "nat (en_size entry)" arbitrary: entry rule: less_induct)
  case (less entry)
  define words where "words = QRspec_maximumWords (en_mode entry) version"
  define e0 where "e0 = entry\<lparr>en_bstream := None\<rparr>"
  have size: "en_size entry = int (length (en_data entry))" and check: "QRinput_check (en_mode entry) (en_size entry) (en_data entry)"
    using less.prems unfolding entry_ok_def by blast+
  show ?case
  proof (cases "words \<noteq> 0 \<and> en_size entry > words")
    case False
    then have "chunks (nat words) (en_data entry) = [en_data entry]"
      using QRspec_maximumWords_pos [of "en_mode entry" version]
      by (subst chunks.simps) (auto simp: words_def size)
    then have enc: "enc_entry version mqr (en_mode entry) (en_data entry)
        = enc_seg version mqr (en_mode entry) (en_data entry)"
      by (simp add: enc_entry_def words_def)
    have "acts I (bindM (encode_mode (en_mode e0) version mqr) (\<lambda>_. bstream_size)) e0
       (Inr (int (length (enc_seg version mqr (en_mode e0) (en_data e0)))))
       (e0\<lparr>en_bstream := Some (bs_of (enc_seg version mqr (en_mode e0) (en_data e0)))\<rparr>)"
      using less.prems by (intro acts_bind [OF encode_mode_acts] bstream_size_acts) (simp_all add: e0_def)
    then show ?thesis
      by (intro encodeBitStream_actsI [where g = "bindM (encode_mode (en_mode e0) version mqr) (\<lambda>_. bstream_size)"])
        (simp add: e0_def enc, subst encodeBitStream.simps, use False in \<open>auto simp: e0_def words_def Let_def\<close>)
  next
    case True
    then have pos: "0 < words" using QRspec_maximumWords_pos [of "en_mode entry" version] by (simp add: words_def)
    have split: "QRinput_isSplittableMode (en_mode entry)" "en_mode entry = QR_MODE_KANJI \<longrightarrow> even words"
      using True maximumWords_splittable even_maximumWords by (auto simp: words_def)
    define st1 where "st1 = new_entry (en_mode entry) words (en_data entry)"
    define st2 where "st2 = new_entry (en_mode entry) (en_size entry - words) (drop (nat words) (en_data entry))"
    have c1: "QRinput_check (en_mode entry) words (en_data entry)"
      using check_take [OF check pos _ split] True by simp
    have c2: "QRinput_check (en_mode entry) (en_size entry - words) (drop (nat words) (en_data entry))"
      using check_drop [OF check _ _ _ split] True pos size by simp
    have l1: "words \<le> int (length (en_data entry))"
      and l2: "en_size entry - words \<le> int (length (drop (nat words) (en_data entry)))"
      using True pos size by auto
    have d1: "en_data st1 = take (nat words) (en_data entry)" "en_mode st1 = en_mode entry" "en_size st1 = words"
      and d2: "en_data st2 = drop (nat words) (en_data entry)" "en_mode st2 = en_mode entry" "en_size st2 = en_size entry - words"
      using True size by (simp_all add: st1_def st2_def new_entry_def)
    have ok: "entry_ok st1" "entry_ok st2"
      using c1 c2 split pos True size by (auto simp: entry_ok_def d1 d2 splittable_modes nat_diff_distrib')
    define x1 where "x1 = enc_entry version mqr (en_mode entry) (take (nat words) (en_data entry))"
    define x2 where "x2 = enc_entry version mqr (en_mode entry) (drop (nat words) (en_data entry))"
    have a1: "acts I (\<lambda>(_, s). encodeBitStream st1 version mqr s) st1 (Inr (int (length x1)))
        (st1\<lparr>en_bstream := Some (bs_of x1)\<rparr>)"
      using less.hyps [of st1] ok(1) less.prems(2) True pos d1
      by (simp add: acts_def QRinput_encodeBitStream_def x1_def)
    have a2: "acts I (\<lambda>(_, s). encodeBitStream st2 version mqr s) st2 (Inr (int (length x2)))
        (st2\<lparr>en_bstream := Some (bs_of x2)\<rparr>)"
      using less.hyps [of st2] ok(2) less.prems(2) True pos d2
      by (simp add: acts_def QRinput_encodeBitStream_def x2_def)
    let ?g = "bindM (lift (QRinput_List_newEntry (en_mode entry) words (en_data entry))) (\<lambda>_.
       bindM (lift (QRinput_List_newEntry (en_mode entry) (en_size entry - words)
                         (drop (nat words) (en_data entry)))) (\<lambda>_.
       bindM (call (\<lambda>(_, s). encodeBitStream st1 version mqr s) st1) (\<lambda>(_, st1).
       bindM (call (\<lambda>(_, s). encodeBitStream st2 version mqr s) st2) (\<lambda>(_, st2).
       bindM (lift BitStream_new) (\<lambda>b.
       bindM (putO (e0\<lparr>en_bstream := Some b\<rparr>)) (\<lambda>_.
       bindM (append_bstream (en_bstream st1)) (\<lambda>_.
       bindM (append_bstream (en_bstream st2)) (\<lambda>_.
       bstream_size))))))))"
    have "acts I ?g e0 (Inr (int (length (x1 @ x2)))) (e0\<lparr>en_bstream := Some (bs_of (x1 @ x2))\<rparr>)"
      apply (rule acts_lift_then [OF delivers_runs [OF QRinput_List_newEntry_delivers [OF c1 l1]]])
      apply (rule acts_lift_then [OF delivers_runs [OF QRinput_List_newEntry_delivers [OF c2 l2]]])
      apply (rule acts_call_then [OF a1], simp)
      apply (rule acts_call_then [OF a2], simp)
      apply (rule acts_lift_then [OF delivers_runs [OF BitStream_new_delivers]])
      apply (rule acts_put_then)
      apply (rule acts_bind [OF append_bstream_acts], simp)
      apply (rule acts_bind [OF append_bstream_acts], simp)
      using bstream_size_acts [of "e0\<lparr>en_bstream := Some (bs_of (x1 @ x2))\<rparr>" "x1 @ x2"] by simp
    moreover have "enc_entry version mqr (en_mode entry) (en_data entry) = x1 @ x2"
    proof -
      have "chunks (nat words) (en_data entry) =
          chunks (nat words) (take (nat words) (en_data entry)) @ chunks (nat words) (drop (nat words) (en_data entry))"
        using True pos size by (subst (1 2) chunks.simps) auto
      then show ?thesis by (simp add: x1_def x2_def enc_entry_def words_def)
    qed
    ultimately show ?thesis
      by (intro encodeBitStream_actsI [where g = ?g], simp add: e0_def)
        (subst encodeBitStream.simps, use True in \<open>simp add: e0_def Let_def words_def st1_def st2_def\<close>)
  qed
qed

end

end
