(* ===== verification/RS_Correct.thy ===== *)
theory RS_Correct
  imports RScode GF256
begin

text \<open>
  Correctness of the Reed-Solomon codec: the table-driven arithmetic of \<^verbatim>\<open>rscode.c\<close> is the
  arithmetic of the reference field, the generator polynomial it builds is the product of
  the linear factors of its roots, and every block it encodes is a codeword: the polynomial
  of the data followed by the parity bytes vanishes at every root of the generator.
\<close>

subsection \<open>Reduction modulo \<open>nn\<close>\<close>

lemma modnn_fold_less:
  fixes y :: int
  assumes "0 < m" and "0 \<le> y"
  defines "nn \<equiv> 2 ^ m - 1 :: int"
  shows "0 \<le> drop_bit m y + (y AND nn)" and "drop_bit m y + (y AND nn) \<le> y"
    and "(drop_bit m y + (y AND nn)) mod nn = y mod nn"
proof -
  have a: "y AND nn = y mod 2 ^ m"
    by (simp add: nn_def take_bit_eq_mod [symmetric] take_bit_eq_mask mask_eq_exp_minus_1)
  have d: "drop_bit m y = y div 2 ^ m" by (simp add: drop_bit_eq_div)
  have y: "y = (y div 2 ^ m) * nn + (y div 2 ^ m + y mod 2 ^ m)"
    using div_mult_mod_eq [of y "2 ^ m"] by (simp add: nn_def algebra_simps)
  have q: "0 \<le> y div 2 ^ m" using assms by (simp add: pos_imp_zdiv_nonneg_iff)
  have nn: "0 \<le> nn" by (simp add: nn_def)
  show "0 \<le> drop_bit m y + (y AND nn)" using q a d by simp
  have "0 \<le> (y div 2 ^ m) * nn" using q nn by simp
  with y show "drop_bit m y + (y AND nn) \<le> y" unfolding a d by linarith
  show "(drop_bit m y + (y AND nn)) mod nn = y mod nn"
    unfolding a d using y by (metis mod_mult_self3)
qed

lemma modnn_eq:
  assumes "0 < mm" and "nn = 2 ^ nat mm - 1" and "0 \<le> x"
  shows "modnn nn mm x = x mod nn"
proof -
  have nn: "0 < nn" using assms by simp
  note step = modnn_fold_less [of "nat mm", folded assms(2)]
  show ?thesis unfolding modnn_def
  proof (rule while_rule [where P = "\<lambda>y. 0 \<le> y \<and> y mod nn = x mod nn" and r = "measure nat"])
    fix y assume y: "0 \<le> y \<and> y mod nn = x mod nn" and "nn \<le> y"
    then have "0 \<le> y - nn" by simp
    note s = step [OF _ this]
    show "0 \<le> (let x = y - nn in drop_bit (nat mm) x + (x AND nn)) \<and>
        (let x = y - nn in drop_bit (nat mm) x + (x AND nn)) mod nn = x mod nn"
      using s y assms(1) by (simp add: Let_def)
    show "(let x = y - nn in drop_bit (nat mm) x + (x AND nn), y) \<in> measure nat"
      using s(2) \<open>nn \<le> y\<close> nn assms(1) by (simp add: Let_def)
  qed (use assms nn in \<open>auto simp: mod_pos_pos_trivial\<close>)
qed

subsection \<open>The tables\<close>

lemma sr_step_xt: "sr_step 8 0x11d (uint x) = uint (xt x)"
proof -
  have "list_all (\<lambda>n. sr_step 8 0x11d (int n) = uint (xt (of_nat n))) [0..<256]"
    by code_simp
  then have "\<forall>n\<in>set [0..<256]. sr_step 8 0x11d (int n) = uint (xt (of_nat n))"
    by (simp only: list_all_iff)
  then have "sr_step 8 0x11d (int (unat x)) = uint (xt (of_nat (unat x)))"
    by (rule bspec) simp
  then show ?thesis by simp
qed

text \<open>What a pair of arrays must hold to serve as the logarithm tables of the field.\<close>

definition gf_tables_ok :: "u8 list \<Rightarrow> u8 list \<Rightarrow> bool" where
  "gf_tables_ok al ix \<longleftrightarrow> length al = 256 \<and> length ix = 256 \<and>
     (\<forall>i < 255. al ! i = alpha i) \<and> al ! 255 = 0 \<and>
     (\<forall>i < 255. ix ! unat (alpha i) = of_nat i) \<and> ix ! 0 = 255"

lemma gf_tables_upto:
  fixes a0 i0 :: "u8 list"
  assumes "length a0 = 256" and "length i0 = 256" and "k \<le> 255"
  shows "\<exists>al ix. foldl (\<lambda>(al, ix, sr) i.
             (al[i := of_int sr], ix[nat sr := of_nat i], sr_step 8 0x11d sr))
           (a0[255 := 0], i0[0 := 255], 1) [0..<k] = (al, ix, uint (alpha k)) \<and>
     length al = 256 \<and> length ix = 256 \<and> (\<forall>i < k. al ! i = alpha i) \<and> al ! 255 = 0 \<and>
     (\<forall>i < k. ix ! unat (alpha i) = of_nat i) \<and> ix ! 0 = 255"
  using assms(3)
proof (induction k)
  case 0
  then show ?case using assms by simp
next
  case (Suc k)
  then obtain al ix where IH: "foldl (\<lambda>(al, ix, sr) i.
             (al[i := of_int sr], ix[nat sr := of_nat i], sr_step 8 0x11d sr))
           (a0[255 := 0], i0[0 := 255], 1) [0..<k] = (al, ix, uint (alpha k))"
    "length al = 256" "length ix = 256" "\<forall>i < k. al ! i = alpha i" "al ! 255 = 0"
    "\<forall>i < k. ix ! unat (alpha i) = of_nat i" "ix ! 0 = 255"
    by auto
  have ne: "\<forall>i < k. unat (alpha k) \<noteq> unat (alpha i)"
  proof (intro allI impI notI)
    fix i assume "i < k" and "unat (alpha k) = unat (alpha i)"
    then have "alpha k = alpha i" by (simp add: word_unat_eq_iff)
    with alpha_inj [of k i] \<open>i < k\<close> Suc.prems show False by simp
  qed
  have "unat (alpha k) \<noteq> 0" by (simp add: unat_eq_0)
  then show ?case using IH ne Suc.prems
    by (auto simp: alpha_Suc sr_step_xt nth_list_update less_Suc_eq)
qed

lemma gf_tables_correct:
  assumes "length a0 = 256" and "length i0 = 256"
  shows "\<exists>al ix. gf_tables 8 0x11d a0 i0 = (al, ix, 1) \<and> gf_tables_ok al ix"
  using gf_tables_upto [OF assms, of 255]
  by (auto simp: gf_tables_def gf_tables_ok_def alpha_255)

lemma table_mult:
  assumes "gf_tables_ok al ix" and "v \<noteq> 0" and "0 \<le> r"
  shows "al ! nat (modnn 255 8 (uint (ix ! unat v) + r)) = gmul v (alpha (nat r))"
proof -
  obtain i where i: "i < 255" "v = alpha i" using alpha_surj assms(2) by blast
  have "uint (ix ! unat v) = int i"
    using assms(1) i by (simp add: gf_tables_ok_def unsigned_of_nat take_bit_eq_mod)
  moreover have "nat ((int i + r) mod 255) = (i + nat r) mod 255"
    using assms(3) by (simp add: nat_mod_distrib nat_add_distrib)
  ultimately show ?thesis using assms i
    by (simp add: modnn_eq gf_tables_ok_def alpha_mod gmul_alpha)
qed

subsection \<open>Polynomials over the field\<close>

text \<open>Evaluation of a list of coefficients, lowest degree first and highest degree first.\<close>

fun leval :: "u8 \<Rightarrow> u8 list \<Rightarrow> u8" where
  "leval x [] = 0"
| "leval x (c # cs) = c XOR gmul x (leval x cs)"

definition gf_eval :: "u8 \<Rightarrow> u8 list \<Rightarrow> u8" where
  "gf_eval x cs = foldl (\<lambda>acc c. gmul acc x XOR c) 0 cs"

fun gpow :: "u8 \<Rightarrow> nat \<Rightarrow> u8" where
  "gpow x 0 = 1"
| "gpow x (Suc n) = gmul x (gpow x n)"

lemma gmul_1_right [simp]: "gmul x 1 = x"
  by (simp add: gmul_commute)

lemma gmul_left_commute: "gmul a (gmul b c) = gmul b (gmul a c)"
  by (metis gmul_assoc gmul_commute)

lemmas gmul_ac = gmul_assoc gmul_commute gmul_left_commute

lemma leval_append: "leval x (xs @ ys) = leval x xs XOR gmul (gpow x (length xs)) (leval x ys)"
  by (induction xs) (simp_all add: gf_linear gmul_assoc ac_simps)

lemma gf_eval_leval: "gf_eval x cs = leval x (rev cs)"
proof -
  have "foldl (\<lambda>acc c. gmul acc x XOR c) a cs = leval x (rev cs @ [a])" for a
    by (induction cs arbitrary: a)
      (simp_all add: leval_append gf_linear gmul_assoc gmul_commute [of x] ac_simps)
  from this [of 0] show ?thesis by (simp add: gf_eval_def leval_append)
qed

lemma leval_map2:
  "length xs = length ys \<Longrightarrow> leval x (map2 (XOR) xs ys) = leval x xs XOR leval x ys"
  by (induction xs ys rule: list_induct2) (simp_all add: gf_linear ac_simps)

lemma leval_scale: "leval x (map (gmul c) ys) = gmul c (leval x ys)"
  by (induction ys) (simp_all add: gf_linear gmul_assoc [symmetric] gmul_commute)

text \<open>
  The generator polynomial by its definition: the product of the factors \<open>x + alpha i\<close>,
  coefficients from the lowest degree.
\<close>

definition mulroot :: "u8 \<Rightarrow> u8 list \<Rightarrow> u8 list" where
  "mulroot a p = map2 (XOR) (0 # p) (map (gmul a) p @ [0])"

fun generator :: "nat \<Rightarrow> u8 list" where
  "generator 0 = [1]"
| "generator (Suc n) = mulroot (alpha n) (generator n)"

lemma length_mulroot [simp]: "length (mulroot a p) = Suc (length p)"
  by (simp add: mulroot_def)

lemma length_generator [simp]: "length (generator n) = Suc n"
  by (induction n) simp_all

lemma leval_mulroot: "leval x (mulroot a p) = gmul (x XOR a) (leval x p)"
  by (simp add: mulroot_def leval_map2 leval_append leval_scale gf_linear)

lemma generator_root: "i < n \<Longrightarrow> leval (alpha i) (generator n) = 0"
  by (induction n) (auto simp: leval_mulroot less_Suc_eq)

lemma mulroot_nth:
  "j < Suc (length p) \<Longrightarrow> mulroot a p ! j =
     (if j = 0 then 0 else p ! (j - 1)) XOR (if j < length p then gmul a (p ! j) else 0)"
  by (cases j) (auto simp: mulroot_def nth_append)

lemma generator_monic: "generator n ! n = 1"
  by (induction n) (simp_all add: mulroot_nth)

lemma generator_0: "generator n ! 0 \<noteq> 0"
  by (induction n) (simp_all add: mulroot_nth gmul_eq_0)

lemma generator_split: "generator n = take n (generator n) @ [1]"
  using take_Suc_conv_app_nth [of n "generator n"] by (simp add: generator_monic)

lemma generator_power: "i < n \<Longrightarrow> leval (alpha i) (take n (generator n)) = gpow (alpha i) n"
  using generator_root [of i n] leval_append [of "alpha i" "take n (generator n)" "[1]"]
  by (simp add: generator_split [symmetric] xor_eq_0)

subsection \<open>The generator polynomial of the codec\<close>

lemma genpoly_inner_length [simp]: "length (genpoly_inner f i g) = length g"
  by (induction f i g rule: genpoly_inner.induct) simp_all

lemma genpoly_inner_nth:
  assumes "i < length g" and "j < length g"
  shows "genpoly_inner f i g ! j =
    (if 1 \<le> j \<and> j \<le> i then (if g ! j \<noteq> 0 then g ! (j - 1) XOR f (g ! j) else g ! (j - 1)) else g ! j)"
  using assms
proof (induction f i g rule: genpoly_inner.induct)
  case (2 f i g)
  then show ?case by (cases "j = Suc i") (auto simp: nth_list_update le_Suc_eq)
qed auto

lemma genpoly_step:
  assumes "length g = Suc n" and "i < n" and "take (Suc i) g = generator i"
    and mult: "\<And>v. v \<noteq> 0 \<Longrightarrow> f v = gmul v (alpha i)"
  defines "g' \<equiv> genpoly_inner f i (g[i + 1 := 1])"
  shows "take (Suc (Suc i)) (g'[0 := f (g' ! 0)]) = generator (Suc i)"
proof (rule nth_equalityI)
  have gi: "g ! j = generator i ! j" if "j \<le> i" for j
    using assms(3) that by (metis le_imp_less_Suc nth_take)
  fix j assume "j < length (take (Suc (Suc i)) (g'[0 := f (g' ! 0)]))"
  then have j: "j \<le> Suc i" using assms by simp
  have g0: "generator i ! 0 \<noteq> 0" by (rule generator_0)
  show "take (Suc (Suc i)) (g'[0 := f (g' ! 0)]) ! j = generator (Suc i) ! j"
    using j assms(1,2) gi generator_monic [of i] g0
    by (auto simp: g'_def genpoly_inner_nth nth_list_update mulroot_nth mult gmul_commute ac_simps
        not_less_eq_eq le_Suc_eq)
qed (use assms in simp)

subsection \<open>No coefficient of the generator polynomial vanishes\<close>

text \<open>
  The encoder adds logarithms of coefficients without a test for zero. This is right because
  the coefficients are q-binomial coefficients: two recurrences for them, one from each end
  of the product, make neighbouring coefficients vanish together, and the leading one is 1.
\<close>

fun gc :: "nat \<Rightarrow> nat \<Rightarrow> u8" where
  "gc 0 j = (if j = 0 then 1 else 0)"
| "gc (Suc n) 0 = gmul (alpha n) (gc n 0)"
| "gc (Suc n) (Suc j) = gc n j XOR gmul (alpha n) (gc n (Suc j))"

lemma gc_beyond: "n < j \<Longrightarrow> gc n j = 0"
  by (induction n j rule: gc.induct) auto

lemma generator_nth: "j \<le> n \<Longrightarrow> generator n ! j = gc n j"
  by (induction n j rule: gc.induct) (auto simp: mulroot_nth gc_beyond)

lemma alpha_alpha: "gmul (alpha i) (gmul (alpha j) x) = gmul (alpha (i + j)) x"
  by (simp add: gmul_assoc [symmetric] gmul_alpha)

lemma gc_from_below:
  "gmul (alpha (Suc j)) (gc (Suc n) (Suc j)) =
     gmul (alpha (Suc n)) (gc n j) XOR gmul (alpha n) (gc n (Suc j))"
proof (induction n arbitrary: j)
  case (Suc n)
  have a: "gmul (alpha (Suc n)) (gmul (alpha (Suc j)) (gc (Suc n) (Suc j))) =
     gmul (alpha (Suc n)) (gmul (alpha (Suc n)) (gc n j) XOR gmul (alpha n) (gc n (Suc j)))"
    by (simp only: Suc.IH)
  show ?case
  proof (cases j)
    case 0
    then show ?thesis using a by (simp add: gf_linear alpha_alpha ac_simps)
  next
    case j: (Suc k)
    have b: "gmul (alpha 1) (gmul (alpha (Suc k)) (gc (Suc n) (Suc k))) =
       gmul (alpha 1) (gmul (alpha (Suc n)) (gc n k) XOR gmul (alpha n) (gc n (Suc k)))"
      by (simp only: Suc.IH)
    have "gmul (alpha (Suc j)) (gc (Suc (Suc n)) (Suc j)) =
       gmul (alpha 1) (gmul (alpha (Suc k)) (gc (Suc n) (Suc k))) XOR
       gmul (alpha (Suc n)) (gmul (alpha (Suc j)) (gc (Suc n) (Suc j)))"
      by (simp add: j gf_linear alpha_alpha ac_simps del: gc.simps(3)) (simp add: gf_linear alpha_alpha ac_simps j)
    also have "\<dots> = gmul (alpha (Suc (Suc n))) (gc (Suc n) j) XOR
       gmul (alpha (Suc n)) (gc (Suc n) (Suc j))"
      unfolding a b by (simp add: j gf_linear alpha_alpha ac_simps)
    finally show ?thesis .
  qed
qed simp

lemma gc_nonzero: "j \<le> n \<Longrightarrow> n < 255 \<Longrightarrow> gc n j \<noteq> 0"
proof (induction "n - j" arbitrary: j)
  case 0
  then show ?case using generator_nth [of n n] by (simp add: generator_monic)
next
  case (Suc d)
  then have next_nonzero: "gc n (Suc j) \<noteq> 0" by simp
  show ?case
  proof
    assume "gc n j = 0"
    with gc_from_below [of j n]
    have "gmul (alpha (Suc j + n)) (gc n (Suc j)) = gmul (alpha n) (gc n (Suc j))"
      by (simp add: alpha_alpha)
    then have "gmul (alpha n) (gmul (alpha (Suc j) XOR 1) (gc n (Suc j))) = 0"
      by (simp add: gf_linear alpha_alpha ac_simps)
    with next_nonzero have "alpha (Suc j) = 1" by (simp add: gmul_eq_0 xor_eq_0)
    moreover have "Suc j < 255" using Suc.prems Suc.hyps(2) by simp
    ultimately show False using alpha_not_1 [of "Suc j"] by simp
  qed
qed

lemma generator_nonzero: "j \<le> n \<Longrightarrow> n < 255 \<Longrightarrow> generator n ! j \<noteq> 0"
  by (simp add: generator_nth gc_nonzero)

subsection \<open>The control block of the QR code standard\<close>

text \<open>
  The state of a control block that the calls \<^verbatim>\<open>init_rs(8, 0x11d, 0, 1, nroots, pad)\<close> of the
  encoder rely on.
\<close>

definition rs_ok :: "nat \<Rightarrow> nat \<Rightarrow> RS \<Rightarrow> bool" where
  "rs_ok nroots pad rs \<longleftrightarrow>
     rs_mm rs = 8 \<and> rs_nn rs = 255 \<and> gf_tables_ok (rs_alpha_to rs) (rs_index_of rs) \<and>
     rs_genpoly rs = map (\<lambda>v. rs_index_of rs ! unat v) (generator nroots) \<and>
     rs_nroots rs = int nroots \<and> rs_pad rs = int pad"

lemma foldl_upt_invariant:
  assumes "P 0 a" and "\<And>i b. i < n \<Longrightarrow> P i b \<Longrightarrow> P (Suc i) (f b i)"
  shows "P n (foldl f a [0..<n])"
  using assms by (induction n) auto

lemma genpoly_loop_correct:
  assumes "gf_tables_ok (rs_alpha_to rs) (rs_index_of rs)" and "rs_mm rs = 8" and "rs_nn rs = 255"
    and "rs_fcr rs = 0" and "rs_prim rs = 1" and "rs_nroots rs = int n" and "length g0 = Suc n"
  shows "genpoly_loop rs g0 = generator n"
proof -
  have "length (genpoly_loop rs g0) = Suc n \<and> take (Suc n) (genpoly_loop rs g0) = generator n"
    unfolding genpoly_loop_def assms(6) nat_int
  proof (rule foldl_upt_invariant [where P = "\<lambda>i g. length g = Suc n \<and> take (Suc i) g = generator i"])
    show "length (g0[0 := 1]) = Suc n \<and> take (Suc 0) (g0[0 := 1]) = generator 0"
      using assms(7) by (cases g0) auto
  next
    fix i g assume "i < n" and g: "length g = Suc n \<and> take (Suc i) g = generator i"
    moreover have "genpoly_mult rs (int i) v = gmul v (alpha i)" if "v \<noteq> 0" for v
      using table_mult [OF assms(1) that, of "int i"] assms by (simp add: genpoly_mult_def)
    ultimately show "length (genpoly_round rs g i) = Suc n \<and>
        take (Suc (Suc i)) (genpoly_round rs g i) = generator (Suc i)"
      using assms genpoly_step [of g n i "genpoly_mult rs (int i)"]
      by (simp add: genpoly_round_def Let_def del: generator.simps)
  qed
  then show ?thesis by (metis order_refl take_all)
qed

subsection \<open>Encoding\<close>

lemma xor_loop_nth:
  assumes "length p = n" and "k \<le> n" and "j < n"
  shows "foldl (\<lambda>p j. p[j := p ! j XOR t j]) p [1..<k] ! j =
    (if 1 \<le> j \<and> j < k then p ! j XOR t j else p ! j)"
proof -
  have "length (foldl (\<lambda>p j. p[j := p ! j XOR t j]) p [1..<k]) = n \<and>
     (\<forall>j < n. foldl (\<lambda>p j. p[j := p ! j XOR t j]) p [1..<k] ! j =
       (if 1 \<le> j \<and> j < k then p ! j XOR t j else p ! j))"
    using assms(2)
  proof (induction k)
    case (Suc k)
    then show ?case using assms(1)
      by (cases "k = 0") (auto simp: nth_list_update less_Suc_eq)
  qed (use assms(1) in simp)
  with assms(3) show ?thesis by blast
qed

lemma xor_loop_length [simp]:
  "length (foldl (\<lambda>p j. p[j := p ! j XOR t j]) p xs) = length p"
  by (induction xs arbitrary: p) simp_all

lemma encode_rs_length:
  assumes "0 < n" and "length p = n"
  shows "length (encode_rs_step rs p d) = n"
  using assms by (auto simp: encode_rs_step_def Let_def split: if_split)

lemma rev_map2: "length xs = length ys \<Longrightarrow> rev (map2 f xs ys) = map2 f (rev xs) (rev ys)"
  by (simp add: rev_map zip_rev)

text \<open>One step of the encoder is one step of polynomial division by the generator.\<close>

lemma encode_rs_step_eq:
  assumes ok: "rs_ok n pad rs" and n: "0 < n" "n < 255" and p: "length p = n"
  shows "encode_rs_step rs p d =
    map2 (XOR) (tl p @ [0]) (map (gmul (d XOR p ! 0)) (rev (take n (generator n))))"
proof -
  define fb where "fb = d XOR p ! 0"
  have tabs: "gf_tables_ok (rs_alpha_to rs) (rs_index_of rs)" using ok by (simp add: rs_ok_def)
  show ?thesis
  proof (cases "fb = 0")
    case True
    then have "rs_index_of rs ! unat fb = 255" using tabs by (simp add: gf_tables_ok_def)
    then show ?thesis using ok True p n
      by (auto simp: encode_rs_step_def Let_def fb_def [symmetric] rs_ok_def map2_map_map
          zip_map2 split_def intro!: nth_equalityI)
  next
    case False
    then obtain i where i: "i < 255" "fb = alpha i" using alpha_surj by blast
    have ix: "uint (rs_index_of rs ! unat fb) = int i"
      using tabs i by (simp add: gf_tables_ok_def unsigned_of_nat take_bit_eq_mod)
    have tm: "rs_alpha_to rs ! nat (modnn 255 8
          (int i + uint (rs_index_of rs ! unat (generator n ! k)))) = gmul fb (generator n ! k)"
      if "k < n" for k
      using table_mult [OF tabs generator_nonzero, of k n "int i"] that n i
      by (simp add: gmul_commute add.commute)
    show ?thesis
    proof (rule nth_equalityI)
      fix j assume "j < length (encode_rs_step rs p d)"
      then have j: "j < n" using p n encode_rs_length by simp
      then show "encode_rs_step rs p d ! j = map2 (XOR) (tl p @ [0])
          (map (gmul (d XOR p ! 0)) (rev (take n (generator n)))) ! j"
        using ok p n ix i(1) tm xor_loop_nth [OF p order_refl, of "Suc j"]
        by (auto simp: encode_rs_step_def Let_def fb_def [symmetric] rs_ok_def nth_append
            nth_tl rev_nth)
    qed (use p n encode_rs_length in simp)
  qed
qed

lemma encode_rs_upto:
  assumes ok: "rs_ok n pad rs" and n: "0 < n" "n < 255" and "k \<le> length data" and i: "i < n"
  defines "par \<equiv> foldl (\<lambda>parity i. encode_rs_step rs parity (data ! i)) (replicate n 0) [0..<k]"
  shows "length par = n \<and> gf_eval (alpha i) (take k data @ par) = 0"
  unfolding par_def using assms(4)
proof (induction k)
  case 0
  have "leval x (replicate m 0) = 0" for x m by (induction m) simp_all
  then show ?case by (simp add: gf_eval_leval)
next
  case (Suc k)
  define p where "p = foldl (\<lambda>parity i. encode_rs_step rs parity (data ! i)) (replicate n 0) [0..<k]"
  define x where "x = alpha i"
  define d where "d = data ! k"
  define lo where "lo = take n (generator n)"
  have len: "length p = n" and IH: "gf_eval x (take k data @ p) = 0"
    using Suc by (auto simp: p_def x_def)
  then obtain p0 ps where p: "p = p0 # ps" and ps: "length ps = n - 1" using n by (cases p) auto
  have lo: "length lo = n" "leval x lo = gpow x n"
    using generator_power [OF i] by (simp_all add: lo_def x_def)
  have "gmul (gpow x n) (leval x (rev (take k data))) = leval x (rev p)"
    using IH len by (simp add: gf_eval_leval leval_append xor_eq_0)
  then have div: "gmul (gpow x n) (gmul x (leval x (rev (take k data)))) = gmul x (leval x (rev p))"
    by (metis gmul_left_commute)
  have shift: "leval x (rev p) = leval x (rev ps) XOR gmul (gpow x (n - 1)) p0"
    using ps by (simp add: p leval_append)
  have pow: "gpow x n = gmul x (gpow x (n - 1))" using n by (cases n) simp_all
  have "encode_rs_step rs p d = map2 (XOR) (ps @ [0]) (map (gmul (d XOR p0)) (rev lo))"
    using encode_rs_step_eq [OF ok n len, of d] by (simp add: p lo_def)
  then have "rev (encode_rs_step rs p d) =
      map2 (XOR) (rev (ps @ [0])) (rev (map (gmul (d XOR p0)) (rev lo)))"
    using ps lo n by (simp add: rev_map2)
  then have "rev (encode_rs_step rs p d) =
      map2 (XOR) (0 # rev ps) (map (gmul (d XOR p0)) lo)"
    by (simp add: rev_map [symmetric])
  then have "leval x (rev (encode_rs_step rs p d)) =
      gmul x (leval x (rev ps)) XOR gmul (d XOR p0) (gpow x n)"
    using ps lo n by (simp add: leval_map2 leval_scale)
  also have "\<dots> = gmul (gpow x n) (d XOR gmul x (leval x (rev (take k data))))"
    using div by (simp add: shift pow gf_linear gmul_ac ac_simps)
  finally have "gf_eval x (take (Suc k) data @ encode_rs_step rs p d) = 0"
    using Suc.prems encode_rs_length [of n p rs d] n len
    by (simp add: gf_eval_leval leval_append take_Suc_conv_app_nth d_def)
  then show ?case using encode_rs_length [of n p rs d] n len
    by (simp add: p_def d_def x_def)
qed

subsection \<open>The control block is built correctly\<close>

text \<open>What \<^verbatim>\<open>init_rs_char\<close> returns when no allocation fails.\<close>

definition rs_char_result :: "int \<Rightarrow> int \<Rightarrow> int \<Rightarrow> int \<Rightarrow> int \<Rightarrow> int \<Rightarrow> failure + RS" where
  "rs_char_result symsize gfpoly fcr prim nroots pad =
     fst (init_rs_char symsize gfpoly fcr prim nroots pad \<lparr>script = []\<rparr>)"

context heap_invariant
begin

lemma init_rs_char_delivers:
  "delivers I (init_rs_char symsize gfpoly fcr prim nroots pad)
     (rs_char_result symsize gfpoly fcr prim nroots pad)"
  unfolding rs_char_result_def init_rs_char_def
  by (auto simp: Let_def bindM_def split: prod.splits option.splits
      intro!: delivers_rules malloc_then [unfolded bindM_def])

end

lemma find_iprim_1: "find_iprim nn 1 = Some 1"
  by (simp add: find_iprim_def while_option_unfold)

lemma rs_char_result_fields:
  "rs_char_result symsize gfpoly fcr prim nroots pad = Inr rs \<Longrightarrow>
     rs_mm rs = symsize \<and> rs_gfpoly rs = gfpoly \<and> rs_fcr rs = fcr \<and> rs_prim rs = prim \<and>
     rs_nroots rs = nroots \<and> rs_pad rs = pad"
  by (auto simp: rs_char_result_def init_rs_char_def Let_def bindM_def
      split: if_splits prod.splits option.splits)

lemma rs_char_result_qr:
  assumes "n + pad < 255"
  shows "\<exists>rs. rs_char_result 8 0x11d 0 1 (int n) (int pad) = Inr rs \<and> rs_ok n pad rs"
proof -
  obtain al ix where t: "gf_tables 8 0x11d (0 # replicate 255 0) (0 # replicate 255 0) = (al, ix, 1)"
    and ok: "gf_tables_ok al ix"
    using gf_tables_correct [of "0 # replicate 255 0" "0 # replicate 255 0"] by auto
  show ?thesis using assms ok
    by (auto simp: rs_char_result_def init_rs_char_def Let_def bindM_def t find_iprim_1 rs_ok_def
        genpoly_loop_correct)
qed

subsection \<open>The cache of control blocks\<close>

text \<open>
  The contract of the cache, for an invariant of a heap that holds it: every cached block is
  the block that its own parameters give, and adding such a block or emptying the cache keeps
  the invariant. Under it, what the cache holds does not matter for the outcome of \<^verbatim>\<open>init_rs\<close>.
\<close>

locale rs_invariant = heap_invariant I for I :: "'z rs_heap_scheme \<Rightarrow> bool" +
  assumes cached: "I s \<Longrightarrow> rs \<in> set (rslist s) \<Longrightarrow>
      rs_char_result (rs_mm rs) (rs_gfpoly rs) (rs_fcr rs) (rs_prim rs) (rs_nroots rs) (rs_pad rs) = Inr rs"
    and add: "I s \<Longrightarrow>
      rs_char_result (rs_mm rs) (rs_gfpoly rs) (rs_fcr rs) (rs_prim rs) (rs_nroots rs) (rs_pad rs) = Inr rs \<Longrightarrow>
      I (s\<lparr>rslist := rs # rslist s\<rparr>)"
    and clear: "I s \<Longrightarrow> I (s\<lparr>rslist := []\<rparr>)"
begin

lemma init_rs_hit:
  assumes "find (\<lambda>rs. rs_pad rs = pad \<and> rs_nroots rs = nroots \<and> rs_mm rs = symsize \<and>
     rs_gfpoly rs = gfpoly \<and> rs_fcr rs = fcr \<and> rs_prim rs = prim) (rslist s) = Some rs" and "I s"
  shows "rs_char_result symsize gfpoly fcr prim nroots pad = Inr rs"
  using assms cached [of s rs] by (auto simp: find_Some_iff)

lemma init_rs_miss:
  "delivers I (bindM (init_rs_char symsize gfpoly fcr prim nroots pad)
     (\<lambda>rs s. (Inr rs, s\<lparr>rslist := rs # rslist s\<rparr>))) (rs_char_result symsize gfpoly fcr prim nroots pad)"
proof -
  let ?r = "rs_char_result symsize gfpoly fcr prim nroots pad"
  note build = init_rs_char_delivers [of symsize gfpoly fcr prim nroots pad]
  show ?thesis
  proof (cases ?r)
    case (Inl e)
    show ?thesis unfolding Inl by (rule delivers_bind_fail) (rule build [unfolded Inl])
  next
    case (Inr rs)
    then have "delivers I (\<lambda>s. (Inr rs, s\<lparr>rslist := rs # rslist s\<rparr>)) ?r"
      using rs_char_result_fields [OF Inr] by (auto simp: delivers_def add)
    with build show ?thesis unfolding Inr by (rule delivers_bind)
  qed
qed

lemma init_rs_delivers:
  "delivers I (init_rs symsize gfpoly fcr prim nroots pad) (rs_char_result symsize gfpoly fcr prim nroots pad)"
proof (rule delivers_cases)
  fix s assume s: "I s"
  let ?hit = "\<lambda>rs. rs_pad rs = pad \<and> rs_nroots rs = nroots \<and> rs_mm rs = symsize \<and>
     rs_gfpoly rs = gfpoly \<and> rs_fcr rs = fcr \<and> rs_prim rs = prim"
  show "\<exists>g. init_rs symsize gfpoly fcr prim nroots pad s = g s \<and>
      delivers I g (rs_char_result symsize gfpoly fcr prim nroots pad)"
  proof (cases "find ?hit (rslist s)")
    case None
    then show ?thesis by (intro exI conjI) (rule trans, simp add: init_rs_def, rule refl, rule init_rs_miss)
  next
    case (Some rs)
    with init_rs_hit [OF Some s] show ?thesis
      by (intro exI [of _ "retM rs"]) (simp add: init_rs_def delivers_ret)
  qed
qed

lemma free_rs_cache_delivers: "delivers I free_rs_cache (Inr ())"
  by (simp add: delivers_def free_rs_cache_def clear)

text \<open>
  What the encoder needs of the codec: whatever is in the cache, a call with the parameters
  of the standard gives a block that is right for \<open>n\<close> parity bytes.
\<close>

lemma init_rs_qr:
  assumes "n + pad < 255"
  obtains rs where "delivers I (init_rs 8 0x11d 0 1 (int n) (int pad)) (Inr rs)"
    and "rs_ok n pad rs"
  using rs_char_result_qr [OF assms] init_rs_delivers by metis

end

definition rs_cache_ok :: "'z rs_heap_scheme \<Rightarrow> bool" where
  "rs_cache_ok s \<longleftrightarrow> (\<forall>rs \<in> set (rslist s).
     rs_char_result (rs_mm rs) (rs_gfpoly rs) (rs_fcr rs) (rs_prim rs) (rs_nroots rs) (rs_pad rs)
       = Inr rs)"

interpretation rs_cache: rs_invariant rs_cache_ok
  by unfold_locales (auto simp: rs_cache_ok_def)

lemma encode_rs_codeword:
  assumes "rs_ok n pad rs" and "0 < n" and "n + pad < 255" and "length data = 255 - n - pad"
  shows "length (encode_rs_char rs data) = n"
    and "i < n \<Longrightarrow> gf_eval (alpha i) (data @ encode_rs_char rs data) = 0"
proof -
  have "nat (rs_nn rs - rs_nroots rs - rs_pad rs) = length data" "nat (rs_nroots rs) = n"
    using assms by (simp_all add: rs_ok_def)
  then show "length (encode_rs_char rs data) = n"
    "i < n \<Longrightarrow> gf_eval (alpha i) (data @ encode_rs_char rs data) = 0"
    using encode_rs_upto [OF assms(1,2), of "length data" data] assms(2-)
    by (auto simp: encode_rs_char_def)
qed


end
