(* ===== verification/QRspec_Correct.thy ===== *)
theory QRspec_Correct
  imports MQRspec RS_Correct
begin

text \<open>
  Correctness of the tables and of the initial frames: the tables agree with each other and
  with the codes of the standard, a frame holds function patterns (bit 7 set) and empty
  modules (0) only, and a new frame does not depend on what is in the caches.
\<close>

subsection \<open>Tables\<close>

lemmas qrspec_tables = qrspecCapacity_def capacity_def eccTable_def versionPattern_def formatInfo_def
  QRspec_getDataLength_def QRspec_getECCLength_def QRspec_getRemainder_def QRspec_getWidth_def
  QRspec_getEccSpec_def QRspec_rsDataLength_def QRspec_rsEccLength_def QRspec_rsBlockNum_def
  QRspec_rsBlockNum1_def QRspec_rsBlockNum2_def QRspec_rsDataCodes1_def QRspec_rsDataCodes2_def
  QRspec_rsEccCodes1_def QRspec_rsEccCodes2_def QRspec_getVersionPattern_def QRspec_getFormatInfo_def

text \<open>A fact about all versions and levels follows from its instances.\<close>

definition versions :: "int list" where
  "versions = [1, 2, 3, 4, 5, 6, 7, 8, 9, 10, 11, 12, 13, 14, 15, 16, 17, 18, 19, 20, 21, 22, 23, 24,
     25, 26, 27, 28, 29, 30, 31, 32, 33, 34, 35, 36, 37, 38, 39, 40]"

lemmas versions_unfold = versions_def list.pred_inject

lemma all_versions:
  assumes "list_all P versions" and "1 \<le> v" and "v \<le> 40"
  shows "P v"
proof -
  have "versions = [1..40]" by (simp add: versions_def upto.simps)
  moreover have "v \<in> set [1..40]" unfolding set_upto using assms(2,3) by simp
  ultimately have "v \<in> set versions" by (rule ssubst)
  with assms(1) show ?thesis by (simp only: list_all_iff)
qed

lemma all_levels:
  fixes l :: QRecLevel
  shows "list_all P [0, 1, 2, 3] \<Longrightarrow> l \<le> 3 \<Longrightarrow> P l"
  by (auto simp: le_Suc_eq numeral_eq_Suc)

text \<open>The blocks of a symbol: they make up its data and its error correction codes.\<close>

definition ecc_spec_ok :: "int \<Rightarrow> QRecLevel \<Rightarrow> bool" where
  "ecc_spec_ok v l \<longleftrightarrow>
     (let spec = QRspec_getEccSpec v l in
      QRspec_rsDataLength spec = QRspec_getDataLength v l \<and>
      QRspec_rsEccLength spec = QRspec_getECCLength v l \<and>
      0 < QRspec_rsBlockNum1 spec \<and> 0 \<le> QRspec_rsBlockNum2 spec \<and>
      0 < QRspec_rsDataCodes1 spec \<and> 0 < QRspec_rsEccCodes1 spec \<and>
      QRspec_rsDataCodes1 spec + QRspec_rsEccCodes1 spec \<le> 255 \<and>
      (QRspec_rsBlockNum2 spec \<noteq> 0 \<longrightarrow>
         QRspec_rsDataCodes2 spec = QRspec_rsDataCodes1 spec + 1 \<and>
         QRspec_rsDataCodes2 spec + QRspec_rsEccCodes2 spec \<le> 255))"

lemma ecc_spec_ok_all: "list_all (\<lambda>v. list_all (ecc_spec_ok v) [0, 1, 2, 3]) versions"
  unfolding versions_unfold by (simp add: ecc_spec_ok_def Let_def qrspec_tables)

lemma ecc_spec_ok: "1 \<le> v \<Longrightarrow> v \<le> 40 \<Longrightarrow> l \<le> 3 \<Longrightarrow> ecc_spec_ok v l"
  using all_levels all_versions [OF ecc_spec_ok_all] by blast

text \<open>
  The number of modules of a symbol that are not part of a function pattern, from the size of
  the symbol and of its patterns (finders, timing, alignment, format and version information).
\<close>

definition data_modules :: "int \<Rightarrow> int" where
  "data_modules v = (16 * v + 128) * v + 64 -
     (if v \<ge> 2 then let n = v div 7 + 2 in (25 * n - 10) * n - 55 else 0) - (if v \<ge> 7 then 36 else 0)"

lemma capacity_modules_all:
  "list_all (\<lambda>v. cap_words (qrspecCapacity ! nat v) * 8 + QRspec_getRemainder v = data_modules v \<and>
       int (QRspec_getWidth v) = 17 + 4 * v) versions"
  unfolding versions_unfold by (simp add: data_modules_def Let_def qrspec_tables)

lemma capacity_modules:
  assumes "1 \<le> v" and "v \<le> 40"
  shows "cap_words (qrspecCapacity ! nat v) * 8 + QRspec_getRemainder v = data_modules v"
    and "int (QRspec_getWidth v) = 17 + 4 * v"
  using all_versions [OF capacity_modules_all assms] by auto

subsection \<open>Codes of the version and format information\<close>

text \<open>
  The remainder of a polynomial over GF(2) modulo \<open>g\<close> of degree \<open>deg\<close>, by long division: \<open>ks\<close>
  are the exponents of the quotient, from the highest down.
\<close>

fun poly_rem :: "u32 \<Rightarrow> nat \<Rightarrow> nat list \<Rightarrow> u32 \<Rightarrow> u32" where
  "poly_rem g deg [] v = v"
| "poly_rem g deg (k # ks) v = poly_rem g deg ks (if bit v (deg + k) then v XOR push_bit k g else v)"

definition bch18_6 :: "u32 \<Rightarrow> u32" where
  "bch18_6 d = push_bit 12 d OR poly_rem 0x1f25 12 [5, 4, 3, 2, 1, 0] (push_bit 12 d)"

definition bch15_5 :: "u32 \<Rightarrow> u32" where
  "bch15_5 d = push_bit 10 d OR poly_rem 0x537 10 [4, 3, 2, 1, 0] (push_bit 10 d)"

lemma version_pattern_all:
  "list_all (\<lambda>v. QRspec_getVersionPattern v = (if v < 7 then 0 else bch18_6 (of_int v))) versions"
  by code_simp

text \<open>The two bits of a level in the format information are 01, 00, 11 and 10.\<close>

definition level_indicator :: "QRecLevel \<Rightarrow> u32" where
  "level_indicator l = [1, 0, 3, 2] ! l"

lemma format_info_all:
  "list_all (\<lambda>l. list_all (\<lambda>m. QRspec_getFormatInfo m l
       = bch15_5 (8 * level_indicator l + of_int m) XOR 0x5412) [0, 1, 2, 3, 4, 5, 6, 7]) [0, 1, 2, 3]"
  by code_simp

text \<open>The symbol numbers of Micro QR Code, 0 to 7, for a version and a level.\<close>

definition mqr_symbol_number :: "int \<Rightarrow> QRecLevel \<Rightarrow> u32 option" where
  "mqr_symbol_number v l =
     map_of [((1, 0), 0), ((2, 0), 1), ((2, 1), 2), ((3, 0), 3), ((3, 1), 4), ((4, 0), 5),
             ((4, 1), 6), ((4, 2), 7)] (v, l)"

lemma mqr_format_info_all:
  "list_all (\<lambda>v. list_all (\<lambda>l. list_all (\<lambda>m. MQRspec_getFormatInfo m v l
       = (case mqr_symbol_number v l of
            None \<Rightarrow> 0
          | Some n \<Rightarrow> bch15_5 (4 * n + of_int m) XOR 0x4445)) [0, 1, 2, 3]) [0, 1, 2, 3]) [1, 2, 3, 4]"
  by code_simp

subsection \<open>The smallest version\<close>

lemma getMinimumVersion_cases:
  obtains (none) "QRspec_getMinimumVersion sz level = -1"
      and "\<And>v. 1 \<le> v \<Longrightarrow> v \<le> 40 \<Longrightarrow> QRspec_getDataLength v level < sz"
    | (some) v where "QRspec_getMinimumVersion sz level = v" and "1 \<le> v" and "v \<le> 40"
      and "sz \<le> QRspec_getDataLength v level"
      and "\<And>u. 1 \<le> u \<Longrightarrow> u < v \<Longrightarrow> QRspec_getDataLength u level < sz"
proof (cases "find (\<lambda>i. QRspec_getDataLength (int i) level \<ge> sz) [1..<41]")
  case None
  then have "QRspec_getDataLength v level < sz" if "1 \<le> v" "v \<le> 40" for v
    using that by (auto simp: find_None_iff not_le dest: spec [of _ "nat v"])
  with None show ?thesis
    by (intro none) (simp_all add: QRspec_getMinimumVersion_def QRspec_getDataLength_def)
next
  case (Some i)
  then obtain k where k: "k < 40" "i = k + 1" "QRspec_getDataLength (int i) level \<ge> sz"
    and less: "\<And>j. j < k \<Longrightarrow> \<not> QRspec_getDataLength (int (j + 1)) level \<ge> sz"
    by (auto simp: find_Some_iff nth_upt simp del: upt_rec_numeral)
  have "QRspec_getDataLength u level < sz" if "1 \<le> u" "u < int i" for u
    using less [of "nat (u - 1)"] that k(2) by (simp add: nat_less_iff not_le)
  with Some k show ?thesis
    by (intro some [of "int i"]) (simp_all add: QRspec_getMinimumVersion_def QRspec_getDataLength_def)
qed

subsection \<open>Frames\<close>

definition marked :: "u8 \<Rightarrow> bool" where
  "marked c \<longleftrightarrow> bit c 7"

lemma marked_and: "c AND 0x80 \<noteq> 0 \<longleftrightarrow> marked c"
proof -
  have "(0x80 :: u8) = push_bit 7 1" by (simp add: push_bit_eq_mult)
  then show ?thesis by (simp add: marked_def bit_iff_and_push_bit_not_eq_0)
qed

lemma marked_literals [simp]:
  "marked 0xc0" "marked 0xc1" "marked 0xa0" "marked 0xa1" "marked 0x84" "marked 0x81"
  "marked (0x90 OR c)" "marked (0x88 OR c)" "\<not> marked 0"
  by (simp_all add: marked_def bit_or_iff)

definition cells_ok :: "frame \<Rightarrow> bool" where
  "cells_ok f \<longleftrightarrow> (\<forall>c \<in> set f. c = 0 \<or> marked c)"

lemma cells_ok_writes [intro]:
  "cells_ok f \<Longrightarrow> (\<And>i v. (i, v) \<in> set ws \<Longrightarrow> marked v) \<Longrightarrow> cells_ok (writes f ws)"
  unfolding cells_ok_def using writes_values by fast

lemma cells_ok_foldl:
  "cells_ok f \<Longrightarrow> (\<And>f x. x \<in> set xs \<Longrightarrow> cells_ok f \<Longrightarrow> cells_ok (g f x)) \<Longrightarrow> cells_ok (foldl g f xs)"
  by (induction xs arbitrary: f) auto

lemma marked_finder: "i < 49 \<Longrightarrow> marked (finder_pattern ! i)"
proof -
  have "list_all marked finder_pattern" by (simp add: finder_pattern_def)
  then show "i < 49 \<Longrightarrow> marked (finder_pattern ! i)"
    by (simp add: list_all_length finder_pattern_def)
qed

lemma marked_alignment: "i < 25 \<Longrightarrow> marked (alignment_finder ! i)"
proof -
  have "list_all marked alignment_finder" by (simp add: alignment_finder_def)
  then show "i < 25 \<Longrightarrow> marked (alignment_finder ! i)"
    by (simp add: list_all_length alignment_finder_def)
qed

lemma length_putFinderPattern [simp]: "length (putFinderPattern f w x y) = length f"
  by (simp add: putFinderPattern_def del: upt_rec_numeral)

lemma length_putAlignmentMarker [simp]: "length (QRspec_putAlignmentMarker f w x y) = length f"
  by (simp add: QRspec_putAlignmentMarker_def Let_def del: upt_rec_numeral)

lemma length_foldl: "(\<And>b x. length (f b x) = length b) \<Longrightarrow> length (foldl f b xs) = length b"
  by (induction xs arbitrary: b) auto

lemma length_stages [simp]:
  "length (frame_finders f w) = length f"
  "length (frame_separators f w) = length f"
  "length (frame_format_area f w) = length f"
  "length (frame_timing f w) = length f"
  "length (QRspec_putAlignmentPattern v f w) = length f"
  "length (frame_version_info f w i) = length f"
  by (simp_all add: frame_finders_def frame_separators_def frame_format_area_def
     frame_timing_def frame_version_info_def QRspec_putAlignmentPattern_def Let_def
     length_foldl split_beta del: upt_rec_numeral)

lemma length_frame_template: "length (frame_template v) = QRspec_getWidth v * QRspec_getWidth v"
  by (simp add: frame_template_def Let_def QRspec_getWidth_def)

lemma cells_ok_fill [intro]: "cells_ok f \<Longrightarrow> marked v \<Longrightarrow> cells_ok (fill f i v n)"
  by (auto simp: fill_writes)

lemma cells_ok_putFinderPattern [intro]: "cells_ok f \<Longrightarrow> cells_ok (putFinderPattern f w x y)"
  unfolding putFinderPattern_def by (rule cells_ok_writes) (auto intro!: marked_finder simp del: upt_rec_numeral)

lemma cells_ok_putAlignmentMarker [intro]: "cells_ok f \<Longrightarrow> cells_ok (QRspec_putAlignmentMarker f w x y)"
  unfolding QRspec_putAlignmentMarker_def Let_def by (rule cells_ok_writes) (auto intro!: marked_alignment simp del: upt_rec_numeral)

lemma cells_ok_putAlignmentPattern: "cells_ok f \<Longrightarrow> cells_ok (QRspec_putAlignmentPattern v f w)"
  unfolding QRspec_putAlignmentPattern_def Let_def by (auto intro!: cells_ok_foldl simp del: upt_rec_numeral)

lemma cells_ok_update: "cells_ok f \<Longrightarrow> marked v \<Longrightarrow> cells_ok (f[i := v])"
  using cells_ok_writes [of f "[(i, v)]"] by simp

lemma cells_ok_stages:
  "cells_ok f \<Longrightarrow> cells_ok (frame_finders f w)"
  "cells_ok f \<Longrightarrow> cells_ok (frame_separators f w)"
  "cells_ok f \<Longrightarrow> cells_ok (frame_format_area f w)"
  "cells_ok f \<Longrightarrow> cells_ok (frame_timing f w)"
  "cells_ok f \<Longrightarrow> cells_ok (frame_version_info f w i)"
  unfolding frame_finders_def frame_separators_def frame_format_area_def
     frame_timing_def frame_version_info_def Let_def
  by (auto intro!: cells_ok_fill cells_ok_foldl cells_ok_writes simp del: upt_rec_numeral writes_simps)

lemma cells_ok_frame_template: "cells_ok (frame_template v)"
proof -
  have "cells_ok (replicate n 0)" for n by (simp add: cells_ok_def)
  then show ?thesis
    unfolding frame_template_def Let_def
    by (auto intro!: cells_ok_update cells_ok_stages cells_ok_putAlignmentPattern)
qed


subsection \<open>The caches of frames\<close>

text \<open>
  The two caches of initial frames have one contract: a cached frame is the template of its
  version, and storing a template keeps the invariant. Under it, a new frame is a copy of
  the template whatever the cache holds.
\<close>

locale frame_cache = heap_invariant I for I :: "'z heap_scheme \<Rightarrow> bool" +
  fixes lookup :: "'z heap_scheme \<Rightarrow> nat \<Rightarrow> frame option"
    and store :: "nat \<Rightarrow> frame \<Rightarrow> 'z heap_scheme \<Rightarrow> 'z heap_scheme"
    and template :: "nat \<Rightarrow> frame"
    and version_max :: nat
  assumes lookup_template:
      "I s \<Longrightarrow> 1 \<le> v \<Longrightarrow> v \<le> version_max \<Longrightarrow> lookup s v = Some f \<Longrightarrow> f = template v"
    and store_keeps: "I s \<Longrightarrow> I (store v (template v) s)"
    and store_script: "script (store v f s) = script s"
begin

lemma cached_frame_delivers:
  assumes "1 \<le> v" and "v \<le> version_max"
  shows "delivers I (\<lambda>s. case lookup s v of
            Some f \<Rightarrow> (Inr f, s)
          | None \<Rightarrow> bindM (bindM malloc (\<lambda>_. retM (template v))) (\<lambda>f s. (Inr f, store v f s)) s)
       (Inr (template v))"
proof (rule delivers_cases)
  fix s assume "I s"
  have build: "delivers I (bindM (bindM malloc (\<lambda>_. retM (template v))) (\<lambda>f s. (Inr f, store v f s)))
      (Inr (template v))"
    by (intro delivers_bind [of _ _ "template v"] malloc_then delivers_ret)
      (simp add: delivers_def store_keeps store_script)
  show "\<exists>g. (case lookup s v of Some f \<Rightarrow> (Inr f, s)
      | None \<Rightarrow> bindM (bindM malloc (\<lambda>_. retM (template v))) (\<lambda>f s. (Inr f, store v f s)) s) = g s \<and>
      delivers I g (Inr (template v))"
  proof (cases "lookup s v")
    case None
    with build show ?thesis by (intro exI conjI) (rule trans, simp, rule refl)
  next
    case (Some f)
    with lookup_template [OF \<open>I s\<close> assms Some] show ?thesis
      by (intro exI [of _ "retM f"]) (simp add: delivers_ret)
  qed
qed

end


definition frames_ok :: "'z qr_heap_scheme \<Rightarrow> bool" where
  "frames_ok s \<longleftrightarrow>
     (\<forall>v f. 1 \<le> v \<and> v \<le> 40 \<and> frames s v = Some f \<longrightarrow> f = frame_template (int v)) \<and>
     (\<forall>v f. 1 \<le> v \<and> v \<le> 4 \<and> mqr_frames s v = Some f \<longrightarrow> f = mqr_frame_template (int v))"

text \<open>The invariant of the library's static state.\<close>

definition qr_ok :: "'z qr_heap_scheme \<Rightarrow> bool" where
  "qr_ok s \<longleftrightarrow> rs_cache_ok s \<and> frames_ok s"

interpretation qr: rs_invariant qr_ok
  by unfold_locales (auto simp: qr_ok_def rs_cache_ok_def frames_ok_def)

interpretation qr_frames: frame_cache qr_ok frames
  "\<lambda>v f s. s\<lparr>frames := (frames s)(v := Some f)\<rparr>" "\<lambda>v. frame_template (int v)" 40
  by unfold_locales (auto simp: qr_ok_def rs_cache_ok_def frames_ok_def)

interpretation mqr_frames: frame_cache qr_ok mqr_frames
  "\<lambda>v f s. s\<lparr>mqr_frames := (mqr_frames s)(v := Some f)\<rparr>" "\<lambda>v. mqr_frame_template (int v)" 4
  by unfold_locales (auto simp: qr_ok_def rs_cache_ok_def frames_ok_def)

lemma QRspec_newFrame_delivers:
  assumes "1 \<le> v" and "v \<le> 40"
  shows "delivers qr_ok (QRspec_newFrame v) (Inr (frame_template v))"
proof -
  have v: "1 \<le> nat v" "nat v \<le> 40" "int (nat v) = v" using assms by simp_all
  note frame = qr_frames.cached_frame_delivers [OF v(1,2), unfolded v(3)]
  show ?thesis
    using assms length_frame_template [of v] unfolding QRspec_newFrame_def QRspec_createFrame_def
    by (auto simp: QRspec_getWidth_def Let_def intro!: delivers_bind [OF frame] qr.malloc_then delivers_ret_eq)
qed

lemma length_mqr_frame_template:
  "length (mqr_frame_template v) = MQRspec_getWidth v * MQRspec_getWidth v"
  by (simp add: mqr_frame_template_def mqr_putFinderPattern_def Let_def MQRspec_getWidth_def length_foldl
      del: upt_rec_numeral)

lemma cells_ok_mqr_frame_template: "cells_ok (mqr_frame_template v)"
proof -
  have "cells_ok (replicate n 0)" for n by (simp add: cells_ok_def)
  then show ?thesis
    unfolding mqr_frame_template_def mqr_putFinderPattern_def Let_def
    by (auto intro!: cells_ok_fill cells_ok_foldl cells_ok_writes marked_finder
        simp del: upt_rec_numeral writes_simps)
qed

lemma MQRspec_newFrame_delivers:
  assumes "1 \<le> v" and "v \<le> 4"
  shows "delivers qr_ok (MQRspec_newFrame v) (Inr (mqr_frame_template v))"
proof -
  have v: "1 \<le> nat v" "nat v \<le> 4" "int (nat v) = v" using assms by simp_all
  note frame = mqr_frames.cached_frame_delivers [OF v(1,2), unfolded v(3)]
  show ?thesis
    using assms length_mqr_frame_template [of v] unfolding MQRspec_newFrame_def MQRspec_createFrame_def
    by (auto simp: MQRspec_getWidth_def Let_def intro!: delivers_bind [OF frame] qr.malloc_then delivers_ret_eq)
qed

end
