(* ===== verification/Stream_Correct.thy ===== *)
theory Stream_Correct
  imports Encode_Correct QRspec_Correct
begin

text \<open>
  Correctness of the conversion of an input to the data bytes of a symbol: the bits of all
  entries, the version that is settled on, the padding, and the reading of the segments from
  the padded stream.
\<close>

subsection \<open>All entries of an input\<close>

definition encoded :: "int \<Rightarrow> bool \<Rightarrow> QRinput_List \<Rightarrow> QRinput_List" where
  "encoded version mqr e = e\<lparr>en_bstream := Some (bs_of (enc_entry version mqr (en_mode e) (en_data e)))\<rparr>"

definition enc_entries :: "int \<Rightarrow> bool \<Rightarrow> QRinput_List list \<Rightarrow> u8 list" where
  "enc_entries version mqr es = concat (map (\<lambda>e. enc_entry version mqr (en_mode e) (en_data e)) es)"

lemma enc_entries_simps [simp]:
  "enc_entries version mqr [] = []"
  "enc_entries version mqr (e # es) = enc_entry version mqr (en_mode e) (en_data e) @ enc_entries version mqr es"
  by (simp_all add: enc_entries_def)

lemma encoded_sel [simp]: "en_mode (encoded version mqr e) = en_mode e" "en_data (encoded version mqr e) = en_data e"
  "entry_ok (encoded version mqr e) = entry_ok e"
  by (simp_all add: encoded_def)

lemma encoded_encoded [simp]: "encoded v m (encoded w n e) = encoded v m e"
  by (simp add: encoded_def)

lemma enc_entries_encoded [simp]: "enc_entries v m (map (encoded w n) es) = enc_entries v m es"
  by (induction es) simp_all

definition entries_ok :: "int \<Rightarrow> bool \<Rightarrow> QRinput_List list \<Rightarrow> bool" where
  "entries_ok version mqr es \<longleftrightarrow> (\<forall>e \<in> set es. entry_ok e \<and> mode_ok version mqr (en_mode e))"

lemma entries_ok_Cons [simp]: "entries_ok version mqr (e # es) \<longleftrightarrow>
    entry_ok e \<and> mode_ok version mqr (en_mode e) \<and> entries_ok version mqr es"
  by (auto simp: entries_ok_def)

lemma entries_ok_encoded [simp]: "entries_ok v m (map (encoded w n) es) = entries_ok v m es"
  by (simp add: entries_ok_def)

lemma entries_ok_version: "entries_ok v False es \<Longrightarrow> entries_ok w False es"
  by (simp add: entries_ok_def mode_ok_def)

context heap_invariant
begin

lemma createBitStream_loop_ok:
  assumes "entries_ok version mqr es" and "I s" and "script s = []"
  shows "\<exists>s'. createBitStream_loop version mqr tot es s =
    (Inr (tot + int (length (enc_entries version mqr es))), (map (encoded version mqr) es, s')) \<and> I s' \<and> script s' = []"
  using assms
proof (induction es arbitrary: tot s)
  case (Cons e es)
  from Cons.prems encodeBitStream_acts [of e version mqr] obtain s1 where
    "QRinput_encodeBitStream version mqr (e, s) =
      (Inr (int (length (enc_entry version mqr (en_mode e) (en_data e)))), (encoded version mqr e, s1))"
    "I s1" "script s1 = []"
    by (auto simp: acts_def encoded_def)
  moreover from this(2,3) Cons.prems obtain s2 where
    "createBitStream_loop version mqr (tot + int (length (enc_entry version mqr (en_mode e) (en_data e)))) es s1 =
      (Inr (tot + int (length (enc_entry version mqr (en_mode e) (en_data e))) + int (length (enc_entries version mqr es))),
       (map (encoded version mqr) es, s2))" "I s2" "script s2 = []"
    using Cons.IH [of s1] by fastforce
  ultimately show ?case by simp
qed simp

lemma createBitStream_acts:
  assumes "entries_ok (in_version input) (in_mqr input) (in_head input)"
  shows "acts I QRinput_createBitStream input
    (Inr (int (length (enc_entries (in_version input) (in_mqr input) (in_head input)))))
    (input\<lparr>in_head := map (encoded (in_version input) (in_mqr input)) (in_head input)\<rparr>)"
  unfolding acts_def QRinput_createBitStream_def
  using createBitStream_loop_ok [OF assms, where tot = 0] by fastforce

end

subsection \<open>The search for the version\<close>

lemma dataLength_mono_all:
  "list_all (\<lambda>l. list_all (\<lambda>v. v = 40 \<or> QRspec_getDataLength v l \<le> QRspec_getDataLength (v + 1) l) versions) [0, 1, 2, 3]"
  unfolding versions_unfold by (simp add: qrspec_tables)

lemma dataLength_mono:
  assumes "1 \<le> u" and "u \<le> v" and "v \<le> 40" and "l \<le> 3"
  shows "QRspec_getDataLength u l \<le> QRspec_getDataLength v l"
proof -
  have step: "QRspec_getDataLength w l \<le> QRspec_getDataLength (w + 1) l" if "1 \<le> w" "w < 40" for w
    using all_versions [OF all_levels [OF dataLength_mono_all assms(4)], of w] that by simp
  show ?thesis using assms(2,1,3)
  proof (induction v rule: int_ge_induct)
    case (step i)
    with step.IH \<open>\<And>w. 1 \<le> w \<Longrightarrow> w < 40 \<Longrightarrow> _\<close> [of i] show ?case by simp
  qed simp
qed

text \<open>
  The loop of \<^verbatim>\<open>QRinput_convertData\<close> on the number of bits alone: \<open>len v\<close> bits at the version \<open>v\<close>.
  The result is the last version tried and whether the bits fit into it.
\<close>

function settle :: "(int \<Rightarrow> nat) \<Rightarrow> QRecLevel \<Rightarrow> int \<Rightarrow> int \<times> bool" where
  "settle len level v =
     (let m = QRspec_getMinimumVersion ((int (len v) + 7) div 8) level
      in if m < 0 then (v, False) else if m > v then settle len level m else (v, True))"
  by pat_completeness auto
termination
  by (relation "measure (\<lambda>(len, level, v). nat (41 - v))")
    (auto dest: less_le_trans [OF _ QRspec_getMinimumVersion_le])

declare settle.simps [simp del]

lemma settle_fits:
  assumes "settle len level v = (w, True)" and "level \<le> 3" and "v \<le> 40"
  shows "v \<le> w \<and> 1 \<le> w \<and> w \<le> 40 \<and> int (len w) \<le> 8 * QRspec_getDataLength w level"
  using assms
proof (induction len level v rule: settle.induct)
  case (1 len level v)
  let ?m = "QRspec_getMinimumVersion ((int (len v) + 7) div 8) level"
  show ?case
  proof (cases "?m < 0 \<or> ?m > v")
    case True
    with 1 QRspec_getMinimumVersion_le [of "(int (len v) + 7) div 8" level] show ?thesis
      by (subst (asm) settle.simps) (fastforce simp: Let_def split: if_splits)
  next
    case False
    with 1(2) have w: "w = v" by (subst (asm) settle.simps) (simp add: Let_def)
    show ?thesis
    proof (cases rule: getMinimumVersion_cases [of "(int (len v) + 7) div 8" level])
      case none
      with False show ?thesis by simp
    next
      case (some u)
      with False dataLength_mono [of u v level] 1 w show ?thesis by simp
    qed
  qed
qed

lemma settle_fails:
  assumes "settle len level v = (w, False)" and "level \<le> 3" and "v \<le> 40"
  shows "v \<le> w \<and> w \<le> 40 \<and> (\<forall>u. 1 \<le> u \<and> u \<le> 40 \<longrightarrow> 8 * QRspec_getDataLength u level < int (len w))"
  using assms
proof (induction len level v rule: settle.induct)
  case (1 len level v)
  let ?m = "QRspec_getMinimumVersion ((int (len v) + 7) div 8) level"
  show ?case
  proof (cases rule: getMinimumVersion_cases [of "(int (len v) + 7) div 8" level])
    case none
    with 1(2) have w: "w = v" by (subst (asm) settle.simps) (simp add: Let_def)
    have "8 * QRspec_getDataLength u level < int (len w)" if "1 \<le> u" "u \<le> 40" for u
      using none(2) [OF that] by (simp add: w)
    with w 1 show ?thesis by simp
  next
    case (some u)
    with 1 show ?thesis
      by (subst (asm) settle.simps) (auto simp: Let_def split: if_splits)
  qed
qed

context heap_invariant
begin

lemma convertData_loop_acts:
  assumes "\<not> in_mqr input" and "entries_ok 0 False (in_head input)" and "in_version input \<le> 40"
    and "nat (40 - in_version input) < fuel"
  defines "res \<equiv> settle (\<lambda>v. length (enc_entries v False (in_head input))) (in_level input) (in_version input)"
  shows "acts I (convertData_loop fuel) input (if snd res then Inr () else Inl ERANGE)
    (input\<lparr>in_version := fst res, in_head := map (encoded (fst res) False) (in_head input)\<rparr>)"
  using assms(1-4) unfolding res_def
proof (induction fuel arbitrary: input)
  case (Suc fuel)
  let ?len = "\<lambda>v. length (enc_entries v False (in_head input))"
  let ?m = "QRspec_getMinimumVersion ((int (?len (in_version input)) + 7) div 8) (in_level input)"
  let ?input = "input\<lparr>in_head := map (encoded (in_version input) False) (in_head input)\<rparr>"
  have create: "acts I QRinput_createBitStream input (Inr (int (?len (in_version input)))) ?input"
    using createBitStream_acts [of input] Suc.prems entries_ok_version by auto
  have rest: "acts I (if ?m < 0 then failM ERANGE else if ?m > QRinput_getVersion ?input
        then bindM (putO (try_setVersion ?input ?m)) (\<lambda>_. convertData_loop fuel) else retM ()) ?input
      (if snd (settle ?len (in_level input) (in_version input)) then Inr () else Inl ERANGE)
      (input\<lparr>in_version := fst (settle ?len (in_level input) (in_version input)),
             in_head := map (encoded (fst (settle ?len (in_level input) (in_version input))) False) (in_head input)\<rparr>)"
  proof (cases "?m > in_version input \<and> \<not> ?m < 0")
    case True
    have m: "0 \<le> ?m" "?m \<le> 40" using True QRspec_getMinimumVersion_le by auto
    let ?next = "?input\<lparr>in_version := ?m\<rparr>"
    have set: "try_setVersion ?input ?m = ?next"
      using Suc.prems(1) m by (simp add: try_setVersion_def QRinput_setVersion_def)
    have "settle ?len (in_level input) (in_version input) = settle ?len (in_level input) ?m"
      using True by (subst settle.simps) (simp add: Let_def)
    with Suc.IH [of ?next] Suc.prems m True show ?thesis
      by (auto simp: set QRinput_getVersion_def comp_def intro!: acts_put_then)
  next
    case False
    then have "settle ?len (in_level input) (in_version input) = (in_version input, \<not> ?m < 0)"
      by (subst settle.simps) (auto simp: Let_def)
    with False show ?thesis by (auto simp: QRinput_getVersion_def intro!: acts_ret acts_fail)
  qed
  show ?case
    unfolding convertData_loop.simps
    by (intro acts_bind [OF create] acts_get_then) (use rest in \<open>simp add: Let_def sdiv_nonneg\<close>)
qed simp

end

lemma dataLength_pos: "1 \<le> v \<Longrightarrow> v \<le> 40 \<Longrightarrow> l \<le> 3 \<Longrightarrow> 0 < QRspec_getDataLength v l"
proof -
  have "list_all (\<lambda>l. 0 < QRspec_getDataLength 1 l) [0, 1, 2, 3]" by (simp add: qrspec_tables)
  then show "1 \<le> v \<Longrightarrow> v \<le> 40 \<Longrightarrow> l \<le> 3 \<Longrightarrow> 0 < QRspec_getDataLength v l"
    using dataLength_mono [of 1 v l] all_levels [of "\<lambda>l. 0 < QRspec_getDataLength 1 l" l] by simp
qed

definition start_version :: "QRinput \<Rightarrow> int" where
  "start_version input = max (in_version input) (QRinput_estimateVersion input)"

lemma estimateVersion_le: "QRinput_estimateVersion input \<le> 40"
proof -
  have "estimateVersion_loop input prev \<le> 40" for prev
  proof (induction input prev rule: estimateVersion_loop.induct)
    case (1 input prev)
    then show ?case
      using QRspec_getMinimumVersion_le by (subst estimateVersion_loop.simps) (auto simp: Let_def)
  qed
  then show ?thesis by (simp add: QRinput_estimateVersion_def)
qed

text \<open>The version and the outcome that the conversion of an input reaches.\<close>

definition conversion :: "QRinput \<Rightarrow> int \<times> bool" where
  "conversion input = settle (\<lambda>v. length (enc_entries v False (in_head input))) (in_level input) (start_version input)"

lemma conversion_fits:
  assumes "snd (conversion input)" and "in_level input \<le> 3" and "in_version input \<le> 40"
  defines "v \<equiv> fst (conversion input)"
  shows "in_version input \<le> v" and "1 \<le> v" and "v \<le> 40"
    and "int (length (enc_entries v False (in_head input))) \<le> 8 * QRspec_getDataLength v (in_level input)"
  using settle_fits [of "\<lambda>v. length (enc_entries v False (in_head input))" "in_level input" "start_version input" v]
    assms estimateVersion_le [of input]
  by (simp_all add: conversion_def start_version_def prod_eq_iff)

lemma conversion_fails:
  assumes "\<not> snd (conversion input)" and "in_level input \<le> 3" and "in_version input \<le> 40"
    and "1 \<le> u" and "u \<le> 40"
  shows "8 * QRspec_getDataLength u (in_level input)
      < int (length (enc_entries (fst (conversion input)) False (in_head input)))"
  using settle_fails [of "\<lambda>v. length (enc_entries v False (in_head input))" "in_level input" "start_version input"
      "fst (conversion input)"] assms estimateVersion_le [of input]
  by (simp add: conversion_def start_version_def prod_eq_iff)

definition converted :: "QRinput \<Rightarrow> QRinput" where
  "converted input = input\<lparr>in_version := fst (conversion input),
     in_head := map (encoded (fst (conversion input)) False) (in_head input)\<rparr>"

context heap_invariant
begin

lemma convertData_acts:
  assumes "\<not> in_mqr input" and "entries_ok 0 False (in_head input)" and "0 \<le> in_version input" "in_version input \<le> 40"
  shows "acts I QRinput_convertData input (if snd (conversion input) then Inr () else Inl ERANGE) (converted input)"
proof -
  let ?input = "input\<lparr>in_version := start_version input\<rparr>"
  have "acts I (convertData_loop 42) ?input (if snd (conversion input) then Inr () else Inl ERANGE) (converted input)"
    using convertData_loop_acts [of ?input 42] assms estimateVersion_le [of input]
    by (simp add: conversion_def converted_def start_version_def)
  moreover have "acts I (if QRinput_estimateVersion input > QRinput_getVersion input
      then putO (try_setVersion input (QRinput_estimateVersion input)) else retM ()) input (Inr ()) ?input"
    using assms estimateVersion_le [of input]
    by (auto simp: start_version_def QRinput_getVersion_def try_setVersion_def QRinput_setVersion_def max_def
        intro!: acts_put acts_ret)
  ultimately show ?thesis
    unfolding QRinput_convertData_def Let_def by (intro acts_get_then acts_bind)
qed

text \<open>The stream of all entries.\<close>

lemma merge_runs:
  assumes "\<forall>e \<in> set es. en_bstream e = Some (bs_of (f e))"
  shows "runs I (foldM (\<lambda>b entry. BitStream_append b (en_bstream entry)) (bs_of xs) es)
    (Inr (bs_of (xs @ concat (map f es))))"
  using assms
proof (induction es arbitrary: xs)
  case (Cons e es)
  then show ?case
    using runs_bind [OF delivers_runs [OF BitStream_append_delivers [of xs "f e"]]] Cons.IH [of "xs @ f e"] by auto
qed (simp add: runs_def)

lemma merge_encoded_runs:
  "runs I (foldM (\<lambda>b entry. BitStream_append b (en_bstream entry)) (bs_of []) (map (encoded version mqr) es))
    (Inr (bs_of (enc_entries version mqr es)))"
  using merge_runs [of "map (encoded version mqr) es" "\<lambda>e. enc_entry version mqr (en_mode e) (en_data e)" "[]"]
  by (simp add: enc_entries_def encoded_def comp_def)

text \<open>The input after the header for FNC1 has been put in front.\<close>

lemma insertFNC1Header_second:
  assumes "in_fnc1 input = 2" and "in_head input \<noteq> []"
  shows "acts I QRinput_insertFNC1Header input (Inr ())
    (input\<lparr>in_head := new_entry QR_MODE_FNC1SECOND 1 [in_appid input] # in_head input\<rparr>)"
proof -
  have "QRinput_check QR_MODE_FNC1SECOND 1 [in_appid input]"
    by (simp add: QRinput_check_def QRinput_checkModeFNC1Second_def)
  from delivers_runs [OF QRinput_List_newEntry_delivers [OF this, simplified]] show ?thesis
    unfolding QRinput_insertFNC1Header_def using assms
    by (auto split: list.splits intro!: acts_get_then acts_lift_then acts_put)
qed

lemma insertFNC1Header_first:
  assumes "in_fnc1 input = 1"
  shows "acts I QRinput_insertFNC1Header input (Inl EINVAL) input"
proof -
  have "\<not> QRinput_check QR_MODE_FNC1FIRST 0 []" by (simp add: QRinput_check_def)
  from delivers_runs [OF QRinput_List_newEntry_rejects [OF this]] show ?thesis
    unfolding QRinput_insertFNC1Header_def using assms
    by (intro acts_get_then acts_bind_fail) (auto intro!: acts_lift)
qed

lemma mergeBitStream_acts:
  assumes "\<not> in_mqr input" and "in_fnc1 input = 0" and "entries_ok 0 False (in_head input)"
    and "0 \<le> in_version input" "in_version input \<le> 40"
  shows "acts I QRinput_mergeBitStream input
    (if snd (conversion input)
     then Inr (bs_of (enc_entries (fst (conversion input)) False (in_head input))) else Inl ERANGE)
    (converted input)"
proof -
  note conv = convertData_acts [OF assms(1,3-5)]
  show ?thesis
  proof (cases "snd (conversion input)")
    case True
    with conv have "acts I QRinput_convertData input (Inr ()) (converted input)" by simp
    with True merge_encoded_runs [of "fst (conversion input)" False "in_head input"] assms(1,2) show ?thesis
      unfolding QRinput_mergeBitStream_def
      by (intro acts_get_then acts_bind [where y = "converted input" and a = "()"])
        (auto simp: converted_def intro!: acts_get_then
          acts_lift_then [OF delivers_runs [OF BitStream_new_delivers]] acts_lift)
  next
    case False
    with conv assms(1,2) show ?thesis
      unfolding QRinput_mergeBitStream_def by (intro acts_get_then) (auto intro!: acts_bind_fail)
  qed
qed

end

subsection \<open>Padding\<close>

text \<open>
  The terminator of at most four zero bits, zero bits up to a byte, and the bytes 0xec and 0x11
  by turns.
\<close>

definition padding :: "nat \<Rightarrow> nat \<Rightarrow> u8 list" where
  "padding n len =
     (if 8 * n \<le> len + 4 then replicate (8 * n - len) 0
      else let w = (len + 11) div 8
           in replicate (8 * w - len) 0 @ bytes_bits (pad_bytes (int (n - w))))"

lemma length_pad_bytes [simp]: "length (pad_bytes n) = nat n"
  by (simp add: pad_bytes_def)

lemma length_padding: "len \<le> 8 * n \<Longrightarrow> len + length (padding n len) = 8 * n"
  by (auto simp: padding_def Let_def)

lemma nbits_zero: "nbits k 0 = replicate k 0"
  by (simp add: nbits_def map_replicate_const)

lemma padding_terminator: "take 4 (padding n len) = replicate (min 4 (8 * n - len)) 0 \<or> \<not> len \<le> 8 * n"
  by (auto simp: padding_def Let_def min_def)

lemma bit_list_padding [simp]: "bit_list (padding n len)"
  by (auto simp: padding_def Let_def bit_list_def [of "replicate _ _"])

context heap_invariant
begin

lemma appendZeros_delivers:
  "k \<le> 32 \<Longrightarrow> delivers I (BitStream_appendNum (bs_of xs) (int k) 0) (Inr (bs_of (xs @ replicate k 0)))"
  using BitStream_appendNum_delivers [of "int k" xs 0] by (simp add: nbits_zero)

lemma appendPads_delivers:
  "delivers I (if int m > 0 then bindM malloc (\<lambda>_. BitStream_appendBytes (bs_of xs) (int m) (pad_bytes (int m)))
      else retM (bs_of xs)) (Inr (bs_of (xs @ bytes_bits (pad_bytes (int m)))))"
  using BitStream_appendBytes_delivers [of "int m" "pad_bytes (int m)" xs]
  by (auto intro!: malloc_then delivers_ret_eq simp: pad_bytes_def)

lemma appendPaddingBit_delivers:
  assumes "int (length xs) \<le> 8 * QRspec_getDataLength (in_version input) (in_level input)"
  defines "n \<equiv> nat (QRspec_getDataLength (in_version input) (in_level input))"
  shows "delivers I (QRinput_appendPaddingBit (bs_of xs) input) (Inr (bs_of (xs @ padding n (length xs))))"
proof -
  have n: "QRspec_getDataLength (in_version input) (in_level input) = int n" using assms(1) by (simp add: n_def)
  let ?len = "length xs" and ?w = "(length xs + 11) div 8"
  consider "8 * n = ?len" | "0 < 8 * n - ?len" "8 * n \<le> ?len + 4" | "?len + 4 < 8 * n" using n assms(1) by linarith
  then show ?thesis
  proof cases
    case 3
    have words: "(int ?len + 4 + 7) sdiv 8 = int ?w" by (simp add: sdiv_nonneg zdiv_int)
    have w: "?w \<le> n" "?len + 4 \<le> 8 * ?w" "8 * ?w \<le> ?len + 11" using 3 by simp_all
    then have k: "int ?w * 8 - int ?len = int (8 * ?w - ?len)" "int n - int ?w = int (n - ?w)" by simp_all
    have pad: "padding n ?len = replicate (8 * ?w - ?len) 0 @ bytes_bits (pad_bytes (int (n - ?w)))"
      using 3 by (simp add: padding_def Let_def)
    have conds: "(int n * 8 < int ?len) = False" "(int n * 8 = int ?len) = False" "(int n * 8 - int ?len \<le> 4) = False"
      using 3 by simp_all
    have zeros: "delivers I (BitStream_appendNum (bs_of []) (int (8 * ?w - ?len)) 0)
        (Inr (bs_of (replicate (8 * ?w - ?len) 0)))"
      using appendZeros_delivers [of "8 * ?w - ?len" "[]"] w by (simp only: append_Nil)
    show ?thesis
      unfolding QRinput_appendPaddingBit_def Let_def n bs_of_sel words k pad conds if_False
      by (intro BitStream_new_then delivers_bind [OF zeros] delivers_bind [OF appendPads_delivers]
          BitStream_append_delivers)
  qed (use n appendZeros_delivers [of "8 * n - ?len" xs] in
      \<open>auto simp: QRinput_appendPaddingBit_def padding_def Let_def of_nat_diff mult.commute [of _ 8] intro!: delivers_ret_eq\<close>)
qed

lemma appendPaddingBit_overflow:
  assumes "8 * QRspec_getDataLength (in_version input) (in_level input) < int (length xs)"
  shows "delivers I (QRinput_appendPaddingBit (bs_of xs) input) (Inl ERANGE)"
  using assms by (auto simp: QRinput_appendPaddingBit_def Let_def intro!: delivers_fail)

lemma getBitStream_acts:
  assumes "\<not> in_mqr input" and "in_fnc1 input = 0" and "entries_ok 0 False (in_head input)"
    and "0 \<le> in_version input" "in_version input \<le> 40" and "in_level input \<le> 3"
  defines "v \<equiv> fst (conversion input)"
  defines "bits \<equiv> enc_entries v False (in_head input)"
  shows "acts I QRinput_getBitStream input
    (if snd (conversion input)
     then Inr (bs_of (bits @ padding (nat (QRspec_getDataLength v (in_level input))) (length bits)))
     else Inl ERANGE) (converted input)"
proof (cases "snd (conversion input)")
  case True
  then have fit: "int (length bits) \<le> 8 * QRspec_getDataLength v (in_level input)"
    using conversion_fits(4) assms(5,6) by (simp add: bits_def v_def)
  have "acts I QRinput_mergeBitStream input (Inr (bs_of bits)) (converted input)"
    using mergeBitStream_acts [OF assms(1-5)] True by (simp add: bits_def v_def)
  moreover have "acts I (lift (QRinput_appendPaddingBit (bs_of bits) (converted input))) (converted input)
      (Inr (bs_of (bits @ padding (nat (QRspec_getDataLength v (in_level input))) (length bits)))) (converted input)"
    using appendPaddingBit_delivers [of bits "converted input"] fit
    by (intro acts_lift delivers_runs) (simp add: converted_def v_def)
  ultimately show ?thesis
    using True assms(1) unfolding QRinput_getBitStream_def
    by (auto intro!: acts_bind acts_get_then simp: converted_def)
next
  case False
  with mergeBitStream_acts [OF assms(1-5)] show ?thesis
    unfolding QRinput_getBitStream_def by (auto intro!: acts_bind_fail)
qed

lemma getByteStream_acts:
  assumes "\<not> in_mqr input" and "in_fnc1 input = 0" and "entries_ok 0 False (in_head input)"
    and "0 \<le> in_version input" "in_version input \<le> 40" and "in_level input \<le> 3"
  defines "v \<equiv> fst (conversion input)"
  defines "bits \<equiv> enc_entries v False (in_head input)"
  shows "acts I QRinput_getByteStream input
    (if snd (conversion input)
     then Inr (bs_bytes (bits @ padding (nat (QRspec_getDataLength v (in_level input))) (length bits)))
     else Inl ERANGE) (converted input)"
proof (cases "snd (conversion input)")
  case True
  let ?n = "nat (QRspec_getDataLength v (in_level input))"
  let ?p = "bits @ padding ?n (length bits)"
  have len: "length ?p = 8 * ?n"
    using conversion_fits(4) [OF True assms(6,5)] length_padding [of "length bits" ?n]
    by (simp add: bits_def v_def)
  have "0 < QRspec_getDataLength v (in_level input)"
    using conversion_fits(2,3) [OF True assms(6,5)] assms(6) dataLength_pos by (simp add: v_def)
  with len have "?p \<noteq> []" by (metis list.size(3) mult_is_0 nat_eq_iff2 zero_less_nat_eq less_irrefl zero_neq_numeral)
  then have "acts I (lift (BitStream_toByte (bs_of ?p))) (converted input) (Inr (bs_bytes ?p)) (converted input)"
    using delivers_runs [OF BitStream_toByte_delivers [of ?p]] by (intro acts_lift) (simp only: if_False)
  with getBitStream_acts [OF assms(1-6)] True show ?thesis
    unfolding QRinput_getByteStream_def by (auto intro!: acts_bind simp: bits_def v_def)
next
  case False
  with getBitStream_acts [OF assms(1-6)] show ?thesis
    unfolding QRinput_getByteStream_def by (auto intro!: acts_bind_fail)
qed

end

subsection \<open>Reading the segments back\<close>

lemma length_dec_num: "length (snd (dec_num n bs)) \<le> length bs"
  by (induction n bs rule: dec_num.induct) (auto simp: Let_def split_beta intro: order_trans)

lemma length_dec_an: "length (snd (dec_an n bs)) \<le> length bs"
  by (induction n bs rule: dec_an.induct) (auto simp: Let_def split_beta intro: order_trans)

lemma length_dec_kanji: "length (snd (dec_kanji n bs)) \<le> length bs"
proof (induction n arbitrary: bs)
  case (Suc n)
  from Suc [of "drop 13 bs"] show ?case by (simp add: Let_def split_beta)
qed simp

lemma read_seg_shorter: "read_seg version bs = Some (mode, data, rest) \<Longrightarrow> length rest < length bs"
proof -
  assume r: "read_seg version bs = Some (mode, data, rest)"
  have nonempty: "bs \<noteq> []"
    using r by (auto simp: read_seg_def bits_val_def id_mode_def mode_ids_def)
  have data: "length (snd (read_data mode n xs)) \<le> length xs" for mode n xs
    by (cases mode) (simp_all add: read_data_def read_eci_def Let_def length_dec_num length_dec_an length_dec_kanji)
  from r obtain m n where "(data, rest) = read_data mode n (drop (4 + m) bs)"
    by (auto simp: read_seg_def Let_def split: option.splits) (metis that)
  then have "length rest \<le> length (drop (4 + m) bs)" using data [of mode n "drop (4 + m) bs"] by (metis snd_conv)
  then show ?thesis using nonempty by (simp add: le_less_trans)
qed

text \<open>The segments of a stream, up to the terminator.\<close>

function read_segs :: "int \<Rightarrow> u8 list \<Rightarrow> (QRencodeMode \<times> u8 list) list" where
  "read_segs version bs = (case read_seg version bs of
       None \<Rightarrow> []
     | Some (mode, data, rest) \<Rightarrow> (mode, data) # read_segs version rest)"
  by pat_completeness auto
termination
  by (relation "measure (\<lambda>(_, bs). length bs)") (auto dest: read_seg_shorter)

declare read_segs.simps [simp del]

lemma read_segs_padding: "len \<le> 8 * n \<Longrightarrow> read_segs version (padding n len) = []"
proof -
  assume "len \<le> 8 * n"
  then have "take 4 (padding n len) = replicate (min 4 (8 * n - len)) 0" using padding_terminator by blast
  moreover have "bits_val (replicate k 0) = 0" for k by (induction k) (simp_all add: bits_val_def)
  ultimately show ?thesis by (subst read_segs.simps) (simp add: read_seg_def id_mode_def mode_ids_def)
qed

lemma concat_chunks [simp]: "concat (chunks n xs) = xs"
  by (induction n xs rule: chunks.induct) (subst chunks.simps, simp)

lemma length_chunks: "c \<in> set (chunks n xs) \<Longrightarrow> 0 < n \<Longrightarrow> length c \<le> n"
  by (induction n xs rule: chunks.induct) (subst (asm) (2) chunks.simps, auto split: if_splits)

lemma kanji_pairs_append: "even (length xs) \<Longrightarrow> kanji_pairs (xs @ ys) \<longleftrightarrow> kanji_pairs xs \<and> kanji_pairs ys"
  by (induction xs rule: kanji_pairs.induct) auto

lemma data_ok_append:
  "QRinput_isSplittableMode mode \<Longrightarrow> mode = QR_MODE_KANJI \<longrightarrow> even (length xs) \<Longrightarrow>
     data_ok mode (xs @ ys) \<longleftrightarrow> data_ok mode xs \<and> data_ok mode ys"
  by (auto simp: splittable_modes data_ok_def kanji_pairs_append)

lemma data_ok_chunks:
  assumes "data_ok mode data" and "c \<in> set (chunks n data)" and "QRinput_isSplittableMode mode"
    and "mode = QR_MODE_KANJI \<longrightarrow> even n"
  shows "data_ok mode c"
  using assms
proof (induction n data rule: chunks.induct)
  case (1 n xs)
  show ?case
  proof (cases "n = 0 \<or> length xs \<le> n")
    case True
    with 1 show ?thesis by (subst (asm) (2) chunks.simps) simp
  next
    case False
    with 1(5) have "mode = QR_MODE_KANJI \<longrightarrow> even (length (take n xs))" by simp
    with 1(2,4) have "data_ok mode (take n xs)" "data_ok mode (drop n xs)"
      using data_ok_append [of mode "take n xs" "drop n xs"] by simp_all
    moreover have "c = take n xs \<or> c \<in> set (chunks n (drop n xs))"
      using 1(3) False by (subst (asm) chunks.simps) simp
    ultimately show ?thesis using 1 False by blast
  qed
qed

lemma read_segs_seg:
  "data_ok mode data \<Longrightarrow> seg_count mode data < 2 ^ nat (QRspec_lengthIndicator mode version) \<Longrightarrow>
     read_segs version (seg_bits version mode data @ rest) = (mode, data) # read_segs version rest"
  by (subst read_segs.simps) (simp add: read_seg_bits)

lemma seg_count_bound:
  assumes "QRinput_isSplittableMode mode" and "length c \<le> nat (QRspec_maximumWords mode version)"
  shows "seg_count mode c < 2 ^ nat (QRspec_lengthIndicator mode version)"
proof -
  define l where "l = nat (QRspec_lengthIndicator mode version)"
  have "length c \<le> (if mode = QR_MODE_KANJI then 2 * (2 ^ l - 1) else 2 ^ l - 1)"
    using assms by (auto simp: l_def QRspec_maximumWords_def QRspec_lengthIndicator_def Let_def nat_diff_distrib nat_mult_distrib nat_power_eq split: if_splits)
  moreover obtain m where "(2 :: nat) ^ l = Suc m" by (cases "(2 :: nat) ^ l") auto
  ultimately show ?thesis using assms(1) unfolding l_def [symmetric]
    by (auto simp: seg_count_def split: if_splits)
qed

text \<open>What an entry becomes: its data, in parts that the count can express.\<close>

definition entry_segs :: "int \<Rightarrow> QRinput_List \<Rightarrow> (QRencodeMode \<times> u8 list) list" where
  "entry_segs version e =
     map (Pair (en_mode e)) (chunks (nat (QRspec_maximumWords (en_mode e) version)) (en_data e))"

lemma maximumWords_pos: "QRinput_isSplittableMode mode \<Longrightarrow> 0 < QRspec_maximumWords mode version"
  by (auto simp: splittable_modes QRspec_maximumWords_def lengthTableBits_def Let_def)

lemma read_segs_entry:
  assumes "data_ok (en_mode e) (en_data e)"
  shows "read_segs version (enc_entry version False (en_mode e) (en_data e) @ rest)
    = entry_segs version e @ read_segs version rest"
proof (cases "QRinput_isSplittableMode (en_mode e)")
  case True
  define n where "n = nat (QRspec_maximumWords (en_mode e) version)"
  have "0 < n" using maximumWords_pos [OF True, of version] by (simp add: n_def)
  have "data_ok (en_mode e) c \<and> seg_count (en_mode e) c < 2 ^ nat (QRspec_lengthIndicator (en_mode e) version)"
    if "c \<in> set (chunks n (en_data e))" for c
    using data_ok_chunks [OF assms that True] seg_count_bound [OF True, of c version]
      length_chunks [OF that \<open>0 < n\<close>] even_maximumWords [of "en_mode e" version]
      QRspec_maximumWords_pos [of QR_MODE_KANJI version] by (auto simp: n_def even_nat_iff)
  then have "read_segs version (concat (map (seg_bits version (en_mode e)) cs) @ rest)
      = map (Pair (en_mode e)) cs @ read_segs version rest" if "set cs \<subseteq> set (chunks n (en_data e))" for cs
    using that by (induction cs) (simp_all add: read_segs_seg)
  then show ?thesis by (simp add: enc_entry_def entry_segs_def enc_seg_qr n_def [symmetric])
next
  case False
  then have "chunks (nat (QRspec_maximumWords (en_mode e) version)) (en_data e) = [en_data e]"
    by (subst chunks.simps) (simp add: QRspec_maximumWords_def)
  with False assms show ?thesis
    by (simp add: enc_entry_def entry_segs_def enc_seg_qr read_segs_seg seg_count_def)
qed

lemma read_segs_entries:
  "\<forall>e \<in> set es. data_ok (en_mode e) (en_data e) \<Longrightarrow>
     read_segs version (enc_entries version False es @ rest) = concat (map (entry_segs version) es) @ read_segs version rest"
  by (induction es) (simp_all add: read_segs_entry)

lemma bit_list_concat: "bit_list (concat xss) \<longleftrightarrow> (\<forall>xs \<in> set xss. bit_list xs)"
  by (auto simp: bit_list_def)

lemma bit_list_payload: "bit_list (payload mode data)"
proof -
  have "bit_list (enc_num data)" by (induction data rule: enc_num.induct) simp_all
  moreover have "bit_list (enc_an data)" by (induction data rule: enc_an.induct) simp_all
  moreover have "bit_list (enc_kanji data)" by (induction data rule: enc_kanji.induct) simp_all
  ultimately show ?thesis by (cases mode) (simp_all add: payload_def split_beta)
qed

lemma bit_list_enc_entries [simp]: "bit_list (enc_entries version mqr es)"
  by (auto simp: enc_entries_def enc_entry_def bit_list_concat enc_seg_def seg_header_def bit_list_payload)

end
