(* ===== verification/Mask.thy ===== *)
theory Mask
  imports QRspec
begin

text \<open>
  Masking of \<^verbatim>\<open>qrencode/mask.c\<close>: the eight mask patterns, the format information written into
  the masked symbol, the evaluation of a symbol and the choice of the pattern with the
  smallest demerit. A pointer into a frame is the frame and an offset. The array
  \<^verbatim>\<open>runLength\<close>, which the C code leaves uninitialised, is an argument.
\<close>

subsection \<open>Format information\<close>

text \<open>
  The two loops of \<^verbatim>\<open>Mask_writeFormatInformation\<close>: after \<open>k\<close> shifts \<^verbatim>\<open>format & 1\<close> is the bit \<open>k\<close>
  of the format information.
\<close>

definition format_cell :: "u32 \<Rightarrow> nat \<Rightarrow> u8" where
  "format_cell format k = (if drop_bit k format AND 1 \<noteq> 0 then 0x85 else 0x84)"

definition format_blacks :: "u32 \<Rightarrow> nat \<Rightarrow> int" where
  "format_blacks format k = (if drop_bit k format AND 1 \<noteq> 0 then 2 else 0)"

definition Mask_writeFormatInformation ::
    "nat \<Rightarrow> frame \<Rightarrow> int \<Rightarrow> QRecLevel \<Rightarrow> int \<times> frame" where
  "Mask_writeFormatInformation width frame msk level =
     (let format = QRspec_getFormatInfo msk level;
          frame = foldl (\<lambda>f i. writes f
                    [(width * 8 + width - 1 - i, format_cell format i),
                     (if i < 6 then width * i + 8 else width * (i + 1) + 8, format_cell format i)])
                  frame [0..<8];
          frame = foldl (\<lambda>f i. writes f
                    [(width * (width - 7 + i) + 8, format_cell format (8 + i)),
                     (if i = 0 then width * 8 + 7 else width * 8 + 6 - i, format_cell format (8 + i))])
                  frame [0..<7];
          blacks = (\<Sum>k \<leftarrow> [0..<15]. format_blacks format k)
      in (blacks, frame))"

subsection \<open>The mask patterns\<close>

text \<open>
  The macro \<^verbatim>\<open>MASKMAKER\<close>: the number of dark modules and the masked symbol. \<open>e\<close> is the
  expression that a pattern gives to the macro, over the column \<open>x\<close> and the row \<open>y\<close>.
\<close>

definition mask_cell :: "nat \<Rightarrow> u8 \<Rightarrow> u8" where
  "mask_cell e s = (if s AND 0x80 \<noteq> 0 then s else s XOR (if e = 0 then 1 else 0))"

definition MASKMAKER :: "(nat \<Rightarrow> nat \<Rightarrow> nat) \<Rightarrow> nat \<Rightarrow> frame \<Rightarrow> int \<times> frame" where
  "MASKMAKER e width s =
     (let d = [mask_cell (e x y) (s ! (y * width + x)). y \<leftarrow> [0..<width], x \<leftarrow> [0..<width]]
      in (\<Sum>v \<leftarrow> d. uint (v AND 1), d))"

definition Mask_mask0 :: "nat \<Rightarrow> frame \<Rightarrow> int \<times> frame" where
  "Mask_mask0 = MASKMAKER (\<lambda>x y. (x + y) mod 2)"

definition Mask_mask1 :: "nat \<Rightarrow> frame \<Rightarrow> int \<times> frame" where
  "Mask_mask1 = MASKMAKER (\<lambda>x y. y mod 2)"

definition Mask_mask2 :: "nat \<Rightarrow> frame \<Rightarrow> int \<times> frame" where
  "Mask_mask2 = MASKMAKER (\<lambda>x y. x mod 3)"

definition Mask_mask3 :: "nat \<Rightarrow> frame \<Rightarrow> int \<times> frame" where
  "Mask_mask3 = MASKMAKER (\<lambda>x y. (x + y) mod 3)"

definition Mask_mask4 :: "nat \<Rightarrow> frame \<Rightarrow> int \<times> frame" where
  "Mask_mask4 = MASKMAKER (\<lambda>x y. (y div 2 + x div 3) mod 2)"

definition Mask_mask5 :: "nat \<Rightarrow> frame \<Rightarrow> int \<times> frame" where
  "Mask_mask5 = MASKMAKER (\<lambda>x y. (x * y) mod 2 + (x * y) mod 3)"

definition Mask_mask6 :: "nat \<Rightarrow> frame \<Rightarrow> int \<times> frame" where
  "Mask_mask6 = MASKMAKER (\<lambda>x y. ((x * y) mod 2 + (x * y) mod 3) mod 2)"

definition Mask_mask7 :: "nat \<Rightarrow> frame \<Rightarrow> int \<times> frame" where
  "Mask_mask7 = MASKMAKER (\<lambda>x y. ((x * y) mod 3 + (x + y) mod 2) mod 2)"

abbreviation (input) maskNum :: nat where "maskNum \<equiv> 8"

definition maskMakers :: "(nat \<Rightarrow> frame \<Rightarrow> int \<times> frame) list" where
  "maskMakers = [Mask_mask0, Mask_mask1, Mask_mask2, Mask_mask3,
                 Mask_mask4, Mask_mask5, Mask_mask6, Mask_mask7]"

definition Mask_makeMask ::
    "nat \<Rightarrow> frame \<Rightarrow> int \<Rightarrow> QRecLevel \<Rightarrow> ('z heap_scheme, frame) M" where
  "Mask_makeMask width frame msk level =
     (if msk < 0 \<or> msk \<ge> int maskNum then failM EINVAL
      else bindM malloc (\<lambda>_.
        let masked = snd ((maskMakers ! nat msk) width frame)
        in retM (snd (Mask_writeFormatInformation width masked msk level))))"

subsection \<open>Evaluation of a symbol\<close>

abbreviation (input) N1 :: int where "N1 \<equiv> 3"
abbreviation (input) N2 :: int where "N2 \<equiv> 3"
abbreviation (input) N3 :: int where "N3 \<equiv> 40"
abbreviation (input) N4 :: int where "N4 \<equiv> 10"

text \<open>One turn of the loop of \<^verbatim>\<open>Mask_calcN1N3\<close>: what it adds to the demerit.\<close>

definition demerit_N1 :: "int list \<Rightarrow> nat \<Rightarrow> int" where
  "demerit_N1 runLength i = (if runLength ! i \<ge> 5 then N1 + (runLength ! i - 5) else 0)"

definition demerit_N3 :: "nat \<Rightarrow> int list \<Rightarrow> nat \<Rightarrow> int" where
  "demerit_N3 len runLength i =
     (if i mod 2 = 1 \<and> 3 \<le> i \<and> int i < int len - 2 \<and> runLength ! i mod 3 = 0 then
        let fact = runLength ! i div 3
        in if runLength ! (i - 2) = fact \<and> runLength ! (i - 1) = fact \<and>
              runLength ! (i + 1) = fact \<and> runLength ! (i + 2) = fact then
             if i = 3 \<or> runLength ! (i - 3) \<ge> 4 * fact then N3
             else if i + 4 \<ge> len \<or> runLength ! (i + 3) \<ge> 4 * fact then N3
             else 0
           else 0
      else 0)"

definition Mask_calcN1N3 :: "nat \<Rightarrow> int list \<Rightarrow> int" where
  "Mask_calcN1N3 len runLength =
     foldl (\<lambda>demerit i. demerit + demerit_N1 runLength i + demerit_N3 len runLength i) 0 [0..<len]"

definition Mask_calcN2 :: "nat \<Rightarrow> frame \<Rightarrow> int" where
  "Mask_calcN2 width frame =
     foldl (\<lambda>demerit (y, x).
         let p = y * width + x;
             b22 = frame ! p AND frame ! (p - 1) AND frame ! (p - width) AND frame ! (p - width - 1);
             w22 = frame ! p OR frame ! (p - 1) OR frame ! (p - width) OR frame ! (p - width - 1)
         in if (b22 OR (w22 XOR 1)) AND 1 \<noteq> 0 then demerit + N2 else demerit)
       0 [(y, x). y \<leftarrow> [1..<width], x \<leftarrow> [1..<width]]"

text \<open>The number of runs and the array. \<open>off\<close> is the offset of the line in the frame.\<close>

definition Mask_calcRunLength :: "nat \<Rightarrow> frame \<Rightarrow> nat \<Rightarrow> int \<Rightarrow> int list \<Rightarrow> nat \<times> int list" where
  "Mask_calcRunLength width frame off dir runLength =
     (let pitch = (if dir = 0 then 1 else width);
          (head, runLength) = (if frame ! off AND 1 \<noteq> 0 then (1, runLength[0 := -1]) else (0, runLength));
          runLength = runLength[head := 1];
          (head, runLength) =
            foldl (\<lambda>(head, runLength) i.
                if (frame ! (off + i * pitch) XOR frame ! (off + (i - 1) * pitch)) AND 1 \<noteq> 0
                then (head + 1, runLength[head + 1 := 1])
                else (head, runLength[head := runLength ! head + 1]))
              (head, runLength) [1..<width]
      in (head + 1, runLength))"

abbreviation (input) QRSPEC_WIDTH_MAX :: nat where "QRSPEC_WIDTH_MAX \<equiv> 177"

text \<open>The two loops of \<^verbatim>\<open>Mask_evaluateSymbol\<close>, over the rows and over the columns.\<close>

definition demerit_lines ::
    "nat \<Rightarrow> frame \<Rightarrow> int \<Rightarrow> (nat \<Rightarrow> nat) \<Rightarrow> int \<times> int list \<Rightarrow> int \<times> int list" where
  "demerit_lines width frame dir off st =
     foldl (\<lambda>(demerit, runLength) k.
         let (len, runLength) = Mask_calcRunLength width frame (off k) dir runLength
         in (demerit + Mask_calcN1N3 len runLength, runLength))
       st [0..<width]"

definition Mask_evaluateSymbol :: "nat \<Rightarrow> frame \<Rightarrow> int list \<Rightarrow> int" where
  "Mask_evaluateSymbol width frame runLength =
     (let demerit = Mask_calcN2 width frame;
          st = demerit_lines width frame 0 (\<lambda>y. y * width) (demerit, runLength);
          st = demerit_lines width frame 1 (\<lambda>x. x) st
      in fst st)"

subsection \<open>Choice of the pattern\<close>

text \<open>The masked symbol and its demerit, in one turn of the loop of \<^verbatim>\<open>Mask_mask\<close>.\<close>

definition mask_candidate :: "nat \<Rightarrow> frame \<Rightarrow> QRecLevel \<Rightarrow> nat \<Rightarrow> int \<times> frame" where
  "mask_candidate width frame level i =
     (let w2 = int (width * width);
          (blacks, msk) = (maskMakers ! i) width frame;
          (b, msk) = Mask_writeFormatInformation width msk (int i) level;
          blacks = blacks + b;
          bratio = (200 * blacks + w2) div w2 div 2;
          demerit = (abs (bratio - 50) div 5) * N4;
          demerit = demerit + Mask_evaluateSymbol width msk (replicate (QRSPEC_WIDTH_MAX + 1) 0)
      in (demerit, msk))"

text \<open>
  The loop: the allocation of the next buffer after an improvement may fail, which ends the
  loop with the best symbol so far.
\<close>

fun mask_loop ::
    "nat \<Rightarrow> frame \<Rightarrow> QRecLevel \<Rightarrow> nat list \<Rightarrow> int \<Rightarrow> frame option \<Rightarrow> ('z heap_scheme, frame option) M"
  where
  "mask_loop width frame level [] minDemerit bestMask = retM bestMask"
| "mask_loop width frame level (i # is) minDemerit bestMask =
     (let (demerit, msk) = mask_candidate width frame level i
      in if demerit < minDemerit then
           bindM (tryM malloc) (\<lambda>r. case r of
               Inl _ \<Rightarrow> retM (Some msk)
             | Inr _ \<Rightarrow> mask_loop width frame level is demerit (Some msk))
         else mask_loop width frame level is minDemerit bestMask)"

abbreviation (input) INT_MAX :: int where "INT_MAX \<equiv> 2147483647"

definition Mask_mask :: "nat \<Rightarrow> frame \<Rightarrow> QRecLevel \<Rightarrow> ('z heap_scheme, frame) M" where
  "Mask_mask width frame level =
     bindM malloc (\<lambda>_.
     bindM (mask_loop width frame level [0..<maskNum] INT_MAX None) (\<lambda>best.
     case best of None \<Rightarrow> failM NOERRNO | Some m \<Rightarrow> retM m))"

end
