(* ===== verification/MMask.thy ===== *)
theory MMask
  imports MQRspec Mask
begin

text \<open>
  Masking for Micro QR Code, \<^verbatim>\<open>qrencode/mmask.c\<close>. The macro \<^verbatim>\<open>MASKMAKER\<close> of this file is the one
  of \<^verbatim>\<open>mask.c\<close> without the count of dark modules; the file-local names that \<^verbatim>\<open>mask.c\<close> has too
  carry the prefix \<open>MMask_\<close>.
\<close>

definition MMask_writeFormatInformation ::
    "int \<Rightarrow> nat \<Rightarrow> frame \<Rightarrow> int \<Rightarrow> QRecLevel \<Rightarrow> frame" where
  "MMask_writeFormatInformation version width frame msk level =
     (let format = MQRspec_getFormatInfo msk version level;
          cell = (\<lambda>k. 0x84 OR ucast (drop_bit k format AND 1) :: u8);
          frame = writes frame [(width * (i + 1) + 8, cell i). i \<leftarrow> [0..<8]]
      in writes frame [(width * 8 + 7 - i, cell (8 + i)). i \<leftarrow> [0..<7]])"

definition MMask_MASKMAKER :: "(nat \<Rightarrow> nat \<Rightarrow> nat) \<Rightarrow> nat \<Rightarrow> frame \<Rightarrow> frame" where
  "MMask_MASKMAKER e width s =
     [mask_cell (e x y) (s ! (y * width + x)). y \<leftarrow> [0..<width], x \<leftarrow> [0..<width]]"

definition MMask_mask0 :: "nat \<Rightarrow> frame \<Rightarrow> frame" where
  "MMask_mask0 = MMask_MASKMAKER (\<lambda>x y. y mod 2)"

definition MMask_mask1 :: "nat \<Rightarrow> frame \<Rightarrow> frame" where
  "MMask_mask1 = MMask_MASKMAKER (\<lambda>x y. (y div 2 + x div 3) mod 2)"

definition MMask_mask2 :: "nat \<Rightarrow> frame \<Rightarrow> frame" where
  "MMask_mask2 = MMask_MASKMAKER (\<lambda>x y. ((x * y) mod 2 + (x * y) mod 3) mod 2)"

definition MMask_mask3 :: "nat \<Rightarrow> frame \<Rightarrow> frame" where
  "MMask_mask3 = MMask_MASKMAKER (\<lambda>x y. ((x + y) mod 2 + (x * y) mod 3) mod 2)"

abbreviation (input) mmaskNum :: nat where "mmaskNum \<equiv> 4"

definition MMask_maskMakers :: "(nat \<Rightarrow> frame \<Rightarrow> frame) list" where
  "MMask_maskMakers = [MMask_mask0, MMask_mask1, MMask_mask2, MMask_mask3]"

definition MMask_makeMask ::
    "int \<Rightarrow> frame \<Rightarrow> int \<Rightarrow> QRecLevel \<Rightarrow> ('z heap_scheme, frame) M" where
  "MMask_makeMask version frame msk level =
     (if msk < 0 \<or> msk \<ge> int mmaskNum then failM EINVAL
      else
        let width = MQRspec_getWidth version
        in bindM malloc (\<lambda>_.
             let masked = (MMask_maskMakers ! nat msk) width frame
             in retM (MMask_writeFormatInformation version width masked msk level)))"

definition MMask_evaluateSymbol :: "nat \<Rightarrow> frame \<Rightarrow> int" where
  "MMask_evaluateSymbol width frame =
     (let sum1 = (\<Sum>x \<leftarrow> [1..<width]. uint (frame ! (width * (width - 1) + x) AND 1));
          sum2 = (\<Sum>y \<leftarrow> [1..<width]. uint (frame ! (width * 2 - 1 + (y - 1) * width) AND 1))
      in if sum1 \<le> sum2 then sum1 * 16 + sum2 else sum2 * 16 + sum1)"

definition mmask_candidate :: "int \<Rightarrow> frame \<Rightarrow> QRecLevel \<Rightarrow> nat \<Rightarrow> int \<times> frame" where
  "mmask_candidate version frame level i =
     (let width = MQRspec_getWidth version;
          msk = (MMask_maskMakers ! i) width frame;
          msk = MMask_writeFormatInformation version width msk (int i) level
      in (MMask_evaluateSymbol width msk, msk))"

fun mmask_loop ::
    "int \<Rightarrow> frame \<Rightarrow> QRecLevel \<Rightarrow> nat list \<Rightarrow> int \<Rightarrow> frame option \<Rightarrow> ('z heap_scheme, frame option) M"
  where
  "mmask_loop version frame level [] maxScore bestMask = retM bestMask"
| "mmask_loop version frame level (i # is) maxScore bestMask =
     (let (score, msk) = mmask_candidate version frame level i
      in if score > maxScore then
           bindM (tryM malloc) (\<lambda>r. case r of
               Inl _ \<Rightarrow> retM (Some msk)
             | Inr _ \<Rightarrow> mmask_loop version frame level is score (Some msk))
         else mmask_loop version frame level is maxScore bestMask)"

definition MMask_mask :: "int \<Rightarrow> frame \<Rightarrow> QRecLevel \<Rightarrow> ('z heap_scheme, frame) M" where
  "MMask_mask version frame level =
     bindM malloc (\<lambda>_.
     bindM (mmask_loop version frame level [0..<mmaskNum] 0 None) (\<lambda>best.
     case best of None \<Rightarrow> failM NOERRNO | Some m \<Rightarrow> retM m))"

end
