(* ===== verification/QRinput_Struct.thy ===== *)
theory QRinput_Struct
  imports QRinput_Stream
begin

text \<open>
  Structured append of \<^verbatim>\<open>qrencode/qrinput.c\<close>: the set of inputs, the split of one input into
  several symbols and the headers that number them. The set holds its inputs by value; the C
  code holds pointers and owns the inputs.
\<close>

record QRinput_Struct =
  st_size :: int
  st_parity :: int
  st_head :: "QRinput list"

definition QRinput_Struct_new :: "('z heap_scheme, QRinput_Struct) M" where
  "QRinput_Struct_new = bindM malloc (\<lambda>_. retM \<lparr>st_size = 0, st_parity = -1, st_head = []\<rparr>)"

definition QRinput_Struct_setParity :: "QRinput_Struct \<Rightarrow> u8 \<Rightarrow> QRinput_Struct" where
  "QRinput_Struct_setParity s parity = s\<lparr>st_parity := uint parity\<rparr>"

text \<open>\<^verbatim>\<open>QRinput_InputList_newEntry\<close> is the allocation of the list cell.\<close>

definition QRinput_Struct_appendInput ::
    "QRinput_Struct \<Rightarrow> QRinput \<Rightarrow> ('z heap_scheme, int \<times> QRinput_Struct) M" where
  "QRinput_Struct_appendInput s input =
     (if in_mqr input then failM EINVAL
      else bindM malloc (\<lambda>_.
        let s = s\<lparr>st_size := st_size s + 1, st_head := st_head s @ [input]\<rparr>
        in retM (st_size s, s)))"

definition QRinput_Struct_calcParity :: "QRinput_Struct \<Rightarrow> u8 \<times> QRinput_Struct" where
  "QRinput_Struct_calcParity s =
     (let parity = foldl (\<lambda>parity input. parity XOR QRinput_calcParity input) 0 (st_head s)
      in (parity, QRinput_Struct_setParity s parity))"

subsection \<open>Splitting an input\<close>

definition QRinput_List_shrinkEntry :: "QRinput_List \<Rightarrow> int \<Rightarrow> ('z heap_scheme, QRinput_List) M" where
  "QRinput_List_shrinkEntry entry bytes =
     bindM malloc (\<lambda>_.
     retM (entry\<lparr>en_data := take (nat bytes) (en_data entry), en_size := bytes\<rparr>))"

text \<open>The entry and the entry that is linked behind it.\<close>

definition QRinput_splitEntry ::
    "QRinput_List \<Rightarrow> int \<Rightarrow> ('z heap_scheme, QRinput_List \<times> QRinput_List) M" where
  "QRinput_splitEntry entry bytes =
     bindM (QRinput_List_newEntry (en_mode entry) (en_size entry - bytes)
              (drop (nat bytes) (en_data entry))) (\<lambda>e.
     bindM (QRinput_List_shrinkEntry entry bytes) (\<lambda>entry. retM (entry, e)))"

text \<open>
  The loop of \<^verbatim>\<open>QRinput_splitQRinputToStruct\<close>. \<open>input\<close> is the current input, whose list is
  \<open>before @ rest\<close> with \<^verbatim>\<open>list\<close> pointing at the head of \<open>rest\<close>; \<open>noprev\<close> says that \<^verbatim>\<open>prev\<close> is null.
  When nothing of an entry fits and the current input is empty before it, the code writes
  through the null pointer \<^verbatim>\<open>prev\<close>, or, when \<^verbatim>\<open>prev\<close> belongs to an earlier input, meets the same
  situation again for ever. The test of \<^verbatim>\<open>QRinput_List_newEntry\<close> that rejects a second half without
  bytes stands before the call of \<^verbatim>\<open>QRinput_splitEntry\<close>, so that the loop is seen to end. The field \<^verbatim>\<open>tail\<close> of the new inputs, which may point to an entry of
  an earlier input, is never read again.
\<close>

function (sequential) splitStruct_loop ::
    "int \<Rightarrow> QRinput_Struct \<Rightarrow> QRinput \<Rightarrow> QRinput_List list \<Rightarrow> QRinput_List list \<Rightarrow> bool \<Rightarrow> int \<Rightarrow>
       ('z heap_scheme, QRinput_Struct \<times> QRinput) M" where
  "splitStruct_loop maxbits s input before [] noprev bits =
     retM (s, input\<lparr>in_head := before\<rparr>)"
| "splitStruct_loop maxbits s input before (list # rest) noprev bits =
     (let version = in_version input;
          nextbits = QRinput_estimateBitStreamSizeOfEntry list version (in_mqr input)
      in if bits + nextbits \<le> maxbits then
           bindM (\<lambda>h. case QRinput_encodeBitStream version (in_mqr input) (list, h) of
                    (Inl e, (_, h')) \<Rightarrow> (Inl e, h')
                  | (Inr ret, (list', h')) \<Rightarrow> (Inr (ret, list'), h')) (\<lambda>(ret, list').
           splitStruct_loop maxbits s input (before @ [list']) rest False (bits + ret))
         else
           let bytes = QRinput_lengthOfCode (en_mode list) version (maxbits - bits) in
           bindM (QRinput_new2 version (in_level input)) (\<lambda>p.
           if bytes > 0 then
             let next = new_entry (en_mode list) (en_size list - bytes) (drop (nat bytes) (en_data list)) in
             if en_size list - bytes \<le> 0 then failM EINVAL
             else
             bindM (QRinput_splitEntry list bytes) (\<lambda>(list, _).
             bindM (QRinput_Struct_appendInput s (input\<lparr>in_head := before @ [list], in_tail := True\<rparr>))
               (\<lambda>(_, s).
             splitStruct_loop maxbits s (p\<lparr>in_tail := in_tail input\<rparr>) [] (next # rest) False 0))
           else if before = [] then failM (if noprev then CRASH else DIVERGES)
           else
             bindM (QRinput_Struct_appendInput s (input\<lparr>in_head := before, in_tail := True\<rparr>)) (\<lambda>(_, s).
             splitStruct_loop maxbits s (p\<lparr>in_tail := in_tail input\<rparr>) [] (list # rest) noprev 0)))"
  by pat_completeness auto
termination
  by (relation "measures [\<lambda>(_, _, _, before, rest, _, _). \<Sum>e\<leftarrow>rest. Suc (nat (en_size e)),
                          \<lambda>(_, _, _, before, rest, _, _). length before]")
    (auto simp: new_entry_def)

declare splitStruct_loop.simps [simp del]

text \<open>The loop of \<^verbatim>\<open>QRinput_Struct_insertStructuredAppendHeaders\<close>, which stops at a failure.\<close>

fun insertHeaders_loop ::
    "int \<Rightarrow> u8 \<Rightarrow> int \<Rightarrow> QRinput list \<Rightarrow> 'z heap_scheme \<Rightarrow>
       (failure + unit) \<times> (QRinput list \<times> 'z heap_scheme)" where
  "insertHeaders_loop sz parity i [] h = (Inr (), ([], h))"
| "insertHeaders_loop sz parity i (input # inputs) h =
     (case QRinput_insertStructuredAppendHeader input sz i parity h of
        (Inl e, h') \<Rightarrow> (Inl e, (input # inputs, h'))
      | (Inr input', h') \<Rightarrow>
          (case insertHeaders_loop sz parity (i + 1) inputs h' of
             (r, (inputs', h'')) \<Rightarrow> (r, (input' # inputs', h''))))"

definition QRinput_Struct_insertStructuredAppendHeaders ::
    "(QRinput_Struct, 'z heap_scheme, unit) OM" where
  "QRinput_Struct_insertStructuredAppendHeaders = (\<lambda>(s, h).
     if st_size s = 1 then (Inr (), (s, h))
     else
       let s = (if st_parity s < 0 then snd (QRinput_Struct_calcParity s) else s)
       in case insertHeaders_loop (st_size s) (of_int (st_parity s)) 1 (st_head s) h of
            (r, (inputs, h')) \<Rightarrow> (r, (s\<lparr>st_head := inputs\<rparr>, h')))"

definition QRinput_splitQRinputToStruct :: "QRinput \<Rightarrow> ('z heap_scheme, QRinput_Struct) M" where
  "QRinput_splitQRinputToStruct input =
     (if in_mqr input then failM EINVAL
      else
        bindM QRinput_Struct_new (\<lambda>s.
        bindM (QRinput_dup input) (\<lambda>input.
        let s = QRinput_Struct_setParity s (QRinput_calcParity input);
            maxbits = QRspec_getDataLength (in_version input) (in_level input) * 8 - STRUCTURE_HEADER_SIZE
        in if maxbits \<le> 0 then failM NOERRNO
           else
             bindM (splitStruct_loop maxbits s input [] (in_head input) True 0) (\<lambda>(s, input).
             bindM (QRinput_Struct_appendInput s input) (\<lambda>(_, s).
             if st_size s > MAX_STRUCTURED_SYMBOLS then failM ERANGE
             else (\<lambda>h. case QRinput_Struct_insertStructuredAppendHeaders (s, h) of
                       (Inl e, (_, h')) \<Rightarrow> (Inl e, h')
                     | (Inr _, (s', h')) \<Rightarrow> (Inr s', h')))))))"

end
