(* ===== verification/Split.thy ===== *)
theory Split
  imports QRinput
begin

text \<open>
  The parser of \<^verbatim>\<open>qrencode/split.c\<close> that cuts a string into numeric, alphanumeric, Kanji and
  8-bit entries. A C string is the list of its bytes before the terminating NUL; a pointer
  into it is the suffix it points to, and \<open>deref\<close> reads the NUL at the end.
\<close>

definition deref :: "u8 list \<Rightarrow> u8" where
  "deref p = (case p of [] \<Rightarrow> 0 | c # _ \<Rightarrow> c)"

definition isdigit :: "u8 \<Rightarrow> bool" where
  "isdigit c \<longleftrightarrow> c - 48 < 10"

definition isalnum :: "u8 \<Rightarrow> bool" where
  "isalnum c \<longleftrightarrow> QRinput_lookAnTable c \<ge> 0"

definition Split_identifyMode :: "u8 list \<Rightarrow> QRencodeMode \<Rightarrow> QRencodeMode" where
  "Split_identifyMode string hint =
     (let c = deref string in
      if c = 0 then QR_MODE_NUL
      else if isdigit c then QR_MODE_NUM
      else if isalnum c then QR_MODE_AN
      else if hint = QR_MODE_KANJI \<and>
              (let d = deref (tl string) in
               d \<noteq> 0 \<and> (let word = kanji_val c d
                         in (word \<ge> 0x8140 \<and> word \<le> 0x9ffc) \<or> (word \<ge> 0xe040 \<and> word \<le> 0xebbf)))
      then QR_MODE_KANJI
      else QR_MODE_8)"

text \<open>
  The difference \<^verbatim>\<open>p - q\<close> of two pointers into the same string, converted to \<^verbatim>\<open>int\<close> as every
  assignment \<^verbatim>\<open>run = p - string\<close> and every argument of the estimates does.
\<close>

definition ptr_diff :: "u8 list \<Rightarrow> u8 list \<Rightarrow> int" where
  "ptr_diff p q = int32 (int (length q) - int (length p))"

definition append_entry :: "QRencodeMode \<Rightarrow> int \<Rightarrow> u8 list \<Rightarrow> (QRinput, 'z heap_scheme, int) OM" where
  "append_entry mode run string =
     bindM getO (\<lambda>input.
     bindM (lift (QRinput_append input mode run string)) (\<lambda>input.
     bindM (putO input) (\<lambda>_. retM run)))"

subsection \<open>8-bit data\<close>

lemma length_dropWhile_less: "p \<noteq> [] \<Longrightarrow> P (deref p) \<Longrightarrow> length (dropWhile P p) < length p"
  by (cases p) (auto simp: deref_def le_imp_less_Suc length_dropWhile_le)

lemma identifyMode_num: "Split_identifyMode p hint = QR_MODE_NUM \<Longrightarrow> isdigit (deref p)"
  by (auto simp: Split_identifyMode_def Let_def split: if_splits)

lemma identifyMode_an: "Split_identifyMode p hint = QR_MODE_AN \<Longrightarrow> isalnum (deref p) \<and> \<not> isdigit (deref p)"
  by (auto simp: Split_identifyMode_def Let_def split: if_splits)

lemma deref_nonzero: "deref p \<noteq> 0 \<Longrightarrow> p \<noteq> []"
  by (auto simp: deref_def)

text \<open>The loop of \<^verbatim>\<open>Split_eat8\<close>: the pointer \<open>p\<close> where it stops.\<close>

function eat8_loop :: "int \<Rightarrow> QRencodeMode \<Rightarrow> u8 list \<Rightarrow> u8 list \<Rightarrow> u8 list" where
  "eat8_loop version hint string p =
     (let la = QRspec_lengthIndicator QR_MODE_AN version;
          ln = QRspec_lengthIndicator QR_MODE_NUM version;
          l8 = QRspec_lengthIndicator QR_MODE_8 version;
          mode = Split_identifyMode p hint
      in if deref p = 0 then p
         else if mode = QR_MODE_KANJI then p
         else if mode = QR_MODE_NUM then
           let q = dropWhile isdigit p;
               swcost = (if Split_identifyMode q hint = QR_MODE_8 then 4 + l8 else 0);
               dif = QRinput_estimateBitsMode8 (ptr_diff p string)
                     + QRinput_estimateBitsModeNum (ptr_diff q p) + 4 + ln
                     + swcost
                     - QRinput_estimateBitsMode8 (ptr_diff q string)
           in if dif < 0 then p else eat8_loop version hint string q
         else if mode = QR_MODE_AN then
           let q = dropWhile isalnum p;
               swcost = (if Split_identifyMode q hint = QR_MODE_8 then 4 + l8 else 0);
               dif = QRinput_estimateBitsMode8 (ptr_diff p string)
                     + QRinput_estimateBitsModeAn (ptr_diff q p) + 4 + la
                     + swcost
                     - QRinput_estimateBitsMode8 (ptr_diff q string)
           in if dif < 0 then p else eat8_loop version hint string q
         else eat8_loop version hint string (tl p))"
  by pat_completeness auto
termination
  by (relation "measure (\<lambda>(_, _, _, p). length p)")
    (auto intro!: length_dropWhile_less dest: identifyMode_num [OF sym] identifyMode_an [OF sym] deref_nonzero)

declare eat8_loop.simps [simp del]

definition Split_eat8 :: "u8 list \<Rightarrow> QRencodeMode \<Rightarrow> (QRinput, 'z heap_scheme, int) OM" where
  "Split_eat8 string hint = bindM getO (\<lambda>input.
     let p = eat8_loop (in_version input) hint string (tl string);
         run = ptr_diff p string
     in append_entry QR_MODE_8 run string)"

subsection \<open>Alphanumeric data\<close>

function eatAn_loop :: "int \<Rightarrow> u8 list \<Rightarrow> u8 list \<Rightarrow> u8 list" where
  "eatAn_loop version string p =
     (let ln = QRspec_lengthIndicator QR_MODE_NUM version in
      if isalnum (deref p) then
        if isdigit (deref p) then
          let q = dropWhile isdigit p;
              dif = QRinput_estimateBitsModeAn (ptr_diff p string)
                    + QRinput_estimateBitsModeNum (ptr_diff q p) + 4 + ln
                    + (if isalnum (deref q) then 4 + ln else 0)
                    - QRinput_estimateBitsModeAn (ptr_diff q string)
          in if dif < 0 then p else eatAn_loop version string q
        else eatAn_loop version string (tl p)
      else p)"
  by pat_completeness auto

lemma isalnum_0: "\<not> isalnum 0"
  by (simp add: isalnum_def QRinput_lookAnTable_def QRinput_anTable_def)

termination eatAn_loop
proof (relation "measure (\<lambda>(_, _, p). length p)", goal_cases)
  case (2 version string p ln q dif)
  then show ?case using isalnum_0 by (auto simp: deref_def intro!: length_dropWhile_less)
next
  case (3 version string p ln)
  then show ?case using isalnum_0 by (auto simp: deref_def split: list.splits)
qed simp

declare eatAn_loop.simps [simp del]

definition Split_eatAn :: "u8 list \<Rightarrow> QRencodeMode \<Rightarrow> (QRinput, 'z heap_scheme, int) OM" where
  "Split_eatAn string hint = bindM getO (\<lambda>input.
     let la = QRspec_lengthIndicator QR_MODE_AN (in_version input);
         p = eatAn_loop (in_version input) string string;
         run = ptr_diff p string;
         dif = QRinput_estimateBitsModeAn run + 4 + la
               + QRinput_estimateBitsMode8 1
               - QRinput_estimateBitsMode8 (run + 1)
     in if deref p \<noteq> 0 \<and> \<not> isalnum (deref p) \<and> dif > 0 then Split_eat8 string hint
        else append_entry QR_MODE_AN run string)"

subsection \<open>Numeric data\<close>

definition Split_eatNum :: "u8 list \<Rightarrow> QRencodeMode \<Rightarrow> (QRinput, 'z heap_scheme, int) OM" where
  "Split_eatNum string hint = bindM getO (\<lambda>input.
     let ln = QRspec_lengthIndicator QR_MODE_NUM (in_version input);
         p = dropWhile isdigit string;
         run = ptr_diff p string;
         mode = Split_identifyMode p hint
     in if mode = QR_MODE_8 \<and>
           QRinput_estimateBitsModeNum run + 4 + ln + QRinput_estimateBitsMode8 1
             - QRinput_estimateBitsMode8 (run + 1) > 0
        then Split_eat8 string hint
        else if mode = QR_MODE_AN \<and>
           QRinput_estimateBitsModeNum run + 4 + ln + QRinput_estimateBitsModeAn 1
             - QRinput_estimateBitsModeAn (run + 1) > 0
        then Split_eatAn string hint
        else append_entry QR_MODE_NUM run string)"

subsection \<open>Kanji data\<close>

function eatKanji_loop :: "QRencodeMode \<Rightarrow> u8 list \<Rightarrow> u8 list" where
  "eatKanji_loop hint p =
     (if Split_identifyMode p hint = QR_MODE_KANJI then eatKanji_loop hint (drop 2 p) else p)"
  by pat_completeness auto
termination
  by (relation "measure (\<lambda>(_, p). length p)")
    (auto simp: Split_identifyMode_def Let_def dest!: deref_nonzero split: if_splits)

declare eatKanji_loop.simps [simp del]

definition Split_eatKanji :: "u8 list \<Rightarrow> QRencodeMode \<Rightarrow> (QRinput, 'z heap_scheme, int) OM" where
  "Split_eatKanji string hint =
     (let run = ptr_diff (eatKanji_loop hint string) string
      in append_entry QR_MODE_KANJI run string)"

subsection \<open>The whole string\<close>

function Split_splitString :: "u8 list \<Rightarrow> QRencodeMode \<Rightarrow> (QRinput, 'z heap_scheme, unit) OM" where
  "Split_splitString string hint =
     (if deref string = 0 then retM ()
      else
        let mode = Split_identifyMode string hint in
        bindM (if mode = QR_MODE_NUM then Split_eatNum string hint
               else if mode = QR_MODE_AN then Split_eatAn string hint
               else if mode = QR_MODE_KANJI \<and> hint = QR_MODE_KANJI then Split_eatKanji string hint
               else Split_eat8 string hint) (\<lambda>length'.
        if length' = 0 then retM ()
        else if length' < 0 then failM NOERRNO
        else Split_splitString (drop (nat length') string) hint))"
  by pat_completeness auto
termination
  by (relation "measure (\<lambda>(string, _). length string)") (auto dest: deref_nonzero)

declare Split_splitString.simps [simp del]

text \<open>The loop of \<^verbatim>\<open>dupAndToUpper\<close> over the copy of the string.\<close>

function toUpper_loop :: "QRencodeMode \<Rightarrow> u8 list \<Rightarrow> u8 list" where
  "toUpper_loop hint p =
     (if deref p = 0 then p
      else if Split_identifyMode p hint = QR_MODE_KANJI
      then take 2 p @ toUpper_loop hint (drop 2 p)
      else (if deref p \<ge> 97 \<and> deref p \<le> 122 then deref p - 32 else deref p) # toUpper_loop hint (tl p))"
  by pat_completeness auto
termination
  by (relation "measure (\<lambda>(_, p). length p)") (auto dest: deref_nonzero)

declare toUpper_loop.simps [simp del]

definition dupAndToUpper :: "u8 list \<Rightarrow> QRencodeMode \<Rightarrow> ('z heap_scheme, u8 list) M" where
  "dupAndToUpper str hint = bindM malloc (\<lambda>_. retM (toUpper_loop hint str))"

text \<open>The string pointer may be null.\<close>

definition Split_splitStringToQRinput ::
    "u8 list option \<Rightarrow> QRencodeMode \<Rightarrow> bool \<Rightarrow> (QRinput, 'z heap_scheme, unit) OM" where
  "Split_splitStringToQRinput string hint casesensitive =
     (case string of
        None \<Rightarrow> failM EINVAL
      | Some string \<Rightarrow>
          if deref string = 0 then failM EINVAL
          else if \<not> casesensitive then
            bindM (lift (dupAndToUpper string hint)) (\<lambda>newstr. Split_splitString newstr hint)
          else Split_splitString string hint)"

end
