(* ===== verification/QRencode.thy ===== *)
theory QRencode
  imports Mask MMask QRinput_Struct Split
begin

text \<open>
  The encoder of \<^verbatim>\<open>qrencode/qrencode.c\<close>: the blocks of data and error correction codes, the
  order in which they are read, the walk that places the modules in the frame, and the
  functions of the API.
\<close>

subsection \<open>Raw code\<close>

text \<open>
  The pointers \<^verbatim>\<open>data\<close> and \<^verbatim>\<open>ecc\<close> of a block are offsets into the arrays \<^verbatim>\<open>datacode\<close> and \<^verbatim>\<open>ecccode\<close>
  of the raw code it belongs to.
\<close>

record RSblock =
  rb_dataLength :: int
  rb_data :: nat
  rb_eccLength :: int
  rb_ecc :: nat

record QRRawCode =
  raw_version :: int
  raw_dataLength :: int
  raw_eccLength :: int
  raw_datacode :: "u8 list"
  raw_ecccode :: "u8 list"
  raw_b1 :: int
  raw_blocks :: int
  raw_rsblock :: "RSblock list"
  raw_count :: int

definition overwrite :: "u8 list \<Rightarrow> nat \<Rightarrow> u8 list \<Rightarrow> u8 list" where
  "overwrite xs i ys = take i xs @ ys @ drop (i + length ys) xs"

definition RSblock_initBlock ::
    "int \<Rightarrow> nat \<Rightarrow> int \<Rightarrow> nat \<Rightarrow> RS \<Rightarrow> u8 list \<Rightarrow> u8 list \<Rightarrow> RSblock \<times> u8 list" where
  "RSblock_initBlock dl dp el ep rs data ecc =
     (\<lparr>rb_dataLength = dl, rb_data = dp, rb_eccLength = el, rb_ecc = ep\<rparr>,
      overwrite ecc ep (encode_rs_char rs (drop dp data)))"

text \<open>A loop over the blocks of one size, with the state \<open>(blocks, dp, ep, ecc)\<close>.\<close>

definition RSblock_initBlocks ::
    "nat \<Rightarrow> int \<Rightarrow> int \<Rightarrow> RS \<Rightarrow> u8 list \<Rightarrow>
       RSblock list \<times> nat \<times> nat \<times> u8 list \<Rightarrow> RSblock list \<times> nat \<times> nat \<times> u8 list" where
  "RSblock_initBlocks n dl el rs data st =
     foldl (\<lambda>(blocks, dp, ep, ecc) i.
         let (block, ecc) = RSblock_initBlock dl dp el ep rs data ecc
         in (blocks @ [block], dp + nat dl, ep + nat el, ecc)) st [0..<n]"

definition RSblock_init ::
    "int list \<Rightarrow> u8 list \<Rightarrow> u8 list \<Rightarrow> ('z rs_heap_scheme, RSblock list \<times> u8 list) M" where
  "RSblock_init spec data ecc =
     (let dl = QRspec_rsDataCodes1 spec; el = QRspec_rsEccCodes1 spec in
      bindM (init_rs 8 0x11d 0 1 el (255 - dl - el)) (\<lambda>rs.
      let (blocks, dp, ep, ecc) =
            RSblock_initBlocks (nat (QRspec_rsBlockNum1 spec)) dl el rs data ([], 0, 0, ecc)
      in if QRspec_rsBlockNum2 spec = 0 then retM (blocks, ecc)
         else
           let dl = QRspec_rsDataCodes2 spec; el = QRspec_rsEccCodes2 spec in
           bindM (init_rs 8 0x11d 0 1 el (255 - dl - el)) (\<lambda>rs.
           let (blocks, dp, ep, ecc) =
                 RSblock_initBlocks (nat (QRspec_rsBlockNum2 spec)) dl el rs data (blocks, dp, ep, ecc)
           in retM (blocks, ecc))))"

definition QRraw_new :: "(QRinput, 'z rs_heap_scheme, QRRawCode) OM" where
  "QRraw_new =
     bindM (lift malloc) (\<lambda>_.
     bindM QRinput_getByteStream (\<lambda>datacode.
     bindM getO (\<lambda>input.
     let spec = QRspec_getEccSpec (in_version input) (in_level input);
         eccLength = QRspec_rsEccLength spec in
     bindM (lift malloc) (\<lambda>_.
     bindM (lift malloc) (\<lambda>_.
     bindM (lift (RSblock_init spec datacode (replicate (nat eccLength) 0))) (\<lambda>(rsblock, ecccode).
     retM \<lparr>raw_version = in_version input, raw_dataLength = QRspec_rsDataLength spec,
           raw_eccLength = eccLength, raw_datacode = datacode, raw_ecccode = ecccode,
           raw_b1 = QRspec_rsBlockNum1 spec, raw_blocks = QRspec_rsBlockNum spec,
           raw_rsblock = rsblock, raw_count = 0\<rparr>))))))"

definition QRraw_getCode :: "QRRawCode \<Rightarrow> u8 \<times> QRRawCode" where
  "QRraw_getCode raw =
     (let count = raw_count raw in
      if count < raw_dataLength raw then
        let row = count mod raw_blocks raw;
            col = count div raw_blocks raw;
            row = (if col \<ge> rb_dataLength (raw_rsblock raw ! 0) then row + raw_b1 raw else row);
            ret = raw_datacode raw ! (rb_data (raw_rsblock raw ! nat row) + nat col)
        in (ret, raw\<lparr>raw_count := count + 1\<rparr>)
      else if count < raw_dataLength raw + raw_eccLength raw then
        let row = (count - raw_dataLength raw) mod raw_blocks raw;
            col = (count - raw_dataLength raw) div raw_blocks raw;
            ret = raw_ecccode raw ! (rb_ecc (raw_rsblock raw ! nat row) + nat col)
        in (ret, raw\<lparr>raw_count := count + 1\<rparr>)
      else (0, raw))"

subsection \<open>Raw code for Micro QR Code\<close>

record MQRRawCode =
  mraw_version :: int
  mraw_dataLength :: int
  mraw_eccLength :: int
  mraw_datacode :: "u8 list"
  mraw_ecccode :: "u8 list"
  mraw_rsblock :: "RSblock list"
  mraw_oddbits :: int
  mraw_count :: int

definition MQRraw_new :: "(QRinput, 'z rs_heap_scheme, MQRRawCode) OM" where
  "MQRraw_new =
     bindM (lift malloc) (\<lambda>_.
     bindM getO (\<lambda>input.
     let dataLength = MQRspec_getDataLength (in_version input) (in_level input);
         eccLength = MQRspec_getECCLength (in_version input) (in_level input);
         oddbits = dataLength * 8 - MQRspec_getDataLengthBit (in_version input) (in_level input) in
     bindM QRinput_getByteStream (\<lambda>datacode.
     bindM (lift malloc) (\<lambda>_.
     bindM (lift malloc) (\<lambda>_.
     bindM (lift (init_rs 8 0x11d 0 1 eccLength (255 - dataLength - eccLength))) (\<lambda>rs.
     let (block, ecccode) = RSblock_initBlock dataLength 0 eccLength 0 rs datacode
                              (replicate (nat eccLength) 0)
     in retM \<lparr>mraw_version = in_version input, mraw_dataLength = dataLength,
              mraw_eccLength = eccLength, mraw_datacode = datacode, mraw_ecccode = ecccode,
              mraw_rsblock = [block], mraw_oddbits = oddbits, mraw_count = 0\<rparr>))))))"

definition MQRraw_getCode :: "MQRRawCode \<Rightarrow> u8 \<times> MQRRawCode" where
  "MQRraw_getCode raw =
     (let count = mraw_count raw in
      if count < mraw_dataLength raw then
        (mraw_datacode raw ! nat count, raw\<lparr>mraw_count := count + 1\<rparr>)
      else if count < mraw_dataLength raw + mraw_eccLength raw then
        (mraw_ecccode raw ! nat (count - mraw_dataLength raw), raw\<lparr>mraw_count := count + 1\<rparr>)
      else (0, raw))"

subsection \<open>Frame filling\<close>

record FrameFiller =
  ff_width :: nat
  ff_frame :: frame
  ff_x :: int
  ff_y :: int
  ff_dir :: int
  ff_bit :: int
  ff_mqr :: bool

definition FrameFiller_new :: "nat \<Rightarrow> frame \<Rightarrow> bool \<Rightarrow> ('z heap_scheme, FrameFiller) M" where
  "FrameFiller_new width frame mqr =
     bindM malloc (\<lambda>_.
     retM \<lparr>ff_width = width, ff_frame = frame, ff_x = int width - 1, ff_y = int width - 1,
           ff_dir = -1, ff_bit = -1, ff_mqr = mqr\<rparr>)"

text \<open>
  The part of \<^verbatim>\<open>FrameFiller_next\<close> before the test \<^verbatim>\<open>if(x < 0 || y < 0)\<close>: the new position and the
  filler with \<^verbatim>\<open>dir\<close> and \<^verbatim>\<open>bit\<close> updated.
\<close>

definition filler_move :: "FrameFiller \<Rightarrow> int \<times> int \<times> FrameFiller" where
  "filler_move filler =
     (let x = ff_x filler; y = ff_y filler; w = int (ff_width filler);
          (x, y, filler) =
            (if ff_bit filler = 0 then (x - 1, y, filler\<lparr>ff_bit := ff_bit filler + 1\<rparr>)
             else (x + 1, y + ff_dir filler, filler\<lparr>ff_bit := ff_bit filler - 1\<rparr>))
      in if ff_dir filler < 0 then
           if y < 0 then
             let y = 0; x = x - 2; filler = filler\<lparr>ff_dir := 1\<rparr>
             in if \<not> ff_mqr filler \<and> x = 6 then (x - 1, 9, filler) else (x, y, filler)
           else (x, y, filler)
         else
           if y = w then
             let y = w - 1; x = x - 2; filler = filler\<lparr>ff_dir := -1\<rparr>
             in if \<not> ff_mqr filler \<and> x = 6 then (x - 1, y - 8, filler) else (x, y, filler)
           else (x, y, filler))"

text \<open>
  The function calls itself without a bound in the code, so its value is an option: \<open>None\<close>
  would be a call that never returns. The inner option is the returned pointer, an offset
  into the frame or null.
\<close>

partial_function (option) FrameFiller_next ::
    "FrameFiller \<Rightarrow> (nat option \<times> FrameFiller) option" where
  "FrameFiller_next filler =
     (if ff_bit filler = -1 then
        Some (Some (nat (ff_y filler * int (ff_width filler) + ff_x filler)), filler\<lparr>ff_bit := 0\<rparr>)
      else
        let (x, y, filler) = filler_move filler in
        if x < 0 \<or> y < 0 then Some (None, filler)
        else
          let filler = filler\<lparr>ff_x := x, ff_y := y\<rparr>;
              p = nat (y * int (ff_width filler) + x)
          in if ff_frame filler ! p AND 0x80 \<noteq> 0 then FrameFiller_next filler
             else Some (Some p, filler))"

declare FrameFiller_next.simps [code]

subsection \<open>Encoding\<close>

record QRcode =
  qr_version :: int
  qr_width :: nat
  qr_data :: frame

definition QRcode_new :: "int \<Rightarrow> nat \<Rightarrow> frame \<Rightarrow> ('z heap_scheme, QRcode) M" where
  "QRcode_new version width data =
     bindM malloc (\<lambda>_. retM \<lparr>qr_version = version, qr_width = width, qr_data = data\<rparr>)"

text \<open>
  One module: \<^verbatim>\<open>p = FrameFiller_next(filler); if(p == NULL) goto EXIT; *p = v\<close>. The label \<^verbatim>\<open>EXIT\<close>
  returns null.
\<close>

definition put_module :: "FrameFiller \<Rightarrow> u8 \<Rightarrow> ('s, FrameFiller) M" where
  "put_module filler v =
     (case FrameFiller_next filler of
        None \<Rightarrow> failM DIVERGES
      | Some (None, _) \<Rightarrow> failM NOERRNO
      | Some (Some p, filler) \<Rightarrow> retM (filler\<lparr>ff_frame := (ff_frame filler)[p := v]\<rparr>))"

text \<open>
  The inner loop: \<open>n\<close> modules for the bits of a code, from the bit \<open>msb\<close> down. Every turn shifts
  \<^verbatim>\<open>bit\<close> to the right.
\<close>

definition put_code :: "nat \<Rightarrow> u8 \<Rightarrow> FrameFiller \<Rightarrow> u8 \<Rightarrow> ('s, FrameFiller) M" where
  "put_code n msb filler code =
     foldM (\<lambda>filler j. put_module filler (0x02 OR (if drop_bit j msb AND code \<noteq> 0 then 1 else 0)))
       filler [0..<n]"

definition put_codes :: "QRRawCode \<Rightarrow> FrameFiller \<Rightarrow> ('s, QRRawCode \<times> FrameFiller) M" where
  "put_codes raw filler =
     foldM (\<lambda>(raw, filler) i.
         let (code, raw) = QRraw_getCode raw in
         bindM (put_code 8 0x80 filler code) (\<lambda>filler. retM (raw, filler)))
       (raw, filler) [0..<nat (raw_dataLength raw + raw_eccLength raw)]"

text \<open>For \<^verbatim>\<open>mask == -2\<close> the result of \<^verbatim>\<open>malloc\<close> goes to \<^verbatim>\<open>memcpy\<close> without a test.\<close>

definition debug_copy :: "frame \<Rightarrow> ('z heap_scheme, frame) M" where
  "debug_copy frame =
     bindM (tryM malloc) (\<lambda>r. case r of Inl _ \<Rightarrow> failM CRASH | Inr _ \<Rightarrow> retM frame)"

definition QRcode_encodeMask :: "int \<Rightarrow> (QRinput, 'z qr_heap_scheme, QRcode) OM" where
  "QRcode_encodeMask msk = bindM getO (\<lambda>input.
     if in_mqr input then failM EINVAL
     else if in_version input < 0 \<or> in_version input > QRSPEC_VERSION_MAX then failM EINVAL
     else if in_level input > QR_ECLEVEL_H then failM EINVAL
     else
       bindM QRraw_new (\<lambda>raw.
       bindM getO (\<lambda>input.
       let version = raw_version raw; width = QRspec_getWidth version in
       lift (
         bindM (QRspec_newFrame version) (\<lambda>frame.
         bindM (FrameFiller_new width frame False) (\<lambda>filler.
         bindM (put_codes raw filler) (\<lambda>(raw, filler).
         bindM (foldM (\<lambda>filler i. put_module filler 0x02) filler
                  [0..<nat (QRspec_getRemainder version)]) (\<lambda>filler.
         let frame = ff_frame filler in
         bindM (if msk = -2 then debug_copy (take (width * width) frame)
                else if msk < 0 then Mask_mask width frame (in_level input)
                else Mask_makeMask width frame msk (in_level input)) (\<lambda>masked.
         QRcode_new version width masked)))))))))"

definition put_codesMQR :: "MQRRawCode \<Rightarrow> FrameFiller \<Rightarrow> ('s, MQRRawCode \<times> FrameFiller) M" where
  "put_codesMQR raw filler =
     foldM (\<lambda>(raw, filler) i.
         let (code, raw) = MQRraw_getCode raw in
         bindM (if mraw_oddbits raw \<noteq> 0 \<and> int i = mraw_dataLength raw - 1
                then put_code (nat (mraw_oddbits raw)) (push_bit (nat (mraw_oddbits raw - 1)) 1) filler code
                else put_code 8 0x80 filler code) (\<lambda>filler. retM (raw, filler)))
       (raw, filler) [0..<nat (mraw_dataLength raw + mraw_eccLength raw)]"

definition QRcode_encodeMaskMQR :: "int \<Rightarrow> (QRinput, 'z qr_heap_scheme, QRcode) OM" where
  "QRcode_encodeMaskMQR msk = bindM getO (\<lambda>input.
     if \<not> in_mqr input then failM EINVAL
     else if in_version input \<le> 0 \<or> in_version input > MQRSPEC_VERSION_MAX then failM EINVAL
     else if in_level input > QR_ECLEVEL_Q then failM EINVAL
     else
       bindM MQRraw_new (\<lambda>raw.
       bindM getO (\<lambda>input.
       let version = mraw_version raw; width = MQRspec_getWidth version in
       lift (
         bindM (MQRspec_newFrame version) (\<lambda>frame.
         bindM (FrameFiller_new width frame True) (\<lambda>filler.
         bindM (put_codesMQR raw filler) (\<lambda>(raw, filler).
         let frame = ff_frame filler in
         bindM (if msk < 0 then MMask_mask version frame (in_level input)
                else MMask_makeMask version frame msk (in_level input)) (\<lambda>masked.
         QRcode_new version width masked))))))))"

definition QRcode_encodeInput :: "(QRinput, 'z qr_heap_scheme, QRcode) OM" where
  "QRcode_encodeInput = bindM getO (\<lambda>input.
     if in_mqr input then QRcode_encodeMaskMQR (-1) else QRcode_encodeMask (-1))"

definition QRcode_encodeStringReal ::
    "u8 list option \<Rightarrow> int \<Rightarrow> QRecLevel \<Rightarrow> bool \<Rightarrow> QRencodeMode \<Rightarrow> bool \<Rightarrow> ('z qr_heap_scheme, QRcode) M"
  where
  "QRcode_encodeStringReal string version level mqr hint casesensitive =
     (if string = None then failM EINVAL
      else if hint \<noteq> QR_MODE_8 \<and> hint \<noteq> QR_MODE_KANJI then failM EINVAL
      else
        bindM (if mqr then QRinput_newMQR version level else QRinput_new2 version level)
          (evalO (bindM (Split_splitStringToQRinput string hint casesensitive) (\<lambda>_.
                  QRcode_encodeInput))))"

definition QRcode_encodeString ::
    "u8 list option \<Rightarrow> int \<Rightarrow> QRecLevel \<Rightarrow> QRencodeMode \<Rightarrow> bool \<Rightarrow> ('z qr_heap_scheme, QRcode) M" where
  "QRcode_encodeString string version level hint casesensitive =
     QRcode_encodeStringReal string version level False hint casesensitive"

definition QRcode_encodeStringMQR ::
    "u8 list option \<Rightarrow> int \<Rightarrow> QRecLevel \<Rightarrow> QRencodeMode \<Rightarrow> bool \<Rightarrow> ('z qr_heap_scheme, QRcode) M" where
  "QRcode_encodeStringMQR string version level hint casesensitive =
     QRcode_encodeStringReal string version level True hint casesensitive"

definition QRcode_encodeDataReal ::
    "u8 list option \<Rightarrow> int \<Rightarrow> int \<Rightarrow> QRecLevel \<Rightarrow> bool \<Rightarrow> ('z qr_heap_scheme, QRcode) M" where
  "QRcode_encodeDataReal data len version level mqr =
     (case data of
        None \<Rightarrow> failM EINVAL
      | Some data \<Rightarrow>
          if len = 0 then failM EINVAL
          else
            bindM (if mqr then QRinput_newMQR version level else QRinput_new2 version level) (\<lambda>input.
            bindM (QRinput_append input QR_MODE_8 len data) (evalO QRcode_encodeInput)))"

definition QRcode_encodeData ::
    "int \<Rightarrow> u8 list option \<Rightarrow> int \<Rightarrow> QRecLevel \<Rightarrow> ('z qr_heap_scheme, QRcode) M" where
  "QRcode_encodeData sz data version level = QRcode_encodeDataReal data sz version level False"

text \<open>\<^verbatim>\<open>strlen\<close> of a string is the length of its list; as an argument it is converted to \<^verbatim>\<open>int\<close>.\<close>

definition QRcode_encodeString8bit ::
    "u8 list option \<Rightarrow> int \<Rightarrow> QRecLevel \<Rightarrow> ('z qr_heap_scheme, QRcode) M" where
  "QRcode_encodeString8bit string version level =
     (case string of
        None \<Rightarrow> failM EINVAL
      | Some str \<Rightarrow> QRcode_encodeDataReal string (int32 (int (length str))) version level False)"

definition QRcode_encodeDataMQR ::
    "int \<Rightarrow> u8 list option \<Rightarrow> int \<Rightarrow> QRecLevel \<Rightarrow> ('z qr_heap_scheme, QRcode) M" where
  "QRcode_encodeDataMQR sz data version level = QRcode_encodeDataReal data sz version level True"

definition QRcode_encodeString8bitMQR ::
    "u8 list option \<Rightarrow> int \<Rightarrow> QRecLevel \<Rightarrow> ('z qr_heap_scheme, QRcode) M" where
  "QRcode_encodeString8bitMQR string version level =
     (case string of
        None \<Rightarrow> failM EINVAL
      | Some str \<Rightarrow> QRcode_encodeDataReal string (int32 (int (length str))) version level True)"

subsection \<open>Structured encoding\<close>

text \<open>
  A list of codes is a list; the empty list is a null pointer, as for a failure. The loop
  encodes the inputs in their order; every turn allocates a list cell first.
\<close>

fun encodeStructured_loop ::
    "QRinput list \<Rightarrow> 'z qr_heap_scheme \<Rightarrow> (failure + QRcode list) \<times> (QRinput list \<times> 'z qr_heap_scheme)"
  where
  "encodeStructured_loop [] h = (Inr [], ([], h))"
| "encodeStructured_loop (input # inputs) h =
     (case bindM (lift malloc) (\<lambda>_. QRcode_encodeInput) (input, h) of
        (Inl e, (input', h')) \<Rightarrow> (Inl e, (input' # inputs, h'))
      | (Inr code, (input', h')) \<Rightarrow>
          (case encodeStructured_loop inputs h' of
             (Inl e, (inputs', h'')) \<Rightarrow> (Inl e, (input' # inputs', h''))
           | (Inr codes, (inputs', h'')) \<Rightarrow> (Inr (code # codes), (input' # inputs', h''))))"

definition QRcode_encodeInputStructured :: "(QRinput_Struct, 'z qr_heap_scheme, QRcode list) OM" where
  "QRcode_encodeInputStructured = (\<lambda>(s, h).
     case encodeStructured_loop (st_head s) h of
       (r, (inputs, h')) \<Rightarrow>
         (if r = Inr [] then Inl NOERRNO else r, (s\<lparr>st_head := inputs\<rparr>, h')))"

definition QRcode_List_size :: "QRcode list \<Rightarrow> int" where
  "QRcode_List_size qrlist = foldl (\<lambda>sz _. sz + 1) 0 qrlist"

definition QRcode_encodeInputToStructured :: "QRinput \<Rightarrow> ('z qr_heap_scheme, QRcode list) M" where
  "QRcode_encodeInputToStructured input =
     bindM (QRinput_splitQRinputToStruct input) (evalO QRcode_encodeInputStructured)"

definition QRcode_encodeDataStructuredReal ::
    "int \<Rightarrow> u8 list option \<Rightarrow> int \<Rightarrow> QRecLevel \<Rightarrow> bool \<Rightarrow> QRencodeMode \<Rightarrow> bool \<Rightarrow>
       ('z qr_heap_scheme, QRcode list) M" where
  "QRcode_encodeDataStructuredReal sz data version level eightbit hint casesensitive =
     (if version \<le> 0 then failM EINVAL
      else if \<not> eightbit \<and> (hint \<noteq> QR_MODE_8 \<and> hint \<noteq> QR_MODE_KANJI) then failM EINVAL
      else
        bindM (QRinput_new2 version level) (\<lambda>input.
        bindM (if eightbit then
                 (case data of
                    None \<Rightarrow> if sz \<le> 0 then failM EINVAL
                            else bindM malloc (\<lambda>_. bindM malloc (\<lambda>_. failM CRASH))
                  | Some data \<Rightarrow> QRinput_append input QR_MODE_8 sz data)
               else
                 evalO (bindM (Split_splitStringToQRinput data hint casesensitive) (\<lambda>_. getO)) input)
          QRcode_encodeInputToStructured))"

definition QRcode_encodeDataStructured ::
    "int \<Rightarrow> u8 list option \<Rightarrow> int \<Rightarrow> QRecLevel \<Rightarrow> ('z qr_heap_scheme, QRcode list) M" where
  "QRcode_encodeDataStructured sz data version level =
     QRcode_encodeDataStructuredReal sz data version level True QR_MODE_NUL False"

definition QRcode_encodeString8bitStructured ::
    "u8 list option \<Rightarrow> int \<Rightarrow> QRecLevel \<Rightarrow> ('z qr_heap_scheme, QRcode list) M" where
  "QRcode_encodeString8bitStructured string version level =
     (case string of
        None \<Rightarrow> failM EINVAL
      | Some str \<Rightarrow> QRcode_encodeDataStructured (int32 (int (length str))) string version level)"

definition QRcode_encodeStringStructured ::
    "u8 list option \<Rightarrow> int \<Rightarrow> QRecLevel \<Rightarrow> QRencodeMode \<Rightarrow> bool \<Rightarrow> ('z qr_heap_scheme, QRcode list) M" where
  "QRcode_encodeStringStructured string version level hint casesensitive =
     (case string of
        None \<Rightarrow> failM EINVAL
      | Some str \<Rightarrow>
          QRcode_encodeDataStructuredReal (int32 (int (length str))) string version level False hint casesensitive)"

definition QRcode_clearCache :: "('z qr_heap_scheme, unit) M" where
  "QRcode_clearCache =
     bindM QRspec_clearCache (\<lambda>_. bindM MQRspec_clearCache (\<lambda>_. free_rs_cache))"

end
