(* ===== verification/Blocks_Correct.thy ===== *)
theory Blocks_Correct
  imports QRspec_Correct QRencode
begin

text \<open>
  The raw code of \<^verbatim>\<open>qrencode.c\<close>: the blocks that \<^verbatim>\<open>RSblock_init\<close> makes are codewords, \<^verbatim>\<open>QRraw_getCode\<close>
  delivers their columns in the interleaved order, and that order can be undone.
\<close>

subsection \<open>Blocks and their parity\<close>

text \<open>The control block for \<open>n\<close> parity bytes and \<open>d\<close> data bytes, and the parity of a data block.\<close>

definition rs_for :: "nat \<Rightarrow> nat \<Rightarrow> RS" where
  "rs_for n d = projr (rs_char_result 8 0x11d 0 1 (int n) (int (255 - n - d)))"

definition parity :: "nat \<Rightarrow> u8 list \<Rightarrow> u8 list" where
  "parity n data = encode_rs_char (rs_for n (length data)) data"

lemma rs_for:
  assumes "0 < d" and "n + d \<le> 255"
  shows "rs_char_result 8 0x11d 0 1 (int n) (255 - int d - int n) = Inr (rs_for n d)"
    and "rs_ok n (255 - n - d) (rs_for n d)"
proof -
  have "n + (255 - n - d) < 255" using assms by simp
  from rs_char_result_qr [OF this] obtain rs
    where rs: "rs_char_result 8 0x11d 0 1 (int n) (int (255 - n - d)) = Inr rs" "rs_ok n (255 - n - d) rs" by blast
  then show "rs_ok n (255 - n - d) (rs_for n d)" by (simp add: rs_for_def)
  have "255 - int d - int n = int (255 - n - d)" using assms by (simp add: of_nat_diff)
  with rs(1) show "rs_char_result 8 0x11d 0 1 (int n) (255 - int d - int n) = Inr (rs_for n d)"
    by (simp add: rs_for_def)
qed

lemma parity_codeword:
  assumes "0 < n" and "0 < length data" and "n + length data \<le> 255"
  shows "length (parity n data) = n" and "i < n \<Longrightarrow> gf_eval (alpha i) (data @ parity n data) = 0"
  using encode_rs_codeword [OF rs_for(2) [OF assms(2,3)] assms(1)] assms by (auto simp: parity_def)

lemma parity_prefix:
  assumes "0 < d" and "n + d \<le> 255" and "d \<le> length data"
  shows "encode_rs_char (rs_for n d) data = parity n (take d data)"
proof -
  have "rs_nn (rs_for n d) = 255" "rs_nroots (rs_for n d) = int n" "rs_pad (rs_for n d) = int (255 - n - d)"
    using rs_for(2) [OF assms(1,2)] by (simp_all add: rs_ok_def)
  then have "nat (rs_nn (rs_for n d) - rs_nroots (rs_for n d) - rs_pad (rs_for n d)) = d"
    using assms by (simp add: of_nat_diff)
  then show ?thesis using assms by (auto simp: parity_def encode_rs_char_def intro!: foldl_cong)
qed

fun cut :: "nat list \<Rightarrow> 'a list \<Rightarrow> 'a list list" where
  "cut [] xs = []"
| "cut (n # ns) xs = take n xs # cut ns (drop n xs)"

lemma length_cut [simp]: "length (cut ns xs) = length ns"
  by (induction ns arbitrary: xs) auto

lemma concat_cut: "sum_list ns = length xs \<Longrightarrow> concat (cut ns xs) = xs"
  by (induction ns arbitrary: xs) auto

lemma cut_nth: "i < length ns \<Longrightarrow> cut ns xs ! i = take (ns ! i) (drop (sum_list (take i ns)) xs)"
proof (induction ns arbitrary: xs i)
  case (Cons n ns)
  then show ?case by (cases i) (auto simp: add.commute)
qed simp

lemma map_length_cut: "sum_list ns \<le> length xs \<Longrightarrow> map length (cut ns xs) = ns"
  by (induction ns arbitrary: xs) auto

lemma RSblock_initBlocks_eq:
  assumes "\<And>j. j < n \<Longrightarrow> length (encode_rs_char rs (drop (dp + j * nat dl) data)) = nat el" and "n * nat el \<le> length R"
  shows "RSblock_initBlocks n dl el rs data (bs, dp, length E, E @ R) =
    (bs @ map (\<lambda>j. \<lparr>rb_dataLength = dl, rb_data = dp + j * nat dl, rb_eccLength = el, rb_ecc = length E + j * nat el\<rparr>) [0..<n],
     dp + n * nat dl, length E + n * nat el,
     E @ concat (map (\<lambda>j. encode_rs_char rs (drop (dp + j * nat dl) data)) [0..<n]) @ drop (n * nat el) R)"
  using assms
proof (induction n)
  case (Suc n)
  let ?par = "\<lambda>j. encode_rs_char rs (drop (dp + j * nat dl) data)"
  let ?E = "E @ concat (map ?par [0..<n])"
  have "length (concat (map ?par [0..<n])) = n * nat el"
  proof -
    have "map (length \<circ> ?par) [0..<n] = map (\<lambda>_. nat el) [0..<n]" using Suc.prems(1) by simp
    then show ?thesis by (simp add: length_concat map_replicate_const sum_list_replicate del: map_eq_conv)
  qed
  then have E: "length ?E = length E + n * nat el" by simp
  have "overwrite (?E @ drop (n * nat el) R) (length E + n * nat el) (?par n) = ?E @ ?par n @ drop (Suc n * nat el) R"
    using Suc.prems(1) [of n] unfolding overwrite_def E [symmetric] by (simp add: add.commute)
  moreover have "RSblock_initBlocks (Suc n) dl el rs data st =
      (\<lambda>(blocks, dp, ep, ecc). let (block, ecc) = RSblock_initBlock dl dp el ep rs data ecc
         in (blocks @ [block], dp + nat dl, ep + nat el, ecc)) (RSblock_initBlocks n dl el rs data st)" for st
    by (simp add: RSblock_initBlocks_def split: prod.split)
  ultimately show ?case using Suc by (simp add: RSblock_initBlock_def)
qed (simp add: RSblock_initBlocks_def)


lemma initBlocks_parity:
  assumes "0 < d" and "0 < e" and "d + e \<le> 255" and "dp + n * d \<le> length data" and "n * e \<le> length R"
  defines "par \<equiv> \<lambda>j. parity e (take d (drop (dp + j * d) data))"
  shows "RSblock_initBlocks n (int d) (int e) (rs_for e d) data (bs, dp, length E, E @ R) =
      (bs @ map (\<lambda>j. \<lparr>rb_dataLength = int d, rb_data = dp + j * d, rb_eccLength = int e, rb_ecc = length E + j * e\<rparr>) [0..<n],
       dp + n * d, length E + n * e, E @ concat (map par [0..<n]) @ drop (n * e) R)"
    and "length (concat (map par [0..<n])) = n * e"
proof -
  have p: "encode_rs_char (rs_for e d) (drop (dp + j * d) data) = par j" "length (par j) = e" if "j < n" for j
  proof -
    have "j * d + d \<le> n * d" using mult_le_mono1 [of "Suc j" n d] that by simp
    then show "encode_rs_char (rs_for e d) (drop (dp + j * d) data) = par j" "length (par j) = e"
      using assms(1-4) unfolding par_def by (simp_all add: parity_prefix parity_codeword)
  qed
  have "map (\<lambda>j. encode_rs_char (rs_for e d) (drop (dp + j * d) data)) [0..<n] = map par [0..<n]" using p(1) by simp
  with p show "RSblock_initBlocks n (int d) (int e) (rs_for e d) data (bs, dp, length E, E @ R) =
      (bs @ map (\<lambda>j. \<lparr>rb_dataLength = int d, rb_data = dp + j * d, rb_eccLength = int e, rb_ecc = length E + j * e\<rparr>) [0..<n],
       dp + n * d, length E + n * e, E @ concat (map par [0..<n]) @ drop (n * e) R)"
    using RSblock_initBlocks_eq [of n "rs_for e d" dp "int d" data "int e" R bs E] assms(5)
    by (simp del: map_eq_conv)
  have "map (length \<circ> par) [0..<n] = map (\<lambda>_. e) [0..<n]" using p(2) by simp
  then show "length (concat (map par [0..<n])) = n * e"
    by (simp add: length_concat map_replicate_const sum_list_replicate del: map_eq_conv)
qed

text \<open>The blocks of a specification: their lengths, their places and their parity.\<close>

definition block_lens :: "int list \<Rightarrow> nat list" where
  "block_lens spec = replicate (nat (QRspec_rsBlockNum1 spec)) (nat (QRspec_rsDataCodes1 spec)) @
     replicate (nat (QRspec_rsBlockNum2 spec)) (nat (QRspec_rsDataCodes2 spec))"

definition spec_blocks :: "int list \<Rightarrow> RSblock list" where
  "spec_blocks spec = map (\<lambda>i. \<lparr>rb_dataLength = int (block_lens spec ! i),
       rb_data = sum_list (take i (block_lens spec)), rb_eccLength = QRspec_rsEccCodes1 spec,
       rb_ecc = i * nat (QRspec_rsEccCodes1 spec)\<rparr>) [0..<length (block_lens spec)]"

definition data_blocks :: "int list \<Rightarrow> u8 list \<Rightarrow> u8 list list" where
  "data_blocks spec data = cut (block_lens spec) data"

definition ecc_blocks :: "int list \<Rightarrow> u8 list \<Rightarrow> u8 list list" where
  "ecc_blocks spec data = map (parity (nat (QRspec_rsEccCodes1 spec))) (data_blocks spec data)"

text \<open>What the tables promise of a specification.\<close>

definition spec_ok :: "int list \<Rightarrow> bool" where
  "spec_ok spec \<longleftrightarrow> 0 < QRspec_rsBlockNum1 spec \<and> 0 \<le> QRspec_rsBlockNum2 spec \<and>
     0 < QRspec_rsDataCodes1 spec \<and> 0 < QRspec_rsEccCodes1 spec \<and>
     QRspec_rsDataCodes1 spec + QRspec_rsEccCodes1 spec \<le> 255 \<and>
     (QRspec_rsBlockNum2 spec \<noteq> 0 \<longrightarrow> QRspec_rsDataCodes2 spec = QRspec_rsDataCodes1 spec + 1 \<and>
        QRspec_rsDataCodes2 spec + QRspec_rsEccCodes1 spec \<le> 255)"

lemma spec_ok: "1 \<le> v \<Longrightarrow> v \<le> 40 \<Longrightarrow> l \<le> 3 \<Longrightarrow> spec_ok (QRspec_getEccSpec v l)"
  using ecc_spec_ok [of v l] by (auto simp: ecc_spec_ok_def spec_ok_def Let_def QRspec_rsEccCodes1_def QRspec_rsEccCodes2_def)

lemma spec_okE:
  assumes "spec_ok spec"
  obtains n1 n2 d e where "0 < n1" and "0 < d" and "0 < e" and "d + e \<le> 255" and "0 < n2 \<longrightarrow> d + e < 255"
    and "QRspec_rsBlockNum1 spec = int n1" and "QRspec_rsBlockNum2 spec = int n2"
    and "QRspec_rsDataCodes1 spec = int d" and "0 < n2 \<longrightarrow> QRspec_rsDataCodes2 spec = int (Suc d)"
    and "QRspec_rsEccCodes1 spec = int e" and "QRspec_rsEccCodes2 spec = int e"
    and "block_lens spec = replicate n1 d @ replicate n2 (Suc d)"
    and "QRspec_rsDataLength spec = int (n1 * d + n2 * Suc d)" and "QRspec_rsEccLength spec = int ((n1 + n2) * e)"
    and "QRspec_rsBlockNum spec = int (n1 + n2)"
proof -
  obtain n1 where n1: "QRspec_rsBlockNum1 spec = int n1" "0 < n1" using assms by (auto simp: spec_ok_def elim: pos_int_cases)
  obtain n2 where n2: "QRspec_rsBlockNum2 spec = int n2" using assms by (auto simp: spec_ok_def elim: nonneg_int_cases)
  obtain d where d: "QRspec_rsDataCodes1 spec = int d" "0 < d" using assms by (auto simp: spec_ok_def elim: pos_int_cases)
  obtain e where e: "QRspec_rsEccCodes1 spec = int e" "0 < e" using assms by (auto simp: spec_ok_def elim: pos_int_cases)
  have d2: "0 < n2 \<longrightarrow> QRspec_rsDataCodes2 spec = int (Suc d)" using assms n2 d by (auto simp: spec_ok_def)
  have e2: "QRspec_rsEccCodes2 spec = int e" using e by (simp add: QRspec_rsEccCodes2_def QRspec_rsEccCodes1_def)
  have B: "QRspec_rsBlockNum spec = int (n1 + n2)"
    using n1(1) n2 by (simp add: QRspec_rsBlockNum_def QRspec_rsBlockNum1_def QRspec_rsBlockNum2_def)
  show ?thesis
  proof (rule that [OF n1(2) d(2) e(2) _ _ n1(1) n2 d(1) d2 e(1) e2])
    show "d + e \<le> 255" "0 < n2 \<longrightarrow> d + e < 255" using assms d e n2 d2 by (auto simp: spec_ok_def)
    show "block_lens spec = replicate n1 d @ replicate n2 (Suc d)"
      using n1 n2 d d2 by (cases "n2 = 0") (simp_all add: block_lens_def nat_add_distrib)
    show "QRspec_rsDataLength spec = int (n1 * d + n2 * Suc d)"
      using n1 n2 d d2 by (cases "n2 = 0") (simp_all add: QRspec_rsDataLength_def distrib_left)
    show "QRspec_rsEccLength spec = int ((n1 + n2) * e)" using B e by (simp add: QRspec_rsEccLength_def)
  qed (rule B)
qed


text \<open>A function of the length, the place and the number of each block, for blocks of two sizes.\<close>

lemma map_blocks:
  assumes ns_def: "ns = replicate n1 d @ replicate n2 d'"
  shows "map (\<lambda>i. F (ns ! i) (sum_list (take i ns)) i) [0..<length ns] =
    map (\<lambda>j. F d (j * d) j) [0..<n1] @ map (\<lambda>j. F d' (n1 * d + j * d') (n1 + j)) [0..<n2]"
proof -
  have "map ((+) n1) [0..<n2] = map (\<lambda>i. i + n1) [0..<n2]" by simp
  then have "[0..<length ns] = [0..<n1] @ map ((+) n1) [0..<n2]"
    using map_add_upt [of n1 n2] by (simp add: ns_def upt_add_eq_append [of 0 n1 n2] add.commute)
  moreover have "ns ! i = d" "sum_list (take i ns) = i * d" if "i < n1" for i
    using that by (simp_all add: ns_def nth_append sum_list_replicate)
  moreover have "ns ! (n1 + j) = d'" "sum_list (take (n1 + j) ns) = n1 * d + j * d'" if "j < n2" for j
    using that by (simp_all add: ns_def nth_append sum_list_replicate min_def)
  ultimately show ?thesis by simp
qed

lemma cut_map: "cut ns xs = map (\<lambda>i. take (ns ! i) (drop (sum_list (take i ns)) xs)) [0..<length ns]"
  by (rule nth_equalityI) (simp_all add: cut_nth)

context rs_invariant
begin

lemma init_rs_for:
  assumes "0 < d" and "e + d \<le> 255"
  shows "delivers I (init_rs 8 0x11d 0 1 (int e) (255 - int d - int e)) (Inr (rs_for e d))"
  using init_rs_delivers [of 8 "0x11d" 0 1 "int e" "255 - int d - int e"] by (simp add: rs_for(1) [OF assms])

lemma RSblock_init_delivers:
  assumes "spec_ok spec" and "int (length data) = QRspec_rsDataLength spec"
  shows "delivers I (RSblock_init spec data (replicate (nat (QRspec_rsEccLength spec)) 0))
    (Inr (spec_blocks spec, concat (ecc_blocks spec data)))"
proof -
  obtain n1 n2 d e where pos: "0 < d" "0 < e" "d + e \<le> 255" "0 < n2 \<longrightarrow> d + e < 255"
    and sp: "QRspec_rsBlockNum1 spec = int n1" "QRspec_rsBlockNum2 spec = int n2"
      "QRspec_rsDataCodes1 spec = int d" "QRspec_rsEccCodes1 spec = int e" "QRspec_rsEccCodes2 spec = int e"
    and d2: "0 < n2 \<longrightarrow> QRspec_rsDataCodes2 spec = int (Suc d)"
    and lens: "block_lens spec = replicate n1 d @ replicate n2 (Suc d)"
    and D: "QRspec_rsDataLength spec = int (n1 * d + n2 * Suc d)" and E: "QRspec_rsEccLength spec = int ((n1 + n2) * e)"
    using assms(1) by (elim spec_okE)
  let ?rs1 = "rs_for e d" and ?rs2 = "rs_for e (Suc d)"
  let ?p1 = "\<lambda>j. parity e (take d (drop (j * d) data))"
  let ?p2 = "\<lambda>j. parity e (take (Suc d) (drop (n1 * d + j * Suc d) data))"
  let ?b = "\<lambda>l p i. \<lparr>rb_dataLength = int l, rb_data = p, rb_eccLength = int e, rb_ecc = i * e\<rparr>"
  have len: "length data = n1 * d + n2 * Suc d" using assms(2) D by linarith
  have blocks: "spec_blocks spec = map (\<lambda>j. ?b d (j * d) j) [0..<n1] @ map (\<lambda>j. ?b (Suc d) (n1 * d + j * Suc d) (n1 + j)) [0..<n2]"
    unfolding spec_blocks_def sp nat_int by (rule map_blocks [OF lens])
  have eccs: "ecc_blocks spec data = map ?p1 [0..<n1] @ map ?p2 [0..<n2]"
    unfolding ecc_blocks_def data_blocks_def sp nat_int cut_map map_map comp_def
    by (rule map_blocks [OF lens, of "\<lambda>l p i. parity e (take l (drop p data))"])
  have st1: "RSblock_initBlocks n1 (int d) (int e) ?rs1 data ([], 0, 0, replicate ((n1 + n2) * e) 0) =
      (map (\<lambda>j. ?b d (j * d) j) [0..<n1], n1 * d, n1 * e, concat (map ?p1 [0..<n1]) @ replicate (n2 * e) 0)"
    using initBlocks_parity(1) [of d e 0 n1 data "replicate ((n1 + n2) * e) 0" "[]" "[]"] pos len
    by (simp add: add_mult_distrib)
  have len1: "length (concat (map ?p1 [0..<n1])) = n1 * e"
    using initBlocks_parity(2) [of d e 0 n1 data "replicate (n1 * e) 0"] pos len by simp
  have st2: "RSblock_initBlocks n2 (int (Suc d)) (int e) ?rs2 data
      (bs, n1 * d, n1 * e, concat (map ?p1 [0..<n1]) @ replicate (n2 * e) 0) =
      (bs @ map (\<lambda>j. ?b (Suc d) (n1 * d + j * Suc d) (n1 + j)) [0..<n2], n1 * d + n2 * Suc d, n1 * e + n2 * e,
       concat (map ?p1 [0..<n1]) @ concat (map ?p2 [0..<n2]))" if "n2 \<noteq> 0" for bs
    using initBlocks_parity(1) [of "Suc d" e "n1 * d" n2 data "replicate (n2 * e) 0" bs "concat (map ?p1 [0..<n1])"] pos len that
    by (simp add: len1 add_mult_distrib del: of_nat_Suc mult_Suc_right)
  have d1: "delivers I (init_rs 8 0x11d 0 1 (int e) (255 - int d - int e)) (Inr ?rs1)" using pos by (intro init_rs_for) simp_all
  show ?thesis
  proof (cases "n2 = 0")
    case True
    then have "RSblock_initBlocks n1 (int d) (int e) ?rs1 data ([], 0, 0, replicate (n1 * e) 0) =
        (spec_blocks spec, n1 * d, n1 * e, concat (ecc_blocks spec data))"
      using st1 by (simp add: blocks eccs)
    with True show ?thesis unfolding RSblock_init_def sp E nat_int Let_def
      by (intro delivers_bind [OF d1]) (simp add: delivers_ret_eq)
  next
    case False
    then have "delivers I (init_rs 8 0x11d 0 1 (int e) (255 - int (Suc d) - int e)) (Inr ?rs2)"
      using pos by (intro init_rs_for) simp_all
    with False d2 show ?thesis unfolding RSblock_init_def sp E nat_int Let_def
      by (intro delivers_bind [OF d1])
        (simp add: st1 st2 blocks eccs delivers_bind delivers_ret_eq del: of_nat_Suc mult_Suc_right replicate_add)
  qed
qed

end


subsection \<open>The order of the codes\<close>

text \<open>The codes of the symbol: the columns of the data blocks, then those of the parity blocks.\<close>

definition interleave :: "'a list list \<Rightarrow> 'a list" where
  "interleave bs = concat (transpose bs)"

definition symbol_codes :: "int list \<Rightarrow> u8 list \<Rightarrow> u8 list" where
  "symbol_codes spec data = interleave (data_blocks spec data) @ interleave (ecc_blocks spec data)"

lemma transpose_columns:
  "transpose bs = map (\<lambda>c. map (\<lambda>b. b ! c) (filter (\<lambda>b. c < length b) bs)) [0..<length (transpose bs)]"
  by (rule nth_equalityI) (simp_all add: nth_transpose)

lemma length_transpose_max: "length (transpose bs) = foldr max (map length bs) 0"
proof -
  have "foldr (\<lambda>xs. max (length xs)) bs 0 = foldr max (map length bs) 0" by (induction bs) auto
  then show ?thesis by (simp add: length_transpose)
qed

lemma funpow_max: "0 < n \<Longrightarrow> (max d ^^ n) m = max d (m :: nat)"
proof (induction n)
  case (Suc n)
  then show ?case by (cases "n = 0") auto
qed simp

lemma interleave_even:
  assumes "map length bs = replicate n d" and "0 < n"
  shows "interleave bs = concat (map (\<lambda>c. map (\<lambda>b. b ! c) bs) [0..<d])"
proof -
  have "\<forall>b \<in> set bs. length b = d" using assms by (metis in_set_replicate image_eqI list.set_map)
  then show ?thesis unfolding interleave_def
    by (subst transpose_columns) (auto simp: length_transpose_max assms funpow_max intro!: arg_cong [of _ _ concat])
qed

text \<open>Blocks of two sizes: the last column holds only the larger ones.\<close>

lemma interleave_two:
  assumes "map length bs = replicate n1 d @ replicate n2 (Suc d)" and "0 < n1"
  shows "interleave bs = concat (map (\<lambda>c. map (\<lambda>b. b ! c) bs) [0..<d]) @ map (\<lambda>b. b ! d) (drop n1 bs)"
proof (cases "n2 = 0")
  case True
  then have "length bs = n1" using assms(1) by (metis append_Nil2 length_map length_replicate replicate_0)
  with True interleave_even [of bs n1 d] assms show ?thesis by simp
next
  case False
  have len: "length (transpose bs) = Suc d" using assms False by (simp add: length_transpose_max funpow_max)
  have t: "map length (take n1 bs) = replicate n1 d" "map length (drop n1 bs) = replicate n2 (Suc d)"
    by (simp_all add: assms(1) flip: take_map drop_map)
  then have t': "\<forall>b \<in> set (take n1 bs). length b = d" "\<forall>b \<in> set (drop n1 bs). length b = Suc d"
    by (metis in_set_replicate image_eqI list.set_map)+
  then have all: "\<forall>b \<in> set bs. d \<le> length b" by (metis Un_iff append_take_drop_id eq_imp_le le_SucI set_append)
  have "filter (\<lambda>b. d < length b) (take n1 bs @ drop n1 bs) = drop n1 bs"
    using t' by (simp only: filter_append) (simp add: filter_empty_conv)
  then have last: "filter (\<lambda>b. d < length b) bs = drop n1 bs" by simp
  have "filter (\<lambda>b. c < length b) bs = bs" if "c < d" for c using all that by (auto intro!: filter_True)
  then have "map (\<lambda>c. map (\<lambda>b. b ! c) (filter (\<lambda>b. c < length b) bs)) [0..<d] = map (\<lambda>c. map (\<lambda>b. b ! c) bs) [0..<d]"
    by simp
  with last show ?thesis unfolding interleave_def by (subst transpose_columns) (simp add: len del: map_eq_conv)
qed

lemma row_div: "r < B \<Longrightarrow> (c * B + r) div B = (c :: nat)"
  by (simp add: div_mult_self3)

lemma map_upt_mult:
  "map f [0..<n * B] = concat (map (\<lambda>c. map (\<lambda>r. f (c * B + r)) [0..<B]) [0..<n])"
proof (induction n)
  case (Suc n)
  have "map ((+) (n * B)) [0..<B] = map (\<lambda>i. i + n * B) [0..<B]" by simp
  then have "[0..<Suc n * B] = [0..<n * B] @ map ((+) (n * B)) [0..<B]"
    using map_add_upt [of "n * B" B] upt_add_eq_append [of 0 "n * B" B] by (simp add: add.commute)
  with Suc show ?case by simp
qed simp

lemma map_upt_add: "map f [0..<m + n] = map f [0..<m] @ map (\<lambda>i. f (m + i)) [0..<n]"
proof -
  have "map ((+) m) [0..<n] = map (\<lambda>i. i + m) [0..<n]" by simp
  then have "[0..<m + n] = [0..<m] @ map ((+) m) [0..<n]"
    using map_add_upt [of m n] upt_add_eq_append [of 0 m n] by (simp add: add.commute)
  then show ?thesis by simp
qed

definition raw_for :: "int \<Rightarrow> int list \<Rightarrow> u8 list \<Rightarrow> QRRawCode" where
  "raw_for version spec data =
     \<lparr>raw_version = version, raw_dataLength = QRspec_rsDataLength spec, raw_eccLength = QRspec_rsEccLength spec,
      raw_datacode = data, raw_ecccode = concat (ecc_blocks spec data), raw_b1 = QRspec_rsBlockNum1 spec,
      raw_blocks = QRspec_rsBlockNum spec, raw_rsblock = spec_blocks spec, raw_count = 0\<rparr>"

lemma nth_concat_even:
  "\<forall>b \<in> set bs. length b = e \<Longrightarrow> i < length bs \<Longrightarrow> c < e \<Longrightarrow> concat bs ! (i * e + c) = bs ! i ! c"
proof (induction bs arbitrary: i)
  case (Cons b bs)
  then show ?case by (cases i) (simp_all add: nth_append)
qed simp

lemma data_block_nth:
  assumes "sum_list (block_lens spec) \<le> length data" and "r < length (block_lens spec)" and "c < block_lens spec ! r"
  shows "data ! (rb_data (spec_blocks spec ! r) + c) = data_blocks spec data ! r ! c"
proof -
  have "map length (data_blocks spec data) = block_lens spec"
    unfolding data_blocks_def using assms(1) by (rule map_length_cut)
  then have "length (data_blocks spec data ! r) = block_lens spec ! r"
    using assms(2) by (metis length_map nth_map)
  moreover have "data_blocks spec data ! r = take (block_lens spec ! r) (drop (sum_list (take r (block_lens spec))) data)"
    unfolding data_blocks_def using assms(2) by (rule cut_nth)
  ultimately show ?thesis using assms(2,3) by (simp add: spec_blocks_def)
qed

definition codeword :: "nat \<Rightarrow> u8 list \<Rightarrow> bool" where
  "codeword n cs \<longleftrightarrow> (\<forall>i < n. gf_eval (alpha i) cs = 0)"

lemma data_block_lengths:
  assumes "spec_ok spec" and "int (length data) = QRspec_rsDataLength spec"
  shows "map length (data_blocks spec data) = block_lens spec" and "sum_list (block_lens spec) = length data"
proof -
  obtain n1 n2 d where lens: "block_lens spec = replicate n1 d @ replicate n2 (Suc d)"
    and D: "QRspec_rsDataLength spec = int (n1 * d + n2 * Suc d)" using assms(1) by (elim spec_okE)
  have "length data = n1 * d + n2 * Suc d" using assms(2) D by linarith
  then show "sum_list (block_lens spec) = length data" by (simp add: lens sum_list_replicate)
  then show "map length (data_blocks spec data) = block_lens spec"
    unfolding data_blocks_def by (intro map_length_cut) simp
qed

lemma block_length_bounds:
  assumes "spec_ok spec" and "n \<in> set (block_lens spec)"
  shows "0 < n" and "nat (QRspec_rsEccCodes1 spec) + n \<le> 255"
proof -
  obtain n1 n2 d e where "0 < d" "d + e \<le> 255" "0 < n2 \<longrightarrow> d + e < 255" "QRspec_rsEccCodes1 spec = int e"
    "block_lens spec = replicate n1 d @ replicate n2 (Suc d)" using assms(1) by (elim spec_okE)
  with assms(2) show "0 < n" and "nat (QRspec_rsEccCodes1 spec) + n \<le> 255" by (auto split: if_splits)
qed

lemma data_block_codeword:
  assumes "spec_ok spec" and "int (length data) = QRspec_rsDataLength spec" and "b \<in> set (data_blocks spec data)"
  defines "e \<equiv> nat (QRspec_rsEccCodes1 spec)"
  shows "length (parity e b) = e" and "codeword e (b @ parity e b)"
proof -
  have "length b \<in> set (block_lens spec)"
    using assms(3) data_block_lengths(1) [OF assms(1,2)] by (metis image_eqI list.set_map)
  then have "0 < length b" "e + length b \<le> 255" unfolding e_def by (rule block_length_bounds [OF assms(1)])+
  moreover have "0 < e" using assms(1) by (simp add: e_def spec_ok_def)
  ultimately show "length (parity e b) = e" and "codeword e (b @ parity e b)"
    by (simp_all add: codeword_def parity_codeword)
qed

lemma ecc_block_lengths:
  assumes "spec_ok spec" and "int (length data) = QRspec_rsDataLength spec"
  shows "map length (ecc_blocks spec data) = replicate (length (block_lens spec)) (nat (QRspec_rsEccCodes1 spec))"
  using data_block_codeword(1) [OF assms]
  by (intro nth_equalityI) (auto simp: ecc_blocks_def data_blocks_def)

lemma raw_codes:
  assumes "spec_ok spec" and "int (length data) = QRspec_rsDataLength spec"
  shows "map (\<lambda>k. fst (QRraw_getCode (raw_for version spec data\<lparr>raw_count := int k\<rparr>)))
      [0..<nat (QRspec_rsDataLength spec + QRspec_rsEccLength spec)] = symbol_codes spec data"
proof -
  obtain n1 n2 d e where pos: "0 < n1" "0 < d" "0 < e" "d + e \<le> 255" "0 < n2 \<longrightarrow> d + e < 255"
    and sp: "QRspec_rsBlockNum1 spec = int n1" "QRspec_rsEccCodes1 spec = int e"
    and lens: "block_lens spec = replicate n1 d @ replicate n2 (Suc d)"
    and D: "QRspec_rsDataLength spec = int (n1 * d + n2 * Suc d)" and E: "QRspec_rsEccLength spec = int ((n1 + n2) * e)"
    and B: "QRspec_rsBlockNum spec = int (n1 + n2)"
    using assms(1) by (elim spec_okE)
  have len: "length data = n1 * d + n2 * Suc d" using assms(2) D by linarith
  define ds where "ds = data_blocks spec data"
  define f where "f k = fst (QRraw_getCode (raw_for version spec data\<lparr>raw_count := int k\<rparr>))" for k
  have lds: "map length ds = replicate n1 d @ replicate n2 (Suc d)"
    unfolding ds_def data_blocks_def lens by (rule map_length_cut) (simp add: len sum_list_replicate)
  then have lds': "length ds = n1 + n2" by (metis length_append length_map length_replicate)
  have block: "data ! (rb_data (spec_blocks spec ! r) + c) = ds ! r ! c"
    if "r < n1 + n2" "c < block_lens spec ! r" for r c
    using that unfolding ds_def by (intro data_block_nth) (simp_all add: lens len sum_list_replicate)
  have BD: "n1 * d + n2 * Suc d = d * (n1 + n2) + n2" by (simp add: algebra_simps)
  have b0: "rb_dataLength (spec_blocks spec ! 0) = int d" using pos(1) by (simp add: spec_blocks_def lens nth_append)
  have below: "c * (n1 + n2) + r < d * (n1 + n2)" if "c < d" "r < n1 + n2" for c r d :: nat
    using mult_le_mono1 [of "Suc c" d "n1 + n2"] that by simp
  have f_data: "f k = data ! (rb_data (spec_blocks spec ! (k mod (n1 + n2) + (if d \<le> k div (n1 + n2) then n1 else 0))) + k div (n1 + n2))"
    if "k < n1 * d + n2 * Suc d" for k
  proof -
    have "int k < QRspec_rsDataLength spec" using that unfolding D by linarith
    then show ?thesis
      by (simp add: f_def QRraw_getCode_def raw_for_def B b0 sp Let_def zmod_int [symmetric] zdiv_int [symmetric]
            nat_add_distrib del: of_nat_add)
  qed
  have f_ecc: "f (n1 * d + n2 * Suc d + k) = concat (ecc_blocks spec data) ! (rb_ecc (spec_blocks spec ! (k mod (n1 + n2))) + k div (n1 + n2))"
    if "k < (n1 + n2) * e" for k
  proof -
    have "\<not> int (n1 * d + n2 * Suc d + k) < QRspec_rsDataLength spec"
      "int (n1 * d + n2 * Suc d + k) < QRspec_rsDataLength spec + QRspec_rsEccLength spec"
      "int (n1 * d + n2 * Suc d + k) - QRspec_rsDataLength spec = int k" using that unfolding D E by linarith+
    then show ?thesis
      by (simp add: f_def QRraw_getCode_def raw_for_def B Let_def zmod_int [symmetric] zdiv_int [symmetric]
            del: of_nat_add of_nat_Suc of_nat_mult mult_Suc_right)
  qed
  have row: "f (c * (n1 + n2) + r) = ds ! r ! c" if "c < d" "r < n1 + n2" for c r
  proof -
    have "c < block_lens spec ! r" using that by (simp add: lens nth_append)
    with below [OF that] that BD show ?thesis by (simp add: f_data block row_div del: mult_Suc_right)
  qed
  have last: "f (d * (n1 + n2) + r) = ds ! (n1 + r) ! d" if "r < n2" for r
  proof -
    have "d < block_lens spec ! (n1 + r)" using that by (simp add: lens nth_append)
    moreover have "r < n1 + n2" using that by simp
    ultimately show ?thesis using that BD
      by (simp add: f_data block row_div add.commute [of r n1] del: mult_Suc_right)
  qed
  have elens: "map length (ecc_blocks spec data) = replicate (n1 + n2) e"
    using ecc_block_lengths [OF assms] by (simp add: lens sp)
  then have elen: "length (ecc_blocks spec data) = n1 + n2" "\<forall>b \<in> set (ecc_blocks spec data). length b = e"
    by (metis length_map length_replicate) (metis elens in_set_replicate image_eqI list.set_map)
  have par: "f (n1 * d + n2 * Suc d + (c * (n1 + n2) + r)) = ecc_blocks spec data ! r ! c" if "c < e" "r < n1 + n2" for c r
  proof -
    have "concat (ecc_blocks spec data) ! (r * e + c) = ecc_blocks spec data ! r ! c"
      using that elen by (intro nth_concat_even) simp_all
    with below [OF that] that show ?thesis
      by (simp add: f_ecc mult.commute [of _ e] row_div spec_blocks_def lens sp del: mult_Suc_right)
  qed
  have data_map: "map f [0..<n1 * d + n2 * Suc d] = interleave ds"
  proof -
    have "map (\<lambda>c. map (\<lambda>r. f (c * (n1 + n2) + r)) [0..<n1 + n2]) [0..<d] = map (\<lambda>c. map (\<lambda>b. b ! c) ds) [0..<d]"
      using row lds' by (auto intro!: nth_equalityI)
    moreover have "map (\<lambda>r. f (d * (n1 + n2) + r)) [0..<n2] = map (\<lambda>b. b ! d) (drop n1 ds)"
      using last lds' by (auto intro!: nth_equalityI)
    ultimately show ?thesis unfolding BD map_upt_add map_upt_mult interleave_two [OF lds pos(1)] by (simp only:)
  qed
  have ecc_map: "map (\<lambda>k. f (n1 * d + n2 * Suc d + k)) [0..<e * (n1 + n2)] = interleave (ecc_blocks spec data)"
  proof -
    have "map (\<lambda>c. map (\<lambda>r. f (n1 * d + n2 * Suc d + (c * (n1 + n2) + r))) [0..<n1 + n2]) [0..<e] =
        map (\<lambda>c. map (\<lambda>b. b ! c) (ecc_blocks spec data)) [0..<e]"
      using par elen(1) by (auto intro!: nth_equalityI)
    then show ?thesis using pos(1) by (simp add: map_upt_mult interleave_even [OF elens] del: map_eq_conv upt_rec_numeral)
  qed
  have "nat (QRspec_rsDataLength spec + QRspec_rsEccLength spec) = n1 * d + n2 * Suc d + e * (n1 + n2)"
    unfolding D E of_nat_add [symmetric] nat_int by (simp only: mult.commute)
  with data_map ecc_map show ?thesis unfolding f_def [symmetric] symbol_codes_def ds_def
    by (simp only: map_upt_add)
qed

subsection \<open>Undoing the order\<close>

text \<open>The place of the byte \<open>c\<close> of the block \<open>i\<close>, for blocks of the lengths \<open>ns\<close>.\<close>

definition place :: "nat list \<Rightarrow> nat \<Rightarrow> nat \<Rightarrow> nat" where
  "place ns i c = (\<Sum>k\<leftarrow>[0..<c]. length (filter (\<lambda>n. k < n) ns)) + length (filter (\<lambda>n. c < n) (take i ns))"

definition deinterleave :: "nat list \<Rightarrow> 'a list \<Rightarrow> 'a list list" where
  "deinterleave ns codes = map (\<lambda>i. map (\<lambda>c. codes ! place ns i c) [0..<ns ! i]) [0..<length ns]"

lemma nth_concat:
  "c < length xss \<Longrightarrow> k < length (xss ! c) \<Longrightarrow>
     concat xss ! (sum_list (map length (take c xss)) + k) = xss ! c ! k \<and>
     sum_list (map length (take c xss)) + k < length (concat xss)"
proof (induction xss arbitrary: c)
  case (Cons xs xss)
  then show ?case by (cases c) (auto simp: nth_append)
qed simp

lemma nth_filter_take:
  "i < length xs \<Longrightarrow> P (xs ! i) \<Longrightarrow>
     filter P xs ! length (filter P (take i xs)) = xs ! i \<and> length (filter P (take i xs)) < length (filter P xs)"
proof (induction xs arbitrary: i)
  case (Cons x xs)
  then show ?case by (cases i) auto
qed simp

lemma nth_interleave:
  assumes "i < length bs" and "c < length (bs ! i)"
  shows "(interleave bs @ rest) ! place (map length bs) i c = bs ! i ! c"
proof -
  let ?P = "\<lambda>b. c < length b"
  have len: "c < length (transpose bs)"
  proof -
    have "n \<le> foldr max ns 0" if "n \<in> set ns" for n :: nat and ns using that by (induction ns) auto
    then have "length (bs ! i) \<le> foldr max (map length bs) 0" using assms(1) by simp
    then show ?thesis using assms(2) by (simp add: length_transpose_max)
  qed
  have f: "filter ?P bs ! length (filter ?P (take i bs)) = bs ! i" "length (filter ?P (take i bs)) < length (filter ?P bs)"
    using nth_filter_take [of i bs ?P] assms by simp_all
  have "map length (take c (transpose bs)) = map (\<lambda>k. length (filter (\<lambda>b. k < length b) bs)) [0..<c]"
    using len by (auto intro!: nth_equalityI simp: nth_transpose)
  then have "place (map length bs) i c = sum_list (map length (take c (transpose bs))) + length (filter ?P (take i bs))"
    by (simp add: place_def filter_map comp_def take_map del: map_eq_conv)
  moreover have "length (filter ?P (take i bs)) < length (transpose bs ! c)" using f(2) len by (simp add: nth_transpose)
  ultimately show ?thesis using nth_concat [OF len, of "length (filter ?P (take i bs))"] f len
    by (simp add: interleave_def nth_append nth_transpose)
qed

lemma deinterleave_interleave: "deinterleave (map length bs) (interleave bs @ rest) = bs"
  unfolding deinterleave_def by (rule nth_equalityI) (auto intro!: nth_equalityI simp: nth_interleave)

lemma length_columns:
  "\<forall>b \<in> set bs. length b \<le> m \<Longrightarrow> (\<Sum>c\<leftarrow>[0..<m]. length (filter (\<lambda>b. c < length b) bs)) = sum_list (map length bs)"
proof (induction bs)
  case (Cons b bs)
  have n: "(\<Sum>c\<leftarrow>[0..<m]. if c < n then 1 else 0) = min m n" for n :: nat by (induction m) auto
  have "(\<Sum>c\<leftarrow>[0..<m]. length (filter (\<lambda>b. c < length b) (b # bs))) =
      (\<Sum>c\<leftarrow>[0..<m]. (if c < length b then 1 else 0) + length (filter (\<lambda>b. c < length b) bs))"
    by (intro arg_cong [of _ _ sum_list] map_cong) simp_all
  also have "\<dots> = sum_list (map length (b # bs))" using Cons by (simp add: sum_list_addf n)
  finally show ?case .
qed simp

lemma length_interleave: "length (interleave bs) = sum_list (map length bs)"
proof -
  have le: "n \<le> foldr max ns 0" if "n \<in> set ns" for n :: nat and ns using that by (induction ns) auto
  have "\<forall>b \<in> set bs. length b \<le> length (transpose bs)" by (simp add: length_transpose_max le)
  from length_columns [OF this] show ?thesis unfolding interleave_def
    by (subst transpose_columns) (simp add: length_concat comp_def)
qed

subsection \<open>Reading the blocks back\<close>

text \<open>
  A reader of the codes of a symbol: it sorts them into blocks, requires every block to be a
  codeword and returns the data.
\<close>

definition read_codes :: "int list \<Rightarrow> u8 list \<Rightarrow> u8 list option" where
  "read_codes spec codes =
     (let e = nat (QRspec_rsEccCodes1 spec);
          ds = deinterleave (block_lens spec) codes;
          es = deinterleave (replicate (length ds) e) (drop (nat (QRspec_rsDataLength spec)) codes)
      in if list_all2 (\<lambda>d p. codeword e (d @ p)) ds es then Some (concat ds) else None)"

lemma read_codes_symbol:
  assumes "spec_ok spec" and "int (length data) = QRspec_rsDataLength spec"
  shows "read_codes spec (symbol_codes spec data) = Some data"
proof -
  let ?e = "nat (QRspec_rsEccCodes1 spec)" and ?ds = "data_blocks spec data"
  note lds = data_block_lengths [OF assms]
  have d: "deinterleave (block_lens spec) (symbol_codes spec data) = ?ds"
    unfolding symbol_codes_def lds(1) [symmetric] by (rule deinterleave_interleave)
  have "length (interleave ?ds) = nat (QRspec_rsDataLength spec)"
    using lds assms(2) by (simp add: length_interleave)
  then have dr: "drop (nat (QRspec_rsDataLength spec)) (symbol_codes spec data) = interleave (ecc_blocks spec data) @ []"
    by (simp add: symbol_codes_def)
  have "map length (ecc_blocks spec data) = replicate (length ?ds) ?e"
    using ecc_block_lengths [OF assms] by (simp add: data_blocks_def)
  then have e: "deinterleave (replicate (length ?ds) ?e) (drop (nat (QRspec_rsDataLength spec)) (symbol_codes spec data)) = ecc_blocks spec data"
    unfolding dr by (metis deinterleave_interleave)
  have "list_all2 (\<lambda>b p. codeword ?e (b @ p)) ?ds (ecc_blocks spec data)"
    unfolding ecc_blocks_def using data_block_codeword [OF assms] by (auto simp: list_all2_conv_all_nth)
  moreover have "concat ?ds = data" unfolding data_blocks_def using lds(2) by (rule concat_cut)
  ultimately show ?thesis by (simp add: read_codes_def Let_def d e)
qed

end
