(* ===== verification/Mask_Correct.thy ===== *)
theory Mask_Correct
  imports MMask QRspec_Correct
begin

text \<open>
  Correctness of masking: a mask pattern changes data modules only and is its own inverse; the
  run lengths describe the line they are computed from; the format information can be read
  back from both of its places; the count of dark modules is that of the finished symbol; and
  the pattern chosen is the first one with the smallest demerit.
\<close>

subsection \<open>Grids\<close>

lemma index_less: "x < w \<Longrightarrow> y < h \<Longrightarrow> y * w + x < h * (w :: nat)"
proof -
  assume "x < w" "y < h"
  then have "y * w + x < Suc y * w" by simp
  also have "\<dots> \<le> h * w" using \<open>y < h\<close> by (intro mult_le_mono1) simp
  finally show ?thesis .
qed

lemma index_inj:
  "x < w \<Longrightarrow> x' < w \<Longrightarrow> y * w + x = y' * w + x' \<longleftrightarrow> y = y' \<and> x = (x' :: nat)"
  by (metis add.commute div_less add_right_cancel div_mult_self3 less_nat_zero_code plus_nat.add_0)

lemma length_grid [simp]: "length (concat (map (\<lambda>y. map (f y) [0..<w]) [0..<h])) = h * w"
  by (induction h) simp_all

lemma grid_nth:
  "x < w \<Longrightarrow> y < h \<Longrightarrow> concat (map (\<lambda>y. map (f y) [0..<w]) [0..<h]) ! (y * w + x) = f y x"
proof (induction h)
  case (Suc h)
  then show ?case using index_less [of x w y h] by (cases "y = h") (auto simp: nth_append)
qed simp

lemma grid_eqI:
  assumes "length f = w * w" "length g = w * w"
    and "\<And>x y. x < w \<Longrightarrow> y < w \<Longrightarrow> f ! (y * w + x) = g ! (y * w + x)"
  shows "f = g"
proof (rule nth_equalityI)
  fix i assume "i < length f"
  then have "0 < w" "i < w * w" using assms(1) by (cases w, simp_all)
  then have "i mod w < w" "i div w < w" by (simp_all add: less_mult_imp_div_less)
  from assms(3) [OF this] show "f ! i = g ! i" by (simp add: mult.commute)
qed (use assms in simp)

subsection \<open>Mask patterns\<close>

definition dark :: "u8 \<Rightarrow> bool" where
  "dark c \<longleftrightarrow> bit c 0"

lemma and_1_dark: "c AND 1 \<noteq> 0 \<longleftrightarrow> dark c"
  by (simp add: dark_def and_one_eq bit_0 odd_iff_mod_2_eq_one)

lemma dark_xor: "dark (a XOR b) \<longleftrightarrow> dark a \<noteq> dark b"
  by (simp add: dark_def bit_xor_iff)

lemma dark_1 [simp]: "dark 1" "\<not> dark 0"
  by (simp_all add: dark_def)

lemma marked_xor_1 [simp]: "marked (c XOR 1) = marked c"
  by (simp add: marked_def bit_xor_iff bit_1_iff)

lemma marked_mask_cell [simp]: "marked (mask_cell e c) = marked c"
  by (simp add: mask_cell_def)

lemma mask_cell_twice [simp]: "mask_cell e (mask_cell e c) = c"
  by (simp add: mask_cell_def marked_and xor.assoc)

lemma mask_cell_marked: "marked c \<Longrightarrow> mask_cell e c = c"
  by (simp add: mask_cell_def marked_and)

lemma dark_mask_cell: "\<not> marked c \<Longrightarrow> dark (mask_cell e c) = (dark c \<noteq> (e = 0))"
  by (simp add: mask_cell_def marked_and dark_xor)

lemma length_MASKMAKER [simp]: "length (snd (MASKMAKER e w s)) = w * w"
  by (simp add: MASKMAKER_def Let_def)

lemma MASKMAKER_nth:
  "x < w \<Longrightarrow> y < w \<Longrightarrow> snd (MASKMAKER e w s) ! (y * w + x) = mask_cell (e x y) (s ! (y * w + x))"
  by (simp add: MASKMAKER_def Let_def grid_nth)

lemma MASKMAKER_twice: "length s = w * w \<Longrightarrow> snd (MASKMAKER e w (snd (MASKMAKER e w s))) = s"
  by (rule grid_eqI [of _ w]) (simp_all add: MASKMAKER_nth)

text \<open>The expression of pattern \<open>i\<close>.\<close>

definition mask_exp :: "nat \<Rightarrow> nat \<Rightarrow> nat \<Rightarrow> nat" where
  "mask_exp i = [\<lambda>x y. (x + y) mod 2, \<lambda>x y. y mod 2, \<lambda>x y. x mod 3, \<lambda>x y. (x + y) mod 3,
     \<lambda>x y. (y div 2 + x div 3) mod 2, \<lambda>x y. (x * y) mod 2 + (x * y) mod 3,
     \<lambda>x y. ((x * y) mod 2 + (x * y) mod 3) mod 2, \<lambda>x y. ((x * y) mod 3 + (x + y) mod 2) mod 2] ! i"

lemma maskMakers_exp: "i < 8 \<Longrightarrow> maskMakers ! i = MASKMAKER (mask_exp i)"
  by (drule less_8_cases) (elim insertE emptyE; simp add: maskMakers_def mask_exp_def Mask_mask0_def Mask_mask1_def
     Mask_mask2_def Mask_mask3_def Mask_mask4_def Mask_mask5_def Mask_mask6_def Mask_mask7_def)

subsection \<open>Run lengths\<close>

text \<open>The line that a list of run lengths describes, with the colour of the first run.\<close>

fun unrun :: "bool \<Rightarrow> int list \<Rightarrow> bool list" where
  "unrun c [] = []"
| "unrun c (r # rs) = replicate (nat r) c @ unrun (\<not> c) rs"

lemma unrun_snoc: "unrun c (rs @ [r]) = unrun c rs @ replicate (nat r) (c = even (length rs))"
  by (induction rs arbitrary: c) auto

definition line :: "frame \<Rightarrow> nat \<Rightarrow> nat \<Rightarrow> nat \<Rightarrow> bool list" where
  "line f off pitch n = map (\<lambda>i. dark (f ! (off + i * pitch))) [0..<n]"

lemma line_1: "line f off pitch (Suc 0) = [dark (f ! off)]"
  by (simp add: line_def)

lemma length_line [simp]: "length (line f off pitch n) = n"
  by (simp add: line_def)

lemma length_unrun: "int (length (unrun c rs)) = (\<Sum>r\<leftarrow>rs. max 0 r)"
  by (induction rs arbitrary: c) auto

text \<open>What the array holds after \<open>i\<close> modules.\<close>

definition runs_upto :: "frame \<Rightarrow> nat \<Rightarrow> nat \<Rightarrow> nat \<Rightarrow> nat \<times> int list \<Rightarrow> bool" where
  "runs_upto f off pitch i = (\<lambda>(head, rl).
     head \<le> i \<and> head < length rl \<and> unrun False (take (head + 1) rl) = line f off pitch i \<and>
     odd head = dark (f ! (off + (i - 1) * pitch)) \<and> 1 \<le> rl ! head \<and>
     (\<forall>k. 1 \<le> k \<and> k \<le> head \<longrightarrow> 1 \<le> rl ! k) \<and> (rl ! 0 = -1 \<or> 1 \<le> rl ! 0))"

lemma runs_step:
  assumes "runs_upto f off pitch i (head, rl)" and "0 < i" and "i + 1 < length rl"
  shows "runs_upto f off pitch (Suc i)
    (if dark (f ! (off + i * pitch)) \<noteq> dark (f ! (off + (i - 1) * pitch))
     then (head + 1, rl[head + 1 := 1]) else (head, rl[head := rl ! head + 1]))"
proof -
  let ?d = "dark (f ! (off + i * pitch))"
  have h: "head \<le> i" "head < length rl" "unrun False (take (head + 1) rl) = line f off pitch i"
    "odd head = dark (f ! (off + (i - 1) * pitch))" "1 \<le> rl ! head" 
    "\<forall>k. 1 \<le> k \<and> k \<le> head \<longrightarrow> 1 \<le> rl ! k" "rl ! 0 = -1 \<or> 1 \<le> rl ! 0"
    using assms(1) by (auto simp: runs_upto_def)
  have l: "line f off pitch (Suc i) = line f off pitch i @ [?d]" by (simp add: line_def)
  have t: "take (head + 1) rl = take head rl @ [rl ! head]" using h(2) by (simp add: take_Suc_conv_app_nth)
  show ?thesis
  proof (cases "?d = dark (f ! (off + (i - 1) * pitch))")
    case True
    then have "odd head = ?d" using h(4) by simp
    then have "replicate (nat (rl ! head + 1)) (odd head) = replicate (nat (rl ! head)) (odd head) @ [?d]"
      using h(5) by (simp add: nat_add_distrib replicate_append_same [symmetric])
    then have "unrun False (take (head + 1) (rl[head := rl ! head + 1])) = line f off pitch (Suc i)"
      using h(2,3) t l by (simp add: take_Suc_conv_app_nth unrun_snoc)
    then show ?thesis using True h by (auto simp: runs_upto_def nth_list_update)
  next
    case False
    have "take (Suc (head + 1)) (rl[head + 1 := 1]) = take (head + 1) rl @ [1]"
      using h(1) assms(3) by (subst take_Suc_conv_app_nth) simp_all
    moreover have "even (head + 1) = (\<not> ?d)" using False h(4) by simp
    ultimately have "unrun False (take (Suc (head + 1)) (rl[head + 1 := 1])) = line f off pitch (Suc i)"
      using h(1-3) assms(3) l by (simp add: unrun_snoc del: take_Suc_conv_app_nth)
    then show ?thesis using False h assms(3) by (auto simp: runs_upto_def nth_list_update le_Suc_eq)
  qed
qed


lemma Mask_calcRunLength_upto:
  assumes "0 < w" and "w < length rl"
  shows "\<exists>head rl'. Mask_calcRunLength w f off dir rl = (head + 1, rl') \<and> length rl' = length rl \<and>
    runs_upto f off (if dir = 0 then 1 else w) w (head, rl')"
proof -
  let ?p = "if dir = 0 then 1 else w"
  let ?init = "if dark (f ! off) then (1, rl[0 := -1, 1 := 1]) else (0, rl[0 := 1])"
  let ?step = "\<lambda>(head, rl) i.
     if dark (f ! (off + i * ?p)) \<noteq> dark (f ! (off + (i - 1) * ?p))
     then (head + 1, rl[head + 1 := 1]) else (head, rl[head := rl ! head + 1])"
  have init: "runs_upto f off ?p 1 ?init" "length (snd ?init) = length rl"
    using assms by (cases rl, simp, cases "tl rl", auto simp: runs_upto_def line_1)
  have fold: "n \<le> w \<Longrightarrow> 1 \<le> n \<Longrightarrow> runs_upto f off ?p n (foldl ?step ?init [1..<n]) \<and>
      length (snd (foldl ?step ?init [1..<n])) = length rl" for n
  proof (induction n)
    case (Suc n)
    show ?case
    proof (cases "n = 0")
      case True
      then show ?thesis using init by simp
    next
      case False
      obtain h r where hr: "foldl ?step ?init [1..<n] = (h, r)" by fastforce
      with Suc False have "runs_upto f off ?p n (h, r)" "length r = length rl" by simp_all
      from runs_step [OF this(1)] this(2) False Suc.prems assms hr show ?thesis
        by (auto simp: upt_Suc_append split: if_splits)
    qed
  qed simp
  obtain h r where hr: "foldl ?step ?init [1..<w] = (h, r)" by fastforce
  have "Mask_calcRunLength w f off dir rl = (h + 1, r)"
    using hr by (cases "dir = 0"; cases "dark (f ! off)")
      (simp_all add: Mask_calcRunLength_def Let_def and_1_dark dark_xor)
  with fold [of w] hr assms show ?thesis by auto
qed


subsection \<open>Bounds of the demerit\<close>

lemma demerit_N1_bound: "0 \<le> demerit_N1 rl i" "demerit_N1 rl i \<le> max 0 (rl ! i)"
  by (auto simp: demerit_N1_def)

lemma demerit_N3_bound: "0 \<le> demerit_N3 n rl i" "demerit_N3 n rl i \<le> 40"
  by (auto simp: demerit_N3_def Let_def)

lemma Mask_calcN1N3_sum:
  "Mask_calcN1N3 n rl = (\<Sum>i\<leftarrow>[0..<n]. demerit_N1 rl i + demerit_N3 n rl i)"
proof -
  have "foldl (\<lambda>d i. d + f i + g i) a xs = a + (\<Sum>i\<leftarrow>xs. f i + g i)" for f g :: "nat \<Rightarrow> int" and a xs
    by (induction xs arbitrary: a) simp_all
  then show ?thesis by (simp add: Mask_calcN1N3_def)
qed

lemma Mask_calcN1N3_bound:
  assumes "runs_upto f off p w (head, rl)"
  shows "0 \<le> Mask_calcN1N3 (head + 1) rl" and "Mask_calcN1N3 (head + 1) rl \<le> 41 * int w + 40"
proof -
  have h: "head \<le> w" "head < length rl" "unrun False (take (head + 1) rl) = line f off p w"
    using assms by (auto simp: runs_upto_def)
  have "(\<Sum>i\<leftarrow>[0..<head + 1]. max 0 (rl ! i)) = (\<Sum>r\<leftarrow>take (head + 1) rl. max 0 r)"
  proof -
    have "take (head + 1) rl = map ((!) rl) [0..<head + 1]"
      using h(2) by (auto intro!: nth_equalityI simp del: upt_Suc)
    then show ?thesis by (simp only: map_map comp_def)
  qed
  also have "\<dots> = int w" using length_unrun [of False "take (head + 1) rl"] h(3) by simp
  finally have sum: "(\<Sum>i\<leftarrow>[0..<head + 1]. max 0 (rl ! i)) = int w" .
  show "0 \<le> Mask_calcN1N3 (head + 1) rl"
    unfolding Mask_calcN1N3_sum by (intro sum_list_nonneg) (auto simp: demerit_N1_bound demerit_N3_bound)
  have "Mask_calcN1N3 (head + 1) rl \<le> (\<Sum>i\<leftarrow>[0..<head + 1]. max 0 (rl ! i) + 40)"
    unfolding Mask_calcN1N3_sum by (intro sum_list_mono add_mono demerit_N1_bound demerit_N3_bound)
  also have "\<dots> = int w + 40 * int (head + 1)"
    using sum by (simp add: sum_list_addf sum_list_triv del: upt_Suc)
  finally show "Mask_calcN1N3 (head + 1) rl \<le> 41 * int w + 40" using h(1) by simp
qed

lemma demerit_lines_bound:
  assumes "0 < w" and "w < length rl"
  shows "\<exists>d' rl'. demerit_lines w f dir off (d, rl) = (d', rl') \<and> length rl' = length rl \<and>
    d \<le> d' \<and> d' \<le> d + int w * (41 * int w + 40)"
proof -
  have "\<exists>d' rl'. foldl (\<lambda>(demerit, runLength) k.
         let (len, runLength) = Mask_calcRunLength w f (off k) dir runLength
         in (demerit + Mask_calcN1N3 len runLength, runLength)) (d, rl) [0..<n] = (d', rl') \<and>
     length rl' = length rl \<and> d \<le> d' \<and> d' \<le> d + int n * (41 * int w + 40)" for n
  proof (induction n)
    case (Suc n)
    then obtain d' rl' where IH: "foldl (\<lambda>(demerit, runLength) k.
         let (len, runLength) = Mask_calcRunLength w f (off k) dir runLength
         in (demerit + Mask_calcN1N3 len runLength, runLength)) (d, rl) [0..<n] = (d', rl')"
      "length rl' = length rl" "d \<le> d'" "d' \<le> d + int n * (41 * int w + 40)" by blast
    from Mask_calcRunLength_upto [of w rl' f "off n" dir] assms IH(2)
    obtain h r where r: "Mask_calcRunLength w f (off n) dir rl' = (h + 1, r)" "length r = length rl"
      and u: "runs_upto f (off n) (if dir = 0 then 1 else w) w (h, r)" by auto
    from Mask_calcN1N3_bound [OF u] IH r show ?case by (simp add: algebra_simps)
  qed simp
  then show ?thesis by (simp add: demerit_lines_def)
qed

lemma foldl_count:
  "foldl (\<lambda>d z. if P z then d + c else d) (d :: int) xs = d + c * int (length (filter P xs))"
  by (induction xs arbitrary: d) (simp_all add: algebra_simps)

text \<open>A block of two by two modules of one colour, with its lower right corner at \<open>(x, y)\<close>.\<close>

definition block22 :: "nat \<Rightarrow> frame \<Rightarrow> nat \<times> nat \<Rightarrow> bool" where
  "block22 w f = (\<lambda>(y, x).
     (\<forall>(i, j) \<in> {(y, x), (y, x - 1), (y - 1, x), (y - 1, x - 1)}.
        dark (f ! (i * w + j)) = dark (f ! (y * w + x))))"

lemma Mask_calcN2_blocks:
  "Mask_calcN2 w f = 3 * int (length (filter (block22 w f) [(y, x). y \<leftarrow> [1..<w], x \<leftarrow> [1..<w]]))"
proof -
  let ?xs = "[(y, x). y \<leftarrow> [1..<w], x \<leftarrow> [1..<w]]"
  have block: "((f ! p AND f ! (p - 1) AND f ! (p - w) AND f ! (p - w - 1)) OR
       ((f ! p OR f ! (p - 1) OR f ! (p - w) OR f ! (p - w - 1)) XOR 1)) AND 1 \<noteq> 0 \<longleftrightarrow> block22 w f (y, x)"
    if "1 \<le> x" "1 \<le> y" "p = y * w + x" for x y p
  proof -
    obtain k where y: "y = Suc k" using \<open>1 \<le> y\<close> by (cases y) auto
    have "p - 1 = y * w + (x - 1)" "p - w = (y - 1) * w + x" "p - w - 1 = (y - 1) * w + (x - 1)"
      using that by (simp_all add: y)
    then show ?thesis
      using that(3) by (auto simp: and_1_dark block22_def dark_def bit_or_iff bit_and_iff bit_xor_iff bit_1_iff)
  qed
  have "foldl (\<lambda>d z. if P z then d + 3 else d) (0 :: int) xs = foldl (\<lambda>d z. if Q z then d + 3 else d) 0 xs"
    if "\<And>z. z \<in> set xs \<Longrightarrow> P z = Q z" for P Q and xs :: "(nat \<times> nat) list"
    using that by (intro foldl_cong) auto
  note cong = this
  have "Mask_calcN2 w f = foldl (\<lambda>d z. if block22 w f z then d + 3 else d) 0 ?xs"
    unfolding Mask_calcN2_def Let_def split_beta
  proof (rule cong)
    fix z assume "z \<in> set ?xs"
    then obtain y x where z: "z = (y, x)" "1 \<le> y" "1 \<le> x" by auto
    show "((f ! (fst z * w + snd z) AND f ! (fst z * w + snd z - 1) AND f ! (fst z * w + snd z - w) AND
        f ! (fst z * w + snd z - w - 1)) OR ((f ! (fst z * w + snd z) OR f ! (fst z * w + snd z - 1) OR
        f ! (fst z * w + snd z - w) OR f ! (fst z * w + snd z - w - 1)) XOR 1)) AND 1 \<noteq> 0 \<longleftrightarrow> block22 w f z"
      unfolding z(1) fst_conv snd_conv by (rule block [OF z(3,2) refl])
  qed
  then show ?thesis by (simp add: foldl_count)
qed

lemma Mask_calcN2_bound: "0 \<le> Mask_calcN2 w f" "Mask_calcN2 w f \<le> 3 * (int w * int w)"
proof -
  define xs where "xs = [(y, x). y \<leftarrow> [1..<w], x \<leftarrow> [1..<w]]"
  have "length (filter (block22 w f) xs) \<le> (w - 1) * (w - 1)"
    unfolding xs_def by (rule order.trans [OF length_filter_le]) (simp add: length_concat comp_def sum_list_triv)
  also have "\<dots> \<le> w * w" by (intro mult_le_mono) simp_all
  finally have "int (length (filter (block22 w f) xs)) \<le> int (w * w)" by (simp only: of_nat_le_iff)
  then show "0 \<le> Mask_calcN2 w f" "Mask_calcN2 w f \<le> 3 * (int w * int w)"
    unfolding Mask_calcN2_blocks xs_def by simp_all
qed


lemma Mask_evaluateSymbol_bound:
  assumes "0 < w" and "w < length rl"
  shows "0 \<le> Mask_evaluateSymbol w f rl"
    and "Mask_evaluateSymbol w f rl \<le> 3 * (int w * int w) + 2 * (int w * (41 * int w + 40))"
proof -
  obtain d r where 1: "demerit_lines w f 0 (\<lambda>y. y * w) (Mask_calcN2 w f, rl) = (d, r)" "length r = length rl"
    "Mask_calcN2 w f \<le> d" "d \<le> Mask_calcN2 w f + int w * (41 * int w + 40)"
    using demerit_lines_bound [OF assms] by blast
  obtain d' r' where 2: "demerit_lines w f 1 (\<lambda>x. x) (d, r) = (d', r')"
    "d \<le> d'" "d' \<le> d + int w * (41 * int w + 40)"
    using demerit_lines_bound [of w r] assms 1(2) by metis
  show "0 \<le> Mask_evaluateSymbol w f rl"
    and "Mask_evaluateSymbol w f rl \<le> 3 * (int w * int w) + 2 * (int w * (41 * int w + 40))"
    using 1 2 Mask_calcN2_bound [of w f] by (simp_all add: Mask_evaluateSymbol_def Let_def)
qed

subsection \<open>The number of dark modules\<close>

definition darks :: "frame \<Rightarrow> int" where
  "darks f = int (length (filter dark f))"

lemma uint_and_1: "uint (c AND 1) = of_bool (dark c)" for c :: u8
  by (simp add: dark_def and_one_eq bit_0 mod_2_eq_odd)

lemma MASKMAKER_darks: "fst (MASKMAKER e w s) = darks (snd (MASKMAKER e w s))"
proof -
  have "(\<Sum>v\<leftarrow>d. uint (v AND 1)) = darks d" for d :: frame
    by (induction d) (simp_all add: uint_and_1 darks_def)
  then show ?thesis by (simp add: MASKMAKER_def Let_def)
qed

lemma darks_bounds: "0 \<le> darks f" "darks f \<le> int (length f)"
  by (simp_all add: darks_def)

lemma format_blacks_bounds:
  "0 \<le> fst (Mask_writeFormatInformation w f m l)" "fst (Mask_writeFormatInformation w f m l) \<le> 30"
proof -
  have b: "0 \<le> format_blacks c k" "format_blacks c k \<le> 2" for c k by (simp_all add: format_blacks_def)
  have "(\<Sum>k\<leftarrow>[0..<15]. format_blacks c k) \<le> (\<Sum>k\<leftarrow>[0..<15::nat]. 2)" for c
    by (intro sum_list_mono b)
  then show "0 \<le> fst (Mask_writeFormatInformation w f m l)"
    "fst (Mask_writeFormatInformation w f m l) \<le> 30"
    by (auto simp: Mask_writeFormatInformation_def Let_def sum_list_triv intro!: sum_list_nonneg b
        simp del: upt_rec_numeral)
qed

lemma length_writeFormat [simp]: "length (snd (Mask_writeFormatInformation w f m l)) = length f"
  by (simp add: Mask_writeFormatInformation_def Let_def length_foldl del: upt_rec_numeral)

subsection \<open>Format information\<close>

text \<open>The two places of bit \<open>k\<close> of the format information, as row and column.\<close>

definition format_pos1 :: "nat \<Rightarrow> nat \<Rightarrow> nat \<times> nat" where
  "format_pos1 w k = (if k < 8 then (8, w - 1 - k) else (w - 15 + k, 8))"

definition format_pos2 :: "nat \<Rightarrow> nat \<times> nat" where
  "format_pos2 k = (if k < 6 then (k, 8) else if k = 6 then (7, 8) else if k = 7 then (8, 8)
     else if k = 8 then (8, 7) else (8, 14 - k))"

definition format_places :: "nat \<Rightarrow> (nat \<times> nat) list" where
  "format_places w = map (format_pos1 w) [0..<15] @ map format_pos2 [0..<15]"

lemma writes_nth_distinct:
  "distinct (map fst ws) \<Longrightarrow> (i, v) \<in> set ws \<Longrightarrow> i < length f \<Longrightarrow> writes f ws ! i = v"
proof (induction ws arbitrary: f)
  case (Cons w ws)
  then show ?case
    by (cases w; cases "(i, v) \<in> set ws") (auto simp: writes_nth nth_list_update)
qed simp

lemma foldl_writes: "foldl (\<lambda>f i. writes f (g i)) f xs = writes f (concat (map g xs))"
  by (induction xs arbitrary: f) simp_all


lemma format_writes:
  assumes "21 \<le> w"
  shows "snd (Mask_writeFormatInformation w f m l) = writes f
    (concat (map (\<lambda>k. [(fst (format_pos1 w k) * w + snd (format_pos1 w k), format_cell (QRspec_getFormatInfo m l) k),
        (fst (format_pos2 k) * w + snd (format_pos2 k), format_cell (QRspec_getFormatInfo m l) k)]) [0..<15]))"
proof -
  have split: "[0..<15] = [0..<8] @ map (\<lambda>i. 8 + i) [0..<7 :: nat]"
    using upt_add_eq_append [of 0 8 7] map_add_upt [of 8 7] by (simp add: add.commute)
  have 1: "[(w * 8 + w - 1 - i, c), (if i < 6 then w * i + 8 else w * (i + 1) + 8, c)] =
      [(fst (format_pos1 w i) * w + snd (format_pos1 w i), c), (fst (format_pos2 i) * w + snd (format_pos2 i), c)]"
    if "i < 8" for i and c :: u8
    using assms less_8_cases [OF that] by (elim insertE emptyE) (simp_all add: format_pos1_def format_pos2_def)
  have 2: "[(w * (w - 7 + i) + 8, c), (if i = 0 then w * 8 + 7 else w * 8 + 6 - i, c)] =
      [(fst (format_pos1 w (8 + i)) * w + snd (format_pos1 w (8 + i)), c),
       (fst (format_pos2 (8 + i)) * w + snd (format_pos2 (8 + i)), c)]"
    if "i < 7" for i and c :: u8
  proof -
    have "w - 15 + (8 + i) = w - 7 + i" using assms by simp
    then show ?thesis
      using assms that by (auto simp: format_pos1_def format_pos2_def mult.commute)
  qed
  show ?thesis
    unfolding Mask_writeFormatInformation_def Let_def snd_conv foldl_writes split map_append concat_append
      writes_append map_map comp_def
    by (intro arg_cong2 [where f = writes] arg_cong [where f = concat] map_cong refl) (simp_all only: set_upt atLeastLessThan_iff 1 2)
qed

lemma format_places_ok:
  assumes "21 \<le> w"
  shows "distinct (format_places w)" and "p \<in> set (format_places w) \<Longrightarrow> fst p < w \<and> snd p < w"
  using assms by (auto simp: format_places_def format_pos1_def format_pos2_def distinct_map inj_on_def
      split: if_splits)


text \<open>The writes of the format information go to distinct places.\<close>

definition format_ws :: "nat \<Rightarrow> u32 \<Rightarrow> (nat \<times> u8) list" where
  "format_ws w fmt = concat (map (\<lambda>k.
     [(fst (format_pos1 w k) * w + snd (format_pos1 w k), format_cell fmt k),
      (fst (format_pos2 k) * w + snd (format_pos2 k), format_cell fmt k)]) [0..<15])"

lemma distinct_concat2:
  assumes "distinct (map f xs @ map g xs)"
  shows "distinct (concat (map (\<lambda>k. [f k, g k]) xs))"
  using assms by (induction xs) auto

lemma format_ws_distinct:
  assumes "21 \<le> w"
  shows "distinct (map fst (format_ws w fmt))"
proof -
  let ?i = "\<lambda>p. fst p * w + snd p"
  have "inj_on ?i (set (format_places w))"
    using format_places_ok(2) [OF assms] by (intro inj_onI) (simp add: index_inj prod_eq_iff)
  then have "distinct (map ?i (format_places w))"
    using format_places_ok(1) [OF assms] by (simp add: distinct_map)
  then have "distinct (concat (map (\<lambda>k. [?i (format_pos1 w k), ?i (format_pos2 k)]) [0..<15]))"
    by (intro distinct_concat2) (simp add: format_places_def comp_def)
  moreover have "map fst (format_ws w fmt) = concat (map (\<lambda>k. [?i (format_pos1 w k), ?i (format_pos2 k)]) [0..<15])"
    by (simp add: format_ws_def map_concat comp_def)
  ultimately show ?thesis by simp
qed

lemma format_ws_place:
  "(i, v) \<in> set (format_ws w fmt) \<Longrightarrow> \<exists>p \<in> set (format_places w). i = fst p * w + snd p"
  by (auto simp: format_ws_def format_places_def)

lemma format_ws_bound: "21 \<le> w \<Longrightarrow> (i, v) \<in> set (format_ws w fmt) \<Longrightarrow> i < w * w"
  using format_ws_place [of i v w fmt] format_places_ok(2) [of w] by (auto intro!: index_less)

lemma Mask_writeFormatInformation_ws:
  "21 \<le> w \<Longrightarrow> snd (Mask_writeFormatInformation w f m l) = writes f (format_ws w (QRspec_getFormatInfo m l))"
  by (simp add: format_writes format_ws_def)

lemma format_readback:
  assumes "21 \<le> w" and "length f = w * w" and "k < 15"
  shows "snd (Mask_writeFormatInformation w f m l) ! (fst (format_pos1 w k) * w + snd (format_pos1 w k))
      = format_cell (QRspec_getFormatInfo m l) k"
    and "snd (Mask_writeFormatInformation w f m l) ! (fst (format_pos2 k) * w + snd (format_pos2 k))
      = format_cell (QRspec_getFormatInfo m l) k"
  unfolding Mask_writeFormatInformation_ws [OF assms(1)]
  by (rule writes_nth_distinct [OF format_ws_distinct [OF assms(1)]];
      use assms format_ws_bound [OF assms(1)] in \<open>force simp: format_ws_def\<close>)+

lemma format_elsewhere:
  assumes "21 \<le> w" and "x < w" and "y < w" and "length f = w * w" and "(y, x) \<notin> set (format_places w)"
  shows "snd (Mask_writeFormatInformation w f m l) ! (y * w + x) = f ! (y * w + x)"
proof -
  have "y * w + x \<noteq> fst p * w + snd p" if "p \<in> set (format_places w)" for p
    using that assms(2,5) format_places_ok(2) [OF assms(1) that] by (auto simp: index_inj)
  then have "y * w + x \<notin> fst ` set (format_ws w fmt)" for fmt
    using format_ws_place [of _ _ w fmt] by fastforce
  then show ?thesis unfolding Mask_writeFormatInformation_ws [OF assms(1)]
    using assms by (intro writes_nth) (simp_all add: index_less)
qed

text \<open>
  The count that goes into the demerit is the number of dark modules of the finished symbol,
  when the places of the format information are light before.
\<close>

lemma darks_update:
  assumes "i < length f" and "\<not> dark (f ! i)"
  shows "darks (f[i := v]) = darks f + of_bool (dark v)"
proof -
  have "darks f = darks (take i f @ f ! i # drop (Suc i) f)" using assms(1) by (simp add: id_take_nth_drop [symmetric])
  with assms show ?thesis by (simp add: upd_conv_take_nth_drop darks_def)
qed

lemma darks_writes:
  "distinct (map fst ws) \<Longrightarrow> (\<And>i v. (i, v) \<in> set ws \<Longrightarrow> i < length f \<and> \<not> dark (f ! i)) \<Longrightarrow>
     darks (writes f ws) = darks f + int (length (filter dark (map snd ws)))"
proof (induction ws arbitrary: f)
  case (Cons w ws)
  obtain i v where w: "w = (i, v)" by (cases w)
  have "darks (writes (f[i := v]) ws) = darks (f[i := v]) + int (length (filter dark (map snd ws)))"
  proof (rule Cons.IH)
    fix j u assume "(j, u) \<in> set ws"
    moreover from this have "j \<noteq> i" using Cons.prems(1) by (auto simp: w rev_image_eqI)
    ultimately show "j < length (f[i := v]) \<and> \<not> dark (f[i := v] ! j)"
      using Cons.prems(2) [of j u] by simp
  qed (use Cons.prems(1) in \<open>simp add: w\<close>)
  also have "darks (f[i := v]) = darks f + of_bool (dark v)"
    using Cons.prems(2) [of i v] by (intro darks_update) (simp_all add: w)
  finally show ?case by (simp add: w)
qed simp

lemma dark_format_cell: "dark (format_cell fmt k) \<longleftrightarrow> drop_bit k fmt AND 1 \<noteq> 0"
  by (simp add: format_cell_def dark_def)

lemma format_ws_darks:
  "int (length (filter dark (map snd (format_ws w fmt)))) = (\<Sum>k\<leftarrow>[0..<15]. format_blacks fmt k)"
proof -
  have "int (length (filter dark (map snd (concat (map (\<lambda>k. [(f k, format_cell fmt k), (g k, format_cell fmt k)]) ks)))))
      = (\<Sum>k\<leftarrow>ks. format_blacks fmt k)" for f g :: "nat \<Rightarrow> nat" and ks
    by (induction ks) (simp_all add: dark_format_cell format_blacks_def)
  then show ?thesis by (simp add: format_ws_def)
qed

lemma format_blacks_darks:
  assumes "21 \<le> w" and "length f = w * w"
    and "\<And>p. p \<in> set (format_places w) \<Longrightarrow> \<not> dark (f ! (fst p * w + snd p))"
  shows "darks f + fst (Mask_writeFormatInformation w f m l) = darks (snd (Mask_writeFormatInformation w f m l))"
proof -
  let ?ws = "format_ws w (QRspec_getFormatInfo m l)"
  have "darks (writes f ?ws) = darks f + int (length (filter dark (map snd ?ws)))"
  proof (rule darks_writes)
    fix i v assume iv: "(i, v) \<in> set ?ws"
    then obtain p where "p \<in> set (format_places w)" "i = fst p * w + snd p" using format_ws_place by blast
    then show "i < length f \<and> \<not> dark (f ! i)" using assms format_ws_bound [OF assms(1) iv] by simp
  qed (rule format_ws_distinct [OF assms(1)])
  also have "int (length (filter dark (map snd ?ws))) = fst (Mask_writeFormatInformation w f m l)"
    unfolding format_ws_darks by (simp add: Mask_writeFormatInformation_def Let_def)
  finally show ?thesis using assms(1) by (simp add: Mask_writeFormatInformation_ws)
qed

subsection \<open>The choice of a mask\<close>

lemma demerit_ratio_bound:
  assumes "0 \<le> b" and "b \<le> n + 30" and "441 \<le> n"
  shows "0 \<le> (\<bar>(200 * b + n) div n div 2 - 50\<bar> div 5) * (10 :: int)"
    and "(\<bar>(200 * b + n) div n div 2 - 50\<bar> div 5) * (10 :: int) \<le> 120"
proof -
  have "(200 * b + n) div n \<le> (n * 215) div n" using assms by (intro zdiv_mono1) simp_all
  then have "(200 * b + n) div n \<le> 215" using assms by simp
  moreover have "0 \<le> (200 * b + n) div n" using assms by (simp add: pos_imp_zdiv_nonneg_iff)
  ultimately have "\<bar>(200 * b + n) div n div 2 - 50\<bar> \<le> 57" by linarith
  then have "\<bar>(200 * b + n) div n div 2 - 50\<bar> div 5 \<le> 57 div 5" by (intro zdiv_mono1) simp_all
  then show "(\<bar>(200 * b + n) div n div 2 - 50\<bar> div 5) * (10 :: int) \<le> 120" by simp
  show "0 \<le> (\<bar>(200 * b + n) div n div 2 - 50\<bar> div 5) * (10 :: int)"
    by (simp add: pos_imp_zdiv_nonneg_iff)
qed

lemma mask_candidate_eq:
  assumes "i < 8"
  shows "snd (mask_candidate w f l i) =
      snd (Mask_writeFormatInformation w (snd (MASKMAKER (mask_exp i) w f)) (int i) l)"
    and "length (snd (mask_candidate w f l i)) = w * w"
  using assms by (simp_all add: mask_candidate_def Let_def split_beta maskMakers_exp)

lemma mask_candidate_bound:
  assumes "i < 8" and "21 \<le> w" and "w \<le> 177"
  shows "0 \<le> fst (mask_candidate w f l i)" and "fst (mask_candidate w f l i) < 2147483647"
proof -
  let ?m = "MASKMAKER (mask_exp i) w f"
  let ?g = "Mask_writeFormatInformation w (snd ?m) (int i) l"
  let ?b = "fst ?m + fst ?g"
  have w: "441 \<le> int (w * w)" "int (w * w) \<le> 31329"
    using mult_le_mono [OF assms(2,2)] mult_le_mono [OF assms(3,3)] by (simp_all del: of_nat_mult add: le_nat_iff [symmetric] nat_le_iff)
  have "0 \<le> ?b" "?b \<le> int (w * w) + 30"
    using format_blacks_bounds [of w "snd ?m" "int i" l] darks_bounds [of "snd ?m"]
    by (simp_all add: MASKMAKER_darks)
  note ratio = demerit_ratio_bound [OF this w(1)]
  note eval = Mask_evaluateSymbol_bound [of w "replicate 178 0" "snd ?g"]
  have "fst (mask_candidate w f l i) = (\<bar>(200 * ?b + int (w * w)) div int (w * w) div 2 - 50\<bar> div 5) * 10
      + Mask_evaluateSymbol w (snd ?g) (replicate 178 0)"
    using assms(1) by (simp add: mask_candidate_def Let_def split_beta maskMakers_exp)
  with ratio eval w assms show "0 \<le> fst (mask_candidate w f l i)" "fst (mask_candidate w f l i) < 2147483647"
    by (simp_all add: algebra_simps)
qed


text \<open>
  The loops of \<^verbatim>\<open>Mask_mask\<close> and \<^verbatim>\<open>MMask_mask\<close> have one shape: \<open>cand i\<close> is the value and the symbol of
  pattern \<open>i\<close>, and \<open>key\<close> orients the values so that the smaller key is the better one.
\<close>

locale candidate_loop =
  fixes cand :: "nat \<Rightarrow> int \<times> frame"
    and key :: "int \<Rightarrow> int"
    and loop :: "nat list \<Rightarrow> int \<Rightarrow> frame option \<Rightarrow> ('z heap_scheme, frame option) M"
  assumes loop_Nil: "loop [] m b = retM b"
    and loop_Cons: "loop (i # is) m b =
      (if key (fst (cand i)) < key m then
         bindM (tryM malloc) (\<lambda>r. case r of
             Inl _ \<Rightarrow> retM (Some (snd (cand i)))
           | Inr _ \<Rightarrow> loop is (fst (cand i)) (Some (snd (cand i))))
       else loop is m b)"
begin

text \<open>With enough memory the loop finds the first of the best patterns.\<close>

lemma loop_best:
  assumes "script s = []"
  shows "(loop is m b s = (Inr b, s) \<and> (\<forall>i \<in> set is. key m \<le> key (fst (cand i)))) \<or>
    (\<exists>xs i ys. is = xs @ i # ys \<and> loop is m b s = (Inr (Some (snd (cand i))), s) \<and>
       key (fst (cand i)) < key m \<and> (\<forall>j \<in> set xs. key (fst (cand i)) < key (fst (cand j))) \<and>
       (\<forall>j \<in> set ys. key (fst (cand i)) \<le> key (fst (cand j))))"
proof (induction "is" arbitrary: m b)
  case Nil
  then show ?case by (simp add: loop_Nil)
next
  case (Cons k ks)
  show ?case
  proof (cases "key (fst (cand k)) < key m")
    case True
    then have "loop (k # ks) m b s = loop ks (fst (cand k)) (Some (snd (cand k))) s"
      using assms by (simp add: loop_Cons bindM_def tryM_def)
    with Cons.IH [of "fst (cand k)" "Some (snd (cand k))"] True show ?thesis
      by (elim disjE exE conjE; intro disjI2)
        (intro exI [of _ "[]"] exI [of _ k] exI [of _ ks], simp,
         rule_tac x = "k # xs" in exI, rule_tac x = i in exI, rule_tac x = ys in exI, simp)
  next
    case False
    then have "loop (k # ks) m b s = loop ks m b s" by (simp add: loop_Cons)
    with Cons.IH [of m b] False show ?thesis
      by (elim disjE exE conjE) (simp,
         intro disjI2, rule_tac x = "k # xs" in exI, rule_tac x = i in exI, rule_tac x = ys in exI, simp)
  qed
qed

text \<open>Whatever allocations fail, the result is one of the candidates.\<close>

lemma loop_candidate:
  "\<exists>r s'. loop is m b s = (Inr r, s') \<and> (r = b \<or> (\<exists>i \<in> set is. r = Some (snd (cand i))))"
proof (induction "is" arbitrary: m b s)
  case (Cons k ks)
  obtain x s' where "malloc s = (x, s')" by fastforce
  with Cons.IH [of "fst (cand k)" "Some (snd (cand k))" s'] Cons.IH [of m b s] show ?case
    by (cases x) (auto simp: loop_Cons bindM_def tryM_def)
qed (simp add: loop_Nil)

end

interpretation mask: candidate_loop "mask_candidate w f l" "\<lambda>d. d" "mask_loop w f l"
  by unfold_locales (simp_all add: split_beta)

interpretation mmask: candidate_loop "mmask_candidate v f l" uminus "mmask_loop v f l"
  by unfold_locales (simp_all add: split_beta)

lemma upt_split:
  assumes "[0..<n] = xs @ i # ys"
  shows "i < n" and "set xs = {0..<i}"
proof -
  have len: "length xs < n" using arg_cong [OF assms, of length] by simp
  have i: "i = length xs" using len by (metis assms nth_append_length nth_upt add_0)
  have "xs = take (length xs) [0..<n]" by (simp add: assms)
  then have "xs = [0..<length xs]" using len by (metis take_upt add_0 less_imp_le)
  with i show "set xs = {0..<i}" by (metis set_upt)
  show "i < n" using len i by simp
qed

lemma Mask_mask_best:
  assumes "script s = []" and "21 \<le> w" and "w \<le> 177"
  shows "\<exists>i < 8. Mask_mask w f l s = (Inr (snd (mask_candidate w f l i)), s) \<and>
    (\<forall>j < 8. fst (mask_candidate w f l i) \<le> fst (mask_candidate w f l j)) \<and>
    (\<forall>j < i. fst (mask_candidate w f l i) < fst (mask_candidate w f l j))"
proof -
  let ?c = "mask_candidate w f l"
  have "fst (?c 0) < 2147483647" using assms by (intro mask_candidate_bound) simp_all
  moreover have "0 \<in> set [0..<8]" by simp
  ultimately have "\<not> (\<forall>i \<in> set [0..<8]. 2147483647 \<le> fst (?c i))" by (meson not_le)
  with mask.loop_best [OF assms(1), of w f l "[0..<8]" 2147483647 None]
  obtain xs i ys where i: "[0..<8] = xs @ i # ys"
    and run: "mask_loop w f l [0..<8] 2147483647 None s = (Inr (Some (snd (?c i))), s)"
    and best: "\<forall>j \<in> set xs. fst (?c i) < fst (?c j)" "\<forall>j \<in> set ys. fst (?c i) \<le> fst (?c j)"
    by blast
  note upt_split [OF i]
  moreover have "j \<in> set xs \<or> j = i \<or> j \<in> set ys" if "j < 8" for j
  proof -
    have "j \<in> set [0..<8]" unfolding set_upt using that by simp
    then show ?thesis unfolding i by auto
  qed
  moreover have "Mask_mask w f l s = (Inr (snd (?c i)), s)"
    using run assms(1) by (simp add: Mask_mask_def bindM_def del: upt_rec_numeral)
  ultimately show ?thesis using best by (metis atLeast0LessThan lessThan_iff order.refl less_imp_le)
qed

end
