(* ===== verification/Frame_Correct.thy ===== *)
theory Frame_Correct
  imports Mask_Correct
begin

text \<open>
  The cells of the initial frame that belong to function patterns: finders with separators and
  format information, timing patterns, alignment patterns and version information, as a set of
  positions, and the number of the other cells.
\<close>

subsection \<open>The cells of the function patterns\<close>

definition idx :: "nat \<Rightarrow> nat \<times> nat \<Rightarrow> nat" where
  "idx w = (\<lambda>(y, x). y * w + x)"

lemma idx_simp [simp]: "idx w (y, x) = y * w + x"
  by (simp add: idx_def)

definition grid :: "nat \<Rightarrow> (nat \<times> nat) set" where
  "grid w = {0..<w} \<times> {0..<w}"

definition cells :: "nat \<Rightarrow> frame \<Rightarrow> (nat \<times> nat) set" where
  "cells w f = {p \<in> grid w. marked (f ! idx w p)}"

lemma idx_inj: "p \<in> grid w \<Longrightarrow> q \<in> grid w \<Longrightarrow> idx w p = idx w q \<longleftrightarrow> p = q"
  by (auto simp: grid_def index_inj)

lemma idx_less: "p \<in> grid w \<Longrightarrow> idx w p < w * w"
  by (auto simp: grid_def intro: index_less)

lemma writes_in: "i \<in> fst ` set ws \<Longrightarrow> i < length f \<Longrightarrow> (i, writes f ws ! i) \<in> set ws"
proof (induction ws arbitrary: f)
  case (Cons w ws)
  obtain j v where w: "w = (j, v)" by (cases w)
  show ?case
  proof (cases "i \<in> fst ` set ws")
    case True
    with Cons show ?thesis by (simp add: w)
  next
    case False
    with Cons w have "i = j" by auto
    with False Cons.prems(2) show ?thesis using writes_nth [of i "f[j := v]" ws] by (simp add: w)
  qed
qed simp

text \<open>Writing marked values over a region marks that region.\<close>

lemma cells_writes:
  assumes "length f = w * w" and "\<And>i v. (i, v) \<in> set ws \<Longrightarrow> marked v"
    and "fst ` set ws = idx w ` R" and "R \<subseteq> grid w"
  shows "cells w (writes f ws) = cells w f \<union> R"
proof -
  have "marked (writes f ws ! idx w p) \<longleftrightarrow> marked (f ! idx w p) \<or> p \<in> R" if "p \<in> grid w" for p
  proof (cases "p \<in> R")
    case True
    then have "idx w p \<in> fst ` set ws" using assms(3) by simp
    with idx_less [OF that] assms(1,2) True writes_in [of "idx w p" ws f] show ?thesis by auto
  next
    case False
    then have "idx w p \<notin> fst ` set ws" using assms(3,4) idx_inj [OF that] by auto
    with False idx_less [OF that] assms(1) show ?thesis by (simp add: writes_nth)
  qed
  with assms(4) show ?thesis by (auto simp: cells_def)
qed

text \<open>The same for writes that are listed by position.\<close>

definition at :: "nat \<Rightarrow> ((nat \<times> nat) \<times> u8) list \<Rightarrow> (nat \<times> u8) list" where
  "at w pvs = map (\<lambda>(p, v). (idx w p, v)) pvs"

lemma at_simps [simp]: "at w [] = []" "at w (((y, x), v) # pvs) = (y * w + x, v) # at w pvs"
  "at w (pvs @ pvs') = at w pvs @ at w pvs'"
  by (simp_all add: at_def)

lemma at_map: "at w (map (\<lambda>k. ((r k, c k), v k)) ks) = map (\<lambda>k. (r k * w + c k, v k)) ks"
  by (simp add: at_def comp_def)

lemma at_concat: "at w (concat pvss) = concat (map (at w) pvss)"
  by (induction pvss) simp_all

lemma cells_at:
  assumes "length f = w * w" and "\<And>p v. (p, v) \<in> set pvs \<Longrightarrow> marked v \<and> p \<in> grid w"
  shows "cells w (writes f (at w pvs)) = cells w f \<union> fst ` set pvs"
  using assms by (intro cells_writes) (force simp: at_def)+

lemma ex_shift: "(\<exists>k < n. a = r + k) \<longleftrightarrow> r \<le> a \<and> a < r + (n :: nat)"
  by (metis le_Suc_ex nat_add_left_cancel_less le_add1)

lemma region_concat: "fst ` set (concat (map f ks)) = (\<Union>k \<in> set ks. fst ` set (f k))"
  by (simp add: image_UN)

lemma ex_shift2: "(\<exists>k. k < n \<and> a = r + k \<and> P) \<longleftrightarrow> r \<le> a \<and> a < r + (n :: nat) \<and> P"
  using ex_shift [of n a r] by auto

lemma region_block:
  "(\<Union>y \<in> {0..<m}. (\<lambda>x. (r + y, c + x)) ` {0..<n}) = {r..<r + (m :: nat)} \<times> {c..<c + (n :: nat)}" (is "?l = ?r")
proof
  show "?r \<subseteq> ?l"
  proof
    fix p assume "p \<in> ?r"
    then have "p = (r + (fst p - r), c + (snd p - c))" "fst p - r < m" "snd p - c < n" by auto
    then show "p \<in> ?l" by (metis UN_I atLeastLessThan_iff imageI zero_le)
  qed
qed auto

lemma cells_block:
  assumes "length f = w * w" and "\<And>y x. y < m \<Longrightarrow> x < n \<Longrightarrow> marked (v y x)"
    and "r + m \<le> w" and "c + n \<le> w"
    and "\<And>y x. y < m \<Longrightarrow> x < n \<Longrightarrow> g y x = (r + y) * w + (c + x)"
  shows "cells w (writes f [(g y x, v y x). y \<leftarrow> [0..<m], x \<leftarrow> [0..<n]]) = cells w f \<union> {r..<r + m} \<times> {c..<c + n}"
proof -
  let ?pvs = "[((r + y, c + x), v y x). y \<leftarrow> [0..<m], x \<leftarrow> [0..<n]]"
  have "[(g y x, v y x). y \<leftarrow> [0..<m], x \<leftarrow> [0..<n]] = at w ?pvs"
    using assms(5) by (auto simp: at_concat at_map comp_def intro!: arg_cong [of _ _ concat] map_cong)
  moreover have "fst ` set ?pvs = {r..<r + m} \<times> {c..<c + n}"
    unfolding region_concat by (simp add: image_image region_block)
  moreover have "cells w (writes f (at w ?pvs)) = cells w f \<union> fst ` set ?pvs"
    using assms(1-4) by (intro cells_at) (auto simp: grid_def)
  ultimately show ?thesis by simp
qed

lemma cells_column:
  assumes "length f = w * w" and "\<And>y. y < m \<Longrightarrow> marked (v y)" and "r + m \<le> w" and "c < w"
    and "\<And>y. y < m \<Longrightarrow> g y = (r + y) * w + c"
  shows "cells w (writes f (map (\<lambda>y. (g y, v y)) [0..<m])) = cells w f \<union> {r..<r + m} \<times> {c}"
proof -
  have "map (\<lambda>y. (g y, v y)) [0..<m] = [(g y, v y). y \<leftarrow> [0..<m], x \<leftarrow> [0..<1]]"
    by (simp add: concat_map_singleton)
  moreover have "cells w (writes f [(g y, v y). y \<leftarrow> [0..<m], x \<leftarrow> [0..<1]]) = cells w f \<union> {r..<r + m} \<times> {c..<c + 1}"
    using assms by (intro cells_block) auto
  ultimately show ?thesis by simp
qed

lemma cells_fill:
  assumes "length f = w * w" and "marked v" and "i = y * w + x" and "y < w" and "x + n \<le> w"
  shows "cells w (fill f i v n) = cells w f \<union> {y} \<times> {x..<x + n}"
proof -
  have "cells w (writes f [(i + k, v). y \<leftarrow> [0..<1], k \<leftarrow> [0..<n]]) = cells w f \<union> {y..<y + 1} \<times> {x..<x + n}"
    using assms by (intro cells_block) auto
  then show ?thesis by (simp add: fill_writes)
qed

subsubsection \<open>The parts of the frame\<close>

lemma cells_finder:
  assumes "length f = w * w" and "ox + 7 \<le> w" and "oy + 7 \<le> w"
  shows "cells w (putFinderPattern f w ox oy) = cells w f \<union> {oy..<oy + 7} \<times> {ox..<ox + 7}"
  unfolding putFinderPattern_def
  using assms by (intro cells_block) (auto intro!: marked_finder simp: algebra_simps)

lemma cells_finders:
  assumes "length f = w * w" and "21 \<le> w"
  shows "cells w (frame_finders f w) = cells w f \<union> {0..<7} \<times> {0..<7} \<union> {0..<7} \<times> {w - 7..<w} \<union> {w - 7..<w} \<times> {0..<7}"
  using assms by (simp add: frame_finders_def cells_finder)

lemma UN_pairs:
  "(\<Union>y \<in> A. fst ` set [(f y, u y), (g y, u' y)]) = f ` A \<union> g ` A"
  "(\<Union>y \<in> A. fst ` set [(f y, u y), (g y, u' y), (h y, u'' y)]) = f ` A \<union> g ` A \<union> h ` A"
  by auto

lemma image_shift: "(\<lambda>y. r + y) ` {0..<n} = {r..<r + (n :: nat)}"
  by (simp add: add.commute)

lemma image_col: "(\<lambda>y. (r + y, c)) ` {0..<n} = {r..<r + (n :: nat)} \<times> {c}"
  unfolding image_shift [symmetric] by blast

lemma image_row: "(\<lambda>x. (c, r + x)) ` {0..<n} = {c} \<times> {r..<r + (n :: nat)}"
  unfolding image_shift [symmetric] by blast

lemma cells_separators:
  assumes "length f = w * w" and "21 \<le> w"
  shows "cells w (frame_separators f w) = cells w f \<union> {0..<7} \<times> {7, w - 8} \<union> {w - 7..<w} \<times> {7}
     \<union> {7} \<times> {0..<8} \<union> {7} \<times> {w - 8..<w} \<union> {w - 8} \<times> {0..<8}"
proof -
  let ?pvs = "concat (map (\<lambda>y. [((y, 7), 0xc0), ((y, w - 8), 0xc0), ((w - 7 + y, 7), 0xc0 :: u8)]) [0..<7])"
  have eq: "concat (map (\<lambda>y. [(y * w + 7, 0xc0), (y * w + w - 8, 0xc0), (w * (w - 7) + y * w + 7, 0xc0)]) [0..<7]) = at w ?pvs"
    using assms(2) by (simp add: at_concat comp_def algebra_simps del: upt_rec_numeral)
  have reg: "fst ` set ?pvs = {0..<7} \<times> {7, w - 8} \<union> {w - 7..<w} \<times> {7}"
    unfolding region_concat UN_pairs set_upt image_col using assms(2) by auto
  have "cells w (writes f (at w ?pvs)) = cells w f \<union> fst ` set ?pvs"
    using assms by (intro cells_at) (auto simp: grid_def simp del: upt_rec_numeral)
  moreover have "cells w (fill g (w * 7) 0xc0 8) = cells w g \<union> {7} \<times> {0..<0 + 8}"
    "cells w (fill g (w * 8 - 8) 0xc0 8) = cells w g \<union> {7} \<times> {w - 8..<w - 8 + 8}"
    "cells w (fill g (w * (w - 8)) 0xc0 8) = cells w g \<union> {w - 8} \<times> {0..<0 + 8}" if "length g = w * w" for g
    using assms(2) that by (intro cells_fill; simp)+
  ultimately show ?thesis
    using assms unfolding frame_separators_def Let_def foldl_writes eq reg by (simp add: Un_assoc)
qed

lemma cells_format:
  assumes "length f = w * w" and "21 \<le> w"
  shows "cells w (frame_format_area f w) = cells w f \<union> {8} \<times> {0..<9} \<union> {8} \<times> {w - 8..<w}
     \<union> {0..<8} \<times> {8} \<union> {w - 7..<w} \<times> {8}"
proof -
  have "cells w (fill g (w * 8) 0x84 9) = cells w g \<union> {8} \<times> {0..<0 + 9}"
    "cells w (fill g (w * 9 - 8) 0x84 8) = cells w g \<union> {8} \<times> {w - 8..<w - 8 + 8}" if "length g = w * w" for g
    using assms(2) that by (intro cells_fill; simp)+
  moreover have "cells w (writes g [(8 + y * w, 0x84). y \<leftarrow> [0..<8]]) = cells w g \<union> {0..<0 + 8} \<times> {8}"
    "cells w (writes g [(w * (w - 7) + 8 + y * w, 0x84). y \<leftarrow> [0..<7]]) = cells w g \<union> {w - 7..<w - 7 + 7} \<times> {8}"
    if "length g = w * w" for g
    using assms(2) that by (intro cells_column; simp add: distrib_right [symmetric] mult.commute [of w "w - 7"])+
  ultimately show ?thesis
    using assms unfolding frame_format_area_def Let_def by simp
qed

lemma cells_timing:
  assumes "length f = w * w" and "21 \<le> w"
  shows "cells w (frame_timing f w) = cells w f \<union> {6} \<times> {8..<w - 8} \<union> {8..<w - 8} \<times> {6}"
proof -
  let ?v = "\<lambda>k. 0x90 OR (of_nat (Suc k) AND 1) :: u8"
  let ?pvs = "concat (map (\<lambda>k. [((6, 8 + k), ?v k), ((8 + k, 6), ?v k)]) [0..<w - 16])"
  have "w - 15 = Suc (w - 16)" using assms(2) by simp
  then have upt: "[1..<w - 15] = map Suc [0..<w - 16]" by (simp only: One_nat_def map_Suc_upt)
  have eq: "concat (map (\<lambda>x. [(w * 6 + 8 + (x - 1), 0x90 OR (of_nat x AND 1)),
      (w * 8 + 6 + (x - 1) * w, 0x90 OR (of_nat x AND 1))]) [1..<w - 15]) = at w ?pvs"
    unfolding upt by (simp add: at_concat comp_def algebra_simps)
  have "8 + (w - 16) = w - 8" using assms(2) by simp
  then have reg: "fst ` set ?pvs = {6} \<times> {8..<w - 8} \<union> {8..<w - 8} \<times> {6}"
    unfolding region_concat UN_pairs set_upt image_col image_row by (simp only:)
  have "cells w (writes f (at w ?pvs)) = cells w f \<union> fst ` set ?pvs"
    using assms by (intro cells_at) (auto simp: grid_def)
  then show ?thesis unfolding frame_timing_def foldl_writes eq reg by (simp only: Un_assoc)
qed

lemma cells_marker:
  assumes "length f = w * w" and "2 \<le> y" "y + 2 < w" and "2 \<le> x" "x + 2 < w"
  shows "cells w (QRspec_putAlignmentMarker f w (int x) (int y)) = cells w f \<union> {y - 2..<y + 3} \<times> {x - 2..<x + 3}"
proof -
  obtain y' x' where yx: "y = y' + 2" "x = x' + 2" using assms(2,4) by (metis le_add_diff_inverse2)
  have "nat ((int y - 2) * int w + int x - 2 + int (j * w + i)) = (y - 2 + j) * w + (x - 2 + i)" for j i
    by (simp add: yx nat_eq_iff algebra_simps)
  moreover have "cells w (writes f [((y - 2 + j) * w + (x - 2 + i), alignment_finder ! (5 * j + i)).
      j \<leftarrow> [0..<5], i \<leftarrow> [0..<5]]) = cells w f \<union> {y - 2..<y - 2 + 5} \<times> {x - 2..<x - 2 + 5}"
    using assms by (intro cells_block marked_alignment) simp_all
  ultimately show ?thesis
    unfolding QRspec_putAlignmentMarker_def Let_def by (simp only: yx) (simp add: add.commute del: upt_rec_numeral)
qed

lemma cells_version:
  assumes "length f = w * w" and "21 \<le> w"
  shows "cells w (frame_version_info f w i) = cells w f \<union> {w - 11..<w - 8} \<times> {0..<6} \<union> {0..<6} \<times> {w - 11..<w - 8}"
proof -
  let ?v = "\<lambda>k. 0x88 OR ucast (drop_bit k i AND 1) :: u8"
  have "cells w (writes g [(w - 11 + y * w + x, ?v (3 * y + x)). y \<leftarrow> [0..<6], x \<leftarrow> [0..<3]])
      = cells w g \<union> {0..<0 + 6} \<times> {w - 11..<w - 11 + 3}" if "length g = w * w" for g
    using assms(2) that by (intro cells_block) simp_all
  moreover have "cells w (writes f (at w [((w - 11 + y, x), ?v (3 * x + y)). x \<leftarrow> [0..<6], y \<leftarrow> [0..<3]]))
     = cells w f \<union> fst ` set [((w - 11 + y, x), ?v (3 * x + y)). x \<leftarrow> [0..<6], y \<leftarrow> [0..<3]]"
    using assms by (intro cells_at) (auto simp: grid_def simp del: upt_rec_numeral)
  moreover have "fst ` set [((w - 11 + y, x), ?v (3 * x + y)). x \<leftarrow> [0..<6], y \<leftarrow> [0..<3]] = {w - 11..<w - 11 + 3} \<times> {0..<6}"
    unfolding region_concat set_map image_image fst_conv set_upt image_col by auto
  moreover have "at w [((w - 11 + y, x), ?v (3 * x + y)). x \<leftarrow> [0..<6], y \<leftarrow> [0..<3]]
     = [(w * (w - 11) + w * y + x, ?v (3 * x + y)). x \<leftarrow> [0..<6], y \<leftarrow> [0..<3]]"
    by (simp add: at_concat at_map comp_def algebra_simps del: upt_rec_numeral)
  ultimately show ?thesis
    using assms unfolding frame_version_info_def Let_def by (simp del: upt_rec_numeral)
qed

subsubsection \<open>Alignment patterns\<close>

text \<open>
  The coordinates of the alignment patterns of a version, without the first one, which is 6 for
  every version: \<open>n = v div 7 + 1\<close> positions, the first at \<open>align_first v\<close>, the last at \<open>w - 7\<close>, at
  equal distances.
\<close>

definition align_first :: "int \<Rightarrow> nat" where
  "align_first v = nat (fst (alignmentPattern ! nat v))"

definition align_dist :: "int \<Rightarrow> nat" where
  "align_dist v = (if v < 7 then 16 else nat (snd (alignmentPattern ! nat v)) - align_first v)"

definition align_pos :: "int \<Rightarrow> nat \<Rightarrow> nat" where
  "align_pos v k = align_first v + k * align_dist v"

lemma align_all:
  "list_all (\<lambda>v. v < 2 \<or>
      16 \<le> align_dist v \<and> 18 \<le> align_first v \<and> align_pos v (nat (v div 7)) + 7 = QRspec_getWidth v \<and>
      fst (alignmentPattern ! nat v) = int (align_first v) \<and>
      (if v < 7 then snd (alignmentPattern ! nat v) < int (align_first v)
       else snd (alignmentPattern ! nat v) - fst (alignmentPattern ! nat v) = int (align_dist v))) versions"
  unfolding versions_unfold
  by (simp add: align_dist_def align_first_def align_pos_def alignmentPattern_def qrspec_tables)

lemma align_facts:
  assumes "2 \<le> v" and "v \<le> 40"
  shows "16 \<le> align_dist v" and "18 \<le> align_first v" and "align_pos v (nat (v div 7)) + 7 = QRspec_getWidth v"
    and "fst (alignmentPattern ! nat v) = int (align_first v)"
    and "v < 7 \<Longrightarrow> snd (alignmentPattern ! nat v) < int (align_first v)"
    and "7 \<le> v \<Longrightarrow> snd (alignmentPattern ! nat v) - fst (alignmentPattern ! nat v) = int (align_dist v)"
  using all_versions [OF align_all, of v] assms by (auto split: if_splits)

definition marker :: "nat \<Rightarrow> nat \<Rightarrow> (nat \<times> nat) set" where
  "marker y x = {y - 2..<y + 3} \<times> {x - 2..<x + 3}"

definition align_cells :: "int \<Rightarrow> (nat \<times> nat) set" where
  "align_cells v = (if v < 2 then {} else
     (\<Union>k < nat (v div 7). marker 6 (align_pos v k) \<union> marker (align_pos v k) 6) \<union>
     (\<Union>j \<le> nat (v div 7). \<Union>k \<le> nat (v div 7). marker (align_pos v j) (align_pos v k)))"

lemma align_pos_bounds:
  assumes "2 \<le> v" and "v \<le> 40" and "k \<le> nat (v div 7)"
  shows "18 \<le> align_pos v k" and "align_pos v k + 7 \<le> QRspec_getWidth v"
proof -
  show "18 \<le> align_pos v k" using align_facts(2) [OF assms(1,2)] by (simp add: align_pos_def)
  have "align_pos v k \<le> align_pos v (nat (v div 7))" using assms(3) by (simp add: align_pos_def)
  with align_facts(3) [OF assms(1,2)] show "align_pos v k + 7 \<le> QRspec_getWidth v" by simp
qed

lemma cells_foldl_markers:
  assumes "length f = w * w" and "\<And>f k. length f = w * w \<Longrightarrow> k \<in> set ks \<Longrightarrow> cells w (g f k) = cells w f \<union> R k"
    and "\<And>f k. length (g f k) = length f"
  shows "cells w (foldl g f ks) = cells w f \<union> (\<Union>k \<in> set ks. R k)"
  using assms(1,2)
proof (induction ks arbitrary: f)
  case (Cons k ks)
  then have "length (g f k) = w * w" by (simp add: assms(3))
  with Cons show ?case by (simp add: Un_assoc)
qed simp

lemma cells_align:
  assumes "1 \<le> v" and "v \<le> 40" and "w = QRspec_getWidth v" and "length f = w * w"
  shows "cells w (QRspec_putAlignmentPattern v f w) = cells w f \<union> align_cells v"
proof (cases "v < 2")
  case True
  then show ?thesis by (simp add: QRspec_putAlignmentPattern_def align_cells_def)
next
  case False
  then have v: "2 \<le> v" "v \<le> 40" using assms(2) by simp_all
  note facts = align_facts [OF v]
  note bounds = align_pos_bounds [OF v]
  have marker: "cells w (QRspec_putAlignmentMarker g w (int x) (int y)) = cells w g \<union> marker y x"
    if "length g = w * w" "2 \<le> y" "y + 2 < w" "2 \<le> x" "x + 2 < w" for g y x
    using cells_marker [OF that] by (simp add: marker_def)
  show ?thesis
  proof (cases "v < 7")
    case True
    have "nat (v div 7) = 0" using True v by simp
    then have c: "align_cells v = marker (align_first v) (align_first v)"
      using False by (simp add: align_cells_def align_pos_def)
    have "2 * 2 - 3 = (1 :: int)" by simp
    with True False facts(4,5) marker [of f "align_first v" "align_first v"] bounds [of 0] assms(3,4)
    show ?thesis by (simp add: QRspec_putAlignmentPattern_def Let_def c align_pos_def)
  next
    case F7: False
    define n where "n = nat (v div 7)"
    have n: "1 \<le> n" using F7 by (simp add: n_def)
    have d: "snd (alignmentPattern ! nat v) - int (align_first v) = int (align_dist v)"
      using facts(4,6) F7 by simp
    have dpos: "\<not> int (align_dist v) < 0" "0 < int (align_dist v)" using facts(1) by simp_all
    have "w = align_first v + n * align_dist v + 7" using facts(3) assms(3) by (simp add: align_pos_def n_def)
    then have "int w - int (align_first v) = int n * int (align_dist v) + 7" by simp
    then have "(int w - int (align_first v)) div int (align_dist v) = int n"
      using facts(1) by (simp add: div_add1_eq div_pos_pos_trivial)
    then have w: "(int w - int (align_first v)) div int (align_dist v) + 2 = int n + 2" by simp
    have pos: "int (align_first v) + int k * int (align_dist v) = int (align_pos v k)" for k
      by (simp add: align_pos_def)
    let ?ax = "foldl (\<lambda>f k. QRspec_putAlignmentMarker
        (QRspec_putAlignmentMarker f w 6 (int (align_pos v k))) w (int (align_pos v k)) 6) f [0..<n]"
    have lax: "length ?ax = w * w" using assms(4) by (simp add: length_foldl)
    have ax: "cells w ?ax = cells w f \<union> (\<Union>k \<in> set [0..<n]. marker (align_pos v k) 6 \<union> marker 6 (align_pos v k))"
    proof (rule cells_foldl_markers [OF assms(4)])
      fix g :: frame and k assume "length g = w * w" "k \<in> set [0..<n]"
      with bounds [of k] assms(3) marker [of g "align_pos v k" 6] 
        marker [of "QRspec_putAlignmentMarker g w 6 (int (align_pos v k))" 6 "align_pos v k"]
      show "cells w (QRspec_putAlignmentMarker (QRspec_putAlignmentMarker g w 6 (int (align_pos v k))) w (int (align_pos v k)) 6)
        = cells w g \<union> (marker (align_pos v k) 6 \<union> marker 6 (align_pos v k))"
        by (simp add: n_def Un_assoc)
    qed simp
    have gr: "cells w (foldl (\<lambda>f (j, k). QRspec_putAlignmentMarker f w (int (align_pos v k)) (int (align_pos v j)))
        ?ax [(j, k). j \<leftarrow> [0..<Suc n], k \<leftarrow> [0..<Suc n]]) = cells w ?ax \<union>
        (\<Union>jk \<in> set [(j, k). j \<leftarrow> [0..<Suc n], k \<leftarrow> [0..<Suc n]]. case jk of (j, k) \<Rightarrow> marker (align_pos v j) (align_pos v k))"
    proof (rule cells_foldl_markers [OF lax])
      fix g :: frame and jk assume "length g = w * w" "jk \<in> set [(j, k). j \<leftarrow> [0..<Suc n], k \<leftarrow> [0..<Suc n]]"
      then obtain j k where jk: "jk = (j, k)" "j \<le> n" "k \<le> n" "length g = w * w" by (auto simp del: upt_Suc)
      then show "cells w (case jk of (j, k) \<Rightarrow> QRspec_putAlignmentMarker g w (int (align_pos v k)) (int (align_pos v j)))
        = cells w g \<union> (case jk of (j, k) \<Rightarrow> marker (align_pos v j) (align_pos v k))"
        using bounds [of j] bounds [of k] assms(3) marker [of g "align_pos v j" "align_pos v k"] by (simp add: n_def)
    qed (simp add: split_beta)
    have "0 < int n * (int n + 4)" using n by simp
    then have "\<not> (int n + 2) * (int n + 2) - 3 = 1" by (simp add: algebra_simps)
    then have "QRspec_putAlignmentPattern v f w = foldl (\<lambda>f (j, k). QRspec_putAlignmentMarker f w (int (align_pos v k)) (int (align_pos v j)))
        ?ax [(j, k). j \<leftarrow> [0..<Suc n], k \<leftarrow> [0..<Suc n]]"
      unfolding QRspec_putAlignmentPattern_def Let_def
      using False dpos by (simp add: facts(4) d w pos split_beta nat_add_distrib del: upt_Suc)
    then have "cells w (QRspec_putAlignmentPattern v f w) = cells w f \<union>
        (\<Union>k \<in> {..<n}. marker 6 (align_pos v k) \<union> marker (align_pos v k) 6) \<union>
        (\<Union>j \<le> n. \<Union>k \<le> n. marker (align_pos v j) (align_pos v k))"
      by (simp only: ax gr) (auto simp: lessThan_Suc_atMost [symmetric] atLeast0LessThan simp del: upt_Suc)
    then show ?thesis using False by (simp add: align_cells_def n_def Un_assoc)
  qed
qed

subsubsection \<open>All function patterns\<close>

definition version_cells :: "int \<Rightarrow> nat \<Rightarrow> (nat \<times> nat) set" where
  "version_cells v w = (if v \<ge> 7 then {w - 11..<w - 8} \<times> {0..<6} \<union> {0..<6} \<times> {w - 11..<w - 8} else {})"

definition func_cells :: "int \<Rightarrow> (nat \<times> nat) set" where
  "func_cells v = (let w = QRspec_getWidth v in
     {0..<9} \<times> {0..<9} \<union> {0..<9} \<times> {w - 8..<w} \<union> {w - 8..<w} \<times> {0..<9} \<union>
     {6} \<times> {9..<w - 8} \<union> {9..<w - 8} \<times> {6} \<union> align_cells v \<union> version_cells v w)"

lemma width_21: "1 \<le> v \<Longrightarrow> v \<le> 40 \<Longrightarrow> 21 \<le> QRspec_getWidth v"
  using capacity_modules(2) [of v] by simp

lemma corner_parts:
  "t1 \<subseteq> c3 \<Longrightarrow> u1 \<subseteq> c1 \<Longrightarrow>
     a1 \<union> a2 \<union> a3 \<union> (s1 \<union> s2) \<union> b1 \<union> b2 \<union> b3 \<union> b4 \<union> c1 \<union> c2 \<union> c3 \<union> c4 \<union> (t1 \<union> t) \<union> (u1 \<union> u) \<union> p =
     (a1 \<union> s1 \<union> b2 \<union> c1 \<union> c3) \<union> (a2 \<union> s2 \<union> b3 \<union> c2) \<union> (a3 \<union> b1 \<union> b4 \<union> c4 \<union> p) \<union> t \<union> u"
  by blast

lemma cells_frame_template:
  assumes "1 \<le> v" and "v \<le> 40"
  shows "cells (QRspec_getWidth v) (frame_template v) = func_cells v"
proof -
  define w where "w = QRspec_getWidth v"
  have w: "21 \<le> w" using width_21 [OF assms] by (simp add: w_def)
  define f0 where "f0 = frame_timing (frame_format_area (frame_separators (frame_finders (replicate (w * w) 0) w) w) w) w"
  define f1 where "f1 = QRspec_putAlignmentPattern v f0 w"
  define f2 where "f2 = (if v \<ge> 7 then frame_version_info f1 w (QRspec_getVersionPattern v) else f1)"
  have l: "length f0 = w * w" "length f1 = w * w" "length f2 = w * w" by (simp_all add: f0_def f1_def f2_def)
  have "cells w (replicate (w * w) 0) = {}" using idx_less by (auto simp: cells_def)
  then have f0: "cells w f0 = {0..<7} \<times> {0..<7} \<union> {0..<7} \<times> {w - 7..<w} \<union> {w - 7..<w} \<times> {0..<7}
    \<union> {0..<7} \<times> {7, w - 8} \<union> {w - 7..<w} \<times> {7} \<union> {7} \<times> {0..<8} \<union> {7} \<times> {w - 8..<w} \<union> {w - 8} \<times> {0..<8}
    \<union> {8} \<times> {0..<9} \<union> {8} \<times> {w - 8..<w} \<union> {0..<8} \<times> {8} \<union> {w - 7..<w} \<times> {8} \<union> {6} \<times> {8..<w - 8} \<union> {8..<w - 8} \<times> {6}"
    unfolding f0_def using w
    by (simp only: cells_timing cells_format cells_separators cells_finders length_stages length_replicate Un_empty_left)
  have f1: "cells w f1 = cells w f0 \<union> align_cells v" unfolding f1_def by (rule cells_align [OF assms w_def l(1)])
  have f2: "cells w f2 = cells w f1 \<union> version_cells v w"
    using cells_version [OF l(2) w] by (simp add: f2_def version_cells_def Un_assoc)
  have "frame_template v = writes f2 (at w [((w - 8, 8), 0x81)])"
    by (simp add: frame_template_def Let_def f2_def f1_def f0_def w_def QRspec_getWidth_def mult.commute)
  also have "cells w \<dots> = cells w f2 \<union> {(w - 8, 8)}"
    using cells_at [OF l(3), of "[((w - 8, 8), 0x81)]"] w by (simp add: grid_def)
  finally have "cells w (frame_template v) = cells w f0 \<union> {(w - 8, 8)} \<union> align_cells v \<union> version_cells v w"
    unfolding f2 f1 by auto
  moreover have "cells w f0 \<union> {(w - 8, 8)} = {0..<9} \<times> {0..<9} \<union> {0..<9} \<times> {w - 8..<w} \<union> {w - 8..<w} \<times> {0..<9} \<union>
     {6} \<times> {9..<w - 8} \<union> {9..<w - 8} \<times> {6}"
  proof -
    have tl: "{0..<9} \<times> {0..<9} = {0..<7} \<times> {0..<7} \<union> {0..<7} \<times> {7} \<union> {7} \<times> {0..<8} \<union> {8} \<times> {0..<9} \<union> {0..<8 :: nat} \<times> {8 :: nat}"
      by auto
    have tr: "{0..<9 :: nat} \<times> {w - 8..<w} = {0..<7} \<times> {w - 7..<w} \<union> {0..<7} \<times> {w - 8} \<union> {7} \<times> {w - 8..<w} \<union> {8} \<times> {w - 8..<w}"
      using w by auto
    have bl: "{w - 8..<w} \<times> {0..<9 :: nat} = {w - 7..<w} \<times> {0..<7} \<union> {w - 7..<w} \<times> {7} \<union> {w - 8} \<times> {0..<8} \<union> {w - 7..<w} \<times> {8} \<union> {(w - 8, 8)}"
      using w by auto
    have t: "{8..<w - 8} = {8} \<union> {9..<w - 8}" using w by auto
    have s: "{0..<7 :: nat} \<times> {7, w - 8} = {0..<7} \<times> {7} \<union> {0..<7} \<times> {w - 8}" by blast
    show ?thesis
      unfolding f0 tl tr bl t s Sigma_Un_distrib1 Sigma_Un_distrib2 by (rule corner_parts) auto
  qed
  ultimately show ?thesis by (simp only: func_cells_def w_def Let_def)
qed

subsubsection \<open>The number of data modules\<close>

definition band :: "int \<Rightarrow> nat \<Rightarrow> nat set" where
  "band v m = (\<Union>k < m. {align_pos v k - 2..<align_pos v k + 3})"

lemma band_bounds:
  assumes "2 \<le> v" and "v \<le> 40" and "b \<in> band v m"
  shows "m \<le> Suc (nat (v div 7)) \<Longrightarrow> 16 \<le> b \<and> b + 5 \<le> QRspec_getWidth v"
    and "m \<le> nat (v div 7) \<Longrightarrow> b + 20 < QRspec_getWidth v"
proof -
  from assms(3) obtain k where k: "k < m" "align_pos v k - 2 \<le> b" "b < align_pos v k + 3" by (auto simp: band_def)
  show "16 \<le> b \<and> b + 5 \<le> QRspec_getWidth v" if "m \<le> Suc (nat (v div 7))"
    using align_pos_bounds [OF assms(1,2), of k] k that by simp
  show "b + 20 < QRspec_getWidth v" if "m \<le> nat (v div 7)"
  proof -
    have "align_pos v (Suc k) = align_pos v k + align_dist v" by (simp add: align_pos_def)
    with align_pos_bounds(2) [OF assms(1,2), of "Suc k"] align_facts(1) [OF assms(1,2)] k that show ?thesis by simp
  qed
qed

lemma finite_band [simp]: "finite (band v m)"
  by (simp add: band_def)

lemma card_band:
  assumes "2 \<le> v" and "v \<le> 40"
  shows "card (band v m) = 5 * m"
proof -
  have gap: "align_pos v j + 16 \<le> align_pos v k" if "j < k" for j k
  proof -
    have "Suc j * align_dist v \<le> k * align_dist v" using that by (intro mult_le_mono1) simp
    with align_facts(1) [OF assms] show ?thesis by (simp add: align_pos_def)
  qed
  have "card (band v m) = (\<Sum>k < m. card {align_pos v k - 2..<align_pos v k + 3})"
    unfolding band_def
  proof (rule card_UN_disjoint)
    show "\<forall>j \<in> {..<m}. \<forall>k \<in> {..<m}. j \<noteq> k \<longrightarrow>
        {align_pos v j - 2..<align_pos v j + 3} \<inter> {align_pos v k - 2..<align_pos v k + 3} = {}"
    proof (intro ballI impI)
      fix j k :: nat assume "j \<noteq> k"
      then show "{align_pos v j - 2..<align_pos v j + 3} \<inter> {align_pos v k - 2..<align_pos v k + 3} = {}"
        using gap [of j k] gap [of k j] by (cases "j < k") auto
    qed
  qed simp_all
  also have "\<dots> = (\<Sum>k < m. 5)" using align_facts(2) [OF assms] by (intro sum.cong) (simp_all add: align_pos_def)
  finally show ?thesis by simp
qed

lemma align_cells_band:
  assumes "2 \<le> v" and "v \<le> 40"
  defines "n \<equiv> nat (v div 7)"
  shows "align_cells v = {4..<9} \<times> band v n \<union> band v n \<times> {4..<9} \<union> band v (Suc n) \<times> band v (Suc n)"
  using assms(1) by (auto simp: align_cells_def band_def marker_def n_def lessThan_Suc_atMost)

lemma absorb_parts:
  "P \<subseteq> T \<Longrightarrow> Q \<subseteq> U \<Longrightarrow>
     A \<union> B \<union> C \<union> T \<union> U \<union> (R \<union> P \<union> (S \<union> Q) \<union> G) \<union> V = A \<union> B \<union> C \<union> T \<union> U \<union> R \<union> S \<union> G \<union> V"
  by blast

lemma func_cells_split:
  assumes "2 \<le> v" and "v \<le> 40"
  defines "n \<equiv> nat (v div 7)" and "w \<equiv> QRspec_getWidth v"
  shows "func_cells v = {0..<9} \<times> {0..<9} \<union> {0..<9} \<times> {w - 8..<w} \<union> {w - 8..<w} \<times> {0..<9} \<union>
     {6} \<times> {9..<w - 8} \<union> {9..<w - 8} \<times> {6} \<union> {4, 5, 7, 8} \<times> band v n \<union> band v n \<times> {4, 5, 7, 8} \<union>
     band v (Suc n) \<times> band v (Suc n) \<union> version_cells v w"
proof -
  have six: "{4..<9} = {4, 5, 7, 8} \<union> {6 :: nat}" by auto
  have "band v n \<subseteq> {9..<w - 8}"
    using band_bounds [OF assms(1,2), of _ n] by (fastforce simp: n_def w_def)
  then have "{6} \<times> band v n \<subseteq> {6} \<times> {9..<w - 8}" "band v n \<times> {6} \<subseteq> {9..<w - 8} \<times> {6}" by blast+
  then show ?thesis
    unfolding func_cells_def Let_def w_def [symmetric] align_cells_band [OF assms(1,2)] n_def [symmetric] six
      Sigma_Un_distrib1 Sigma_Un_distrib2 by (rule absorb_parts)
qed

lemma func_cells_1:
  assumes "v < 2"
  defines "w \<equiv> QRspec_getWidth v"
  shows "func_cells v = {0..<9} \<times> {0..<9} \<union> {0..<9} \<times> {w - 8..<w} \<union> {w - 8..<w} \<times> {0..<9} \<union>
     {6} \<times> {9..<w - 8} \<union> {9..<w - 8} \<times> {6}"
  using assms by (simp add: func_cells_def align_cells_def version_cells_def Let_def)

text \<open>The patterns that every version has.\<close>

lemma card_base:
  assumes "21 \<le> w"
  shows "card ({0..<9} \<times> {0..<9} \<union> {0..<9} \<times> {w - 8..<w} \<union> {w - 8..<w} \<times> {0..<9} \<union>
     {6} \<times> {9..<w - 8} \<union> {9..<w - 8} \<times> {6 :: nat}) = 191 + 2 * w"
proof -
  have "{0..<9 :: nat} \<times> {0..<9} \<inter> {0..<9} \<times> {w - 8..<w} = {}"
    "({0..<9} \<times> {0..<9} \<union> {0..<9} \<times> {w - 8..<w}) \<inter> {w - 8..<w} \<times> {0..<9} = {}"
    "({0..<9} \<times> {0..<9} \<union> {0..<9} \<times> {w - 8..<w} \<union> {w - 8..<w} \<times> {0..<9}) \<inter> {6} \<times> {9..<w - 8} = {}"
    "({0..<9} \<times> {0..<9} \<union> {0..<9} \<times> {w - 8..<w} \<union> {w - 8..<w} \<times> {0..<9} \<union> {6} \<times> {9..<w - 8}) \<inter> {9..<w - 8} \<times> {6} = {}"
    using assms by auto
  with assms show ?thesis by (simp add: card_Un_disjoint card_cartesian_product)
qed

lemma card_func_cells:
  assumes "1 \<le> v" and "v \<le> 40"
  shows "int (card (func_cells v)) + data_modules v = int (QRspec_getWidth v * QRspec_getWidth v)"
proof -
  define w where "w = QRspec_getWidth v"
  have w: "21 \<le> w" "int w = 17 + 4 * v" using width_21 [OF assms] capacity_modules(2) [OF assms] by (simp_all add: w_def)
  define base where "base = {0..<9} \<times> {0..<9} \<union> {0..<9} \<times> {w - 8..<w} \<union> {w - 8..<w} \<times> {0..<9} \<union>
     {6} \<times> {9..<w - 8} \<union> {9..<w - 8} \<times> {6 :: nat}"
  have base: "card base = 191 + 2 * w" "finite base" unfolding base_def card_base [OF w(1)] by simp_all
  show ?thesis
  proof (cases "v < 2")
    case True
    then have v: "v = 1" using assms by simp
    have "func_cells v = base" unfolding func_cells_1 [OF True] base_def w_def ..
    moreover have "data_modules v = 208" "w = 21" using w(2) by (simp_all add: v data_modules_def)
    ultimately show ?thesis unfolding w_def [symmetric] using base(1) by simp
  next
    case False
    then have v: "2 \<le> v" by simp
    define n where "n = nat (v div 7)"
    define m where "m = int n + 2"
    have bb: "16 \<le> b \<and> b + 5 \<le> w" if "b \<in> band v (Suc n)" for b
      using band_bounds(1) [OF v assms(2) that] by (simp add: n_def w_def)
    have bn: "16 \<le> b \<and> b + 20 < w" if "b \<in> band v n" for b
      using band_bounds [OF v assms(2) that] by (simp add: n_def w_def)
    let ?AR = "{4, 5, 7, 8} \<times> band v n" and ?AC = "band v n \<times> {4, 5, 7, 8}" and ?AG = "band v (Suc n) \<times> band v (Suc n)"
    have d: "base \<inter> ?AR = {}" "(base \<union> ?AR) \<inter> ?AC = {}" "(base \<union> ?AR \<union> ?AC) \<inter> ?AG = {}"
      "(base \<union> ?AR \<union> ?AC \<union> ?AG) \<inter> version_cells v w = {}"
      unfolding base_def version_cells_def using bb bn w(1) by (fastforce split: if_splits)+
    have "card (version_cells v w) = (if v \<ge> 7 then 36 else 0)"
    proof -
      have "{w - 11..<w - 8} \<times> {0..<6} \<inter> {0..<6} \<times> {w - 11..<w - 8} = {}" using w(1) by auto
      then show ?thesis using w(1) by (simp add: version_cells_def card_Un_disjoint card_cartesian_product)
    qed
    moreover have "func_cells v = base \<union> ?AR \<union> ?AC \<union> ?AG \<union> version_cells v w"
      unfolding func_cells_split [OF v assms(2)] base_def w_def n_def by simp
    moreover have "finite (version_cells v w)" by (simp add: version_cells_def)
    ultimately have "card (func_cells v) = 191 + 2 * w + 20 * n + 20 * n + 25 * (Suc n * Suc n) + (if v \<ge> 7 then 36 else 0)"
      using base d card_band [OF v assms(2)]
      by (simp only: card_Un_disjoint finite_Un finite_SigmaI finite_insert finite.emptyI finite_band card_cartesian_product)
        (simp add: algebra_simps)
    moreover have "data_modules v = (16 * v + 128) * v + 64 - ((25 * m - 10) * m - 55) - (if v \<ge> 7 then 36 else 0)"
      using v by (simp add: data_modules_def Let_def m_def n_def)
    ultimately show ?thesis
      unfolding w_def [symmetric] using w(2) by (cases "7 \<le> v") (simp_all add: m_def algebra_simps)
  qed
qed

end
