(* ===== verification/Fill_Correct.thy ===== *)
theory Fill_Correct
  imports Frame_Correct QRencode
begin

text \<open>
  The frame filler of \<^verbatim>\<open>qrencode.c\<close>. The walk of \<^verbatim>\<open>FrameFiller_next\<close> is an inductive relation, its path
  through a QR Code frame is written down and shown to meet every cell that is not part of a
  function pattern exactly once, and the modules that are put along it land on those cells in
  that order.
\<close>

subsection \<open>The walk of the frame filler\<close>

text \<open>The moving parts of a filler: column, row, direction and the column of the pair.\<close>

type_synonym fstate = "int \<times> int \<times> int \<times> int"

definition filler_at :: "nat \<Rightarrow> bool \<Rightarrow> frame \<Rightarrow> fstate \<Rightarrow> FrameFiller" where
  "filler_at w mqr f = (\<lambda>(x, y, d, b).
     \<lparr>ff_width = w, ff_frame = f, ff_x = x, ff_y = y, ff_dir = d, ff_bit = b, ff_mqr = mqr\<rparr>)"

lemma filler_at_sel [simp]: "ff_frame (filler_at w mqr f st) = f" "ff_width (filler_at w mqr f st) = w"
  "filler_at w mqr f st\<lparr>ff_frame := g\<rparr> = filler_at w mqr g st"
  by (cases st; simp add: filler_at_def)+

definition step :: "nat \<Rightarrow> bool \<Rightarrow> fstate \<Rightarrow> fstate" where
  "step w mqr = (\<lambda>(x, y, d, b).
     case (if b = 0 then (x - 1, y, 1) else (x + 1, y + d, b - 1)) of
       (x, y, b) \<Rightarrow>
         if d < 0 then
           if y < 0 then if \<not> mqr \<and> x - 2 = 6 then (5, 9, 1, b) else (x - 2, 0, 1, b)
           else (x, y, d, b)
         else
           if y = int w then
             if \<not> mqr \<and> x - 2 = 6 then (5, int w - 9, -1, b) else (x - 2, int w - 1, -1, b)
           else (x, y, d, b))"

lemma filler_move_step:
  "step w mqr (x, y, d, b) = (x', y', d', b') \<Longrightarrow>
     filler_move (filler_at w mqr f (x, y, d, b)) = (x', y', filler_at w mqr f (x, y, d', b'))"
  by (auto simp: step_def filler_move_def filler_at_def Let_def split: if_splits)

text \<open>The positions that are met from a state on, up to the end of the walk.\<close>

inductive walk :: "nat \<Rightarrow> bool \<Rightarrow> fstate \<Rightarrow> (nat \<times> nat) list \<Rightarrow> bool" for w mqr where
  walk_end: "step w mqr st = (x, y, d, b) \<Longrightarrow> x < 0 \<or> y < 0 \<Longrightarrow> walk w mqr st []"
| walk_step: "step w mqr st = (int x, int y, d, b) \<Longrightarrow> b = 0 \<or> b = 1 \<Longrightarrow> walk w mqr (int x, int y, d, b) ps \<Longrightarrow>
     walk w mqr st ((y, x) # ps)"

definition ready :: "fstate \<Rightarrow> bool" where
  "ready = (\<lambda>(x, y, d, b). b = 0 \<or> b = 1)"

lemma FrameFiller_next_walk:
  assumes "walk w mqr st ps" and "ready st"
  shows "case dropWhile (\<lambda>p. marked (f ! idx w p)) ps of
      [] \<Rightarrow> \<exists>g. FrameFiller_next (filler_at w mqr f st) = Some (None, g)
    | p # ps' \<Rightarrow> \<exists>st'. FrameFiller_next (filler_at w mqr f st) = Some (Some (idx w p), filler_at w mqr f st') \<and>
        walk w mqr st' ps' \<and> ready st'"
  using assms
proof (induction rule: walk.induct)
  case (walk_end st x y d b)
  obtain x0 y0 d0 b0 where st: "st = (x0, y0, d0, b0)" by (cases st)
  have "ff_bit (filler_at w mqr f st) \<noteq> -1" using walk_end.prems by (auto simp: st ready_def filler_at_def)
  with walk_end show ?case
    by (subst FrameFiller_next.simps) (simp add: st filler_move_step Let_def)
next
  case (walk_step st x y d b ps)
  obtain x0 y0 d0 b0 where st: "st = (x0, y0, d0, b0)" by (cases st)
  have bit: "ff_bit (filler_at w mqr f st) \<noteq> -1" using walk_step.prems by (auto simp: st ready_def filler_at_def)
  have up: "filler_at w mqr f (x0, y0, d, b)\<lparr>ff_x := int x, ff_y := int y\<rparr> = filler_at w mqr f (int x, int y, d, b)"
    "ff_frame (filler_at w mqr f (int x, int y, d, b)) = f" "ff_width (filler_at w mqr f (int x, int y, d, b)) = w"
    by (simp_all add: filler_at_def)
  have idx: "nat (int y * int w + int x) = idx w (y, x)" by (simp add: nat_add_distrib nat_mult_distrib)
  have nx: "FrameFiller_next (filler_at w mqr f st) =
      (if marked (f ! idx w (y, x)) then FrameFiller_next (filler_at w mqr f (int x, int y, d, b))
       else Some (Some (idx w (y, x)), filler_at w mqr f (int x, int y, d, b)))"
    using bit walk_step.hyps(1) by (subst FrameFiller_next.simps)
      (simp add: st filler_move_step Let_def up idx marked_and del: idx_simp)
  have ready: "ready (int x, int y, d, b)" using walk_step.hyps(2) by (simp add: ready_def)
  show ?case
  proof (cases "marked (f ! idx w (y, x))")
    case True
    with walk_step.IH [OF ready] show ?thesis by (simp only: nx if_True dropWhile.simps)
  next
    case False
    with walk_step.hyps(3) ready show ?thesis by (auto simp: nx simp del: idx_simp)
  qed
qed

subsubsection \<open>The path through the columns\<close>

text \<open>A pair of columns, \<open>x\<close> and \<open>x - 1\<close>, over the rows \<open>ys\<close>.\<close>

definition pair :: "nat \<Rightarrow> nat list \<Rightarrow> (nat \<times> nat) list" where
  "pair x ys = concat (map (\<lambda>y. [(y, x), (y, x - 1)]) ys)"

lemma pair_simps [simp]: "pair x [] = []" "pair x (y # ys) = (y, x) # (y, x - 1) # pair x ys"
  by (simp_all add: pair_def)

text \<open>
  The walk from the right cell of a pair, upwards from the row \<open>y\<close> or downwards from it, and on
  with the walk \<open>ps\<close> of the next pair.
\<close>

lemma walk_up:
  assumes "0 < x" and "walk w mqr (int x - 1, 0, -1, 1) ps"
  shows "walk w mqr (int x, int y, -1, 0) ((y, x - 1) # pair x (rev [0..<y]) @ ps)"
proof (induction y)
  case 0
  have "walk w mqr (int (x - 1), int 0, -1, 1) ps" using assms by (simp add: of_nat_diff)
  then have "walk w mqr (int x, 0, -1, 0) ((0, x - 1) # ps)"
    using assms(1) by (intro walk_step) (auto simp: step_def of_nat_diff)
  then show ?case by simp
next
  case (Suc y)
  have "walk w mqr (int x - 1, int (Suc y), -1, 1) ((y, x) # (y, x - 1) # pair x (rev [0..<y]) @ ps)"
    by (rule walk_step [OF _ _ Suc]) (simp_all add: step_def)
  then have left: "walk w mqr (int (x - 1), int (Suc y), -1, 1) (pair x (rev [0..<Suc y]) @ ps)"
    using assms(1) by (simp add: of_nat_diff)
  show ?case
    by (rule walk_step [OF _ _ left]) (use assms(1) in \<open>auto simp: step_def of_nat_diff\<close>)
qed

lemma walk_down:
  assumes "0 < x" and "n < w" and "walk w mqr (int x - 1, int w - 1, 1, 1) ps" and "y + n = w - 1"
  shows "walk w mqr (int x, int y, 1, 0) ((y, x - 1) # pair x [Suc y..<w] @ ps)"
  using assms(2,4)
proof (induction n arbitrary: y)
  case 0
  then have y: "y = w - 1" "[Suc y..<w] = []" "int y = int w - 1" by simp_all
  have "walk w mqr (int (x - 1), int y, 1, 1) ps" using assms y by (simp add: of_nat_diff)
  then have "walk w mqr (int x, int y, 1, 0) ((y, x - 1) # ps)"
    using assms(1) 0 by (intro walk_step) (auto simp: step_def of_nat_diff)
  then show ?case by (simp add: y)
next
  case (Suc n)
  then have upt: "[Suc y..<w] = Suc y # [Suc (Suc y)..<w]" by (simp add: upt_conv_Cons)
  have IH: "walk w mqr (int x, int (Suc y), 1, 0) ((Suc y, x - 1) # pair x [Suc (Suc y)..<w] @ ps)"
    using Suc by (intro Suc.IH) simp_all
  have "walk w mqr (int x - 1, int y, 1, 1) ((Suc y, x) # (Suc y, x - 1) # pair x [Suc (Suc y)..<w] @ ps)"
    by (rule walk_step [OF _ _ IH]) (use Suc.prems in \<open>auto simp: step_def\<close>)
  then have left: "walk w mqr (int (x - 1), int y, 1, 1) (pair x [Suc y..<w] @ ps)"
    using assms(1) by (simp add: upt of_nat_diff)
  show ?case
    by (rule walk_step [OF _ _ left]) (use assms(1) Suc.prems in \<open>auto simp: step_def of_nat_diff\<close>)
qed

lemma enter_up:
  assumes "0 < x" and "0 < w" and "step w mqr (int x - 1, 0, -1, 1) = (int x', int y', d', 0)"
    and "walk w mqr (int x', int y', d', 0) ps"
  shows "walk w mqr (int x, int w - 1, -1, 0) (tl (pair x (rev [0..<w])) @ (y', x') # ps)"
proof -
  obtain n where w: "w = Suc n" using assms(2) by (cases w) auto
  have "walk w mqr (int x - 1, 0, -1, 1) ((y', x') # ps)" by (rule walk_step [OF assms(3) _ assms(4)]) simp
  from walk_up [OF assms(1) this, of n] show ?thesis by (simp add: w)
qed

lemma enter_down:
  assumes "0 < x" and "s < w" and "step w mqr (int x - 1, int w - 1, 1, 1) = (int x', int y', d', 0)"
    and "walk w mqr (int x', int y', d', 0) ps"
  shows "walk w mqr (int x, int s, 1, 0) (tl (pair x [s..<w]) @ (y', x') # ps)"
proof -
  have "walk w mqr (int x - 1, int w - 1, 1, 1) ((y', x') # ps)" by (rule walk_step [OF assms(3) _ assms(4)]) simp
  from walk_down [OF assms(1) _ this, of "w - 1 - s" s] assms(2) show ?thesis
    by (simp add: upt_conv_Cons)
qed

definition right_pair :: "nat \<Rightarrow> nat \<Rightarrow> (nat \<times> nat) list" where
  "right_pair w k = pair (w - 1 - 2 * k) (if even k then rev [0..<w] else [0..<w])"

definition left_path :: "nat \<Rightarrow> (nat \<times> nat) list" where
  "left_path w = pair 5 [9..<w] @ pair 3 (rev [0..<w]) @ pair 1 [0..<w]"

definition qr_path :: "nat \<Rightarrow> (nat \<times> nat) list" where
  "qr_path w = concat (map (right_pair w) [0..<(w - 7) div 2]) @ left_path w"

lemma walk_left:
  assumes "21 \<le> w"
  shows "walk w False (5, 9, 1, 0) (tl (left_path w))"
proof -
  have e: "walk w False (0, int w - 1, 1, 1) []"
    by (rule walk_end [of _ _ _ "-1" "int w - 1" "-1" 0]) (simp_all add: step_def)
  have "walk w False (1, 0, 1, 0) ((0, 0) # pair 1 [1..<w])"
    using walk_down [of 1 "w - 1" w False "[]" 0] assms e by simp
  then have p1: "walk w False (int 1, int 0, 1, 0) (tl (pair 1 [0..<w]))"
    using assms by (simp add: upt_conv_Cons)
  have "walk w False (int 3, int w - 1, -1, 0) (tl (pair 3 (rev [0..<w])) @ (0, 1) # tl (pair 1 [0..<w]))"
    using assms by (intro enter_up [OF _ _ _ p1]) (simp_all add: step_def)
  then have p3: "walk w False (int 3, int (w - 1), -1, 0) (tl (pair 3 (rev [0..<w])) @ pair 1 [0..<w])"
    using assms by (simp add: upt_conv_Cons of_nat_diff)
  have "walk w False (int 5, int 9, 1, 0) (tl (pair 5 [9..<w]) @ (w - 1, 3) # tl (pair 3 (rev [0..<w])) @ pair 1 [0..<w])"
    using assms by (intro enter_down [OF _ _ _ p3]) (simp_all add: step_def of_nat_diff)
  moreover obtain n where "w = Suc n" using assms by (cases w) auto
  ultimately show ?thesis using assms by (simp add: left_path_def upt_conv_Cons del: upt_rec_numeral)
qed

text \<open>The state in which a pair of the right part is entered.\<close>

definition enter :: "nat \<Rightarrow> nat \<Rightarrow> fstate" where
  "enter w k = (int (w - 1 - 2 * k), if even k then int (w - 1) else 0, if even k then -1 else 1, 0)"

lemma right_pair_Cons:
  assumes "0 < w"
  shows "right_pair w k = ((if even k then w - 1 else 0), w - 1 - 2 * k) # tl (right_pair w k)"
proof -
  obtain n where "w = Suc n" using assms by (cases w) auto
  then show ?thesis by (cases "even k") (simp add: right_pair_def, simp add: right_pair_def upt_conv_Cons del: upt_Suc)
qed

lemma Cons_append_tl: "xs = h # tl xs \<Longrightarrow> xs @ ys = h # tl (xs @ ys)"
  by (cases xs) auto

lemma walk_pairs:
  assumes "0 < w" and "k \<le> K"
    and "\<And>j. k \<le> j \<Longrightarrow> j < K \<Longrightarrow> 2 \<le> w - 1 - 2 * j \<and> (mqr \<or> w - 1 - 2 * j \<noteq> 8)"
    and "rest = ((if even K then w - 1 else 0), w - 1 - 2 * K) # tl rest" and "walk w mqr (enter w K) (tl rest)"
  shows "walk w mqr (enter w k) (tl (concat (map (right_pair w) [k..<K]) @ rest))"
  using assms(2,3)
proof (induction "K - k" arbitrary: k)
  case 0
  then show ?case using assms(5) by simp
next
  case (Suc n)
  define x where "x = w - 1 - 2 * k"
  define path where "path = concat (map (right_pair w) [Suc k..<K]) @ rest"
  have k: "k < K" using Suc by simp
  have x: "2 \<le> x" "mqr \<or> x \<noteq> 8" "w - 1 - 2 * Suc k = x - 2" using Suc.prems(2) [of k] k by (auto simp: x_def)
  have IH: "walk w mqr (enter w (Suc k)) (tl path)" using Suc by (simp add: path_def)
  have path: "path = ((if even (Suc k) then w - 1 else 0), x - 2) # tl path"
  proof (cases "Suc k = K")
    case True
    then show ?thesis using assms(4) x(3) by (simp add: path_def)
  next
    case False
    then have "path = right_pair w (Suc k) @ concat (map (right_pair w) [Suc (Suc k)..<K]) @ rest"
      using k by (simp add: path_def upt_conv_Cons)
    then show ?thesis using Cons_append_tl [OF right_pair_Cons [of w "Suc k"]] assms(1) x(3) by (simp only:)
  qed
  have tl: "tl (concat (map (right_pair w) [k..<K]) @ rest) = tl (right_pair w k) @ path"
    using right_pair_Cons [of w k] assms(1) k
    by (simp add: upt_conv_Cons path_def) (metis list.distinct(1) tl_append2 append_assoc)
  show ?case
  proof (cases "even k")
    case True
    have "walk w mqr (int x, int w - 1, -1, 0) (tl (pair x (rev [0..<w])) @ (0, x - 2) # tl path)"
      by (rule enter_up [where d' = 1]) (use assms(1) x IH True in \<open>auto simp: step_def enter_def of_nat_diff\<close>)
    moreover have "(0, x - 2) # tl path = path" using path True by simp
    ultimately show ?thesis using tl True assms(1) by (simp add: enter_def right_pair_def x_def of_nat_diff)
  next
    case False
    have "walk w mqr (int x, int 0, 1, 0) (tl (pair x [0..<w]) @ (w - 1, x - 2) # tl path)"
      by (rule enter_down [where d' = "-1"]) (use assms(1) x IH False in \<open>auto simp: step_def enter_def of_nat_diff\<close>)
    moreover have "(w - 1, x - 2) # tl path = path" using path False by simp
    ultimately show ?thesis using tl False assms(1) by (simp add: enter_def right_pair_def x_def)
  qed
qed

lemma walk_right:
  assumes "21 \<le> w" and "w = 4 * u + 1"
  shows "walk w False (enter w 0) (tl (concat (map (right_pair w) [0..<2 * u - 3]) @ left_path w))"
proof -
  define K where "K = 2 * u - 4"
  have u: "5 \<le> u" using assms by simp
  have x: "w - 1 - 2 * K = 8" "even K" "2 * u - 3 = Suc K" using assms(2) u by (simp_all add: K_def)
  have "walk w False (int 8, int w - 1, -1, 0) (tl (pair 8 (rev [0..<w])) @ (9, 5) # tl (left_path w))"
    by (rule enter_up [where d' = 1]) (use assms(1) walk_left [OF assms(1)] in \<open>simp_all add: step_def\<close>)
  moreover have "(9, 5) # tl (left_path w) = left_path w"
    using assms(1) by (simp add: left_path_def upt_conv_Cons del: upt_rec_numeral)
  moreover have "tl (right_pair w K) @ ps = tl (right_pair w K @ ps)" for ps
    using right_pair_Cons [of w K] assms(1) by (metis list.distinct(1) tl_append2 less_le_trans zero_less_numeral)
  ultimately have "walk w False (enter w K) (tl (right_pair w K @ left_path w))"
    using assms(1) x by (simp add: enter_def right_pair_def of_nat_diff)
  moreover have "right_pair w K @ left_path w = ((if even K then w - 1 else 0), w - 1 - 2 * K) # tl (right_pair w K @ left_path w)"
    using Cons_append_tl [OF right_pair_Cons [of w K]] assms(1) by simp
  ultimately have "walk w False (enter w 0) (tl (concat (map (right_pair w) [0..<K]) @ right_pair w K @ left_path w))"
    using assms x by (intro walk_pairs) (auto simp: K_def)
  then show ?thesis by (simp add: x(3))
qed

lemma walk_qr:
  assumes "21 \<le> w" and "w mod 4 = 1"
  shows "qr_path w = (w - 1, w - 1) # tl (qr_path w)"
    and "walk w False (int w - 1, int w - 1, -1, 0) (tl (qr_path w))"
proof -
  obtain u where w: "w = 4 * u + 1" using assms(2) by (metis mult_div_mod_eq)
  have m: "(w - 7) div 2 = 2 * u - 3" "[0..<2 * u - 3] = 0 # [1..<2 * u - 3]"
    using assms(1) by (simp_all add: w upt_conv_Cons)
  show "qr_path w = (w - 1, w - 1) # tl (qr_path w)"
    using right_pair_Cons [of w 0] assms(1) unfolding qr_path_def m
    by (simp add: m) (metis list.sel(3) append_Cons)
  show "walk w False (int w - 1, int w - 1, -1, 0) (tl (qr_path w))"
    using walk_right [OF assms(1) w] assms(1) by (simp add: qr_path_def m(1) enter_def of_nat_diff)
qed


subsubsection \<open>The cells of the path\<close>

lemma set_pair: "set (pair x ys) = set ys \<times> {x, x - 1}"
  by (induction ys) auto

lemma length_pair [simp]: "length (pair x ys) = 2 * length ys"
  by (induction ys) auto

lemma set_right: "k \<le> u \<Longrightarrow> set (concat (map (right_pair (2 * u + 1)) [0..<k])) = {0..<2 * u + 1} \<times> {2 * u + 1 - 2 * k..<2 * u + 1}"
proof (induction k)
  case (Suc k)
  have "set (right_pair (2 * u + 1) k) = {0..<2 * u + 1} \<times> {2 * u - 2 * k, 2 * u - 2 * k - 1}"
    by (simp add: right_pair_def set_pair del: upt_Suc)
  moreover have "{2 * u + 1 - 2 * Suc k..<2 * u + 1} = {2 * u + 1 - 2 * k..<2 * u + 1} \<union> {2 * u - 2 * k, 2 * u - 2 * k - 1}"
    using Suc.prems by auto
  ultimately show ?case using Suc by (auto simp del: upt_Suc simp add: upt_Suc_append)
qed simp

lemma length_right: "length (concat (map (right_pair w) [0..<k])) = 2 * w * k"
  by (induction k) (simp_all add: right_pair_def algebra_simps)

lemma set_qr_path:
  assumes "21 \<le> w" and "w mod 4 = 1"
  shows "set (qr_path w) = {0..<w} \<times> {7..<w} \<union> {9..<w} \<times> {4, 5} \<union> {0..<w} \<times> {0..<4}"
proof -
  obtain u where w: "w = 4 * u + 1" using assms(2) by (metis mult_div_mod_eq)
  have "(w - 7) div 2 = 2 * u - 3" "4 * u + 1 - 2 * (2 * u - 3) = 7" using assms(1) by (simp_all add: w)
  then have "set (concat (map (right_pair w) [0..<(w - 7) div 2])) = {0..<w} \<times> {7..<w}"
    using set_right [of "2 * u - 3" "2 * u"] by (simp add: w)
  moreover have "{0..<4 :: nat} = {3, 2} \<union> {1, 0}" by auto
  ultimately show ?thesis
    by (auto simp: qr_path_def left_path_def set_pair simp del: upt_rec_numeral)
qed

lemma distinct_qr_path:
  assumes "21 \<le> w" and "w mod 4 = 1"
  shows "distinct (qr_path w)"
proof (rule card_distinct)
  obtain u where w: "w = 4 * u + 1" using assms(2) by (metis mult_div_mod_eq)
  have "{0..<w} \<times> {7..<w} \<inter> {9..<w} \<times> {4, 5} = {}"
    "({0..<w} \<times> {7..<w} \<union> {9..<w} \<times> {4, 5}) \<inter> {0..<w} \<times> {0..<4} = {}" by auto
  then have "card (set (qr_path w)) = w * (w - 7) + (w - 9) * 2 + w * 4"
    unfolding set_qr_path [OF assms] by (simp add: card_Un_disjoint card_cartesian_product)
  also have "\<dots> = length (qr_path w)"
  proof -
    obtain t where t: "w = 4 * t + 21" using assms(1) w by (intro that [of "u - 5"]) simp
    then have m: "(w - 7) div 2 = 2 * t + 7" by simp
    show ?thesis unfolding qr_path_def left_path_def length_append length_right length_pair m
      by (simp add: t algebra_simps)
  qed
  finally show "card (set (qr_path w)) = length (qr_path w)" .
qed

text \<open>The cells for data, in the order in which they are filled.\<close>

definition data_path :: "int \<Rightarrow> (nat \<times> nat) list" where
  "data_path v = filter (\<lambda>p. p \<notin> func_cells v) (qr_path (QRspec_getWidth v))"

lemma width_mod_4: "1 \<le> v \<Longrightarrow> v \<le> 40 \<Longrightarrow> QRspec_getWidth v mod 4 = 1"
proof -
  assume "1 \<le> v" "v \<le> 40"
  then have "int (QRspec_getWidth v) = 17 + 4 * v" by (rule capacity_modules(2))
  then have "int (QRspec_getWidth v mod 4) = (17 + 4 * v) mod 4" by (simp add: zmod_int)
  also have "\<dots> = 1" by presburger
  finally show ?thesis by simp
qed

lemma func_cells_grid: "1 \<le> v \<Longrightarrow> v \<le> 40 \<Longrightarrow> func_cells v \<subseteq> grid (QRspec_getWidth v)"
  using cells_frame_template [of v] by (auto simp: cells_def)

lemma data_path_props:
  assumes "1 \<le> v" and "v \<le> 40"
  shows "distinct (data_path v)" and "set (data_path v) = grid (QRspec_getWidth v) - func_cells v"
    and "int (length (data_path v)) = data_modules v"
proof -
  define w where "w = QRspec_getWidth v"
  note w = width_21 [OF assms, folded w_def] width_mod_4 [OF assms, folded w_def]
  show d: "distinct (data_path v)" using distinct_qr_path [OF w] by (simp add: data_path_def w_def)
  have "{0..<w} \<times> {6} \<union> {0..<9} \<times> {4, 5} \<subseteq> func_cells v"
    using w(1) by (auto simp: func_cells_def Let_def w_def [symmetric])
  moreover have "grid w = {0..<w} \<times> {7..<w} \<union> {9..<w} \<times> {4, 5} \<union> {0..<w} \<times> {0..<4} \<union> ({0..<w} \<times> {6} \<union> {0..<9} \<times> {4, 5})"
    using w(1) by (auto simp: grid_def)
  ultimately show s: "set (data_path v) = grid (QRspec_getWidth v) - func_cells v"
    unfolding data_path_def set_filter w_def [symmetric] set_qr_path [OF w] by auto
  have "card (grid w) = w * w" "finite (grid w)" by (simp_all add: grid_def card_cartesian_product)
  with s d func_cells_grid [OF assms] have "length (data_path v) = w * w - card (func_cells v)"
    using distinct_card [OF d] by (simp add: card_Diff_subset finite_subset w_def)
  moreover have "card (func_cells v) \<le> w * w"
    using card_mono [OF \<open>finite (grid w)\<close> func_cells_grid [OF assms, folded w_def]] \<open>card (grid w) = w * w\<close> by simp
  ultimately show "int (length (data_path v)) = data_modules v"
    using card_func_cells [OF assms] by (simp add: w_def of_nat_diff)
qed

subsection \<open>Filling the frame\<close>

text \<open>
  What is ahead of a filler: the positions \<open>ps\<close> of its walk. A new filler returns its first
  position without looking at the frame, so that position must not be part of a pattern.
\<close>

definition trail :: "nat \<Rightarrow> bool \<Rightarrow> frame \<Rightarrow> fstate \<Rightarrow> (nat \<times> nat) list \<Rightarrow> bool" where
  "trail w mqr f st ps \<longleftrightarrow>
     ready st \<and> walk w mqr st ps \<or>
     (\<exists>ps'. st = (int w - 1, int w - 1, -1, -1) \<and> ps = (w - 1, w - 1) # ps' \<and>
        walk w mqr (int w - 1, int w - 1, -1, 0) ps' \<and> \<not> marked (f ! idx w (w - 1, w - 1)) \<and> 0 < w)"

lemma FrameFiller_next_trail:
  assumes "trail w mqr f st ps"
  shows "case dropWhile (\<lambda>p. marked (f ! idx w p)) ps of
      [] \<Rightarrow> \<exists>g. FrameFiller_next (filler_at w mqr f st) = Some (None, g)
    | p # ps' \<Rightarrow> \<exists>st'. FrameFiller_next (filler_at w mqr f st) = Some (Some (idx w p), filler_at w mqr f st') \<and>
        (\<forall>g. trail w mqr g st' ps')"
proof (cases "ready st \<and> walk w mqr st ps")
  case True
  then have nx: "case dropWhile (\<lambda>p. marked (f ! idx w p)) ps of
      [] \<Rightarrow> \<exists>g. FrameFiller_next (filler_at w mqr f st) = Some (None, g)
    | p # ps' \<Rightarrow> \<exists>st'. FrameFiller_next (filler_at w mqr f st) = Some (Some (idx w p), filler_at w mqr f st') \<and>
        walk w mqr st' ps' \<and> ready st'"
    using FrameFiller_next_walk by blast
  show ?thesis
  proof (cases "dropWhile (\<lambda>p. marked (f ! idx w p)) ps")
    case Nil
    with nx show ?thesis by (simp only: list.case)
  next
    case (Cons p ps')
    with nx show ?thesis by (simp only: list.case trail_def) blast
  qed
next
  case False
  with assms obtain ps' where a: "st = (int w - 1, int w - 1, -1, -1)" "ps = (w - 1, w - 1) # ps'"
    "walk w mqr (int w - 1, int w - 1, -1, 0) ps'" "\<not> marked (f ! idx w (w - 1, w - 1))" "0 < w"
    unfolding trail_def by blast
  have "(int w - 1) * int w + (int w - 1) = int ((w - 1) * w + (w - 1))" using a(5) by (simp add: of_nat_diff)
  then have "FrameFiller_next (filler_at w mqr f st) = Some (Some (idx w (w - 1, w - 1)), filler_at w mqr f (int w - 1, int w - 1, -1, 0))"
    by (subst FrameFiller_next.simps) (simp add: a(1) filler_at_def del: of_nat_mult of_nat_add)
  with a show ?thesis by (auto simp: trail_def ready_def simp del: idx_simp)
qed

lemma marked_update: "\<not> marked (f ! i) \<Longrightarrow> \<not> marked v \<Longrightarrow> marked (f[i := v] ! j) = marked (f ! j)"
  by (cases "i < length f"; cases "i = j") (auto simp: list_update_beyond)

lemma filter_dropWhile:
  "filter (\<lambda>x. \<not> P x) xs = q # qs \<Longrightarrow> \<exists>ys. dropWhile P xs = q # ys \<and> \<not> P q \<and> filter (\<lambda>x. \<not> P x) ys = qs"
  by (induction xs) (auto split: if_splits)

lemma put_module_trail:
  assumes "trail w mqr f st ps" and "filter (\<lambda>p. \<not> marked (f ! idx w p)) ps = q # qs" and "\<not> marked v"
  shows "\<exists>st' ps'. put_module (filler_at w mqr f st) v = retM (filler_at w mqr (f[idx w q := v]) st') \<and>
     trail w mqr (f[idx w q := v]) st' ps' \<and>
     filter (\<lambda>p. \<not> marked (f[idx w q := v] ! idx w p)) ps' = qs"
proof -
  from assms(2) obtain ps' where d: "dropWhile (\<lambda>p. marked (f ! idx w p)) ps = q # ps'"
    and q: "\<not> marked (f ! idx w q)" "filter (\<lambda>p. \<not> marked (f ! idx w p)) ps' = qs"
    using filter_dropWhile [where P = "\<lambda>p. marked (f ! idx w p)", OF assms(2)] by blast
  from FrameFiller_next_trail [OF assms(1)] d obtain st' where
    "FrameFiller_next (filler_at w mqr f st) = Some (Some (idx w q), filler_at w mqr f st')"
    "\<And>g. trail w mqr g st' ps'" by auto
  with q show ?thesis
    by (intro exI [of _ st'] exI [of _ ps']) (simp add: put_module_def marked_update [OF q(1) assms(3)])
qed

lemma put_modules:
  assumes "trail w mqr f st ps" and "filter (\<lambda>p. \<not> marked (f ! idx w p)) ps = qs"
    and "length vs \<le> length qs" and "\<forall>v \<in> set vs. \<not> marked v"
  shows "\<exists>st' ps'. (foldM put_module (filler_at w mqr f st) vs :: ('s, FrameFiller) M) =
       retM (filler_at w mqr (writes f (zip (map (idx w) qs) vs)) st') \<and>
     trail w mqr (writes f (zip (map (idx w) qs) vs)) st' ps' \<and>
     filter (\<lambda>p. \<not> marked (writes f (zip (map (idx w) qs) vs) ! idx w p)) ps' = drop (length vs) qs"
  using assms
proof (induction vs arbitrary: f st ps qs)
  case Nil
  then show ?case by (intro exI [of _ st] exI [of _ ps]) simp
next
  case (Cons v vs)
  then obtain q qs' where qs: "qs = q # qs'" by (cases qs) auto
  have v: "\<not> marked v" using Cons.prems(4) by simp
  obtain st1 ps1 where
    s: "(put_module (filler_at w mqr f st) v :: ('s, FrameFiller) M) = retM (filler_at w mqr (f[idx w q := v]) st1)"
    "trail w mqr (f[idx w q := v]) st1 ps1" "filter (\<lambda>p. \<not> marked (f[idx w q := v] ! idx w p)) ps1 = qs'"
    using put_module_trail [OF Cons.prems(1) Cons.prems(2) [unfolded qs] v] by blast
  have le: "length vs \<le> length qs'" using Cons.prems(3) by (simp add: qs)
  have um: "\<forall>v \<in> set vs. \<not> marked v" using Cons.prems(4) by simp
  have w: "writes f (zip (map (idx w) qs) (v # vs)) = writes (f[idx w q := v]) (zip (map (idx w) qs') vs)"
    "drop (length (v # vs)) qs = drop (length vs) qs'" by (simp_all add: qs)
  show ?case using Cons.IH [OF s(2,3) le um] unfolding foldM.simps s(1) bindM_retM w .
qed

end
