(* ===== verification/QRencode_Correct.thy ===== *)
theory QRencode_Correct
  imports Stream_Correct Blocks_Correct Fill_Correct
begin

text \<open>
  The encoder of \<^verbatim>\<open>qrencode.c\<close> as a whole: the raw code of an input, the filled frame, the choice of
  the pattern, and a reader of symbols that gets the segments of the input back.
\<close>

subsection \<open>The raw code\<close>

text \<open>The bytes of an input that fits: its segments, the terminator and the padding.\<close>

definition data_bytes :: "QRinput \<Rightarrow> u8 list" where
  "data_bytes input =
     (let v = fst (conversion input); bits = enc_entries v False (in_head input)
      in bs_bytes (bits @ padding (nat (QRspec_getDataLength v (in_level input))) (length bits)))"

definition input_ok :: "QRinput \<Rightarrow> bool" where
  "input_ok input \<longleftrightarrow> \<not> in_mqr input \<and> in_fnc1 input = 0 \<and> entries_ok 0 False (in_head input) \<and>
     0 \<le> in_version input \<and> in_version input \<le> 40 \<and> in_level input \<le> 3"

abbreviation fits :: "QRinput \<Rightarrow> bool" where
  "fits input \<equiv> snd (conversion input)"

lemma length_data_bytes:
  assumes "input_ok input" and "fits input"
  shows "int (length (data_bytes input)) = QRspec_getDataLength (fst (conversion input)) (in_level input)"
proof -
  have c: "in_level input \<le> 3" "in_version input \<le> 40" using assms(1) by (simp_all add: input_ok_def)
  note f = conversion_fits [OF assms(2) c]
  have "0 < QRspec_getDataLength (fst (conversion input)) (in_level input)" using f(2,3) c(1) by (rule dataLength_pos)
  with f(4) show ?thesis
    by (simp add: data_bytes_def Let_def length_bs_bytes length_padding)
qed

lemma read_data_bytes:
  assumes "input_ok input" and "fits input" and "\<forall>e \<in> set (in_head input). data_ok (en_mode e) (en_data e)"
  shows "read_segs (fst (conversion input)) (bytes_bits (data_bytes input)) =
    concat (map (entry_segs (fst (conversion input))) (in_head input))"
proof -
  define v where "v = fst (conversion input)"
  define bits where "bits = enc_entries v False (in_head input)"
  define n where "n = nat (QRspec_getDataLength v (in_level input))"
  have c: "in_level input \<le> 3" "in_version input \<le> 40" using assms(1) by (simp_all add: input_ok_def)
  note f = conversion_fits [OF assms(2) c, folded v_def, folded bits_def]
  have "0 < QRspec_getDataLength v (in_level input)" using f(2,3) c(1) by (rule dataLength_pos)
  with f(4) have n: "length bits \<le> 8 * n" by (simp add: n_def)
  then have "length (bits @ padding n (length bits)) = 8 * n" by (simp add: length_padding)
  then have "bytes_bits (bs_bytes (bits @ padding n (length bits))) = bits @ padding n (length bits)"
    by (intro bytes_bits_bs_bytes) (simp_all add: bits_def)
  with read_segs_entries [OF assms(3), of v "padding n (length bits)"] read_segs_padding [OF n]
  show ?thesis by (simp add: data_bytes_def Let_def flip: v_def bits_def n_def)
qed

context rs_invariant
begin

lemma QRraw_new_acts:
  assumes "input_ok input"
  defines "v \<equiv> fst (conversion input)"
  shows "acts I QRraw_new input
    (if fits input then Inr (raw_for v (QRspec_getEccSpec v (in_level input)) (data_bytes input)) else Inl ERANGE)
    (converted input)"
proof (cases "fits input")
  case True
  have c: "in_level input \<le> 3" "in_version input \<le> 40" using assms(1) by (simp_all add: input_ok_def)
  note f = conversion_fits [OF True c, folded v_def]
  define spec where "spec = QRspec_getEccSpec v (in_level input)"
  have ok: "spec_ok spec" unfolding spec_def using f(2,3) c(1) by (rule spec_ok)
  have "int (length (data_bytes input)) = QRspec_rsDataLength spec"
    using length_data_bytes [OF assms(1) True] ecc_spec_ok [OF f(2,3) c(1)]
    by (simp add: spec_def v_def ecc_spec_ok_def Let_def)
  note init = delivers_runs [OF RSblock_init_delivers [OF ok this]]
  have gb: "acts I QRinput_getByteStream input (Inr (data_bytes input)) (converted input)"
    using getByteStream_acts [of input] True assms(1) by (simp add: input_ok_def data_bytes_def Let_def)
  have cv: "in_version (converted input) = v" "in_level (converted input) = in_level input"
    by (simp_all add: converted_def v_def)
  note m = acts_lift_then [OF delivers_runs [OF malloc_delivers]]
  show ?thesis unfolding QRraw_new_def
    by (intro m acts_bind [OF gb] acts_get_then, simp only: cv Let_def flip: spec_def,
        intro m acts_lift_then [OF init])
      (auto simp: True raw_for_def spec_def intro!: acts_ret)
next
  case False
  then have "acts I QRinput_getByteStream input (Inl ERANGE) (converted input)"
    using getByteStream_acts [of input] assms(1) by (simp add: input_ok_def)
  with False show ?thesis unfolding QRraw_new_def
    by (simp only: if_False) (intro acts_lift_then [OF delivers_runs [OF malloc_delivers]], rule acts_bind_fail)
qed

end


subsection \<open>Placing the codes\<close>

lemma bindM_ret_right: "bindM f retM = f"
  by (rule ext) (auto simp: bindM_def split: prod.splits sum.splits)

lemma foldM_append: "foldM f b (xs @ ys) = bindM (foldM f b xs) (\<lambda>b. foldM f b ys)"
  by (induction xs arbitrary: b) (simp_all add: bindM_assoc)

lemma foldM_map: "foldM f b (map g xs) = foldM (\<lambda>b x. f b (g x)) b xs"
  by (induction xs arbitrary: b) simp_all

text \<open>The modules of a list of bits.\<close>

abbreviation modules :: "u8 list \<Rightarrow> u8 list" where
  "modules bits \<equiv> map ((OR) 2) bits"

lemma byte_loop_map:
  "byte_loop n (drop_bit i m) c = map (\<lambda>j. if drop_bit j m AND c \<noteq> 0 then 1 else 0) [i..<i + n]"
proof (induction n arbitrary: i)
  case (Suc n)
  have "drop_bit 1 (drop_bit i m) = drop_bit (Suc i) m" by (simp add: drop_bit_drop_bit)
  with Suc [of "Suc i"] show ?case by (simp add: upt_conv_Cons and.commute [of c] del: upt_Suc)
qed simp

lemma put_code_loop: "put_code n msb filler code = foldM put_module filler (modules (byte_loop n msb code))"
  using byte_loop_map [of n 0 msb code] by (simp add: put_code_def foldM_map if_distrib [of "(OR) 2"] del: or_numerals)

lemma put_code_modules: "put_code 8 0x80 filler code = foldM put_module filler (modules (nbits 8 (unat code)))"
  by (simp only: put_code_loop byte_loop_nbits)

text \<open>A loop that places what the raw code delivers, one code after the other.\<close>

lemma put_codes_modules:
  fixes version :: int
  assumes "spec_ok spec" and "int (length data) = QRspec_rsDataLength spec"
  defines "raw \<equiv> raw_for version spec data"
  shows "put_codes raw filler = bindM (foldM put_module filler (modules (bytes_bits (symbol_codes spec data))))
    (\<lambda>filler. retM (raw\<lparr>raw_count := QRspec_rsDataLength spec + QRspec_rsEccLength spec\<rparr>, filler))"
proof -
  let ?f = "\<lambda>(raw, filler) i. let (code, raw) = QRraw_getCode raw in
      bindM (put_code 8 0x80 filler code) (\<lambda>filler. retM (raw, filler))"
  let ?N = "nat (QRspec_rsDataLength spec + QRspec_rsEccLength spec)"
  define c where "c k = fst (QRraw_getCode (raw\<lparr>raw_count := int k\<rparr>))" for k
  have snd: "snd (QRraw_getCode (raw\<lparr>raw_count := int k\<rparr>)) = raw\<lparr>raw_count := int (Suc k)\<rparr>" if "k < ?N" for k
    using that by (auto simp: QRraw_getCode_def Let_def raw_def raw_for_def)
  have upto: "foldM ?f (raw, filler) [0..<n] =
      bindM (foldM put_module filler (modules (bytes_bits (map c [0..<n])))) (\<lambda>filler. retM (raw\<lparr>raw_count := int n\<rparr>, filler))"
    if "n \<le> ?N" for n
    using that
  proof (induction n)
    case 0
    have "raw\<lparr>raw_count := 0\<rparr> = raw" by (simp add: raw_def raw_for_def)
    then show ?case by (simp del: retM_apply)
  next
    case (Suc n)
    have "QRraw_getCode (raw\<lparr>raw_count := int n\<rparr>) = (c n, raw\<lparr>raw_count := int (Suc n)\<rparr>)"
      using snd [of n] Suc.prems by (simp add: c_def prod_eq_iff)
    with Suc show ?case
      by (simp add: foldM_append bindM_assoc bindM_ret_right put_code_modules bytes_bits_def del: of_nat_Suc retM_apply)
  qed
  have "map c [0..<?N] = symbol_codes spec data" unfolding c_def raw_def by (rule raw_codes [OF assms(1,2)])
  moreover have "0 \<le> QRspec_rsDataLength spec + QRspec_rsEccLength spec" using assms(1) by (elim spec_okE) simp
  ultimately show ?thesis using upto [of ?N]
    by (simp add: put_codes_def raw_def raw_for_def del: map_eq_conv)
qed


subsection \<open>The filled frame\<close>

lemma foldM_const: "foldM (\<lambda>b _. f b v) b xs = foldM f b (replicate (length xs) v)"
  by (induction xs arbitrary: b) simp_all

text \<open>The modules of a symbol, in the order of the data cells: the codes and the remainder bits.\<close>

definition symbol_bits :: "int \<Rightarrow> QRecLevel \<Rightarrow> u8 list \<Rightarrow> u8 list" where
  "symbol_bits v l data = bytes_bits (symbol_codes (QRspec_getEccSpec v l) data) @ replicate (nat (QRspec_getRemainder v)) 0"

definition filled :: "int \<Rightarrow> u8 list \<Rightarrow> frame" where
  "filled v bits = writes (frame_template v) (zip (map (idx (QRspec_getWidth v)) (data_path v)) (modules bits))"

lemma marked_module: "b \<in> {0, 1} \<Longrightarrow> \<not> marked (2 OR b)"
  by (auto simp: marked_def)

lemma corner_free:
  assumes "1 \<le> v" and "v \<le> 40" and w: "w = QRspec_getWidth v"
  shows "(w - 1, w - 1) \<notin> func_cells v"
proof -
  have w21: "21 \<le> w" using width_21 [OF assms(1,2)] by (simp add: w)
  have "(w - 1, w - 1) \<notin> align_cells v"
  proof (cases "2 \<le> v")
    case True
    have "w - 1 \<notin> {align_pos v k - 2..<align_pos v k + 3}" if "k \<le> nat (v div 7)" for k
      using align_pos_bounds [OF True assms(2) that] by (auto simp: w)
    then show ?thesis using w21 True unfolding align_cells_def marker_def by fastforce
  qed (simp add: align_cells_def)
  then show ?thesis using w21 by (auto simp: func_cells_def version_cells_def Let_def simp flip: w)
qed

lemma frame_trail:
  assumes "1 \<le> v" and "v \<le> 40"
  defines "w \<equiv> QRspec_getWidth v"
  shows "trail w False (frame_template v) (int w - 1, int w - 1, -1, -1) (qr_path w)"
    and "filter (\<lambda>p. \<not> marked (frame_template v ! idx w p)) (qr_path w) = data_path v"
proof -
  note w = width_21 [OF assms(1,2), folded w_def] width_mod_4 [OF assms(1,2), folded w_def]
  have m: "marked (frame_template v ! idx w p) \<longleftrightarrow> p \<in> func_cells v" if "p \<in> grid w" for p
    using cells_frame_template [OF assms(1,2)] that by (auto simp: cells_def w_def)
  have "set (qr_path w) \<subseteq> grid w" unfolding set_qr_path [OF w] using w(1) by (auto simp: grid_def)
  then show "filter (\<lambda>p. \<not> marked (frame_template v ! idx w p)) (qr_path w) = data_path v"
    unfolding data_path_def w_def [symmetric] using m by (intro filter_cong) (simp, meson subsetD)
  have "(w - 1, w - 1) \<notin> func_cells v" using assms by (intro corner_free) simp_all
  moreover have "(w - 1, w - 1) \<in> grid w" using w(1) by (simp add: grid_def)
  ultimately have "\<not> marked (frame_template v ! idx w (w - 1, w - 1))" using m by blast
  then show "trail w False (frame_template v) (int w - 1, int w - 1, -1, -1) (qr_path w)"
    unfolding trail_def using walk_qr [OF w] w(1)
    by (intro disjI2 exI [of _ "tl (qr_path w)"] conjI) simp_all
qed

lemma length_symbol_codes:
  assumes "spec_ok spec" and "int (length data) = QRspec_rsDataLength spec"
  shows "int (length (symbol_codes spec data)) = QRspec_rsDataLength spec + QRspec_rsEccLength spec"
proof -
  have "sum_list (map length (ecc_blocks spec data)) = length (block_lens spec) * nat (QRspec_rsEccCodes1 spec)"
    unfolding ecc_block_lengths [OF assms] by (simp add: sum_list_replicate)
  moreover have "int (length (block_lens spec) * nat (QRspec_rsEccCodes1 spec)) = QRspec_rsEccLength spec"
    using assms(1) by (elim spec_okE) simp
  ultimately show ?thesis using data_block_lengths [OF assms] assms(2)
    by (simp add: symbol_codes_def length_interleave)
qed

lemma length_symbol_bits:
  assumes "1 \<le> v" and "v \<le> 40" and "l \<le> 3" and "int (length data) = QRspec_getDataLength v l"
  shows "length (symbol_bits v l data) = length (data_path v)"
    and "length (symbol_codes (QRspec_getEccSpec v l) data) = length (data_path v) div 8"
proof -
  let ?spec = "QRspec_getEccSpec v l"
  have e: "QRspec_rsDataLength ?spec = QRspec_getDataLength v l" "QRspec_rsEccLength ?spec = QRspec_getECCLength v l"
    using ecc_spec_ok [OF assms(1-3)] by (simp_all add: ecc_spec_ok_def Let_def)
  have "int (length (symbol_codes ?spec data)) = QRspec_getDataLength v l + QRspec_getECCLength v l"
    using length_symbol_codes [OF spec_ok [OF assms(1-3)]] assms(4) e by simp
  also have "\<dots> = cap_words (qrspecCapacity ! nat v)"
    by (simp add: QRspec_getDataLength_def QRspec_getECCLength_def capacity_def)
  finally have c: "int (length (symbol_codes ?spec data)) = cap_words (qrspecCapacity ! nat v)" .
  have r: "0 \<le> QRspec_getRemainder v \<and> QRspec_getRemainder v < 8"
  proof -
    have "list_all (\<lambda>v. 0 \<le> QRspec_getRemainder v \<and> QRspec_getRemainder v < 8) versions"
      by (simp add: versions_unfold qrspec_tables)
    then show ?thesis using assms(1,2) by (rule all_versions)
  qed
  have "int (length (data_path v)) = 8 * int (length (symbol_codes ?spec data)) + QRspec_getRemainder v"
    using capacity_modules(1) [OF assms(1,2)] data_path_props(3) [OF assms(1,2)] c by simp
  with r have d: "length (data_path v) = 8 * length (symbol_codes ?spec data) + nat (QRspec_getRemainder v)"
    "nat (QRspec_getRemainder v) < 8" by linarith+
  then show "length (symbol_bits v l data) = length (data_path v)" by (simp add: symbol_bits_def)
  show "length (symbol_codes ?spec data) = length (data_path v) div 8" using d by linarith
qed

lemma bit_list_symbol_bits: "bit_list (symbol_bits v l data)"
  by (auto simp: symbol_bits_def bit_list_def) (use bit_list_bytes_bits in \<open>auto simp: bit_list_def\<close>)

text \<open>The filler takes a module for every data cell, in the order of the path, and then reports the end.\<close>

lemma put_all_modules:
  assumes "1 \<le> v" and "v \<le> 40" and "\<forall>c \<in> set vs. \<not> marked c" and "length vs = length (data_path v)"
  defines "w \<equiv> QRspec_getWidth v"
  shows "\<exists>st g. (foldM put_module (filler_at w False (frame_template v) (int w - 1, int w - 1, -1, -1)) vs :: ('s, FrameFiller) M) =
      retM (filler_at w False (writes (frame_template v) (zip (map (idx w) (data_path v)) vs)) st) \<and>
    FrameFiller_next (filler_at w False (writes (frame_template v) (zip (map (idx w) (data_path v)) vs)) st) = Some (None, g)"
proof -
  let ?f = "writes (frame_template v) (zip (map (idx w) (data_path v)) vs)"
  have le: "length vs \<le> length (data_path v)" using assms(4) by simp
  note t = frame_trail [OF assms(1,2), folded w_def]
  obtain st ps where st: "(foldM put_module (filler_at w False (frame_template v) (int w - 1, int w - 1, -1, -1)) vs :: ('s, FrameFiller) M) =
      retM (filler_at w False ?f st)" "trail w False ?f st ps"
    "filter (\<lambda>p. \<not> marked (?f ! idx w p)) ps = drop (length vs) (data_path v)"
    using put_modules [OF t le assms(3)] by blast
  have "dropWhile (\<lambda>p. marked (?f ! idx w p)) ps = []"
    using st(3) assms(4) by (simp add: dropWhile_eq_Nil_conv filter_empty_conv)
  with FrameFiller_next_trail [OF st(2)] have "\<exists>g. FrameFiller_next (filler_at w False ?f st) = Some (None, g)"
    by (simp only: list.case)
  with st(1) show ?thesis by blast
qed

lemma put_symbol:
  assumes "1 \<le> v" and "v \<le> 40" and "bit_list bits" and "length bits = length (data_path v)"
  defines "w \<equiv> QRspec_getWidth v"
  shows "\<exists>st. foldM put_module (filler_at w False (frame_template v) (int w - 1, int w - 1, -1, -1)) (modules bits) =
    retM (filler_at w False (filled v bits) st)"
proof -
  have "\<forall>c \<in> set (modules bits). \<not> marked c"
    using assms(3) marked_module by (auto simp: bit_list_def simp del: marked_literals)
  from put_all_modules [OF assms(1,2) this] assms(4) show ?thesis unfolding filled_def w_def length_map by blast
qed

subsection \<open>Encoding\<close>

definition masked_symbol :: "nat \<Rightarrow> frame \<Rightarrow> QRecLevel \<Rightarrow> nat \<Rightarrow> frame" where
  "masked_symbol w f l i = snd (Mask_writeFormatInformation w (snd (MASKMAKER (mask_exp i) w f)) (int i) l)"

text \<open>The last part of \<^verbatim>\<open>QRcode_encodeMask\<close>, from the filled frame to the code.\<close>

definition finish :: "int \<Rightarrow> int \<Rightarrow> QRecLevel \<Rightarrow> frame \<Rightarrow> ('z heap_scheme, QRcode) M" where
  "finish msk version level frame =
     bindM (if msk = -2 then debug_copy (take (QRspec_getWidth version * QRspec_getWidth version) frame)
            else if msk < 0 then Mask_mask (QRspec_getWidth version) frame level
            else Mask_makeMask (QRspec_getWidth version) frame msk level) (\<lambda>masked.
     QRcode_new version (QRspec_getWidth version) masked)"

definition place_codes :: "QRRawCode \<Rightarrow> int \<Rightarrow> ('z qr_heap_scheme, frame) M" where
  "place_codes raw version =
     bindM (QRspec_newFrame version) (\<lambda>frame.
     bindM (FrameFiller_new (QRspec_getWidth version) frame False) (\<lambda>filler.
     bindM (put_codes raw filler) (\<lambda>(raw, filler).
     bindM (foldM (\<lambda>filler i. put_module filler 0x02) filler [0..<nat (QRspec_getRemainder version)]) (\<lambda>filler.
     retM (ff_frame filler)))))"

lemma QRcode_encodeMask_parts:
  "QRcode_encodeMask msk = bindM getO (\<lambda>input.
     if in_mqr input then failM EINVAL
     else if in_version input < 0 \<or> in_version input > QRSPEC_VERSION_MAX then failM EINVAL
     else if in_level input > QR_ECLEVEL_H then failM EINVAL
     else
       bindM QRraw_new (\<lambda>raw.
       bindM getO (\<lambda>input.
       lift (bindM (place_codes raw (raw_version raw)) (finish msk (raw_version raw) (in_level input))))))"
  unfolding QRcode_encodeMask_def place_codes_def finish_def Let_def
  by (simp add: bindM_assoc case_prod_unfold cong: if_cong del: retM_apply)

lemma place_codes_delivers:
  assumes "1 \<le> v" and "v \<le> 40" and "l \<le> 3" and "int (length data) = QRspec_getDataLength v l"
  shows "delivers qr_ok (place_codes (raw_for v (QRspec_getEccSpec v l) data) v) (Inr (filled v (symbol_bits v l data)))"
proof -
  let ?spec = "QRspec_getEccSpec v l" and ?w = "QRspec_getWidth v"
  let ?filler = "filler_at ?w False (frame_template v) (int ?w - 1, int ?w - 1, -1, -1)"
  have D: "int (length data) = QRspec_rsDataLength ?spec"
    using ecc_spec_ok [OF assms(1-3)] assms(4) by (simp add: ecc_spec_ok_def Let_def)
  obtain st where st: "(foldM put_module ?filler (modules (symbol_bits v l data)) :: ('a qr_heap_scheme, FrameFiller) M) =
      retM (filler_at ?w False (filled v (symbol_bits v l data)) st)"
    using put_symbol [OF assms(1,2) bit_list_symbol_bits length_symbol_bits(1) [OF assms]] by blast
  have "(bindM (put_codes (raw_for v ?spec data) ?filler) (\<lambda>(raw, filler).
       bindM (foldM (\<lambda>filler i. put_module filler 0x02) filler [0..<nat (QRspec_getRemainder v)]) (\<lambda>filler.
       retM (ff_frame filler))) :: ('a qr_heap_scheme, frame) M) =
     bindM (foldM put_module ?filler (modules (symbol_bits v l data))) (\<lambda>filler. retM (ff_frame filler))" (is "?lhs = _")
    by (simp add: symbol_bits_def put_codes_modules [OF spec_ok [OF assms(1-3)] D] bindM_assoc foldM_append foldM_const
          del: retM_apply)
  also have "\<dots> = retM (filled v (symbol_bits v l data))" by (simp add: st del: retM_apply)
  finally have fill: "?lhs = retM (filled v (symbol_bits v l data))" .
  have new: "delivers qr_ok (FrameFiller_new ?w (frame_template v) False) (Inr ?filler)"
    unfolding FrameFiller_new_def filler_at_def by (intro qr.malloc_then delivers_ret_eq) simp
  show ?thesis unfolding place_codes_def
    by (rule delivers_bind [OF QRspec_newFrame_delivers [OF assms(1,2)]], rule delivers_bind [OF new])
      (simp add: fill delivers_ret_eq del: retM_apply)
qed

lemma QRcode_new_delivers: "delivers qr_ok (QRcode_new v w f) (Inr \<lparr>qr_version = v, qr_width = w, qr_data = f\<rparr>)"
  unfolding QRcode_new_def by (intro qr.malloc_then delivers_ret_eq) simp

text \<open>The pattern that is used: the given one, or the first of the smallest demerit.\<close>

definition mask_used :: "int \<Rightarrow> nat \<Rightarrow> frame \<Rightarrow> QRecLevel \<Rightarrow> nat \<Rightarrow> bool" where
  "mask_used msk w f l i \<longleftrightarrow> i < 8 \<and>
     (if 0 \<le> msk then int i = msk
      else (\<forall>j < 8. fst (mask_candidate w f l i) \<le> fst (mask_candidate w f l j)) \<and>
           (\<forall>j < i. fst (mask_candidate w f l i) < fst (mask_candidate w f l j)))"

lemma width_177: "1 \<le> v \<Longrightarrow> v \<le> 40 \<Longrightarrow> QRspec_getWidth v \<le> 177"
  using capacity_modules(2) [of v] by simp

lemma finish_mask:
  assumes "1 \<le> v" and "v \<le> 40" and "msk \<noteq> -2" and "msk < 8" and "qr_ok s" and "script s = []"
  defines "w \<equiv> QRspec_getWidth v"
  shows "\<exists>i. mask_used msk w f l i \<and>
    finish msk v l f s = (Inr \<lparr>qr_version = v, qr_width = w, qr_data = masked_symbol w f l i\<rparr>, s)"
proof (cases "msk < 0")
  case True
  obtain i where i: "i < 8" "Mask_mask w f l s = (Inr (snd (mask_candidate w f l i)), s)"
    "\<forall>j < 8. fst (mask_candidate w f l i) \<le> fst (mask_candidate w f l j)"
    "\<forall>j < i. fst (mask_candidate w f l i) < fst (mask_candidate w f l j)"
    using Mask_mask_best [OF assms(6), of w f l] width_21 [OF assms(1,2)] width_177 [OF assms(1,2)]
    unfolding w_def by blast
  then show ?thesis using True assms(3,6)
    by (intro exI [of _ i])
      (simp add: mask_used_def finish_def bindM_def QRcode_new_def masked_symbol_def mask_candidate_eq flip: w_def)
next
  case False
  then obtain i where i: "msk = int i" by (metis nat_0_le not_less)
  with assms(4) have "i < 8" by simp
  then show ?thesis using i assms(3,6)
    by (intro exI [of _ i])
      (simp add: mask_used_def finish_def bindM_def QRcode_new_def Mask_makeMask_def masked_symbol_def maskMakers_exp flip: w_def)
qed


lemma QRcode_encodeMask_symbol:
  assumes "input_ok input" and "fits input" and "msk \<noteq> -2" and "msk < 8" and "qr_ok s" and "script s = []"
  defines "v \<equiv> fst (conversion input)" and "l \<equiv> in_level input"
  defines "w \<equiv> QRspec_getWidth v" and "f \<equiv> filled v (symbol_bits v l (data_bytes input))"
  shows "\<exists>i s'. mask_used msk w f l i \<and> qr_ok s' \<and> script s' = [] \<and>
    QRcode_encodeMask msk (input, s) =
      (Inr \<lparr>qr_version = v, qr_width = w, qr_data = masked_symbol w f l i\<rparr>, (converted input, s'))"
proof -
  have c: "in_level input \<le> 3" "in_version input \<le> 40" using assms(1) by (simp_all add: input_ok_def)
  note fit = conversion_fits [OF assms(2) c, folded v_def]
  define raw where "raw = raw_for v (QRspec_getEccSpec v l) (data_bytes input)"
  from qr.QRraw_new_acts [OF assms(1)] assms(2,5,6) obtain s1 where
    s1: "QRraw_new (input, s) = (Inr raw, (converted input, s1))" "qr_ok s1" "script s1 = []"
    by (auto simp: acts_def raw_def v_def l_def)
  have D: "int (length (data_bytes input)) = QRspec_getDataLength v l"
    using length_data_bytes [OF assms(1,2)] by (simp add: v_def l_def)
  have "delivers qr_ok (place_codes raw v) (Inr f)"
    unfolding raw_def f_def by (rule place_codes_delivers [OF fit(2,3) c(1) [folded l_def] D])
  with s1(2,3) obtain s2 where s2: "place_codes raw v s1 = (Inr f, s2)" "qr_ok s2" "script s2 = []"
    by (auto simp: delivers_def prod_eq_iff)
  from finish_mask [OF fit(2,3) assms(3,4) s2(2,3), of f l] obtain i where
    i: "mask_used msk w f l i" "finish msk v l f s2 = (Inr \<lparr>qr_version = v, qr_width = w, qr_data = masked_symbol w f l i\<rparr>, s2)"
    unfolding w_def by blast
  have raw: "raw_version raw = v" "in_level (converted input) = l" by (simp_all add: raw_def raw_for_def converted_def l_def)
  have "\<not> in_mqr input" "0 \<le> in_version input" using assms(1) by (simp_all add: input_ok_def)
  then have "QRcode_encodeMask msk (input, s) =
      (Inr \<lparr>qr_version = v, qr_width = w, qr_data = masked_symbol w f l i\<rparr>, (converted input, s2))"
    using c s1(1) s2(1) i(2) raw unfolding QRcode_encodeMask_parts by (simp add: bindM_def getO_def lift_def)
  with i(1) s2 show ?thesis by blast
qed

subsection \<open>Reading a symbol\<close>

text \<open>
  A reader of symbols, written from the standard: the format information gives the level and the
  pattern, the modules along the path give the codes once the pattern is taken off, the codes give
  the data bytes, and these the segments.
\<close>

definition format_word :: "nat \<Rightarrow> frame \<Rightarrow> u32" where
  "format_word w f = horner_sum of_bool 2 (map (\<lambda>k. dark (f ! idx w (format_pos1 w k))) [0..<15])"

definition format_of :: "QRecLevel \<Rightarrow> nat \<Rightarrow> u32" where
  "format_of l i = bch15_5 (8 * level_indicator l + of_nat i) XOR 0x5412"

definition read_format :: "u32 \<Rightarrow> (QRecLevel \<times> nat) option" where
  "read_format fmt = find (\<lambda>(l, i). format_of l i = fmt) (List.product [0..<4] [0..<8])"

definition read_bits :: "int \<Rightarrow> nat \<Rightarrow> frame \<Rightarrow> u8 list" where
  "read_bits v i f = map (\<lambda>(y, x). of_bool (dark (f ! idx (QRspec_getWidth v) (y, x)) \<noteq> (mask_exp i x y = 0))) (data_path v)"

definition read_symbol :: "nat \<Rightarrow> frame \<Rightarrow> (int \<times> QRecLevel \<times> nat \<times> (QRencodeMode \<times> u8 list) list) option" where
  "read_symbol w f =
     (let v = (int w - 17) div 4 in
      case read_format (format_word w f) of
        None \<Rightarrow> None
      | Some (l, i) \<Rightarrow>
          let bits = read_bits v i f
          in case read_codes (QRspec_getEccSpec v l) (bs_bytes (take (8 * (length bits div 8)) bits)) of
               None \<Rightarrow> None
             | Some data \<Rightarrow> Some (v, l, i, read_segs v (bytes_bits data)))"

lemma format_of_table: "l \<le> 3 \<Longrightarrow> i < 8 \<Longrightarrow> format_of l i = QRspec_getFormatInfo (int i) l"
proof -
  assume "l \<le> 3" "i < 8"
  then have "l \<in> {0, 1, 2, 3}" "int i \<in> {0, 1, 2, 3, 4, 5, 6, 7}" by auto
  with format_info_all show ?thesis by (auto simp: format_of_def)
qed

lemma format_table_facts:
  "distinct (concat formatInfo)" "list_all (\<lambda>fmt. take_bit 15 fmt = fmt) (concat formatInfo)"
  by code_simp+

lemma find_distinct: "distinct (map g xs) \<Longrightarrow> x \<in> set xs \<Longrightarrow> find (\<lambda>y. g y = g x) xs = Some x"
  by (induction xs) auto

lemma format_of:
  assumes "l \<le> 3" and "i < 8"
  shows "QRspec_getFormatInfo (int i) l = format_of l i" and "take_bit 15 (format_of l i) = format_of l i"
    and "read_format (format_of l i) = Some (l, i)"
proof -
  show "QRspec_getFormatInfo (int i) l = format_of l i" using format_of_table [OF assms] by simp
  have "map (\<lambda>(l, i). format_of l i) (List.product [0..<4] [0..<8]) =
      map (\<lambda>(l, i). QRspec_getFormatInfo (int i) l) (List.product [0..<4] [0..<8])"
    by (intro map_cong) (auto simp: format_of_table)
  also have "\<dots> = concat formatInfo" by code_simp
  finally have m: "map (\<lambda>(l, i). format_of l i) (List.product [0..<4] [0..<8]) = concat formatInfo" .
  have mem: "(l, i) \<in> set (List.product [0..<4] [0..<8])" using assms by auto
  then have "format_of l i \<in> set (concat formatInfo)" unfolding m [symmetric] by force
  then show "take_bit 15 (format_of l i) = format_of l i" using format_table_facts(2) unfolding list_all_iff by blast
  have "distinct (map (\<lambda>(l, i). format_of l i) (List.product [0..<4] [0..<8]))" unfolding m by (rule format_table_facts)
  from find_distinct [OF this mem] show "read_format (format_of l i) = Some (l, i)"
    by (simp add: read_format_def case_prod_unfold)
qed

lemma read_format_masked:
  assumes "21 \<le> w" and "length f = w * w" and "l \<le> 3" and "i < 8"
  shows "read_format (format_word w (masked_symbol w f l i)) = Some (l, i)"
proof -
  have "dark (masked_symbol w f l i ! idx w (format_pos1 w k)) = bit (format_of l i) k" if "k < 15" for k
    using format_readback(1) [OF assms(1) _ that, of "snd (MASKMAKER (mask_exp i) w f)" "int i" l] format_of(1) [OF assms(3,4)]
    by (simp add: masked_symbol_def dark_format_cell case_prod_unfold idx_def and_one_eq odd_iff_mod_2_eq_one bit_iff_odd_drop_bit)
  then have "map (\<lambda>k. dark (masked_symbol w f l i ! idx w (format_pos1 w k))) [0..<15] = map (bit (format_of l i)) [0..<15]"
    by simp
  then have "format_word w (masked_symbol w f l i) = take_bit 15 (format_of l i)"
    by (simp only: format_word_def horner_sum_bit_eq_take_bit)
  then show ?thesis using format_of [OF assms(3,4)] by simp
qed


lemma format_places_func:
  assumes "1 \<le> v" and "v \<le> 40"
  shows "set (format_places (QRspec_getWidth v)) \<subseteq> func_cells v"
  using width_21 [OF assms] by (auto simp: format_places_def format_pos1_def format_pos2_def func_cells_def Let_def)

lemma length_filled: "length (filled v bits) = QRspec_getWidth v * QRspec_getWidth v"
  by (simp add: filled_def length_frame_template)

lemma path_writes:
  assumes "distinct ps" and "set ps \<subseteq> grid w" and "length vs = length ps" and "length f = w * w"
  defines "g \<equiv> writes f (zip (map (idx w) ps) vs)"
  shows "k < length ps \<Longrightarrow> g ! idx w (ps ! k) = vs ! k"
    and "p \<in> grid w \<Longrightarrow> p \<notin> set ps \<Longrightarrow> g ! idx w p = f ! idx w p"
proof -
  let ?ws = "zip (map (idx w) ps) vs"
  have "inj_on (idx w) (set ps)" using assms(2) by (intro inj_onI) (meson idx_inj subsetD)
  then have dist: "distinct (map fst ?ws)" using assms(1,3) by (simp add: distinct_map)
  show "g ! idx w (ps ! k) = vs ! k" if "k < length ps"
  proof -
    have "idx w (ps ! k) < length f" using idx_less [of "ps ! k" w] that assms(2,4) nth_mem by fastforce
    moreover have "(idx w (ps ! k), vs ! k) \<in> set ?ws"
      using that assms(3) by (auto simp: set_zip intro!: exI [of _ k])
    ultimately show ?thesis using writes_nth_distinct [OF dist] by (simp add: g_def)
  qed
  show "g ! idx w p = f ! idx w p" if p: "p \<in> grid w" "p \<notin> set ps"
  proof -
    have "idx w p \<notin> idx w ` set ps" using idx_inj [of p w] p assms(2) by blast
    then have "idx w p \<notin> fst ` set ?ws" by (auto dest: set_zip_leftD)
    then show ?thesis unfolding g_def
      by (intro writes_nth) (use idx_less [OF p(1)] assms(4) in simp)
  qed
qed

lemma filled_at:
  assumes "1 \<le> v" and "v \<le> 40" and "length bits = length (data_path v)"
  defines "w \<equiv> QRspec_getWidth v"
  shows "k < length bits \<Longrightarrow> filled v bits ! idx w (data_path v ! k) = 2 OR bits ! k"
    and "p \<in> func_cells v \<Longrightarrow> filled v bits ! idx w p = frame_template v ! idx w p"
proof -
  note props = data_path_props [OF assms(1,2), folded w_def]
  have sub: "set (data_path v) \<subseteq> grid w" and len: "length (modules bits) = length (data_path v)"
    "length (frame_template v) = w * w"
    using props(2) assms(3) by (auto simp: length_frame_template w_def)
  note at = path_writes [OF props(1) sub len]
  show "filled v bits ! idx w (data_path v ! k) = 2 OR bits ! k" if "k < length bits"
    using at(1) [of k] that assms(3) by (simp add: filled_def flip: w_def)
  show "filled v bits ! idx w p = frame_template v ! idx w p" if "p \<in> func_cells v"
    using at(2) [of p] that func_cells_grid [OF assms(1,2)] props(2) by (auto simp: filled_def simp flip: w_def)
qed

lemma masked_at:
  assumes "21 \<le> w" and "length f = w * w" and "(y, x) \<in> grid w" and "(y, x) \<notin> set (format_places w)"
  shows "masked_symbol w f l i ! idx w (y, x) = mask_cell (mask_exp i x y) (f ! idx w (y, x))"
  using format_elsewhere [OF assms(1) _ _ _ assms(4)] assms(3)
  by (simp add: masked_symbol_def grid_def MASKMAKER_nth)

lemma dark_module: "b \<in> {0, 1} \<Longrightarrow> of_bool (dark (2 OR b)) = b"
  by (auto simp: dark_def bit_or_iff)

lemma read_bits_masked:
  assumes "1 \<le> v" and "v \<le> 40" and "length bits = length (data_path v)" and "bit_list bits"
  defines "w \<equiv> QRspec_getWidth v"
  shows "read_bits v i (masked_symbol w (filled v bits) l i) = bits"
proof (rule nth_equalityI)
  show "length (read_bits v i (masked_symbol w (filled v bits) l i)) = length bits"
    using assms(3) by (simp add: read_bits_def)
  fix k assume "k < length (read_bits v i (masked_symbol w (filled v bits) l i))"
  then have k: "k < length bits" "k < length (data_path v)" using assms(3) by (simp_all add: read_bits_def)
  obtain y x where yx: "data_path v ! k = (y, x)" by force
  then have mem: "(y, x) \<in> grid w - func_cells v"
    using data_path_props(2) [OF assms(1,2)] k(2) nth_mem [of k "data_path v"] by (simp add: w_def)
  have b: "bits ! k \<in> {0, 1}" using assms(4) k(1) nth_mem unfolding bit_list_def by blast
  have "masked_symbol w (filled v bits) l i ! idx w (y, x) = mask_cell (mask_exp i x y) (2 OR bits ! k)"
    using masked_at [of w "filled v bits" y x l i] width_21 [OF assms(1,2)] length_filled [of v bits] mem
      format_places_func [OF assms(1,2)] filled_at(1) [OF assms(1-3) k(1)] yx by (auto simp: w_def)
  then have "read_bits v i (masked_symbol w (filled v bits) l i) ! k = of_bool (dark (2 OR bits ! k))"
    using k(2) yx dark_mask_cell [OF marked_module [OF b], of "mask_exp i x y"]
    by (simp add: read_bits_def flip: w_def del: idx_simp)
  then show "read_bits v i (masked_symbol w (filled v bits) l i) ! k = bits ! k" by (simp add: dark_module [OF b])
qed

lemma read_symbol_masked:
  assumes "1 \<le> v" and "v \<le> 40" and "l \<le> 3" and "i < 8" and "int (length data) = QRspec_getDataLength v l"
  defines "w \<equiv> QRspec_getWidth v"
  shows "read_symbol w (masked_symbol w (filled v (symbol_bits v l data)) l i) = Some (v, l, i, read_segs v (bytes_bits data))"
proof -
  let ?codes = "symbol_codes (QRspec_getEccSpec v l) data"
  have v: "(int w - 17) div 4 = v" using capacity_modules(2) [OF assms(1,2)] by (simp add: w_def)
  note len = length_symbol_bits [OF assms(1,2,3,5)]
  have bits: "read_bits v i (masked_symbol w (filled v (symbol_bits v l data)) l i) = symbol_bits v l data"
    unfolding w_def by (rule read_bits_masked [OF assms(1,2) len(1) bit_list_symbol_bits])
  have fmt: "read_format (format_word w (masked_symbol w (filled v (symbol_bits v l data)) l i)) = Some (l, i)"
    using width_21 [OF assms(1,2)] assms(3,4) unfolding w_def by (intro read_format_masked) (simp_all add: length_filled)
  have "take (8 * (length (symbol_bits v l data) div 8)) (symbol_bits v l data) = bytes_bits ?codes"
    unfolding len(1) len(2) [symmetric] by (simp add: symbol_bits_def)
  moreover have "int (length data) = QRspec_rsDataLength (QRspec_getEccSpec v l)"
    using ecc_spec_ok [OF assms(1-3)] assms(5) by (simp add: ecc_spec_ok_def Let_def)
  then have "read_codes (QRspec_getEccSpec v l) ?codes = Some data" by (rule read_codes_symbol [OF spec_ok [OF assms(1-3)]])
  ultimately show ?thesis by (simp add: read_symbol_def v fmt bits bs_bytes_bytes_bits)
qed

theorem QRcode_encodeMask_read:
  assumes "input_ok input" and "fits input" and "\<forall>e \<in> set (in_head input). data_ok (en_mode e) (en_data e)"
    and "msk \<noteq> -2" and "msk < 8" and "qr_ok s" and "script s = []"
  shows "\<exists>code i s'. QRcode_encodeMask msk (input, s) = (Inr code, (converted input, s')) \<and> qr_ok s' \<and>
    qr_version code = fst (conversion input) \<and> qr_width code = QRspec_getWidth (qr_version code) \<and>
    length (qr_data code) = qr_width code * qr_width code \<and> (0 \<le> msk \<longrightarrow> int i = msk) \<and>
    read_symbol (qr_width code) (qr_data code) =
      Some (qr_version code, in_level input, i, concat (map (entry_segs (qr_version code)) (in_head input)))"
proof -
  define v l f where "v = fst (conversion input)" and "l = in_level input" and "f = filled v (symbol_bits v l (data_bytes input))"
  have c: "in_level input \<le> 3" "in_version input \<le> 40" using assms(1) by (simp_all add: input_ok_def)
  note fit = conversion_fits [OF assms(2) c, folded v_def]
  from QRcode_encodeMask_symbol [OF assms(1,2,4-7), folded v_def l_def, folded f_def] obtain i s' where
    i: "mask_used msk (QRspec_getWidth v) f l i" "qr_ok s'"
    "QRcode_encodeMask msk (input, s) = (Inr \<lparr>qr_version = v, qr_width = QRspec_getWidth v,
       qr_data = masked_symbol (QRspec_getWidth v) f l i\<rparr>, (converted input, s'))" by blast
  have "i < 8" "0 \<le> msk \<longrightarrow> int i = msk" using i(1) by (auto simp: mask_used_def)
  with read_symbol_masked [OF fit(2,3) c(1) _ length_data_bytes [OF assms(1,2), folded v_def], of i]
    read_data_bytes [OF assms(1-3)] i(2,3) show ?thesis
    by (intro exI [of _ "\<lparr>qr_version = v, qr_width = QRspec_getWidth v, qr_data = masked_symbol (QRspec_getWidth v) f l i\<rparr>"]
        exI [of _ i] exI [of _ s']) (simp add: v_def l_def f_def masked_symbol_def)
qed

subsection \<open>Caches\<close>

lemma QRcode_clearCache_delivers: "delivers qr_ok QRcode_clearCache (Inr ())"
  unfolding QRcode_clearCache_def
  by (intro delivers_bind [of _ _ "()"] qr.free_rs_cache_delivers)
    (auto simp: delivers_def QRspec_clearCache_def MQRspec_clearCache_def qr_ok_def rs_cache_ok_def frames_ok_def)

end
