(* ===== verification/Split_Correct.thy ===== *)
theory Split_Correct
  imports QRencode_Correct
begin

text \<open>
  The parser of \<^verbatim>\<open>split.c\<close>: whatever the costs it compares, the entries it appends are valid and their
  data is the string; with the encoder behind it, the symbol of a string reads back as the string.
\<close>

subsection \<open>Pointers\<close>

lemma isdigit_iff: "isdigit c \<longleftrightarrow> is_digit c"
  by (auto simp: isdigit_def is_digit_def word_le_nat_alt word_less_nat_alt unat_sub_if')

lemma isalnum_iff: "isalnum c \<longleftrightarrow> is_an c"
  by (simp add: isalnum_def is_an_def)

lemma ptr_diff_drop [simp]: "k \<le> length p \<Longrightarrow> length p < 2 ^ 31 \<Longrightarrow> ptr_diff (drop k p) p = int k"
  using int32_length [of k] by (simp add: ptr_diff_def of_nat_diff)

lemma deref_0: "0 \<notin> set p \<Longrightarrow> deref p = 0 \<longleftrightarrow> p = []"
  by (cases p) (auto simp: deref_def)

lemma deref_Cons [simp]: "deref (c # p) = c"
  by (simp add: deref_def)

text \<open>The part of a string between two pointers.\<close>

definition reaches :: "(u8 \<Rightarrow> bool) \<Rightarrow> u8 list \<Rightarrow> u8 list \<Rightarrow> bool" where
  "reaches P p q \<longleftrightarrow> (\<exists>xs. p = xs @ q \<and> list_all P xs)"

lemma reaches_refl [simp]: "reaches P p p"
  by (simp add: reaches_def)

lemma reaches_trans: "reaches P p q \<Longrightarrow> reaches P q r \<Longrightarrow> reaches P p r"
  unfolding reaches_def by (metis append.assoc list_all_append)

lemma reaches_length: "reaches P p q \<Longrightarrow> length q \<le> length p"
  by (auto simp: reaches_def)

lemma reaches_dropWhile: "(\<And>c. Q c \<Longrightarrow> P c) \<Longrightarrow> reaches P p (dropWhile Q p)"
  unfolding reaches_def by (rule exI [of _ "takeWhile Q p"]) (auto simp: list_all_iff dest: set_takeWhileD)

lemma reaches_tl: "p \<noteq> [] \<Longrightarrow> P (deref p) \<Longrightarrow> reaches P p (tl p)"
  by (cases p) (auto simp: reaches_def intro!: exI [of _ "[hd p]"])

lemma digit_an: "isdigit c \<Longrightarrow> isalnum c"
proof -
  have "list_all (\<lambda>n. isalnum (48 + of_nat n)) [0..<10]" by code_simp
  then have all: "isalnum (48 + of_nat n)" if "n < 10" for n using that by (simp add: list_all_iff)
  assume "isdigit c"
  then have "unat (c - 48) < 10" by (simp add: isdigit_def word_less_nat_alt)
  from all [OF this] show ?thesis by simp
qed

lemma eat8_loop_reaches: "reaches (\<lambda>_. True) p (eat8_loop version hint string p)"
proof (induction p rule: measure_induct_rule [of length])
  case (less p)
  note l = eat8_loop.simps [of version hint string p]
  show ?case
  proof (cases "deref p = 0 \<or> Split_identifyMode p hint = QR_MODE_KANJI")
    case True
    then show ?thesis by (subst l) (auto simp: Let_def)
  next
    case False
    then have ne: "p \<noteq> []" by (auto dest: deref_nonzero)
    have step: "reaches (\<lambda>_. True) p (eat8_loop version hint string q)"
      if "reaches (\<lambda>_. True) p q" "length q < length p" for q
      using that(1) less [OF that(2)] by (rule reaches_trans)
    have q: "reaches (\<lambda>_. True) p (dropWhile isdigit p)" "reaches (\<lambda>_. True) p (dropWhile isalnum p)"
      "reaches (\<lambda>_. True) p (tl p)" using ne by (auto intro: reaches_dropWhile reaches_tl)
    show ?thesis
    proof (cases "Split_identifyMode p hint = QR_MODE_NUM")
      case True
      then have "length (dropWhile isdigit p) < length p"
        using ne by (intro length_dropWhile_less identifyMode_num)
      with False True show ?thesis by (subst l) (simp add: Let_def step q)
    next
      case no: False
      have "length (dropWhile isalnum p) < length p" if "Split_identifyMode p hint = QR_MODE_AN"
        using ne identifyMode_an [OF that] by (intro length_dropWhile_less) auto
      moreover have "length (tl p) < length p" using ne by simp
      ultimately show ?thesis using False no by (subst l) (simp add: Let_def step q)
    qed
  qed
qed

lemma eatAn_loop_reaches: "reaches isalnum p (eatAn_loop version string p)"
proof (induction p rule: measure_induct_rule [of length])
  case (less p)
  note l = eatAn_loop.simps [of version string p]
  show ?case
  proof (cases "isalnum (deref p)")
    case True
    then have ne: "p \<noteq> []" using isalnum_0 by (auto simp: deref_def)
    have step: "reaches isalnum p (eatAn_loop version string q)"
      if "reaches isalnum p q" "length q < length p" for q
      using that(1) less [OF that(2)] by (rule reaches_trans)
    have q: "reaches isalnum p (dropWhile isdigit p)" "reaches isalnum p (tl p)"
      using ne True by (auto intro: reaches_dropWhile reaches_tl digit_an)
    have "isdigit (deref p) \<Longrightarrow> length (dropWhile isdigit p) < length p" "length (tl p) < length p"
      using ne by (simp_all add: length_dropWhile_less)
    then show ?thesis using True by (subst l) (simp add: Let_def step q)
  qed (subst l, simp)
qed


subsection \<open>One entry\<close>

text \<open>What one of the functions \<^verbatim>\<open>Split_eat\<close> takes from the front of a string.\<close>

definition eaten :: "QRencodeMode \<Rightarrow> u8 list \<Rightarrow> QRencodeMode \<Rightarrow> nat \<Rightarrow> bool" where
  "eaten hint string mode run \<longleftrightarrow> 0 < run \<and> run \<le> length string \<and>
     (case mode of
        QR_MODE_NUM \<Rightarrow> list_all isdigit (take run string)
      | QR_MODE_AN \<Rightarrow> list_all isalnum (take run string)
      | QR_MODE_8 \<Rightarrow> True
      | QR_MODE_KANJI \<Rightarrow> hint = QR_MODE_KANJI \<and> QRinput_checkModeKanji (int run) string
      | _ \<Rightarrow> False)"

lemma list_all_take: "n \<le> length xs \<Longrightarrow> list_all P (take n xs) \<longleftrightarrow> list_all (\<lambda>i. P (xs ! i)) [0..<n]"
  by (auto simp: list_all_length)

lemma eaten_check: "eaten hint string mode run \<Longrightarrow> QRinput_check mode (int run) string"
  by (cases mode)
    (auto simp: eaten_def QRinput_check_def QRinput_checkModeNum_def QRinput_checkModeAn_def list_all_take
      isdigit_iff is_digit_def isalnum_def not_less not_le)

lemma eaten_reaches:
  assumes "reaches P string q" and "q \<noteq> string"
  obtains run where "0 < run" and "run \<le> length string" and "q = drop run string" and "list_all P (take run string)"
  using assms by (auto simp: reaches_def intro!: that [of "length string - length q"])

text \<open>\<^verbatim>\<open>Split_eat8\<close> skips the first character without looking at it.\<close>

lemma eat8_run:
  assumes "string \<noteq> []"
  obtains run where "0 < run" and "run \<le> length string" and "eat8_loop version hint string (tl string) = drop run string"
proof -
  have "reaches (\<lambda>_. True) string (eat8_loop version hint string (tl string))"
    using reaches_trans [OF reaches_tl eat8_loop_reaches] assms by blast
  moreover have "eat8_loop version hint string (tl string) \<noteq> string"
  proof -
    have "length (eat8_loop version hint string (tl string)) < length string"
      using reaches_length [OF eat8_loop_reaches [of "tl string" version hint string]] assms
      by (metis diff_less le_less_trans length_greater_0_conv length_tl less_one)
    then show ?thesis by auto
  qed
  ultimately show ?thesis by (rule eaten_reaches) (use that in blast)
qed

text \<open>The condition under which \<^verbatim>\<open>Split_eatAn\<close> gets past leading digits.\<close>

definition digits_stay :: "int \<Rightarrow> u8 list \<Rightarrow> bool" where
  "digits_stay version string \<longleftrightarrow>
     (let n = ptr_diff (dropWhile isdigit string) string; ln = QRspec_lengthIndicator QR_MODE_NUM version
      in QRinput_estimateBitsModeAn n \<le> QRinput_estimateBitsModeNum n + 4 + ln +
           (if isalnum (deref (dropWhile isdigit string)) then 4 + ln else 0))"

lemma eatAn_run:
  assumes "isalnum (deref string)" and "isdigit (deref string) \<Longrightarrow> digits_stay version string"
  obtains run where "0 < run" and "run \<le> length string" and "eatAn_loop version string string = drop run string"
    and "list_all isalnum (take run string)"
proof -
  have ne: "string \<noteq> []" using assms(1) isalnum_0 by (auto simp: deref_def)
  define q where "q = (if isdigit (deref string) then dropWhile isdigit string else tl string)"
  have "QRinput_estimateBitsModeAn 0 = 0" "ptr_diff string string = 0"
    by (simp_all add: QRinput_estimateBitsModeAn_def ptr_diff_def int32_id)
  then have "eatAn_loop version string string = eatAn_loop version string q"
    using assms by (subst eatAn_loop.simps) (auto simp: q_def digits_stay_def Let_def)
  moreover have "length q < length string" using ne by (simp add: q_def length_dropWhile_less)
  moreover have "length (eatAn_loop version string q) \<le> length q"
    by (rule reaches_length [OF eatAn_loop_reaches])
  ultimately have "eatAn_loop version string string \<noteq> string" by auto
  then show ?thesis using eaten_reaches [OF eatAn_loop_reaches] that by blast
qed

abbreviation no_kanji :: "u32 \<Rightarrow> bool" where
  "no_kanji val \<equiv> val < 0x8140 \<or> (val > 0x9ffc \<and> val < 0xe040) \<or> val > 0xebbf"

lemma identifyMode_kanji:
  assumes "Split_identifyMode p hint = QR_MODE_KANJI"
  shows "hint = QR_MODE_KANJI" and "2 \<le> length p"
    and "\<not> no_kanji (kanji_val (p ! 0) (p ! 1))"
proof -
  obtain c d q where p: "p = c # d # q"
    using assms by (cases p; cases "tl p") (auto simp: Split_identifyMode_def Let_def deref_def split: if_splits)
  with assms show "hint = QR_MODE_KANJI" "2 \<le> length p"
    "\<not> no_kanji (kanji_val (p ! 0) (p ! 1))"
    by (auto simp: Split_identifyMode_def Let_def deref_def word_le_nat_alt word_less_nat_alt split: if_splits)
qed

lemma checkModeKanji_step:
  assumes "QRinput_checkModeKanji (int (2 * k)) (drop 2 p)"
    and "\<not> no_kanji (kanji_val (p ! 0) (p ! 1))" and "2 * Suc k \<le> length p"
  shows "QRinput_checkModeKanji (int (2 * Suc k)) p"
proof -
  have "[0..<Suc k] = 0 # map Suc [0..<k]" by (simp add: upt_conv_Cons map_Suc_upt del: upt_Suc)
  moreover have "nat (int (2 * n)) div 2 = n" for n by simp
  ultimately show ?thesis using assms
    by (simp add: QRinput_checkModeKanji_def list.pred_map comp_def Let_def del: upt_Suc of_nat_mult of_nat_Suc)
qed

lemma eatKanji_loop_drop:
  obtains k where "eatKanji_loop hint p = drop (2 * k) p" and "2 * k \<le> length p"
    and "QRinput_checkModeKanji (int (2 * k)) p"
proof -
  have "\<exists>k. eatKanji_loop hint p = drop (2 * k) p \<and> 2 * k \<le> length p \<and> QRinput_checkModeKanji (int (2 * k)) p"
  proof (induction p rule: measure_induct_rule [of length])
    case (less p)
    show ?case
    proof (cases "Split_identifyMode p hint = QR_MODE_KANJI")
      case True
      note m = identifyMode_kanji [OF True]
      have "length (drop 2 p) < length p" using m(2) by simp
      from less [OF this] obtain k where "eatKanji_loop hint (drop 2 p) = drop (2 * k) (drop 2 p)"
        "2 * k \<le> length (drop 2 p)" "QRinput_checkModeKanji (int (2 * k)) (drop 2 p)" by blast
      with m True checkModeKanji_step [of k p] show ?thesis
        by (intro exI [of _ "Suc k"]) (subst eatKanji_loop.simps, simp)
    qed (auto simp: QRinput_checkModeKanji_def eatKanji_loop.simps [of hint p] intro!: exI [of _ 0])
  qed
  with that show ?thesis by blast
qed

lemma estimateAn_Suc:
  assumes "0 \<le> n"
  shows "QRinput_estimateBitsModeAn n + 5 \<le> QRinput_estimateBitsModeAn (n + 1)"
  using assms by (auto simp: QRinput_estimateBitsModeAn_def sdiv_nonneg Let_def)


text \<open>An input whose \<^verbatim>\<open>tail\<close> points to the last entry, and the input with one more entry.\<close>

definition tail_ok :: "QRinput \<Rightarrow> bool" where
  "tail_ok input \<longleftrightarrow> in_tail input = (in_head input \<noteq> [])"

definition extended :: "QRinput \<Rightarrow> QRinput_List list \<Rightarrow> QRinput" where
  "extended input es = input\<lparr>in_head := in_head input @ es, in_tail := in_tail input \<or> es \<noteq> []\<rparr>"

lemma extended_simps [simp]: "extended input [] = input" "extended (extended input es) es' = extended input (es @ es')"
  "tail_ok input \<Longrightarrow> tail_ok (extended input es)" "in_version (extended input es) = in_version input"
  by (auto simp: extended_def tail_ok_def)

context heap_invariant
begin

lemma QRinput_append_delivers:
  assumes "QRinput_check mode sz data" and "sz \<le> int (length data)" and "tail_ok input"
  shows "delivers I (QRinput_append input mode sz data) (Inr (extended input [new_entry mode sz data]))"
proof -
  have "QRinput_appendEntry input (new_entry mode sz data) = extended input [new_entry mode sz data]"
    using assms(3) by (auto simp: QRinput_appendEntry_def extended_def tail_ok_def)
  then show ?thesis unfolding QRinput_append_def
    by (intro delivers_bind [OF QRinput_List_newEntry_delivers [OF assms(1,2)]] delivers_ret_eq) simp
qed

text \<open>A function that takes an entry from the front of the string and appends it to the input.\<close>

definition eats :: "(QRinput, 'z heap_scheme, int) OM \<Rightarrow> QRinput \<Rightarrow> QRencodeMode \<Rightarrow> u8 list \<Rightarrow> bool" where
  "eats f input hint string \<longleftrightarrow> (\<exists>mode run. eaten hint string mode run \<and>
     acts I f input (Inr (int run)) (extended input [new_entry mode (int run) string]))"

lemma append_entry_eats:
  assumes "eaten hint string mode run" and "tail_ok input"
  shows "eats (append_entry mode (int run) string) input hint string"
proof -
  have "int run \<le> int (length string)" using assms(1) by (simp add: eaten_def)
  then have "acts I (append_entry mode (int run) string) input (Inr (int run)) (extended input [new_entry mode (int run) string])"
    unfolding append_entry_def
    by (intro acts_get_then acts_lift_then [OF delivers_runs [OF QRinput_append_delivers]] acts_put_then acts_ret
          eaten_check [OF assms(1)] assms(2) refl) assumption
  with assms(1) show ?thesis unfolding eats_def by blast
qed

lemma eatsI:
  assumes "eats g input hint string" and "\<And>s. f (input, s) = g (input, s)"
  shows "eats f input hint string"
  using assms by (simp add: eats_def acts_def)

lemma eats_if:
  assumes "\<And>s. f (input, s) = (if C then g else h) (input, s)"
    and "C \<Longrightarrow> eats g input hint string" and "\<not> C \<Longrightarrow> eats h input hint string"
  shows "eats f input hint string"
  using assms by (cases C) (auto intro: eatsI)

lemma eat8_eats:
  assumes "string \<noteq> []" and "tail_ok input" and "length string < 2 ^ 31"
  shows "eats (Split_eat8 string hint) input hint string"
proof -
  obtain run where "0 < run" "run \<le> length string" "eat8_loop (in_version input) hint string (tl string) = drop run string"
    by (rule eat8_run [OF assms(1)])
  with assms(3) have "eaten hint string QR_MODE_8 run"
    "Split_eat8 string hint (input, s) = append_entry QR_MODE_8 (int run) string (input, s)" for s
    by (simp_all add: eaten_def Split_eat8_def bindM_def getO_def Let_def)
  then show ?thesis using append_entry_eats assms(2) by (blast intro: eatsI)
qed

lemma eatAn_eats:
  assumes "isalnum (deref string)" and "isdigit (deref string) \<Longrightarrow> digits_stay (in_version input) string" and "tail_ok input"
    and "length string < 2 ^ 31"
  shows "eats (Split_eatAn string hint) input hint string"
proof -
  have ne: "string \<noteq> []" using assms(1) isalnum_0 by (auto simp: deref_def)
  obtain run where r: "0 < run" "run \<le> length string" "eatAn_loop (in_version input) string string = drop run string"
    "list_all isalnum (take run string)" by (rule eatAn_run [OF assms(1,2)])
  then have e: "eaten hint string QR_MODE_AN run" by (simp add: eaten_def)
  have "Split_eatAn string hint (input, s) =
      (if deref (drop run string) \<noteq> 0 \<and> \<not> isalnum (deref (drop run string)) \<and>
          QRinput_estimateBitsModeAn (int run) + 4 + QRspec_lengthIndicator QR_MODE_AN (in_version input)
            + QRinput_estimateBitsMode8 1 - QRinput_estimateBitsMode8 (int run + 1) > 0
       then Split_eat8 string hint else append_entry QR_MODE_AN (int run) string) (input, s)" for s
    using r assms(4) by (simp add: Split_eatAn_def bindM_def getO_def Let_def)
  then show ?thesis
    by (rule eats_if) (rule eat8_eats [OF ne assms(3,4)], rule append_entry_eats [OF e assms(3)])
qed

lemma eatNum_eats:
  assumes "isdigit (deref string)" and "tail_ok input" and "length string < 2 ^ 31"
  shows "eats (Split_eatNum string hint) input hint string"
proof -
  have ne: "string \<noteq> []" using assms(1) by (auto simp: deref_def isdigit_def)
  let ?q = "dropWhile isdigit string" and ?ln = "QRspec_lengthIndicator QR_MODE_NUM (in_version input)"
  have "?q \<noteq> string" using length_dropWhile_less [OF ne, of isdigit] assms(1) by (metis less_irrefl)
  then obtain run where r: "0 < run" "run \<le> length string" "?q = drop run string" "list_all isdigit (take run string)"
    using eaten_reaches [OF reaches_dropWhile [of isdigit isdigit]] by blast
  then have e: "eaten hint string QR_MODE_NUM run" by (simp add: eaten_def)
  let ?C8 = "Split_identifyMode ?q hint = QR_MODE_8 \<and>
      QRinput_estimateBitsModeNum (int run) + 4 + ?ln + QRinput_estimateBitsMode8 1 - QRinput_estimateBitsMode8 (int run + 1) > 0"
  let ?CA = "Split_identifyMode ?q hint = QR_MODE_AN \<and>
      QRinput_estimateBitsModeNum (int run) + 4 + ?ln + QRinput_estimateBitsModeAn 1 - QRinput_estimateBitsModeAn (int run + 1) > 0"
  have an: "eats (Split_eatAn string hint) input hint string" if ?CA
  proof (rule eatAn_eats)
    have "QRinput_estimateBitsModeAn 1 = 6" by (simp add: QRinput_estimateBitsModeAn_def sdiv_nonneg)
    with that estimateAn_Suc [of "int run"] lengthIndicator_bounds(1) [of QR_MODE_NUM "in_version input"]
    have "QRinput_estimateBitsModeAn (int run) \<le> QRinput_estimateBitsModeNum (int run) + 4 + ?ln + (4 + ?ln)" by simp
    moreover have "isalnum (deref ?q)" using that identifyMode_an by blast
    ultimately show "digits_stay (in_version input) string" using r assms(3) by (simp add: digits_stay_def Let_def)
  qed (use assms digit_an in auto)
  have "Split_eatNum string hint (input, s) =
      (if ?C8 then Split_eat8 string hint else if ?CA then Split_eatAn string hint
       else append_entry QR_MODE_NUM (int run) string) (input, s)" for s
    using r assms(3) by (simp add: Split_eatNum_def bindM_def getO_def Let_def)
  moreover have "eats (if ?CA then Split_eatAn string hint else append_entry QR_MODE_NUM (int run) string) input hint string"
    using an append_entry_eats [OF e assms(2)] by (simp only: split: if_split) blast
  ultimately show ?thesis by (rule eats_if [OF _ eat8_eats [OF ne assms(2,3)]])
qed

lemma eatKanji_eats:
  assumes "Split_identifyMode string hint = QR_MODE_KANJI" and "tail_ok input" and "length string < 2 ^ 31"
  shows "eats (Split_eatKanji string hint) input hint string"
proof -
  obtain k where k: "eatKanji_loop hint string = drop (2 * k) string" "2 * k \<le> length string"
    "QRinput_checkModeKanji (int (2 * k)) string" by (rule eatKanji_loop_drop)
  have "k \<noteq> 0"
  proof
    assume "k = 0"
    with k(1) have "eatKanji_loop hint string = string" by simp
    moreover have "eatKanji_loop hint string = eatKanji_loop hint (drop 2 string)"
      using assms(1) by (subst eatKanji_loop.simps) simp
    moreover obtain j where "eatKanji_loop hint (drop 2 string) = drop (2 * j) (drop 2 string)" by (rule eatKanji_loop_drop)
    ultimately have "length string = length string - 2 - 2 * j" by (metis length_drop)
    then show False using identifyMode_kanji(2) [OF assms(1)] by simp
  qed
  with k identifyMode_kanji(1) [OF assms(1)] have e: "eaten hint string QR_MODE_KANJI (2 * k)"
    by (simp add: eaten_def)
  have "Split_eatKanji string hint (input, s) = append_entry QR_MODE_KANJI (int (2 * k)) string (input, s)" for s
    using k assms(3) ptr_diff_drop [of "2 * k" string] by (simp add: Split_eatKanji_def Let_def)
  then show ?thesis using append_entry_eats [OF e assms(2)] by (rule eatsI [rotated])
qed

end

subsection \<open>The whole string\<close>

text \<open>A list of entries that is a correct split of a string.\<close>

definition split_of :: "QRencodeMode \<Rightarrow> u8 list \<Rightarrow> QRinput_List list \<Rightarrow> bool" where
  "split_of hint string es \<longleftrightarrow> concat (map en_data es) = string \<and>
     (\<forall>e \<in> set es. entry_ok e \<and> en_bstream e = None \<and>
        (en_mode e \<in> {QR_MODE_NUM, QR_MODE_AN, QR_MODE_8} \<and> data_ok (en_mode e) (en_data e) \<or>
         en_mode e = QR_MODE_KANJI \<and> hint = QR_MODE_KANJI))"

lemma split_of_Cons:
  assumes "eaten hint string mode run" and "split_of hint (drop run string) es"
  shows "split_of hint string (new_entry mode (int run) string # es)"
proof -
  have "entry_ok (new_entry mode (int run) string)"
    using eaten_check [OF assms(1)] assms(1) check_prefix [of mode "int run" string]
    by (auto simp: entry_ok_def new_entry_def eaten_def)
  moreover have "mode \<in> {QR_MODE_NUM, QR_MODE_AN, QR_MODE_8} \<and> data_ok mode (take run string) \<or>
      mode = QR_MODE_KANJI \<and> hint = QR_MODE_KANJI"
    using assms(1) by (cases mode) (auto simp: eaten_def data_ok_def isdigit_iff [abs_def] isalnum_iff [abs_def])
  ultimately show ?thesis using assms(2) by (auto simp: split_of_def new_entry_def)
qed

context heap_invariant
begin

lemma splitString_acts:
  assumes "0 \<notin> set string" and "tail_ok input" and "length string < 2 ^ 31"
  shows "\<exists>es. split_of hint string es \<and> acts I (Split_splitString string hint) input (Inr ()) (extended input es)"
  using assms
proof (induction string arbitrary: input rule: measure_induct_rule [of length])
  case (less string)
  show ?case
  proof (cases "string = []")
    case True
    then show ?thesis
      by (intro exI [of _ "[]"]) (subst Split_splitString.simps, simp add: split_of_def deref_def acts_ret del: retM_apply)
  next
    case False
    let ?mode = "Split_identifyMode string hint"
    let ?eat = "if ?mode = QR_MODE_NUM then Split_eatNum string hint
       else if ?mode = QR_MODE_AN then Split_eatAn string hint
       else if ?mode = QR_MODE_KANJI \<and> hint = QR_MODE_KANJI then Split_eatKanji string hint
       else Split_eat8 string hint"
    have "eats (Split_eatAn string hint) input hint string" if "?mode = QR_MODE_AN"
      using identifyMode_an [OF that] less.prems(2,3) by (intro eatAn_eats) auto
    then have "eats ?eat input hint string"
      using eatNum_eats [OF identifyMode_num less.prems(2,3)] eatKanji_eats [OF _ less.prems(2,3)]
        eat8_eats [OF False less.prems(2,3)] by auto
    then obtain mode run where e: "eaten hint string mode run"
      and a: "acts I ?eat input (Inr (int run)) (extended input [new_entry mode (int run) string])"
      unfolding eats_def by blast
    have run: "0 < run" "run \<le> length string" using e by (simp_all add: eaten_def)
    have "length (drop run string) < length string" using run by simp
    moreover have "0 \<notin> set (drop run string)" using less.prems(1) by (meson in_set_dropD)
    moreover have "tail_ok (extended input [new_entry mode (int run) string])" using less.prems(2) by simp
    moreover have "length (drop run string) < 2 ^ 31" using less.prems(3) by simp
    ultimately obtain es where es: "split_of hint (drop run string) es"
      "acts I (Split_splitString (drop run string) hint) (extended input [new_entry mode (int run) string]) (Inr ())
         (extended (extended input [new_entry mode (int run) string]) es)" using less.IH by blast
    have "acts I (Split_splitString string hint) input (Inr ()) (extended input (new_entry mode (int run) string # es))"
      using acts_bind [OF a, of _ "Inr ()"] es(2) run False less.prems(1)
      by (subst Split_splitString.simps) (simp add: deref_0 Let_def)
    with split_of_Cons [OF e es(1)] show ?thesis by blast
  qed
qed

end

subsection \<open>Upper case\<close>

definition upper :: "u8 \<Rightarrow> u8" where
  "upper c = (if 97 \<le> c \<and> c \<le> 122 then c - 32 else c)"

lemma upper_nonzero: "c \<noteq> 0 \<Longrightarrow> upper c \<noteq> 0"
  by (auto simp: upper_def)

lemma toUpper_loop_8: "0 \<notin> set p \<Longrightarrow> toUpper_loop QR_MODE_8 p = map upper p"
proof (induction p)
  case (Cons c p)
  have "Split_identifyMode (c # p) QR_MODE_8 \<noteq> QR_MODE_KANJI" by (simp add: Split_identifyMode_def Let_def)
  with Cons show ?case by (subst toUpper_loop.simps) (simp add: upper_def)
qed (simp add: toUpper_loop.simps deref_def)

lemma length_toUpper_loop: "length (toUpper_loop hint p) = length p"
proof (induction hint p rule: toUpper_loop.induct)
  case (1 hint p)
  then show ?case using identifyMode_kanji(2) [of p hint] deref_nonzero [of p]
    by (subst toUpper_loop.simps) (auto simp: length_greater_0_conv [symmetric] simp del: length_greater_0_conv)
qed

lemma toUpper_loop_nonzero: "0 \<notin> set p \<Longrightarrow> 0 \<notin> set (toUpper_loop hint p)"
proof (induction hint p rule: toUpper_loop.induct)
  case (1 hint p)
  have "0 \<notin> set (drop 2 p)" "0 \<notin> set (tl p)" "0 \<notin> set (take 2 p)"
    using "1.prems" by (auto dest: in_set_dropD in_set_takeD) (metis list.set_sel(2) list.sel(2))
  then show ?case using 1 upper_nonzero [of "deref p", unfolded upper_def]
    by (subst toUpper_loop.simps) auto
qed

text \<open>The text that is split: the string itself, or its copy in upper case.\<close>

definition split_text :: "QRencodeMode \<Rightarrow> bool \<Rightarrow> u8 list \<Rightarrow> u8 list" where
  "split_text hint casesensitive string = (if casesensitive then string else toUpper_loop hint string)"

lemma split_text_facts:
  "length (split_text hint casesensitive string) = length string"
  "0 \<notin> set string \<Longrightarrow> 0 \<notin> set (split_text hint casesensitive string)"
  by (simp_all add: split_text_def length_toUpper_loop toUpper_loop_nonzero)

lemma split_text_8:
  "0 \<notin> set string \<Longrightarrow> split_text QR_MODE_8 casesensitive string = (if casesensitive then string else map upper string)"
  by (simp add: split_text_def toUpper_loop_8)

subsection \<open>Strings\<close>

lemma length_payload:
  assumes "mode \<in> {QR_MODE_NUM, QR_MODE_AN, QR_MODE_8}"
  shows "length (payload mode data) \<le> 8 * length data"
proof -
  have "int (length (enc_num data)) \<le> 8 * int (length data)" unfolding length_enc_num
    by (auto simp: QRinput_estimateBitsModeNum_def sdiv_nonneg Let_def)
  moreover have "int (length (enc_an data)) \<le> 8 * int (length data)" unfolding length_enc_an
    by (auto simp: QRinput_estimateBitsModeAn_def sdiv_nonneg Let_def elim!: oddE)
  ultimately show ?thesis using assms by (auto simp: payload_def)
qed

lemma length_enc_seg:
  assumes "mode \<in> {QR_MODE_NUM, QR_MODE_AN, QR_MODE_8}"
  shows "length (enc_seg version False mode data) \<le> 20 + 8 * length data"
  using length_payload [OF assms, of data] lengthIndicator_bounds [of mode version] assms
  by (auto simp: enc_seg_def seg_header_def)


lemma length_chunk_segs:
  assumes "mode \<in> {QR_MODE_NUM, QR_MODE_AN, QR_MODE_8}" and "data \<noteq> []"
  shows "length (concat (map (enc_seg version False mode) (chunks n data))) \<le> 28 * length data"
  using assms(2)
proof (induction n data rule: chunks.induct)
  case (1 n xs)
  have c: "length (enc_seg version False mode xs) \<le> 28 * length xs" if "xs \<noteq> []" for xs
    using length_enc_seg [OF assms(1), of version xs] that by (cases xs) auto
  show ?case
  proof (cases "n = 0 \<or> length xs \<le> n")
    case True
    with c [OF "1.prems"] show ?thesis by (subst chunks.simps) simp
  next
    case False
    then have "drop n xs \<noteq> []" "take n xs \<noteq> []" by auto
    moreover have "28 * length xs = 28 * n + 28 * (length xs - n)"
      using False add_mult_distrib2 [of 28 n "length xs - n"] by simp
    ultimately show ?thesis using "1.IH" [OF False] c [of "take n xs"] False by (subst chunks.simps) simp
  qed
qed

lemma length_enc_split:
  assumes "split_of QR_MODE_8 string es"
  shows "length (enc_entries version False es) \<le> 28 * length string"
proof -
  have "length (enc_entry version False (en_mode e) (en_data e)) \<le> 28 * length (en_data e)" if "e \<in> set es" for e
  proof -
    have "en_mode e \<in> {QR_MODE_NUM, QR_MODE_AN, QR_MODE_8}" "entry_ok e" using assms that by (auto simp: split_of_def)
    moreover from this(2) have "en_data e \<noteq> []" using QRinput_check_pos by (auto simp: entry_ok_def) fastforce
    ultimately show ?thesis unfolding enc_entry_def by (intro length_chunk_segs)
  qed
  then have "length (enc_entries version False es) \<le> (\<Sum>e\<leftarrow>es. 28 * length (en_data e))"
    by (induction es) (auto intro: add_mono)
  also have "\<dots> = 28 * length (concat (map en_data es))"
    by (induction es) auto
  finally show ?thesis using assms by (simp add: split_of_def)
qed

lemma concat_entry_segs: "concat (map snd (concat (map (entry_segs version) es))) = concat (map en_data es)"
  by (induction es) (simp_all add: entry_segs_def comp_def)

lemma dataLength_40: "l \<le> 3 \<Longrightarrow> 1276 \<le> QRspec_getDataLength 40 l"
  by (rule all_levels [of "\<lambda>l. 1276 \<le> QRspec_getDataLength 40 l"]) (simp_all add: qrspec_tables)

definition fresh :: "int \<Rightarrow> QRecLevel \<Rightarrow> QRinput" where
  "fresh version level = \<lparr>in_version = version, in_level = level, in_head = [], in_tail = False,
     in_mqr = False, in_fnc1 = 0, in_appid = 0\<rparr>"

lemma QRinput_new2_delivers:
  assumes "0 \<le> version" and "version \<le> 40" and "level \<le> 3"
  shows "delivers qr_ok (QRinput_new2 version level) (Inr (fresh version level))"
  using assms unfolding QRinput_new2_def fresh_def by (auto intro!: qr.malloc_then delivers_ret_eq)

text \<open>The input that holds the split of a text.\<close>

lemma split_input_valid:
  assumes "split_of hint text es" and "0 \<le> version" and "version \<le> 40" and "level \<le> 3"
  shows "input_ok (extended (fresh version level) es)"
proof -
  have h: "in_head (extended (fresh version level) es) = es" by (simp add: extended_def fresh_def)
  show ?thesis using assms
    by (auto simp: input_ok_def h split_of_def entries_ok_def mode_ok_def mode_ids_def) (auto simp: extended_def fresh_def)
qed

lemma split_input_ok:
  assumes "split_of QR_MODE_8 text es" and "0 \<le> version" and "version \<le> 40" and "level \<le> 3"
  defines "input \<equiv> extended (fresh version level) es"
  shows "input_ok input" and "\<forall>e \<in> set (in_head input). data_ok (en_mode e) (en_data e)"
    and "in_head input = es" and "in_level input = level" and "in_version input = version"
    and "length text \<le> 364 \<Longrightarrow> fits input"
proof -
  show h: "in_head input = es" "in_level input = level" "in_version input = version"
    by (simp_all add: input_def extended_def fresh_def)
  show "\<forall>e \<in> set (in_head input). data_ok (en_mode e) (en_data e)" using assms(1) by (auto simp: h split_of_def)
  show "input_ok input" unfolding input_def using assms(1-4) by (rule split_input_valid)
  show "fits input" if "length text \<le> 364"
  proof (rule ccontr)
    assume "\<not> fits input"
    from conversion_fails [OF this, of 40] dataLength_40 [OF assms(4)] assms(3,4)
      length_enc_split [OF assms(1), of "fst (conversion input)"] that h show False by simp
  qed
qed

lemma QRcode_encodeMask_range:
  assumes "input_ok input" and "\<not> fits input" and "qr_ok s" and "script s = []"
  shows "\<exists>s'. QRcode_encodeMask msk (input, s) = (Inl ERANGE, (converted input, s'))"
proof -
  from qr.QRraw_new_acts [OF assms(1)] assms(2-4) obtain s1 where "QRraw_new (input, s) = (Inl ERANGE, (converted input, s1))"
    by (auto simp: acts_def)
  moreover have "\<not> in_mqr input" "0 \<le> in_version input" "in_version input \<le> 40" "in_level input \<le> 3"
    using assms(1) by (simp_all add: input_ok_def)
  ultimately show ?thesis unfolding QRcode_encodeMask_parts by (simp add: bindM_def getO_def)
qed

lemma splitStringToQRinput_acts:
  assumes "string \<noteq> []" and "0 \<notin> set string" and "length string < 2 ^ 31"
  shows "\<exists>es. split_of hint (split_text hint casesensitive string) es \<and>
    acts (qr_ok :: 'z qr_heap_scheme \<Rightarrow> bool) (Split_splitStringToQRinput (Some string) hint casesensitive) (fresh version level) (Inr ())
      (extended (fresh version level) es)"
proof -
  let ?text = "split_text hint casesensitive string"
  have "length ?text < 2 ^ 31" "0 \<notin> set ?text" using assms(2,3) by (simp_all add: split_text_facts)
  moreover have "tail_ok (fresh version level)" by (simp add: tail_ok_def fresh_def)
  ultimately obtain es where es: "split_of hint ?text es"
    "acts (qr_ok :: 'z qr_heap_scheme \<Rightarrow> bool) (Split_splitString ?text hint) (fresh version level) (Inr ()) (extended (fresh version level) es)"
    using qr.splitString_acts by blast
  have "runs (qr_ok :: 'z qr_heap_scheme \<Rightarrow> bool) (dupAndToUpper string hint) (Inr (toUpper_loop hint string))"
    unfolding dupAndToUpper_def by (intro delivers_runs qr.malloc_then delivers_ret_eq) simp
  with es assms(1,2) show ?thesis
    by (intro exI [of _ es]) (auto simp: Split_splitStringToQRinput_def split_text_def deref_0 intro: acts_lift_then)
qed

text \<open>\<^verbatim>\<open>QRcode_encodeString\<close> encodes the input that holds the split of the text.\<close>

lemma QRcode_encodeString_input:
  fixes s :: "'z qr_heap_scheme"
  assumes "string \<noteq> []" and "0 \<notin> set string" and "length string < 2 ^ 31"
    and "0 \<le> version" and "version \<le> 40" and "level \<le> 3" and "hint \<in> {QR_MODE_8, QR_MODE_KANJI}"
    and "qr_ok s" and "script s = []"
  obtains es s' where "split_of hint (split_text hint casesensitive string) es" and "qr_ok s'" and "script s' = []"
    and "QRcode_encodeString (Some string) version level hint casesensitive s =
      evalO (QRcode_encodeMask (-1)) (extended (fresh version level) es) s'"
proof -
  obtain es where es: "split_of hint (split_text hint casesensitive string) es"
    "acts (qr_ok :: 'z qr_heap_scheme \<Rightarrow> bool) (Split_splitStringToQRinput (Some string) hint casesensitive) (fresh version level) (Inr ())
       (extended (fresh version level) es)" using splitStringToQRinput_acts [OF assms(1-3)] by blast
  define input where "input = extended (fresh version level) es"
  obtain s1 where s1: "QRinput_new2 version level s = (Inr (fresh version level), s1)" "qr_ok s1" "script s1 = []"
    using QRinput_new2_delivers [OF assms(4-6)] assms(8,9) by (auto simp: delivers_def prod_eq_iff)
  obtain s2 where s2: "Split_splitStringToQRinput (Some string) hint casesensitive (fresh version level, s1) = (Inr (), (input, s2))"
    "qr_ok s2" "script s2 = []" using es(2) s1(2,3) unfolding acts_def input_def by blast
  have "\<not> in_mqr input" by (simp add: input_def extended_def fresh_def)
  then have "QRcode_encodeString (Some string) version level hint casesensitive s =
      evalO (QRcode_encodeMask (-1)) input s2"
    using s1(1) s2(1) assms(7) by (auto simp: QRcode_encodeString_def QRcode_encodeStringReal_def bindM_def evalO_def
        QRcode_encodeInput_def getO_def split: prod.split)
  with that es(1) s2(2,3) show ?thesis unfolding input_def by blast
qed

theorem QRcode_encodeString_read:
  fixes s :: "'z qr_heap_scheme"
  assumes "string \<noteq> []" and "0 \<notin> set string" and "length string < 2 ^ 31"
    and "0 \<le> version" and "version \<le> 40" and "level \<le> 3"
    and "qr_ok s" and "script s = []" and up: "text = (if casesensitive then string else map upper string)"
  shows "(\<exists>code i segs s'. QRcode_encodeString (Some string) version level QR_MODE_8 casesensitive s = (Inr code, s') \<and>
      qr_ok s' \<and> version \<le> qr_version code \<and>
      read_symbol (qr_width code) (qr_data code) = Some (qr_version code, level, i, segs) \<and>
      concat (map snd segs) = text) \<or>
    (\<exists>s'. QRcode_encodeString (Some string) version level QR_MODE_8 casesensitive s = (Inl ERANGE, s') \<and> 364 < length string)"
proof -
  have tx: "split_text QR_MODE_8 casesensitive string = text" using split_text_8 [OF assms(2)] up by simp
  obtain es s2 where es: "split_of QR_MODE_8 text es" and s2: "qr_ok s2" "script s2 = []"
    and enc0: "QRcode_encodeString (Some string) version level QR_MODE_8 casesensitive s =
      evalO (QRcode_encodeMask (-1)) (extended (fresh version level) es) s2"
    using QRcode_encodeString_input [OF assms(1-6) _ assms(7,8), of QR_MODE_8 casesensitive] unfolding tx by blast
  define input where "input = extended (fresh version level) es"
  note ok = split_input_ok [OF es assms(4-6), folded input_def]
  have enc: "QRcode_encodeString (Some string) version level QR_MODE_8 casesensitive s =
      (case QRcode_encodeMask (-1) (input, s2) of (r, (_, s')) \<Rightarrow> (r, s'))"
    unfolding enc0 input_def evalO_def ..
  have len: "length text = length string" using up by simp
  show ?thesis
  proof (cases "fits input")
    case True
    have "concat (map snd (concat (map (entry_segs v) (in_head input)))) = text" for v
      using es by (simp add: concat_entry_segs ok(3) split_of_def)
    moreover have "version \<le> fst (conversion input)" using conversion_fits(1) [OF True] ok(4,5) assms(5,6) by simp
    ultimately show ?thesis
      using QRcode_encodeMask_read [OF ok(1) True ok(2) _ _ s2, of "-1"] unfolding enc ok(4) by fastforce
  next
    case False
    have "364 < length string"
    proof (rule ccontr)
      assume "\<not> 364 < length string"
      then show False using ok(6) False len by simp
    qed
    with QRcode_encodeMask_range [OF ok(1) False s2, of "-1"] show ?thesis unfolding enc by auto
  qed
qed

end
