(* ===== verification/Struct_Correct.thy ===== *)
theory Struct_Correct
  imports Split_Correct
begin

text \<open>
  Structured append of \<^verbatim>\<open>qrinput.c\<close>: the sizes that \<^verbatim>\<open>QRinput_lengthOfCode\<close> gives fit, the split of an input
  ends, keeps every byte in its mode and order, and never overfills a symbol; the headers number
  the symbols and carry the parity of the data.
\<close>

subsection \<open>Sizes\<close>

text \<open>The number of payload bits of a size in bytes, as the estimate computes it.\<close>

definition est :: "QRencodeMode \<Rightarrow> int \<Rightarrow> int" where
  "est mode sz = (case mode of
       QR_MODE_NUM \<Rightarrow> QRinput_estimateBitsModeNum sz
     | QR_MODE_AN \<Rightarrow> QRinput_estimateBitsModeAn sz
     | QR_MODE_KANJI \<Rightarrow> QRinput_estimateBitsModeKanji sz
     | _ \<Rightarrow> QRinput_estimateBitsMode8 sz)"

lemmas est_defs = est_def QRinput_estimateBitsModeNum_def QRinput_estimateBitsModeAn_def
  QRinput_estimateBitsModeKanji_def QRinput_estimateBitsMode8_def sdiv_nonneg Let_def

definition simple :: "QRinput_List \<Rightarrow> bool" where
  "simple e \<longleftrightarrow> entry_ok e \<and> QRinput_isSplittableMode (en_mode e)"

lemma simple_facts:
  assumes "simple e"
  shows "en_size e = int (length (en_data e))" and "0 < en_size e" and "QRinput_check (en_mode e) (en_size e) (en_data e)"
    and "QRinput_isSplittableMode (en_mode e)" and "en_mode e = QR_MODE_KANJI \<Longrightarrow> even (length (en_data e))"
proof -
  show c: "en_size e = int (length (en_data e))" "QRinput_check (en_mode e) (en_size e) (en_data e)"
    "QRinput_isSplittableMode (en_mode e)" using assms unfolding simple_def entry_ok_def by blast+
  show "0 < en_size e" using c(2) by (rule QRinput_check_pos)
  show "even (length (en_data e))" if "en_mode e = QR_MODE_KANJI"
    using c(1,2) that by (simp add: QRinput_check_def QRinput_checkModeKanji_def split: if_splits)
qed

lemma length_payload_est:
  assumes "QRinput_isSplittableMode mode"
  shows "int (length (payload mode data)) = est mode (int (length data))"
  using assms by (auto simp: splittable_modes payload_def est_def length_enc_num length_enc_an length_enc_kanji
      QRinput_estimateBitsModeKanji_def QRinput_estimateBitsMode8_def sdiv_nonneg zdiv_int)

lemma length_enc_single:
  assumes "QRinput_isSplittableMode mode" and "int (length data) \<le> QRspec_maximumWords mode version"
  shows "int (length (enc_entry version False mode data)) = 4 + QRspec_lengthIndicator mode version + est mode (int (length data))"
proof -
  have "chunks (nat (QRspec_maximumWords mode version)) data = [data]" using assms(2) by (subst chunks.simps) (simp, linarith)
  then show ?thesis using lengthIndicator_bounds(1) [of mode version] length_payload_est [OF assms(1), of data]
    by (simp add: enc_entry_def enc_seg_def seg_header_def)
qed

lemma est_nonneg: "0 \<le> sz \<Longrightarrow> 0 \<le> est mode sz"
  by (cases mode) (auto simp: est_defs)

lemma estimateNum_step:
  assumes "0 \<le> a"
  shows "QRinput_estimateBitsModeNum a \<le> QRinput_estimateBitsModeNum (a + 1)"
proof -
  obtain q r where a: "a = r + 3 * q" "0 \<le> r" "r < 3"
    using that [of "a mod 3" "a div 3"] by simp
  then have "r = 0 \<or> r = 1 \<or> r = 2" by linarith
  with a assms show ?thesis by (auto simp: est_defs)
qed

lemma est_step:
  assumes "0 \<le> a"
  shows "est mode a \<le> est mode (a + 1)"
proof -
  have "QRinput_estimateBitsModeKanji a \<le> QRinput_estimateBitsModeKanji (a + 1)"
    using assms by (auto simp: QRinput_estimateBitsModeKanji_def sdiv_nonneg intro!: zdiv_mono1)
  with estimateNum_step [OF assms] estimateAn_Suc [OF assms] show ?thesis
    by (cases mode) (simp_all add: est_def QRinput_estimateBitsMode8_def)
qed

lemma est_mono:
  assumes "0 \<le> a" and "a \<le> b"
  shows "est mode a \<le> est mode b"
  using assms(2)
proof (induction rule: int_ge_induct)
  case (step b)
  with est_step [of b mode] assms(1) show ?case by simp
qed simp

lemma estimate_entry:
  assumes "simple e" and "1 \<le> version"
  shows "4 + QRspec_lengthIndicator (en_mode e) version + est (en_mode e) (en_size e)
    \<le> QRinput_estimateBitStreamSizeOfEntry e version False"
proof -
  let ?l = "QRspec_lengthIndicator (en_mode e) version"
  have "1 \<le> (en_size e + 2 ^ nat ?l - 1) div 2 ^ nat ?l"
    using simple_facts(2) [OF assms(1)] by (simp add: int_one_le_iff_zero_less pos_imp_zdiv_pos_iff)
  then have "1 * (4 + ?l) \<le> (en_size e + 2 ^ nat ?l - 1) div 2 ^ nat ?l * (4 + ?l)"
    using lengthIndicator_bounds(1) [of "en_mode e" version] by (intro mult_right_mono) simp_all
  moreover have "0 < (2 :: int) ^ nat ?l" by simp
  then have "(en_size e + 2 ^ nat ?l - 1) sdiv 2 ^ nat ?l = (en_size e + 2 ^ nat ?l - 1) div 2 ^ nat ?l"
    using simple_facts(2) [OF assms(1)] by (intro sdiv_nonneg) linarith+
  ultimately show ?thesis using simple_facts(4) [OF assms(1)] assms(2)
    by (auto simp: splittable_modes QRinput_estimateBitStreamSizeOfEntry_def est_def Let_def)
qed

text \<open>What fits into a symbol never needs a second segment.\<close>

lemma capacity_classes:
  assumes "1 \<le> v" and "v \<le> 40" and "l \<le> 3"
  shows "QRspec_getDataLength v l \<le> (if v \<le> 9 then 232 else if v \<le> 26 then 1370 else 2956)"
proof -
  have "list_all (\<lambda>l. list_all (\<lambda>v. QRspec_getDataLength v l \<le> (if v \<le> 9 then 232 else if v \<le> 26 then 1370 else 2956)) versions) [0, 1, 2, 3]"
    by (simp add: versions_unfold qrspec_tables)
  from all_levels [OF this assms(3)] show ?thesis using assms(1,2) by (rule all_versions)
qed

lemma fits_single:
  assumes "QRinput_isSplittableMode mode" and "1 \<le> v" and "v \<le> 40" and "l \<le> 3" and "0 \<le> sz"
    and "est mode sz \<le> 8 * QRspec_getDataLength v l"
  shows "sz \<le> QRspec_maximumWords mode v"
proof (rule ccontr)
  assume "\<not> sz \<le> QRspec_maximumWords mode v"
  then have "est mode (QRspec_maximumWords mode v + 1) \<le> est mode sz"
    using maximumWords_pos [OF assms(1), of v] by (intro est_mono) simp_all
  moreover have "8 * (if v \<le> 9 then 232 else if v \<le> 26 then 1370 else 2956) < est mode (QRspec_maximumWords mode v + 1)"
    using assms(1) by (auto simp: splittable_modes est_defs QRspec_maximumWords_def QRinput_isSplittableMode_def lengthTableBits_def)
  ultimately show False using capacity_classes [OF assms(2-4)] assms(6) by simp
qed


text \<open>\<^verbatim>\<open>QRinput_lengthOfCode\<close> gives a size whose encoding fits into the bits it is given.\<close>

definition code_size :: "QRencodeMode \<Rightarrow> int \<Rightarrow> int" where
  "code_size mode p = (case mode of
      QR_MODE_NUM \<Rightarrow> p sdiv 10 * 3 + (if p - p sdiv 10 * 10 \<ge> 7 then 2 else if p - p sdiv 10 * 10 \<ge> 4 then 1 else 0)
    | QR_MODE_AN \<Rightarrow> p sdiv 11 * 2 + (if p - p sdiv 11 * 11 \<ge> 6 then 1 else 0)
    | QR_MODE_KANJI \<Rightarrow> p sdiv 13 * 2
    | _ \<Rightarrow> p sdiv 8)"

lemma lengthOfCode_eq:
  assumes "QRinput_isSplittableMode mode"
  shows "QRinput_lengthOfCode mode version bits =
    min (max 0 (code_size mode (bits - 4 - QRspec_lengthIndicator mode version))) (QRspec_maximumWords mode version)"
  using assms maximumWords_pos [OF assms, of version]
  by (cases mode) (simp_all add: QRinput_lengthOfCode_def code_size_def Let_def min_def max_def splittable_modes)

lemma sdiv_negative:
  assumes "p < (0 :: int)" and "0 < k"
  shows "p sdiv k \<le> 0" and "p - p sdiv k * k \<le> 0"
proof -
  have e: "p sdiv k = - (- p div k)" using assms by (simp add: signed_divide_int_def)
  show "p sdiv k \<le> 0" using assms by (simp add: e pos_imp_zdiv_nonneg_iff)
  have "- p div k * k + - p mod k = - p" by simp
  then show "p - p sdiv k * k \<le> 0" using pos_mod_sign [OF assms(2), of "- p"] unfolding e by linarith
qed

lemma code_size_negative:
  assumes "p < 0"
  shows "code_size mode p \<le> 0"
  using sdiv_negative [OF assms, of 10] sdiv_negative [OF assms, of 11] sdiv_negative [OF assms, of 13]
    sdiv_negative [OF assms, of 8] by (cases mode) (auto simp: code_size_def)

lemma code_size_fits:
  assumes "QRinput_isSplittableMode mode" and "0 \<le> p"
  shows "est mode (code_size mode p) \<le> p"
proof -
  have c: "p div 10 * 10 \<le> p" "p div 11 * 11 \<le> p" "p div 13 * 13 \<le> p" "p div 8 * 8 \<le> p" by presburger+
  show ?thesis using assms c by (cases mode) (auto simp: splittable_modes code_size_def est_defs)
qed

lemma lengthOfCode_fits:
  assumes "QRinput_isSplittableMode mode" and "0 < QRinput_lengthOfCode mode version bits"
  defines "n \<equiv> QRinput_lengthOfCode mode version bits"
  shows "4 + QRspec_lengthIndicator mode version + est mode n \<le> bits" and "n \<le> QRspec_maximumWords mode version"
    and "mode = QR_MODE_KANJI \<longrightarrow> even n"
proof -
  define p where "p = bits - 4 - QRspec_lengthIndicator mode version"
  have n: "n = min (max 0 (code_size mode p)) (QRspec_maximumWords mode version)"
    by (simp add: n_def p_def lengthOfCode_eq [OF assms(1)])
  then show "n \<le> QRspec_maximumWords mode version" by simp
  show "mode = QR_MODE_KANJI \<longrightarrow> even n"
    using even_maximumWords [of mode version] by (auto simp: n min_def max_def code_size_def)
  have "0 < code_size mode p" using assms(2) n by (auto simp: n_def max_def split: if_splits)
  then have p: "0 \<le> p" "n \<le> code_size mode p" "0 \<le> n"
    using code_size_negative [of p mode] n maximumWords_pos [OF assms(1), of version] by (force, simp_all)
  with code_size_fits [OF assms(1) p(1)] est_mono [OF p(3,2), of mode]
  show "4 + QRspec_lengthIndicator mode version + est mode n \<le> bits" by (simp add: p_def)
qed

lemma lengthOfCode_pos:
  assumes "QRinput_isSplittableMode mode" and "17 + QRspec_lengthIndicator mode version \<le> bits"
  shows "0 < QRinput_lengthOfCode mode version bits"
proof -
  define p where "p = bits - 4 - QRspec_lengthIndicator mode version"
  have "13 \<le> p" using assms(2) by (simp add: p_def)
  then have "1 \<le> p div 10" "1 \<le> p div 11" "1 \<le> p div 13" "1 \<le> p div 8" by presburger+
  then have "0 < code_size mode p" using \<open>13 \<le> p\<close> assms(1)
    by (cases mode) (simp_all add: code_size_def sdiv_nonneg splittable_modes)
  then show ?thesis using maximumWords_pos [OF assms(1), of version] by (simp add: lengthOfCode_eq [OF assms(1)] flip: p_def)
qed

subsection \<open>The split into symbols\<close>

text \<open>The bytes of a list of entries with the modes they are encoded in.\<close>

definition flat :: "QRinput_List list \<Rightarrow> (QRencodeMode \<times> u8) list" where
  "flat es = concat (map (\<lambda>e. map (Pair (en_mode e)) (en_data e)) es)"

lemma flat_simps [simp]: "flat [] = []" "flat (e # es) = map (Pair (en_mode e)) (en_data e) @ flat es"
  "flat (es @ es') = flat es @ flat es'"
  by (simp_all add: flat_def)

text \<open>An input for one symbol of version \<open>v\<close> and level \<open>l\<close>, with at most \<open>maxbits\<close> bits.\<close>

definition part_ok :: "int \<Rightarrow> QRecLevel \<Rightarrow> int \<Rightarrow> QRinput \<Rightarrow> bool" where
  "part_ok v l maxbits input \<longleftrightarrow> in_version input = v \<and> in_level input = l \<and> \<not> in_mqr input \<and> in_fnc1 input = 0 \<and>
     list_all simple (in_head input) \<and> int (length (enc_entries v False (in_head input))) \<le> maxbits"

definition maxbits_of :: "int \<Rightarrow> QRecLevel \<Rightarrow> int" where
  "maxbits_of v l = QRspec_getDataLength v l * 8 - STRUCTURE_HEADER_SIZE"

lemma simple_encoded [simp]: "simple (encoded v m e) = simple e"
  by (simp add: simple_def)

lemma enc_entries_append [simp]: "enc_entries v m (es @ es') = enc_entries v m es @ enc_entries v m es'"
  by (simp add: enc_entries_def)

lemma entry_length_le:
  assumes "simple e" and "1 \<le> v" and "v \<le> 40" and "l \<le> 3"
    and "QRinput_estimateBitStreamSizeOfEntry e v False \<le> maxbits_of v l"
  shows "int (length (enc_entry v False (en_mode e) (en_data e))) \<le> QRinput_estimateBitStreamSizeOfEntry e v False"
proof -
  note s = simple_facts [OF assms(1)]
  have "est (en_mode e) (en_size e) \<le> 8 * QRspec_getDataLength v l"
    using estimate_entry [OF assms(1,2)] assms(5) lengthIndicator_bounds(1) [of "en_mode e" v] by (simp add: maxbits_of_def)
  with s(2) have "en_size e \<le> QRspec_maximumWords (en_mode e) v" by (intro fits_single [OF s(4) assms(2-4)]) simp_all
  then show ?thesis using length_enc_single [OF s(4), of "en_data e" v] estimate_entry [OF assms(1,2)] s(1) by simp
qed

text \<open>The two halves of a split entry.\<close>

definition first_half :: "QRinput_List \<Rightarrow> int \<Rightarrow> QRinput_List" where
  "first_half e n = e\<lparr>en_data := take (nat n) (en_data e), en_size := n\<rparr>"

definition second_half :: "QRinput_List \<Rightarrow> int \<Rightarrow> QRinput_List" where
  "second_half e n = new_entry (en_mode e) (en_size e - n) (drop (nat n) (en_data e))"

lemma halves:
  assumes "simple e" and "0 < n" and "n < en_size e" and "en_mode e = QR_MODE_KANJI \<longrightarrow> even n"
  shows "simple (first_half e n)" and "simple (second_half e n)" and "flat [first_half e n, second_half e n] = flat [e]"
    and "QRinput_check (en_mode e) (en_size e - n) (drop (nat n) (en_data e))"
    and "nat (en_size (second_half e n)) < nat (en_size e)"
    and "en_size e - n \<le> int (length (drop (nat n) (en_data e)))"
proof -
  note s = simple_facts [OF assms(1)]
  have len: "nat n < length (en_data e)" using assms(2,3) s(1) by linarith
  show c: "QRinput_check (en_mode e) (en_size e - n) (drop (nat n) (en_data e))"
    using assms(2,3) s by (intro check_drop [OF s(3) _ _ _ s(4) assms(4)]) simp_all
  have c1: "QRinput_check (en_mode e) n (en_data e)" using assms(2,3) by (intro check_take [OF s(3) _ _ s(4) assms(4)]) simp_all
  have m: "en_mode e \<noteq> QR_MODE_STRUCTURE" "en_mode e \<noteq> QR_MODE_ECI" using s(4) by (auto simp: splittable_modes)
  show "simple (first_half e n)" using c1 m s(4) assms(2) len
    by (simp add: simple_def entry_ok_def first_half_def min_def)
  show "simple (second_half e n)" using c m s(1,4) assms(2,3) len
    by (simp add: simple_def entry_ok_def second_half_def new_entry_def nat_diff_distrib)
  show "flat [first_half e n, second_half e n] = flat [e]" using s(1) assms(2,3)
    by (simp add: first_half_def second_half_def new_entry_def nat_diff_distrib flip: map_append)
  show "nat (en_size (second_half e n)) < nat (en_size e)" using assms(2,3) by (simp add: second_half_def new_entry_def)
  show "en_size e - n \<le> int (length (drop (nat n) (en_data e)))" using assms(2) s(1) by simp
qed

context heap_invariant
begin

lemma splitEntry_delivers:
  assumes "simple e" and "0 < n" and "n < en_size e" and "en_mode e = QR_MODE_KANJI \<longrightarrow> even n"
  shows "delivers I (QRinput_splitEntry e n) (Inr (first_half e n, second_half e n))"
  unfolding QRinput_splitEntry_def QRinput_List_shrinkEntry_def bindM_assoc
  by (intro delivers_bind [OF QRinput_List_newEntry_delivers [OF halves(4,6) [OF assms]]] malloc_then)
    (simp add: first_half_def second_half_def delivers_ret_eq del: retM_apply)

lemma Struct_appendInput_delivers:
  "\<not> in_mqr input \<Longrightarrow> delivers I (QRinput_Struct_appendInput s input)
     (Inr (st_size s + 1, s\<lparr>st_size := st_size s + 1, st_head := st_head s @ [input]\<rparr>))"
  unfolding QRinput_Struct_appendInput_def Let_def by (auto intro!: malloc_then delivers_ret_eq)

lemma new2_delivers:
  assumes "0 \<le> version" and "version \<le> 40" and "level \<le> 3"
  shows "delivers I (QRinput_new2 version level) (Inr (fresh version level))"
  using assms unfolding QRinput_new2_def fresh_def by (auto intro!: malloc_then delivers_ret_eq)

end

text \<open>The outcome of the loop on a heap without failures.\<close>

definition loop_outcome :: "int \<Rightarrow> QRecLevel \<Rightarrow> QRinput_Struct \<Rightarrow> QRinput_List list \<Rightarrow>
    failure + QRinput_Struct \<times> QRinput \<Rightarrow> bool" where
  "loop_outcome v l s es r \<longleftrightarrow> r = Inl EINVAL \<or>
     (\<exists>ins input. r = Inr (s\<lparr>st_size := st_size s + int (length ins), st_head := st_head s @ ins\<rparr>, input) \<and>
        list_all (part_ok v l (maxbits_of v l)) (ins @ [input]) \<and>
        flat (concat (map in_head (ins @ [input]))) = flat es)"


lemma loop_outcome_step:
  assumes "loop_outcome v l (s\<lparr>st_size := st_size s + 1, st_head := st_head s @ [input]\<rparr>) es' r"
    and "part_ok v l (maxbits_of v l) input" and "flat (in_head input) @ flat es' = flat es"
  shows "loop_outcome v l s es r"
  using assms(1) unfolding loop_outcome_def
proof (elim disjE exE conjE)
  fix ins inp
  assume "r = Inr (s\<lparr>st_size := st_size s + 1, st_head := st_head s @ [input]\<rparr>
      \<lparr>st_size := st_size (s\<lparr>st_size := st_size s + 1, st_head := st_head s @ [input]\<rparr>) + int (length ins),
       st_head := st_head (s\<lparr>st_size := st_size s + 1, st_head := st_head s @ [input]\<rparr>) @ ins\<rparr>, inp)"
    "list_all (part_ok v l (maxbits_of v l)) (ins @ [inp])" "flat (concat (map in_head (ins @ [inp]))) = flat es'"
  with assms(2,3) show "r = Inl EINVAL \<or>
     (\<exists>ins input. r = Inr (s\<lparr>st_size := st_size s + int (length ins), st_head := st_head s @ ins\<rparr>, input) \<and>
        list_all (part_ok v l (maxbits_of v l)) (ins @ [input]) \<and>
        flat (concat (map in_head (ins @ [input]))) = flat es)"
    by (intro disjI2 exI [of _ "input # ins"] exI [of _ inp]) simp
qed simp

lemma maxbits_header:
  assumes "1 \<le> v" and "v \<le> 40" and "l \<le> 3"
  shows "17 + QRspec_lengthIndicator mode v \<le> maxbits_of v l"
proof -
  have "list_all (\<lambda>l. list_all (\<lambda>v. 9 \<le> QRspec_getDataLength v l) versions) [0, 1, 2, 3]"
    by (simp add: versions_unfold qrspec_tables)
  from all_versions [OF all_levels [OF this assms(3)] assms(1,2)] have "9 \<le> QRspec_getDataLength v l" .
  with lengthIndicator_bounds(2) [of mode v] show ?thesis by (simp add: maxbits_of_def)
qed

context heap_invariant
begin

definition splits :: "int \<Rightarrow> QRecLevel \<Rightarrow> QRinput_Struct \<Rightarrow> QRinput_List list \<Rightarrow>
    ('z heap_scheme, QRinput_Struct \<times> QRinput) M \<Rightarrow> bool" where
  "splits v l s es f \<longleftrightarrow> (\<exists>r. loop_outcome v l s es r \<and> runs I f r)"

lemma splits_runs: "runs I f (Inr a) \<Longrightarrow> splits v l s es (g a) \<Longrightarrow> splits v l s es (bindM f g)"
  unfolding splits_def by (blast intro: runs_bind)

lemma encode_runs:
  assumes "simple e"
  shows "runs I (\<lambda>h. case QRinput_encodeBitStream v False (e, h) of
      (Inl e, (_, h')) \<Rightarrow> (Inl e, h') | (Inr ret, (list', h')) \<Rightarrow> (Inr (ret, list'), h'))
    (Inr (int (length (enc_entry v False (en_mode e) (en_data e))), encoded v False e))"
proof -
  have "entry_ok e" "mode_ok v False (en_mode e)"
    using assms by (auto simp: simple_def mode_ok_def splittable_modes mode_ids_def)
  from encodeBitStream_acts [OF this] show ?thesis by (fastforce simp: acts_def runs_def encoded_def)
qed

lemma loop_overflow:
  assumes "in_version input = v" and "in_level input = l" and "\<not> in_mqr input"
    and "M < bits + QRinput_estimateBitStreamSizeOfEntry e v False"
    and n: "n = QRinput_lengthOfCode (en_mode e) v (M - bits)"
  shows "splitStruct_loop M s input before (e # rest) noprev bits =
    bindM (QRinput_new2 v l) (\<lambda>p.
      if n > 0 then
        if en_size e - n \<le> 0 then failM EINVAL
        else
          bindM (QRinput_splitEntry e n) (\<lambda>(e1, _).
          bindM (QRinput_Struct_appendInput s (input\<lparr>in_head := before @ [e1], in_tail := True\<rparr>)) (\<lambda>(_, s).
          splitStruct_loop M s (p\<lparr>in_tail := in_tail input\<rparr>) [] (second_half e n # rest) False 0))
      else if before = [] then failM (if noprev then CRASH else DIVERGES)
      else
        bindM (QRinput_Struct_appendInput s (input\<lparr>in_head := before, in_tail := True\<rparr>)) (\<lambda>(_, s).
        splitStruct_loop M s (p\<lparr>in_tail := in_tail input\<rparr>) [] (e # rest) noprev 0))"
  using assms(3,4) by (subst splitStruct_loop.simps(2), unfold Let_def assms(1,2) second_half_def n) simp

text \<open>An entry that does not fit: the current input is closed, with the first half of the entry or without it.\<close>

lemma splits_overflow:
  assumes "1 \<le> v" and "v \<le> 40" and "l \<le> 3" and "simple e" and "list_all simple before"
    and inp: "in_version input = v" "in_level input = l" "\<not> in_mqr input" "in_fnc1 input = 0"
    and bits: "bits = int (length (enc_entries v False before))" "bits \<le> maxbits_of v l"
    and "maxbits_of v l < bits + QRinput_estimateBitStreamSizeOfEntry e v False"
    and half: "\<And>n s. 0 < n \<Longrightarrow> n < en_size e \<Longrightarrow> en_mode e = QR_MODE_KANJI \<longrightarrow> even n \<Longrightarrow>
      splits v l s (second_half e n # rest)
        (splitStruct_loop (maxbits_of v l) s (fresh v l\<lparr>in_tail := in_tail input\<rparr>) [] (second_half e n # rest) False 0)"
    and whole: "\<And>s. before \<noteq> [] \<Longrightarrow> splits v l s (e # rest)
        (splitStruct_loop (maxbits_of v l) s (fresh v l\<lparr>in_tail := in_tail input\<rparr>) [] (e # rest) noprev 0)"
  shows "splits v l s (before @ e # rest) (splitStruct_loop (maxbits_of v l) s input before (e # rest) noprev bits)"
proof -
  note sp = simple_facts [OF assms(4)]
  define n where "n = QRinput_lengthOfCode (en_mode e) v (maxbits_of v l - bits)"
  have new: "runs I (QRinput_new2 v l) (Inr (fresh v l))" using assms(1-3) by (intro delivers_runs new2_delivers) simp_all
  let ?S = "\<lambda>i. s\<lparr>st_size := st_size s + 1, st_head := st_head s @ [i]\<rparr>"
  note loop = loop_overflow [OF inp(1-3) assms(12) n_def, of s before rest noprev]
  consider (part) "0 < n" "n < en_size e" | (rejected) "0 < n" "en_size e \<le> n" | (none) "n \<le> 0" by linarith
  then show ?thesis
  proof cases
    case part
    note f = lengthOfCode_fits [OF sp(4), of v "maxbits_of v l - bits", folded n_def, OF part(1)]
    note h = halves [OF assms(4) part f(3)]
    define i where "i = input\<lparr>in_head := before @ [first_half e n], in_tail := True\<rparr>"
    have "int (length (take (nat n) (en_data e))) = n" using part sp(1) by simp
    then have "int (length (enc_entry v False (en_mode e) (take (nat n) (en_data e)))) = 4 + QRspec_lengthIndicator (en_mode e) v + est (en_mode e) n"
      using length_enc_single [OF sp(4), of "take (nat n) (en_data e)" v] f(2) by (simp only:)
    then have i: "part_ok v l (maxbits_of v l) i"
      using f(1) h(1) assms(5) inp bits(1) by (simp add: part_ok_def i_def) (simp add: first_half_def)
    have "splits v l (?S i) (second_half e n # rest)
        (splitStruct_loop (maxbits_of v l) (?S i) (fresh v l\<lparr>in_tail := in_tail input\<rparr>) [] (second_half e n # rest) False 0)"
      using part f(3) by (rule half)
    moreover have "flat (in_head i) @ flat (second_half e n # rest) = flat (before @ e # rest)"
      using h(3) by (simp add: i_def)
    ultimately have "splits v l s (before @ e # rest)
        (splitStruct_loop (maxbits_of v l) (?S i) (fresh v l\<lparr>in_tail := in_tail input\<rparr>) [] (second_half e n # rest) False 0)"
      unfolding splits_def using loop_outcome_step [OF _ i] by blast
    moreover have "runs I (QRinput_splitEntry e n) (Inr (first_half e n, second_half e n))"
      using assms(4) part f(3) by (intro delivers_runs splitEntry_delivers)
    moreover have "runs I (QRinput_Struct_appendInput s i) (Inr (st_size s + 1, ?S i))"
      using inp(3) by (intro delivers_runs Struct_appendInput_delivers) (simp add: i_def)
    ultimately show ?thesis using part unfolding loop i_def by (simp add: splits_runs [OF new] splits_runs)
  next
    case rejected
    have "splits v l s (before @ e # rest) (failM EINVAL)"
      by (auto simp: splits_def loop_outcome_def runs_def)
    then show ?thesis using rejected unfolding loop by (intro splits_runs [OF new]) (simp del: failM_apply)
  next
    case none
    have ne: "before \<noteq> []"
    proof
      assume "before = []"
      with bits(1) none lengthOfCode_pos [OF sp(4), of v "maxbits_of v l"] maxbits_header [OF assms(1-3), of "en_mode e"]
      show False by (simp add: n_def)
    qed
    define i where "i = input\<lparr>in_head := before, in_tail := True\<rparr>"
    have i: "part_ok v l (maxbits_of v l) i" using assms(5) inp bits by (simp add: part_ok_def i_def)
    have "splits v l (?S i) (e # rest)
        (splitStruct_loop (maxbits_of v l) (?S i) (fresh v l\<lparr>in_tail := in_tail input\<rparr>) [] (e # rest) noprev 0)"
      using ne by (rule whole)
    moreover have "flat (in_head i) @ flat (e # rest) = flat (before @ e # rest)" by (simp add: i_def)
    ultimately have "splits v l s (before @ e # rest)
        (splitStruct_loop (maxbits_of v l) (?S i) (fresh v l\<lparr>in_tail := in_tail input\<rparr>) [] (e # rest) noprev 0)"
      unfolding splits_def using loop_outcome_step [OF _ i] by blast
    moreover have "runs I (QRinput_Struct_appendInput s i) (Inr (st_size s + 1, ?S i))"
      using inp(3) by (intro delivers_runs Struct_appendInput_delivers) (simp add: i_def)
    ultimately show ?thesis using none ne unfolding loop i_def by (simp add: splits_runs [OF new] splits_runs)
  qed
qed

lemma splitStruct_loop_splits:
  assumes "1 \<le> v" and "v \<le> 40" and "l \<le> 3"
    and "list_all simple (before @ rest)"
    and "in_version input = v" "in_level input = l" "\<not> in_mqr input" "in_fnc1 input = 0"
    and "bits = int (length (enc_entries v False before))" "bits \<le> maxbits_of v l"
  shows "splits v l s (before @ rest) (splitStruct_loop (maxbits_of v l) s input before rest noprev bits)"
  using assms(4-)
proof (induction "2 * (\<Sum>e\<leftarrow>rest. Suc (nat (en_size e))) + (if before = [] then 0 else 1)"
    arbitrary: s input before rest noprev bits rule: less_induct)
  case less
  show ?case
  proof (cases rest)
    case Nil
    have "loop_outcome v l s before (Inr (s, input\<lparr>in_head := before\<rparr>))"
      unfolding loop_outcome_def using less.prems
      by (intro disjI2 exI [of _ "[]"] exI [of _ "input\<lparr>in_head := before\<rparr>"]) (simp add: part_ok_def Nil)
    then show ?thesis by (auto simp: Nil splits_def runs_def splitStruct_loop.simps(1))
  next
    case (Cons e rest')
    have sp: "simple e" "list_all simple before" "list_all simple rest'" using less.prems(1) by (simp_all add: Cons)
    show ?thesis
    proof (cases "bits + QRinput_estimateBitStreamSizeOfEntry e v False \<le> maxbits_of v l")
      case True
      let ?e = "encoded v False e"
      have "QRinput_estimateBitStreamSizeOfEntry e v False \<le> maxbits_of v l" using True less.prems(6) by simp
      note len = entry_length_le [OF sp(1) assms(1-3) this]
      have "splits v l s ((before @ [?e]) @ rest')
          (splitStruct_loop (maxbits_of v l) s input (before @ [?e]) rest' False (bits + int (length (enc_entry v False (en_mode e) (en_data e)))))"
        using less.prems sp len True by (intro less.hyps) (simp_all add: Cons)
      moreover have "loop_outcome v l s ((before @ [?e]) @ rest') = loop_outcome v l s (before @ rest)"
        by (simp add: loop_outcome_def Cons fun_eq_iff)
      ultimately have "splits v l s (before @ rest)
          (splitStruct_loop (maxbits_of v l) s input (before @ [?e]) rest' False (bits + int (length (enc_entry v False (en_mode e) (en_data e)))))"
        by (simp only: splits_def)
      then show ?thesis using True less.prems(2-4) unfolding Cons
        by (subst splitStruct_loop.simps(2)) (simp add: Let_def splits_runs [OF encode_runs [OF sp(1)]])
    next
      case False
      show ?thesis unfolding Cons
      proof (rule splits_overflow [OF assms(1-3) sp(1,2) less.prems(2-7)])
        show "maxbits_of v l < bits + QRinput_estimateBitStreamSizeOfEntry e v False" using False by simp
      next
        fix n s assume n: "0 < n" "n < en_size e" "en_mode e = QR_MODE_KANJI \<longrightarrow> even n"
        have "splits v l s ([] @ second_half e n # rest')
          (splitStruct_loop (maxbits_of v l) s (fresh v l\<lparr>in_tail := in_tail input\<rparr>) [] (second_half e n # rest') False 0)"
          using sp halves(2,5) [OF sp(1) n] maxbits_header [OF assms(1-3), of QR_MODE_8]
            lengthIndicator_bounds(1) [of QR_MODE_8 v]
          by (intro less.hyps) (simp_all add: Cons fresh_def del: zless_nat_conj)
        then show "splits v l s (second_half e n # rest')
          (splitStruct_loop (maxbits_of v l) s (fresh v l\<lparr>in_tail := in_tail input\<rparr>) [] (second_half e n # rest') False 0)" by simp
      next
        fix s assume "before \<noteq> []"
        then have "splits v l s ([] @ e # rest')
          (splitStruct_loop (maxbits_of v l) s (fresh v l\<lparr>in_tail := in_tail input\<rparr>) [] (e # rest') noprev 0)"
          using sp maxbits_header [OF assms(1-3), of QR_MODE_8] lengthIndicator_bounds(1) [of QR_MODE_8 v]
          by (intro less.hyps) (simp_all add: Cons fresh_def)
        then show "splits v l s (e # rest')
          (splitStruct_loop (maxbits_of v l) s (fresh v l\<lparr>in_tail := in_tail input\<rparr>) [] (e # rest') noprev 0)" by simp
      qed
    qed
  qed
qed

end

subsection \<open>Parity\<close>

definition xor_all :: "u8 list \<Rightarrow> u8" where
  "xor_all xs = foldl (XOR) 0 xs"

lemma foldl_xor: "foldl (XOR) a xs = a XOR foldl (XOR) (0 :: u8) xs"
  by (induction xs rule: rev_induct) (simp_all add: xor.assoc)

lemma xor_all_simps [simp]: "xor_all [] = 0" "xor_all (x # xs) = x XOR xor_all xs" "xor_all (xs @ ys) = xor_all xs XOR xor_all ys"
  by (simp_all add: xor_all_def foldl_xor [of x] foldl_xor [of "foldl (XOR) 0 xs"])

lemma xor_all_rev: "xor_all (rev xs) = xor_all xs"
  by (induction xs) (simp_all add: xor.commute)

lemma calcParity_flat:
  assumes "list_all simple (in_head input)"
  shows "QRinput_calcParity input = xor_all (map snd (flat (in_head input)))"
proof -
  have e: "(if en_mode e \<noteq> QR_MODE_STRUCTURE
        then foldl (\<lambda>p i. p XOR en_data e ! i) p (rev [0..<nat (en_size e)]) else p) = p XOR xor_all (en_data e)"
    if "simple e" for e and p :: u8
  proof -
    have "map ((!) (en_data e)) (rev [0..<nat (en_size e)]) = rev (en_data e)"
      using simple_facts(1) [OF that] by (simp add: map_nth flip: rev_map)
    then have "foldl (\<lambda>p i. p XOR en_data e ! i) p (rev [0..<nat (en_size e)]) = foldl (XOR) p (rev (en_data e))"
      by (metis foldl_map)
    also have "\<dots> = p XOR xor_all (en_data e)" by (simp add: foldl_xor [of p] xor_all_rev flip: xor_all_def)
    finally show ?thesis using simple_facts(4) [OF that] by (auto simp: splittable_modes)
  qed
  have "foldl (\<lambda>p e. if en_mode e \<noteq> QR_MODE_STRUCTURE
        then foldl (\<lambda>p i. p XOR en_data e ! i) p (rev [0..<nat (en_size e)]) else p) a es =
      a XOR xor_all (map snd (flat es))" if "list_all simple es" for a and es
    using that by (induction es arbitrary: a) (simp_all only: e foldl.simps list.pred_inject, simp_all add: xor.assoc comp_def)
  from this [OF assms] show ?thesis by (simp add: QRinput_calcParity_def)
qed

subsection \<open>Headers\<close>

definition header :: "int \<Rightarrow> int \<Rightarrow> u8 \<Rightarrow> QRinput_List" where
  "header n k par = new_entry QR_MODE_STRUCTURE 3 [of_int n, of_int k, par]"

definition with_header :: "int \<Rightarrow> u8 \<Rightarrow> int \<Rightarrow> QRinput \<Rightarrow> QRinput" where
  "with_header n par k input = input\<lparr>in_head := header n k par # in_head input\<rparr>"

fun numbered :: "int \<Rightarrow> u8 \<Rightarrow> int \<Rightarrow> QRinput list \<Rightarrow> QRinput list" where
  "numbered n par k [] = []"
| "numbered n par k (input # inputs) = with_header n par k input # numbered n par (k + 1) inputs"

lemma length_numbered [simp]: "length (numbered n par k inputs) = length inputs"
  by (induction inputs arbitrary: k) simp_all

lemma numbered_nth: "i < length inputs \<Longrightarrow> numbered n par k inputs ! i = with_header n par (k + int i) (inputs ! i)"
proof (induction inputs arbitrary: k i)
  case (Cons input inputs)
  then show ?case by (cases i) (simp_all add: add.assoc)
qed simp

context heap_invariant
begin

lemma insertHeader_delivers:
  assumes "n \<le> 16" and "0 < k" and "k \<le> n"
  shows "delivers I (QRinput_insertStructuredAppendHeader input n k par) (Inr (with_header n par k input))"
proof -
  have "QRinput_check QR_MODE_STRUCTURE 3 [of_int n, of_int k, par]" by (simp add: QRinput_check_def)
  from QRinput_List_newEntry_delivers [OF this, simplified] show ?thesis
    using assms unfolding QRinput_insertStructuredAppendHeader_def
    by (auto intro!: delivers_bind delivers_ret_eq simp: with_header_def header_def)
qed

lemma insertHeaders_loop_ok:
  assumes "n \<le> 16" and "0 < k" and "k + int (length inputs) \<le> n + 1" and "I h" and "script h = []"
  shows "\<exists>h'. insertHeaders_loop n par k inputs h = (Inr (), (numbered n par k inputs, h')) \<and> I h' \<and> script h' = []"
  using assms(2-)
proof (induction inputs arbitrary: k h)
  case (Cons input inputs)
  have "delivers I (QRinput_insertStructuredAppendHeader input n k par) (Inr (with_header n par k input))"
    using assms(1) Cons.prems by (intro insertHeader_delivers) simp_all
  then obtain h1 where h1: "QRinput_insertStructuredAppendHeader input n k par h = (Inr (with_header n par k input), h1)"
    "I h1" "script h1 = []" using Cons.prems(3,4) by (auto simp: delivers_def prod_eq_iff)
  from Cons.IH [of "k + 1" h1] Cons.prems h1 show ?case by auto
qed simp

lemma dup_delivers:
  assumes "\<not> in_mqr input" and "0 \<le> in_version input" and "in_version input \<le> 40" and "in_level input \<le> 3"
    and "\<And>e. e \<in> set (in_head input) \<Longrightarrow> en_size e \<le> int (length (en_data e))"
  shows "delivers I (QRinput_dup input) (Inr (extended (fresh (in_version input) (in_level input))
    (map (\<lambda>e. new_entry (en_mode e) (en_size e) (en_data e)) (in_head input))))"
proof -
  let ?f = "\<lambda>n e. QRinput_appendEntry n (new_entry (en_mode e) (en_size e) (en_data e))"
  have app: "foldl ?f i es = extended i (map (\<lambda>e. new_entry (en_mode e) (en_size e) (en_data e)) es)" if "tail_ok i" for i es
    using that
  proof (induction es arbitrary: i)
    case (Cons e es)
    have "?f i e = extended i [new_entry (en_mode e) (en_size e) (en_data e)]"
      using Cons.prems by (auto simp: QRinput_appendEntry_def extended_def tail_ok_def)
    with Cons show ?case by simp
  qed simp
  have "tail_ok (fresh (in_version input) (in_level input))" by (simp add: tail_ok_def fresh_def)
  note app = app [OF this]
  have fold: "delivers I (foldM (\<lambda>n entry. bindM (QRinput_List_dup entry) (\<lambda>e. retM (QRinput_appendEntry n e))) i es)
      (Inr (foldl ?f i es))" if "\<And>e. e \<in> set es \<Longrightarrow> en_size e \<le> int (length (en_data e))" for i es
    unfolding QRinput_List_dup_def bindM_assoc
    by (intro delivers_foldM malloc_then) (use that in \<open>simp add: delivers_ret_eq nat_le_iff del: retM_apply\<close>)
  show ?thesis using assms(1) unfolding QRinput_dup_def app [symmetric]
    by (simp only: if_False) (rule delivers_bind [OF new2_delivers [OF assms(2-4)] fold [OF assms(5)]])
qed

end


subsection \<open>The set of symbols\<close>

text \<open>
  The outcome of \<^verbatim>\<open>QRinput_splitQRinputToStruct\<close>: at most 16 symbols that all fit their version, with
  a header each that gives their number, their place and the parity of the whole when there is
  more than one.
\<close>

definition struct_of :: "QRinput \<Rightarrow> QRinput_Struct \<Rightarrow> bool" where
  "struct_of input st \<longleftrightarrow> (\<exists>parts.
     list_all (part_ok (in_version input) (in_level input) (maxbits_of (in_version input) (in_level input))) parts \<and>
     flat (concat (map in_head parts)) = flat (in_head input) \<and> 1 \<le> length parts \<and> length parts \<le> 16 \<and>
     st_size st = int (length parts) \<and> st_parity st = uint (xor_all (map snd (flat (in_head input)))) \<and>
     st_head st = (if length parts = 1 then parts
       else numbered (int (length parts)) (xor_all (map snd (flat (in_head input)))) 1 parts))"

definition dup_entry :: "QRinput_List \<Rightarrow> QRinput_List" where
  "dup_entry e = new_entry (en_mode e) (en_size e) (en_data e)"

lemma dup_entry_simple: "simple e \<Longrightarrow> simple (dup_entry e) \<and> en_mode (dup_entry e) = en_mode e \<and> en_data (dup_entry e) = en_data e"
proof -
  assume "simple e"
  then have "dup_entry e = e\<lparr>en_bstream := None\<rparr>" using simple_facts(1) [of e] by (simp add: dup_entry_def new_entry_def)
  with \<open>simple e\<close> show ?thesis by (simp add: simple_def)
qed

lemma dup_entries:
  "list_all simple es \<Longrightarrow> list_all simple (map dup_entry es) \<and> flat (map dup_entry es) = flat es"
  by (induction es) (simp_all add: dup_entry_simple)

context heap_invariant
begin

lemma insertHeaders_runs:
  assumes "1 \<le> length (st_head s)" and "length (st_head s) \<le> 16" and "st_size s = int (length (st_head s))"
    and "st_parity s = uint par" and "I h" and "script h = []"
  shows "\<exists>h'. QRinput_Struct_insertStructuredAppendHeaders (s, h) =
    (Inr (), (s\<lparr>st_head := (if length (st_head s) = 1 then st_head s
       else numbered (int (length (st_head s))) par 1 (st_head s))\<rparr>, h')) \<and> I h' \<and> script h' = []"
proof -
  have "\<exists>h'. insertHeaders_loop (st_size s) par 1 (st_head s) h = (Inr (), (numbered (st_size s) par 1 (st_head s), h')) \<and> I h' \<and> script h' = []"
    using assms by (intro insertHeaders_loop_ok) simp_all
  with assms show ?thesis by (auto simp: QRinput_Struct_insertStructuredAppendHeaders_def Let_def)
qed

definition close_struct :: "QRinput_Struct \<times> QRinput \<Rightarrow> ('z heap_scheme, QRinput_Struct) M" where
  "close_struct = (\<lambda>(s, input).
     bindM (QRinput_Struct_appendInput s input) (\<lambda>(_, s).
     if st_size s > MAX_STRUCTURED_SYMBOLS then failM ERANGE
     else (\<lambda>h. case QRinput_Struct_insertStructuredAppendHeaders (s, h) of
               (Inl e, (_, h')) \<Rightarrow> (Inl e, h')
             | (Inr _, (s', h')) \<Rightarrow> (Inr s', h'))))"

lemma close_struct_runs:
  assumes "loop_outcome v l \<lparr>st_size = 0, st_parity = uint (xor_all (map snd (flat (in_head input)))), st_head = []\<rparr> es (Inr a)"
    and "flat es = flat (in_head input)" and "v = in_version input" and "l = in_level input"
  shows "\<exists>r. runs I (close_struct a) r \<and> (r = Inl ERANGE \<or> (\<exists>st. r = Inr st \<and> struct_of input st))"
proof -
  define par where "par = xor_all (map snd (flat (in_head input)))"
  obtain ins inp where a: "a = (\<lparr>st_size = int (length ins), st_parity = uint par, st_head = ins\<rparr>, inp)"
    and parts: "list_all (part_ok v l (maxbits_of v l)) (ins @ [inp])" "flat (concat (map in_head (ins @ [inp]))) = flat (in_head input)"
    using assms(1,2) by (auto simp: loop_outcome_def par_def)
  define s where "s = \<lparr>st_size = int (length ins) + 1, st_parity = uint par, st_head = ins @ [inp]\<rparr>"
  have "\<not> in_mqr inp" using parts(1) by (simp add: part_ok_def)
  then have app: "runs I (QRinput_Struct_appendInput (fst a) inp) (Inr (st_size s, s))"
    using Struct_appendInput_delivers [of inp "fst a"] by (intro delivers_runs) (simp add: a s_def)
  show ?thesis
  proof (cases "st_size s > MAX_STRUCTURED_SYMBOLS")
    case True
    then have "runs I (close_struct a) (Inl ERANGE)" unfolding close_struct_def a prod.case
      by (intro runs_bind [OF app [unfolded a fst_conv]]) (simp add: runs_def)
    then show ?thesis by blast
  next
    case False
    define st where "st = s\<lparr>st_head := (if length (st_head s) = 1 then st_head s
       else numbered (int (length (st_head s))) par 1 (st_head s))\<rparr>"
    have "runs I (\<lambda>h. case QRinput_Struct_insertStructuredAppendHeaders (s, h) of
        (Inl e, (_, h')) \<Rightarrow> (Inl e, h') | (Inr _, (s', h')) \<Rightarrow> (Inr s', h')) (Inr st)"
      using insertHeaders_runs [of s par] False unfolding runs_def st_def by (fastforce simp: s_def)
    with False have "runs I (close_struct a) (Inr st)" unfolding close_struct_def a prod.case
      by (intro runs_bind [OF app [unfolded a fst_conv]]) simp
    moreover have "struct_of input st" unfolding struct_of_def par_def [symmetric] using parts False assms(3,4)
      by (intro exI [of _ "ins @ [inp]"]) (auto simp: st_def s_def)
    ultimately show ?thesis by blast
  qed
qed

lemma splitQRinputToStruct_outcome:
  assumes "\<not> in_mqr input" and v: "1 \<le> in_version input" "in_version input \<le> 40" and l: "in_level input \<le> 3"
    and "list_all simple (in_head input)" and "I h" and "script h = []"
  shows "\<exists>r h'. QRinput_splitQRinputToStruct input h = (r, h') \<and> I h' \<and> script h' = [] \<and>
    (r = Inl EINVAL \<or> r = Inl ERANGE \<or> (\<exists>st. r = Inr st \<and> struct_of input st))"
proof -
  let ?v = "in_version input" and ?l = "in_level input"
  define par where "par = xor_all (map snd (flat (in_head input)))"
  define dup where "dup = extended (fresh ?v ?l) (map dup_entry (in_head input))"
  define s0 where "s0 = \<lparr>st_size = 0, st_parity = uint par, st_head = []\<rparr>"
  have d: "in_head dup = map dup_entry (in_head input)" "in_version dup = ?v" "in_level dup = ?l" "\<not> in_mqr dup" "in_fnc1 dup = 0"
    by (simp_all add: dup_def extended_def fresh_def)
  note es = dup_entries [OF assms(5)]
  have par: "QRinput_calcParity dup = par" using calcParity_flat [of dup] es by (simp add: d par_def)
  have new: "runs I QRinput_Struct_new (Inr \<lparr>st_size = 0, st_parity = -1, st_head = []\<rparr>)"
    unfolding QRinput_Struct_new_def by (intro delivers_runs malloc_then delivers_ret_eq) simp
  have dupr: "runs I (QRinput_dup input) (Inr dup)"
    using dup_delivers [of input] assms(1-5) simple_facts(1) by (intro delivers_runs) (simp add: list_all_iff dup_def dup_entry_def [abs_def])
  have bits: "17 + QRspec_lengthIndicator QR_MODE_8 ?v \<le> maxbits_of ?v ?l" using v l by (rule maxbits_header)
  then have pos: "0 < maxbits_of ?v ?l" using lengthIndicator_bounds(1) [of QR_MODE_8 ?v] by simp
  have "splits ?v ?l s0 ([] @ map dup_entry (in_head input)) (splitStruct_loop (maxbits_of ?v ?l) s0 dup [] (map dup_entry (in_head input)) True 0)"
    using es d pos by (intro splitStruct_loop_splits [OF v l]) simp_all
  then obtain r where r: "loop_outcome ?v ?l s0 (map dup_entry (in_head input)) r"
    "runs I (splitStruct_loop (maxbits_of ?v ?l) s0 dup [] (map dup_entry (in_head input)) True 0) r" by (auto simp: splits_def)
  have fl: "flat (map dup_entry (in_head input)) = flat (in_head input)" using es by simp
  have "\<exists>r'. runs I (bindM (splitStruct_loop (maxbits_of ?v ?l) s0 dup [] (map dup_entry (in_head input)) True 0) close_struct) r' \<and>
      (r' = Inl EINVAL \<or> r' = Inl ERANGE \<or> (\<exists>st. r' = Inr st \<and> struct_of input st))"
  proof (cases r)
    case (Inl e)
    with r show ?thesis by (auto simp: loop_outcome_def intro: runs_bind_fail)
  next
    case (Inr a)
    from close_struct_runs [OF r(1) [unfolded Inr s0_def par_def] fl refl refl] r(2) show ?thesis
      unfolding Inr by (blast intro: runs_bind)
  qed
  then obtain r' where r': "runs I (bindM (splitStruct_loop (maxbits_of ?v ?l) s0 dup [] (map dup_entry (in_head input)) True 0) close_struct) r'"
    "r' = Inl EINVAL \<or> r' = Inl ERANGE \<or> (\<exists>st. r' = Inr st \<and> struct_of input st)" by blast
  have "runs I (QRinput_splitQRinputToStruct input) r'"
    unfolding QRinput_splitQRinputToStruct_def close_struct_def [symmetric] Let_def if_not_P [OF assms(1)]
    by (intro runs_bind [OF new] runs_bind [OF dupr])
      (use r'(1) pos in \<open>simp add: d par QRinput_Struct_setParity_def s0_def maxbits_of_def\<close>)
  with r'(2) assms(6,7) show ?thesis unfolding runs_def by blast
qed

end


lemma header_bits: "length (enc_entry v False QR_MODE_STRUCTURE [a, b, c]) = 20"
proof -
  have "chunks 0 [a, b, c] = [[a, b, c]]" by (subst chunks.simps) simp
  then show ?thesis by (simp add: enc_entry_def enc_seg_def seg_header_def payload_def QRspec_maximumWords_def
      QRspec_lengthIndicator_def QRinput_isSplittableMode_def)
qed

lemma struct_of_fits:
  assumes "struct_of input st" and "i \<in> set (st_head st)"
  shows "in_version i = in_version input" and "in_level i = in_level input"
    and "int (length (enc_entries (in_version i) False (in_head i))) \<le> 8 * QRspec_getDataLength (in_version i) (in_level i)"
proof -
  obtain parts n par where p: "list_all (part_ok (in_version input) (in_level input) (maxbits_of (in_version input) (in_level input))) parts"
    and st: "st_head st = parts \<or> st_head st = numbered n par 1 parts" using assms(1) by (auto simp: struct_of_def split: if_splits)
  from st assms(2) obtain j k where j: "j < length parts" "i = parts ! j \<or> i = with_header n par k (parts ! j)"
    unfolding in_set_conv_nth by (metis length_numbered numbered_nth)
  then have "part_ok (in_version input) (in_level input) (maxbits_of (in_version input) (in_level input)) (parts ! j)"
    using p by (simp add: list_all_length)
  with j(2) show "in_version i = in_version input" "in_level i = in_level input"
    "int (length (enc_entries (in_version i) False (in_head i))) \<le> 8 * QRspec_getDataLength (in_version i) (in_level i)"
    by (auto simp: part_ok_def maxbits_of_def with_header_def header_def new_entry_def header_bits)
qed

end
