(* ===== verification/Capacity.thy ===== *)
theory Capacity
  imports Struct_Correct
begin

text \<open>
  Inputs at the limit of the capacity: the input that \<^verbatim>\<open>QRcode_encodeData\<close> makes from a byte string,
  the number of bits its segments take, and what the search for a version makes of 2953 bytes, the
  most that version 40 holds at level L.
\<close>

lemma length_enc_segs_8:
  assumes "version \<le> 9"
  shows "length (concat (map (enc_seg version False QR_MODE_8) cs)) = 12 * length cs + 8 * length (concat cs)"
  using assms
  by (induction cs) (simp_all add: enc_seg_def seg_header_def payload_def QRspec_lengthIndicator_def
      QRinput_isSplittableMode_def lengthTableBits_def)

lemma length_enc_entry_8:
  assumes "version \<le> 9"
  shows "length (enc_entry version False QR_MODE_8 data) = 12 * length (chunks 255 data) + 8 * length data"
proof -
  have "QRspec_maximumWords QR_MODE_8 version = 255"
    using assms by (simp add: QRspec_maximumWords_def QRinput_isSplittableMode_def lengthTableBits_def Let_def)
  then show ?thesis by (simp add: enc_entry_def length_enc_segs_8 [OF assms] del: chunks.simps)
qed

lemma chunks_whole: "length xs \<le> n \<Longrightarrow> chunks n xs = [xs]"
  by (subst chunks.simps) simp

lemma chunks_2953: "length data = 2953 \<Longrightarrow> length (chunks 255 data) = 12"
  by (subst chunks.simps, simp del: chunks.simps)+ 


lemma minimum_version_values: "QRspec_getMinimumVersion 2971 0 = -1" "QRspec_getMinimumVersion 2956 0 = 40"
  by code_simp+

definition eight_bit_input :: "int \<Rightarrow> QRecLevel \<Rightarrow> u8 list \<Rightarrow> QRinput" where
  "eight_bit_input version level data = extended (fresh version level) [new_entry QR_MODE_8 (int (length data)) data]"

lemma eight_bit_input_ok:
  assumes "data \<noteq> []" and "0 \<le> version" and "version \<le> 40" and "level \<le> 3"
  shows "split_of QR_MODE_8 data [new_entry QR_MODE_8 (int (length data)) data]"
    and "input_ok (eight_bit_input version level data)"
    and "\<forall>e \<in> set (in_head (eight_bit_input version level data)). data_ok (en_mode e) (en_data e)"
    and "in_head (eight_bit_input version level data) = [new_entry QR_MODE_8 (int (length data)) data]"
proof -
  show s: "split_of QR_MODE_8 data [new_entry QR_MODE_8 (int (length data)) data]"
    using assms(1) by (simp add: split_of_def new_entry_def entry_ok_def data_ok_def QRinput_check_def)
  show "input_ok (eight_bit_input version level data)"
    and "\<forall>e \<in> set (in_head (eight_bit_input version level data)). data_ok (en_mode e) (en_data e)"
    and "in_head (eight_bit_input version level data) = [new_entry QR_MODE_8 (int (length data)) data]"
    using split_input_ok(1,2,3) [OF s assms(2-4)] by (simp_all add: eight_bit_input_def)
qed

lemma encodeDataReal_input:
  assumes "0 < sz" and "sz \<le> int (length data)" and "0 \<le> version" and "version \<le> 40" and "level \<le> 3"
    and "qr_ok (s :: 'z qr_heap_scheme)" and "script s = []"
  shows "\<exists>s'. qr_ok s' \<and> script s' = [] \<and> QRcode_encodeDataReal (Some data) sz version level False s =
    evalO (QRcode_encodeMask (-1)) (eight_bit_input version level (take (nat sz) data)) s'"
proof -
  let ?input = "eight_bit_input version level (take (nat sz) data)"
  have "QRinput_check QR_MODE_8 sz data" using assms(1) by (simp add: QRinput_check_def)
  moreover have "?input = extended (fresh version level) [new_entry QR_MODE_8 sz data]"
    using assms(1,2) by (simp add: eight_bit_input_def new_entry_def)
  ultimately have "delivers (qr_ok :: 'z qr_heap_scheme \<Rightarrow> bool) (QRinput_append (fresh version level) QR_MODE_8 sz data) (Inr ?input)"
    using assms(2) qr.QRinput_append_delivers [of QR_MODE_8 sz data "fresh version level"] by (simp add: tail_ok_def fresh_def)
  then have "delivers (qr_ok :: 'z qr_heap_scheme \<Rightarrow> bool) (bindM (QRinput_new2 version level) (\<lambda>input.
      QRinput_append input QR_MODE_8 sz data)) (Inr ?input)"
    by (rule delivers_bind [OF QRinput_new2_delivers [OF assms(3-5)]])
  then obtain s' where s': "bindM (QRinput_new2 version level) (\<lambda>input.
      QRinput_append input QR_MODE_8 sz data) s = (Inr ?input, s')" "qr_ok s'" "script s' = []"
    using assms(6,7) unfolding delivers_def by (metis prod.collapse)
  have "QRcode_encodeDataReal (Some data) sz version level False s =
      bindM (bindM (QRinput_new2 version level) (\<lambda>input.
        QRinput_append input QR_MODE_8 sz data)) (evalO QRcode_encodeInput) s"
    using assms(1) by (simp add: QRcode_encodeDataReal_def bindM_assoc)
  also have "\<dots> = evalO QRcode_encodeInput ?input s'"
    by (subst bindM_def) (simp add: s')
  also have "\<dots> = evalO (QRcode_encodeMask (-1)) ?input s'"
    by (simp add: evalO_def QRcode_encodeInput_def bindM_def getO_def eight_bit_input_def extended_def fresh_def)
  finally show ?thesis using s' by blast
qed

lemma encodeData_input:
  assumes "data \<noteq> []" and "0 \<le> version" and "version \<le> 40" and "level \<le> 3"
    and "qr_ok (s :: 'z qr_heap_scheme)" and "script s = []"
  shows "\<exists>s'. qr_ok s' \<and> script s' = [] \<and> QRcode_encodeData (int (length data)) (Some data) version level s =
    evalO (QRcode_encodeMask (-1)) (eight_bit_input version level data) s'"
  using encodeDataReal_input [of "int (length data)" data version level s] assms by (simp add: QRcode_encodeData_def)

lemma capacity_input_fits:
  assumes "length data = 2953"
  shows "\<not> fits (eight_bit_input 0 0 data)" and "fits (eight_bit_input 40 0 data)"
    and "fst (conversion (eight_bit_input 40 0 data)) = 40"
proof -
  have ne: "data \<noteq> []" using assms by auto
  have est: "QRinput_estimateVersion (eight_bit_input v 0 data) = -1" for v
    unfolding QRinput_estimateVersion_def
    by (subst estimateVersion_loop.simps)
      (simp add: QRinput_estimateBitStreamSize_def eight_bit_input_def extended_def fresh_def new_entry_def assms
        QRinput_estimateBitStreamSizeOfEntry_def QRspec_lengthIndicator_def QRinput_isSplittableMode_def
        lengthTableBits_def QRinput_estimateBitsMode8_def sdiv_nonneg minimum_version_values Let_def)
  have len0: "length (enc_entries 0 False (in_head (eight_bit_input v 0 data))) = 23768" for v
    using length_enc_entry_8 [of 0 data] chunks_2953 [OF assms] assms
    by (simp add: eight_bit_input_def extended_def fresh_def new_entry_def)
  have "QRspec_maximumWords QR_MODE_8 40 = 65535"
    by (simp add: QRspec_maximumWords_def QRinput_isSplittableMode_def lengthTableBits_def Let_def)
  then have len40: "length (enc_entries 40 False (in_head (eight_bit_input v 0 data))) = 23644" for v
    using assms by (simp add: eight_bit_input_def extended_def fresh_def new_entry_def enc_entry_def enc_seg_def
        chunks_whole
        seg_header_def payload_def QRspec_lengthIndicator_def QRinput_isSplittableMode_def lengthTableBits_def)
  have sel: "in_version (eight_bit_input v 0 data) = v" "in_level (eight_bit_input v 0 data) = 0" for v
    by (simp_all add: eight_bit_input_def extended_def fresh_def)
  show "\<not> fits (eight_bit_input 0 0 data)"
    unfolding conversion_def start_version_def est sel
    by (subst settle.simps) (simp add: len0 minimum_version_values)
  show "fits (eight_bit_input 40 0 data)" "fst (conversion (eight_bit_input 40 0 data)) = 40"
    unfolding conversion_def start_version_def est sel
    by (subst settle.simps; simp add: len40 minimum_version_values)+
qed

end
