(* ===== verification/MQRstream_Correct.thy ===== *)
theory MQRstream_Correct
  imports Capacity
begin

text \<open>
  The bytes of a Micro QR Code symbol: padding with the half byte at the end, the byte stream, the
  raw code and the bits that are placed, which are the data bits followed by those of the parity.
\<close>

subsection \<open>Padding\<close>

text \<open>
  What completes a stream of \<open>len\<close> bits to the \<open>n\<close> data bits of a symbol whose terminator has \<open>t\<close>
  bits: the terminator, zero bits up to a byte, pad bytes, and a last half byte of zeros.
\<close>

definition mqr_padding :: "nat \<Rightarrow> nat \<Rightarrow> nat \<Rightarrow> u8 list" where
  "mqr_padding n t len =
     (let w = (len + t + 7) div 8; m = n div 8 in
      if n \<le> len + t \<or> m \<le> w then replicate (n - len) 0
      else replicate (8 * w - len) 0 @ bytes_bits (pad_bytes (int (m - w))) @ replicate (n - 8 * m) 0)"

lemma length_mqr_padding: "len \<le> n \<Longrightarrow> len + length (mqr_padding n t len) = n"
  unfolding mqr_padding_def Let_def by auto

lemma bit_list_mqr_padding [simp]: "bit_list (mqr_padding n t len)"
  by (auto simp: mqr_padding_def Let_def bit_list_def dest: subsetD [OF bit_list_bytes_bits [unfolded bit_list_def]])

lemma mqr_padding_terminator:
  assumes "len \<le> n"
  shows "take t (mqr_padding n t len) = replicate (min t (n - len)) 0"
  using assms unfolding mqr_padding_def Let_def by (auto simp: min_def)

text \<open>
  The code appends up to a full byte although the symbol ends with a half byte; the additional
  zeros do not change the bytes.
\<close>

definition mqr_overshoot :: "nat \<Rightarrow> nat \<Rightarrow> nat \<Rightarrow> nat" where
  "mqr_overshoot n t len = (if n \<le> len + t then 0 else 8 * ((len + t + 7) div 8) - n)"

lemma pack_bits_zeros: "pack_bits (replicate k 0) = 0"
  by (induction k) (simp_all add: pack_bits_def)

lemma bs_bytes_zeros:
  assumes "length xs mod 8 + k = 8" and "drop (8 * (length xs div 8)) xs = replicate (length xs mod 8) 0"
    and "0 < k" and "k < 8"
  shows "bs_bytes (xs @ replicate k 0) = bs_bytes xs"
proof -
  let ?q = "length xs div 8"
  have len: "length (xs @ replicate k 0) = 8 * Suc ?q"
    using assms(1) unfolding length_append length_replicate by presburger
  have "take 8 (drop (8 * i) (xs @ replicate k 0)) = take 8 (drop (8 * i) xs)" if "i < ?q" for i
  proof -
    have "8 * i + 8 \<le> length xs" using that by linarith
    then show ?thesis by simp
  qed
  moreover have "take 8 (drop (8 * ?q) (xs @ replicate k 0)) = replicate 8 0"
    using assms by (simp add: replicate_add [symmetric])
  moreover have "bs_bytes (xs @ replicate k 0) =
      map (\<lambda>i. pack_bits (take 8 (drop (8 * i) (xs @ replicate k 0)))) [0..<Suc ?q]"
    unfolding bs_bytes_def len by simp
  ultimately have "bs_bytes (xs @ replicate k 0) =
      map (\<lambda>i. pack_bits (take 8 (drop (8 * i) xs))) [0..<?q] @ [pack_bits (replicate 8 0)]"
    by (simp del: append_assoc)
  moreover have "length xs mod 8 \<noteq> 0" using assms(1,4) by linarith
  ultimately show ?thesis using assms(2) by (simp add: bs_bytes_def pack_bits_zeros)
qed

lemma bs_bytes_overshoot:
  assumes "length xs \<le> n" and "n mod 8 = 0 \<or> n mod 8 = 4" and "3 \<le> t"
  shows "bs_bytes (xs @ mqr_padding n t (length xs) @ replicate (mqr_overshoot n t (length xs)) 0)
    = bs_bytes (xs @ mqr_padding n t (length xs))"
proof (cases "mqr_overshoot n t (length xs) = 0")
  case False
  define w where "w = (length xs + t + 7) div 8"
  have len: "length (xs @ mqr_padding n t (length xs)) = n"
    using length_mqr_padding [OF assms(1)] by simp
  have o: "length xs + t < n" "mqr_overshoot n t (length xs) = 8 * w - n" "n < 8 * w"
    using False by (auto simp: mqr_overshoot_def w_def split: if_splits)
  have w8: "8 * w \<le> length xs + t + 7" by (simp add: w_def)
  have n4: "n mod 8 = 4" "n + 4 = 8 * w" "n div 8 + 1 = w"
    using o w8 assms(2) by presburger+
  have k: "8 * w - n = 4" using n4(2) by simp
  have "length xs \<le> 8 * (n div 8)" using n4(2,3) o(1) assms(3) by linarith
  moreover have "mqr_padding n t (length xs) = replicate (n - length xs) 0"
    using n4(3) o by (simp add: mqr_padding_def Let_def w_def [symmetric])
  ultimately show ?thesis
    using bs_bytes_zeros [of "xs @ mqr_padding n t (length xs)" 4] n4(1) o(2) len by (simp add: k minus_mult_div_eq_mod)
qed simp


context heap_invariant
begin

lemma appendPaddingBitMQR_delivers:
  assumes "int (length xs) \<le> MQRspec_getDataLengthBit (in_version input) (in_level input)"
    and "1 \<le> in_version input" and "in_version input \<le> 4"
  defines "n \<equiv> nat (MQRspec_getDataLengthBit (in_version input) (in_level input))"
    and "t \<equiv> nat (in_version input * 2 + 1)"
  shows "delivers I (QRinput_appendPaddingBitMQR (bs_of xs) input)
    (Inr (bs_of (xs @ mqr_padding n t (length xs) @ replicate (mqr_overshoot n t (length xs)) 0)))"
proof -
  let ?len = "length xs" and ?w = "(length xs + t + 7) div 8" and ?m = "n div 8"
  have len: "?len \<le> n" and n: "MQRspec_getDataLengthBit (in_version input) (in_level input) = int n"
    and t: "in_version input * 2 + 1 = int t" "3 \<le> t" "t \<le> 9"
    using assms(1-3) by (simp_all add: n_def t_def)
  consider (full) "?len = n" | (short) "?len < n" "n \<le> ?len + t" | (zeros) "?len + t < n" "?m \<le> ?w"
    | (pads) "?len + t < n" "?w < ?m" using len by linarith
  then show ?thesis
  proof cases
    case full
    then show ?thesis
      by (simp add: QRinput_appendPaddingBitMQR_def n Let_def mqr_padding_def mqr_overshoot_def delivers_ret)
  next
    case short
    then have "int n - int ?len = int (n - ?len)" "n - ?len \<le> 32" using t by simp_all
    then show ?thesis using short t(1) appendZeros_delivers [of "n - ?len" xs]
      by (simp add: QRinput_appendPaddingBitMQR_def n Let_def mqr_padding_def mqr_overshoot_def)
  next
    case zeros
    define k where "k = n - ?len + mqr_overshoot n t ?len"
    have w: "?len + t \<le> 8 * ?w" "8 * ?w \<le> ?len + t + 7" by simp_all
    have m: "8 * ?m \<le> n" "n < 8 * ?m + 8" by simp_all
    have words: "(int ?len + int t + 7) sdiv 8 = int ?w" "int n sdiv 8 = int ?m" by (simp_all add: sdiv_nonneg zdiv_int)
    have conds: "(int n < int ?len) = False" "(int n = int ?len) = False" "(int n - int ?len \<le> int t) = False"
      "(int ?m - int ?w > 0) = False" using zeros by simp_all
    have termb: "(if int n - int ?w * 8 > 0 then
        if int ?w = int ?m then int t + (int ?w * 8 - (int ?len + int t)) + (int n - int ?w * 8)
        else int t + (int ?w * 8 - (int ?len + int t))
        else int t + (int ?w * 8 - (int ?len + int t))) = int k"
      using zeros w m by (auto simp: k_def mqr_overshoot_def)
    have "k \<le> 32" using zeros w m t(3) by (auto simp: k_def mqr_overshoot_def)
    then have z: "delivers I (BitStream_appendNum (bs_of []) (int k) 0) (Inr (bs_of (replicate k 0)))"
      using appendZeros_delivers [of k "[]"] by (simp only: append_Nil)
    have pad: "mqr_padding n t ?len @ replicate (mqr_overshoot n t ?len) 0 = replicate k 0"
      unfolding k_def replicate_add using zeros by (simp add: mqr_padding_def Let_def)
    show ?thesis
      unfolding QRinput_appendPaddingBitMQR_def Let_def n t(1) bs_of_sel words conds if_False termb pad
      by (intro BitStream_new_then delivers_bind [OF z] delivers_bind [OF delivers_ret] BitStream_append_delivers)
  next
    case pads
    have w: "?len + t \<le> 8 * ?w" "8 * ?w \<le> ?len + t + 7" by simp_all
    have m: "8 * ?m \<le> n" "n < 8 * ?m + 8" by simp_all
    have words: "(int ?len + int t + 7) sdiv 8 = int ?w" "int n sdiv 8 = int ?m" by (simp_all add: sdiv_nonneg zdiv_int)
    have conds: "(int n < int ?len) = False" "(int n = int ?len) = False" "(int n - int ?len \<le> int t) = False"
      "(int (?m - ?w) > 0) = True" "(int n - int ?w * 8 > 0) = True" "(int ?w = int ?m) = False" using pads m by simp_all
    have termb: "int t + (int ?w * 8 - (int ?len + int t)) = int (8 * ?w - ?len)" using w by simp
    have padlen: "int ?m - int ?w = int (?m - ?w)" using pads by simp
    have half: "int n - int ?m * 8 = int (n - 8 * ?m)" "n - 8 * ?m \<le> 32" using m by simp_all
    have z: "delivers I (BitStream_appendNum (bs_of []) (int (8 * ?w - ?len)) 0) (Inr (bs_of (replicate (8 * ?w - ?len) 0)))"
      using appendZeros_delivers [of "8 * ?w - ?len" "[]"] w t(3) by (simp only: append_Nil)
    have pad: "mqr_padding n t ?len @ replicate (mqr_overshoot n t ?len) 0 =
        (replicate (8 * ?w - ?len) 0 @ bytes_bits (pad_bytes (int (?m - ?w)))) @ replicate (n - 8 * ?m) 0"
      using pads m by (simp add: mqr_padding_def Let_def mqr_overshoot_def)
    have bytes: "delivers I (BitStream_appendBytes (bs_of ys) (int (?m - ?w)) (pad_bytes (int (?m - ?w))))
        (Inr (bs_of (ys @ bytes_bits (pad_bytes (int (?m - ?w))))))" for ys
      using BitStream_appendBytes_delivers [of "int (?m - ?w)" "pad_bytes (int (?m - ?w))" ys] by simp
    have last: "delivers I (if int (n - 8 * ?m) > 0 then BitStream_appendNum (bs_of ys) (int (n - 8 * ?m)) 0 else retM (bs_of ys))
        (Inr (bs_of (ys @ replicate (n - 8 * ?m) 0)))" for ys
      using appendZeros_delivers [of "n - 8 * ?m" ys] half(2) by (cases "n - 8 * ?m") (auto intro: delivers_ret_eq)
    have block: "delivers I (bindM malloc (\<lambda>_.
        bindM (BitStream_appendBytes (bs_of ys) (int (?m - ?w)) (pad_bytes (int (?m - ?w)))) (\<lambda>padding.
        if int (n - 8 * ?m) > 0 then BitStream_appendNum padding (int (n - 8 * ?m)) 0 else retM padding)))
      (Inr (bs_of ((ys @ bytes_bits (pad_bytes (int (?m - ?w)))) @ replicate (n - 8 * ?m) 0)))" for ys
      by (intro malloc_then delivers_bind [OF bytes] last)
    show ?thesis
      unfolding QRinput_appendPaddingBitMQR_def Let_def n t(1) bs_of_sel words conds if_False if_True termb padlen half(1) pad
      by (intro BitStream_new_then delivers_bind [OF z] delivers_bind [OF block] BitStream_append_delivers)
  qed
qed


lemma appendPaddingBitMQR_overflow:
  assumes "MQRspec_getDataLengthBit (in_version input) (in_level input) < int (length xs)"
  shows "delivers I (QRinput_appendPaddingBitMQR (bs_of xs) input) (Inl ERANGE)"
  using assms by (auto simp: QRinput_appendPaddingBitMQR_def Let_def intro!: delivers_fail)

end

subsection \<open>The byte stream\<close>

text \<open>The versions and levels that Micro QR Code has.\<close>

definition mqr_kinds :: "(int \<times> QRecLevel) list" where
  "mqr_kinds = [(1, 0), (2, 0), (2, 1), (3, 0), (3, 1), (4, 0), (4, 1), (4, 2)]"

definition mqr_data_bits :: "QRinput \<Rightarrow> u8 list" where
  "mqr_data_bits input =
     (let bits = enc_entries (in_version input) True (in_head input)
      in bits @ mqr_padding (nat (MQRspec_getDataLengthBit (in_version input) (in_level input)))
           (nat (in_version input * 2 + 1)) (length bits))"

definition mqr_input_ok :: "QRinput \<Rightarrow> bool" where
  "mqr_input_ok input \<longleftrightarrow> in_mqr input \<and> (in_version input, in_level input) \<in> set mqr_kinds \<and>
     entries_ok (in_version input) True (in_head input)"

definition mqr_fits :: "QRinput \<Rightarrow> bool" where
  "mqr_fits input \<longleftrightarrow> int (length (enc_entries (in_version input) True (in_head input)))
     \<le> MQRspec_getDataLengthBit (in_version input) (in_level input)"

definition mqr_encoded :: "QRinput \<Rightarrow> QRinput" where
  "mqr_encoded input = input\<lparr>in_head := map (encoded (in_version input) True) (in_head input)\<rparr>"

lemma mqr_kinds_facts:
  assumes "(v, l) \<in> set mqr_kinds"
  shows "1 \<le> v" and "v \<le> 4" and "l \<le> 2" and "20 \<le> MQRspec_getDataLengthBit v l"
    and "MQRspec_getDataLengthBit v l \<le> 128"
    and "nat (MQRspec_getDataLengthBit v l) mod 8 = 0 \<or> nat (MQRspec_getDataLengthBit v l) mod 8 = 4"
    and "MQRspec_getDataLength v l = int ((nat (MQRspec_getDataLengthBit v l) + 7) div 8)"
    and "0 < MQRspec_getECCLength v l" and "MQRspec_getECCLength v l \<le> 14"
  using assms by (auto simp: mqr_kinds_def MQRspec_getDataLengthBit_def MQRspec_getDataLength_def
      MQRspec_getECCLength_def mqrspecCapacity_def Let_def)

lemma length_mqr_data_bits:
  assumes "mqr_input_ok input" and "mqr_fits input"
  shows "int (length (mqr_data_bits input)) = MQRspec_getDataLengthBit (in_version input) (in_level input)"
  using assms length_mqr_padding [of "length (enc_entries (in_version input) True (in_head input))"
      "nat (MQRspec_getDataLengthBit (in_version input) (in_level input))" "nat (in_version input * 2 + 1)"]
  by (simp add: mqr_data_bits_def mqr_fits_def Let_def)

lemma bit_list_mqr_data_bits [simp]: "bit_list (mqr_data_bits input)"
  by (simp add: mqr_data_bits_def Let_def)

context heap_invariant
begin

lemma mergeBitStream_mqr_acts:
  assumes "mqr_input_ok input"
  shows "acts I QRinput_mergeBitStream input (Inr (bs_of (enc_entries (in_version input) True (in_head input))))
    (mqr_encoded input)"
proof -
  have "acts I QRinput_createBitStream input (Inr (int (length (enc_entries (in_version input) True (in_head input)))))
      (mqr_encoded input)"
    using createBitStream_acts [of input] assms by (simp add: mqr_input_ok_def mqr_encoded_def)
  then have "acts I (bindM QRinput_createBitStream (\<lambda>_. retM ())) input (Inr ()) (mqr_encoded input)"
    by (intro acts_bind acts_ret) simp_all
  then show ?thesis
    using assms merge_encoded_runs [of "in_version input" True "in_head input"] unfolding QRinput_mergeBitStream_def
    by (intro acts_get_then acts_bind [where y = "mqr_encoded input" and a = "()"])
      (auto simp: mqr_input_ok_def mqr_encoded_def intro!: acts_get_then
        acts_lift_then [OF delivers_runs [OF BitStream_new_delivers]] acts_lift)
qed

lemma getByteStream_mqr_acts:
  assumes "mqr_input_ok input"
  shows "acts I QRinput_getByteStream input
    (if mqr_fits input then Inr (bs_bytes (mqr_data_bits input)) else Inl ERANGE) (mqr_encoded input)"
proof -
  define bits where "bits = enc_entries (in_version input) True (in_head input)"
  have sel: "in_version (mqr_encoded input) = in_version input" "in_level (mqr_encoded input) = in_level input"
    "in_mqr (mqr_encoded input)" using assms by (simp_all add: mqr_encoded_def mqr_input_ok_def)
  have kind: "(in_version input, in_level input) \<in> set mqr_kinds" using assms by (simp add: mqr_input_ok_def)
  note facts = mqr_kinds_facts [OF kind]
  have merge: "acts I QRinput_mergeBitStream input (Inr (bs_of bits)) (mqr_encoded input)"
    using mergeBitStream_mqr_acts [OF assms] by (simp add: bits_def)
  define n t where "n = nat (MQRspec_getDataLengthBit (in_version input) (in_level input))" and "t = nat (in_version input * 2 + 1)"
  show ?thesis
  proof (cases "mqr_fits input")
    case True
    define ys where "ys = bits @ mqr_padding n t (length bits) @ replicate (mqr_overshoot n t (length bits)) 0"
    have fit: "int (length bits) \<le> MQRspec_getDataLengthBit (in_version input) (in_level input)"
      using True by (simp add: mqr_fits_def bits_def)
    have "delivers I (QRinput_appendPaddingBitMQR (bs_of bits) (mqr_encoded input)) (Inr (bs_of ys))"
      using appendPaddingBitMQR_delivers [of bits "mqr_encoded input"] fit facts(1,2)
      by (simp add: sel n_def t_def ys_def)
    then have get: "acts I QRinput_getBitStream input (Inr (bs_of ys)) (mqr_encoded input)"
      unfolding QRinput_getBitStream_def
      by (intro acts_bind [OF merge] acts_get_then) (simp add: sel acts_lift delivers_runs)
    have len: "length bits \<le> n" using fit by (simp add: n_def)
    have "length (bits @ mqr_padding n t (length bits)) = n" using length_mqr_padding [OF len] by simp
    then have "ys \<noteq> []" using facts(4) by (auto simp: ys_def n_def)
    then have "delivers I (BitStream_toByte (bs_of ys)) (Inr (bs_bytes ys))"
      using BitStream_toByte_delivers [of ys] by simp
    then have "acts I QRinput_getByteStream input (Inr (bs_bytes ys)) (mqr_encoded input)"
      unfolding QRinput_getByteStream_def by (intro acts_bind [OF get] acts_lift delivers_runs)
    moreover have "bs_bytes ys = bs_bytes (mqr_data_bits input)"
      using bs_bytes_overshoot [OF len, of t] facts(1,6)
      by (simp add: ys_def mqr_data_bits_def Let_def bits_def n_def t_def)
    ultimately show ?thesis using True by simp
  next
    case False
    then have "delivers I (QRinput_appendPaddingBitMQR (bs_of bits) (mqr_encoded input)) (Inl ERANGE)"
      by (intro appendPaddingBitMQR_overflow) (simp add: sel mqr_fits_def bits_def)
    then have "acts I QRinput_getBitStream input (Inl ERANGE) (mqr_encoded input)"
      unfolding QRinput_getBitStream_def
      by (intro acts_bind [OF merge] acts_get_then) (simp add: sel acts_lift delivers_runs)
    then show ?thesis using False unfolding QRinput_getByteStream_def by (simp add: acts_bind_fail)
  qed
qed

end

subsection \<open>The raw code\<close>

lemma nbits_bs_bytes:
  assumes "bit_list xs" and "i < length (bs_bytes xs)"
  shows "nbits (if i < length xs div 8 then 8 else length xs mod 8) (unat (bs_bytes xs ! i)) = take 8 (drop (8 * i) xs)"
proof (cases "i < length xs div 8")
  case True
  then have "8 * i + 8 \<le> length xs" by linarith
  then have "length (take 8 (drop (8 * i) xs)) = 8" by simp
  moreover have "bit_list (take 8 (drop (8 * i) xs))"
    using assms(1) by (auto simp: bit_list_def dest: in_set_takeD in_set_dropD)
  ultimately show ?thesis using True nbits_pack_bits by (simp add: bs_bytes_def nth_append)
next
  case False
  let ?q = "length xs div 8" and ?ps = "drop (8 * (length xs div 8)) xs"
  have i: "i = ?q" "length xs mod 8 \<noteq> 0" using assms(2) False by (auto simp: bs_bytes_def split: if_splits)
  have len: "length ?ps = length xs mod 8" by (simp add: minus_mult_div_eq_mod)
  moreover have ps: "bit_list ?ps" using assms(1) by (auto simp: bit_list_def dest: in_set_dropD)
  ultimately have "nbits (length xs mod 8) (unat (pack_bits ?ps)) = ?ps"
    using pack_bits_val [OF ps] nbits_bits_val [OF ps] by simp
  moreover have "take 8 ?ps = ?ps" using len by simp
  ultimately show ?thesis using i len by (simp add: bs_bytes_def nth_append)
qed

lemma concat_takes: "8 * n \<ge> length xs \<Longrightarrow> concat (map (\<lambda>i. take 8 (drop (8 * i) xs)) [0..<n]) = xs"
proof (induction n arbitrary: xs)
  case (Suc n)
  have "concat (map (\<lambda>i. take 8 (drop (8 * i) xs)) [0..<Suc n]) =
      take 8 xs @ concat (map (\<lambda>i. take 8 (drop (8 * i) (drop 8 xs))) [0..<n])"
    by (simp add: upt_conv_Cons map_Suc_upt [symmetric] comp_def add.commute del: upt_Suc)
  then show ?case using Suc.IH [of "drop 8 xs"] Suc.prems by simp
qed simp

lemma concat_bs_bytes:
  assumes "bit_list xs"
  shows "concat (map (\<lambda>i. nbits (if i < length xs div 8 then 8 else length xs mod 8) (unat (bs_bytes xs ! i)))
    [0..<length (bs_bytes xs)]) = xs"
proof -
  have "map (\<lambda>i. nbits (if i < length xs div 8 then 8 else length xs mod 8) (unat (bs_bytes xs ! i)))
      [0..<length (bs_bytes xs)] = map (\<lambda>i. take 8 (drop (8 * i) xs)) [0..<length (bs_bytes xs)]"
    using nbits_bs_bytes [OF assms] by simp
  then show ?thesis using concat_takes [of xs "length (bs_bytes xs)"] by (simp add: length_bs_bytes del: map_eq_conv)
qed

definition mqr_raw :: "int \<Rightarrow> QRecLevel \<Rightarrow> u8 list \<Rightarrow> MQRRawCode" where
  "mqr_raw v l data =
     \<lparr>mraw_version = v, mraw_dataLength = MQRspec_getDataLength v l, mraw_eccLength = MQRspec_getECCLength v l,
      mraw_datacode = data, mraw_ecccode = parity (nat (MQRspec_getECCLength v l)) data,
      mraw_rsblock = [\<lparr>rb_dataLength = MQRspec_getDataLength v l, rb_data = 0,
        rb_eccLength = MQRspec_getECCLength v l, rb_ecc = 0\<rparr>],
      mraw_oddbits = MQRspec_getDataLength v l * 8 - MQRspec_getDataLengthBit v l, mraw_count = 0\<rparr>"

definition mqr_bytes :: "QRinput \<Rightarrow> u8 list" where
  "mqr_bytes input = bs_bytes (mqr_data_bits input)"

lemma length_mqr_bytes:
  assumes "mqr_input_ok input" and "mqr_fits input"
  shows "int (length (mqr_bytes input)) = MQRspec_getDataLength (in_version input) (in_level input)"
proof -
  have kind: "(in_version input, in_level input) \<in> set mqr_kinds" using assms(1) by (simp add: mqr_input_ok_def)
  have "nat (MQRspec_getDataLengthBit (in_version input) (in_level input)) = length (mqr_data_bits input)"
    using length_mqr_data_bits [OF assms] by linarith
  then show ?thesis using mqr_kinds_facts(7) [OF kind] by (simp add: mqr_bytes_def length_bs_bytes)
qed

context rs_invariant
begin

lemma MQRraw_new_acts:
  assumes "mqr_input_ok input"
  defines "v \<equiv> in_version input" and "l \<equiv> in_level input"
  shows "acts I MQRraw_new input
    (if mqr_fits input then Inr (mqr_raw v l (mqr_bytes input)) else Inl ERANGE) (mqr_encoded input)"
proof -
  have kind: "(v, l) \<in> set mqr_kinds" using assms(1) by (simp add: mqr_input_ok_def v_def l_def)
  note facts = mqr_kinds_facts [OF kind]
  note bytes = getByteStream_mqr_acts [OF assms(1), folded mqr_bytes_def]
  note mal = acts_lift_then [OF delivers_runs [OF malloc_delivers]]
  show ?thesis
  proof (cases "mqr_fits input")
    case True
    define d e where "d = length (mqr_bytes input)" and "e = nat (MQRspec_getECCLength v l)"
    have d: "MQRspec_getDataLength v l = int d" and e: "MQRspec_getECCLength v l = int e"
      using length_mqr_bytes [OF assms(1) True] facts(8) by (simp_all add: v_def l_def d_def e_def)
    have de: "0 < d" "e + d \<le> 255" "0 < e" using facts(4,5,7,8,9) d e by linarith+
    have par: "encode_rs_char (rs_for e d) (mqr_bytes input) = parity e (mqr_bytes input)"
      by (simp add: parity_def d_def)
    have len: "length (parity e (mqr_bytes input)) = e"
      using parity_codeword(1) [of e "mqr_bytes input"] de by (simp add: d_def)
    have init: "RSblock_initBlock (int d) 0 (int e) 0 (rs_for e d) (mqr_bytes input) (replicate e 0) =
        (\<lparr>rb_dataLength = int d, rb_data = 0, rb_eccLength = int e, rb_ecc = 0\<rparr>, parity e (mqr_bytes input))"
      using len by (simp add: RSblock_initBlock_def overwrite_def par)
    have gb: "acts I QRinput_getByteStream input (Inr (mqr_bytes input)) (mqr_encoded input)" using bytes True by simp
    note rs = acts_lift_then [OF delivers_runs [OF init_rs_for [OF de(1,2)]]]
    show ?thesis unfolding MQRraw_new_def
      by (intro mal acts_get_then, simp only: Let_def d e flip: v_def l_def, intro acts_bind [OF gb] mal rs)
        (auto simp: True init mqr_raw_def d e v_def [symmetric] l_def [symmetric] intro!: acts_ret)
  next
    case False
    then show ?thesis unfolding MQRraw_new_def Let_def
      by (intro mal acts_get_then) (use bytes in \<open>simp add: acts_bind_fail\<close>)
  qed
qed

end


subsection \<open>Placing the codes\<close>

definition mqr_symbol_bits :: "int \<Rightarrow> QRecLevel \<Rightarrow> u8 list \<Rightarrow> u8 list" where
  "mqr_symbol_bits v l bits = bits @ bytes_bits (parity (nat (MQRspec_getECCLength v l)) (bs_bytes bits))"

lemma put_codesMQR_modules:
  assumes kind: "(v, l) \<in> set mqr_kinds" and bits: "bit_list bits" "int (length bits) = MQRspec_getDataLengthBit v l"
  defines "raw \<equiv> mqr_raw v l (bs_bytes bits)"
  shows "(put_codesMQR raw filler :: ('s, MQRRawCode \<times> FrameFiller) M) = bindM (foldM put_module filler (modules (mqr_symbol_bits v l bits)))
    (\<lambda>filler. retM (raw\<lparr>mraw_count := MQRspec_getDataLength v l + MQRspec_getECCLength v l\<rparr>, filler))"
proof -
  note facts = mqr_kinds_facts [OF kind]
  define d e where "d = length (bs_bytes bits)" and "e = nat (MQRspec_getECCLength v l)"
  have len: "nat (MQRspec_getDataLengthBit v l) = length bits" using bits(2) by linarith
  have d: "MQRspec_getDataLength v l = int d" and e: "MQRspec_getECCLength v l = int e"
    using facts(7,8) len by (simp_all add: d_def e_def length_bs_bytes)
  define codes where "codes = bs_bytes bits @ parity e (bs_bytes bits)"
  have codes: "length codes = d + e"
  proof -
    have "0 < d" "e + d \<le> 255" "0 < e" using facts(4,5,7,8,9) d e by linarith+
    then show ?thesis using parity_codeword(1) [of e "bs_bytes bits"] by (simp add: codes_def d_def)
  qed
  define k where "k i = (if i < length bits div 8 \<or> d \<le> i then 8 else length bits mod 8)" for i
  define odd where "odd = mraw_oddbits raw"
  have sel: "mraw_dataLength raw = int d" "mraw_eccLength raw = int e" "mraw_datacode raw = bs_bytes bits"
    "mraw_ecccode raw = parity e (bs_bytes bits)" "odd = int d * 8 - int (length bits)"
    using bits(2) by (simp_all add: raw_def mqr_raw_def d e odd_def)
  consider (even) q where "length bits = 8 * q" | (half) q where "length bits = 8 * q + 4"
    using facts(6) unfolding len by (metis mult_div_mod_eq add.right_neutral)
  then have odd: "odd = 0 \<and> length bits mod 8 = 0 \<and> d = length bits div 8 \<or>
      odd = 4 \<and> length bits mod 8 = 4 \<and> d = Suc (length bits div 8)"
    by cases (simp_all add: sel(5) d_def length_bs_bytes)
  have code: "MQRraw_getCode (raw\<lparr>mraw_count := int i\<rparr>) = (codes ! i, raw\<lparr>mraw_count := int (Suc i)\<rparr>)" if "i < d + e" for i
    using that by (auto simp: MQRraw_getCode_def Let_def sel codes_def nth_append d_def nat_diff_distrib')
  define F :: "MQRRawCode \<times> FrameFiller \<Rightarrow> nat \<Rightarrow> ('s, MQRRawCode \<times> FrameFiller) M" where "F = (\<lambda>(raw, filler) i. let (code, raw) = MQRraw_getCode raw in
         bindM (if mraw_oddbits raw \<noteq> 0 \<and> int i = mraw_dataLength raw - 1
                then put_code (nat (mraw_oddbits raw)) (push_bit (nat (mraw_oddbits raw - 1)) 1) filler code
                else put_code 8 0x80 filler code) (\<lambda>filler. retM (raw, filler)))"
  have put: "(if odd \<noteq> 0 \<and> int i = int d - 1 then put_code (nat odd) (push_bit (nat (odd - 1)) 1) filler (codes ! i)
      else put_code 8 0x80 filler (codes ! i)) = foldM put_module filler (modules (nbits (k i) (unat (codes ! i))))" for i filler
    using odd byte_loop_upto [of 4 "codes ! i"] put_code_modules [of filler "codes ! i"]
    by (auto simp: k_def put_code_loop)
  have sel': "mraw_oddbits (raw\<lparr>mraw_count := c\<rparr>) = odd" "mraw_dataLength (raw\<lparr>mraw_count := c\<rparr>) = int d" for c
    by (simp_all add: odd_def sel)
  have step: "F (raw\<lparr>mraw_count := int i\<rparr>, fl) i =
      bindM (foldM put_module fl (modules (nbits (k i) (unat (codes ! i))))) (\<lambda>fl. retM (raw\<lparr>mraw_count := int (Suc i)\<rparr>, fl))"
    if "i < d + e" for i fl
    unfolding put [symmetric] F_def prod.case Let_def code [OF that] sel' ..
  have upto: "foldM F (raw, filler) [0..<n] =
      bindM (foldM put_module filler (modules (concat (map (\<lambda>i. nbits (k i) (unat (codes ! i))) [0..<n]))))
        (\<lambda>filler. retM (raw\<lparr>mraw_count := int n\<rparr>, filler))" if "n \<le> d + e" for n
    using that
  proof (induction n)
    case 0
    have "raw\<lparr>mraw_count := 0\<rparr> = raw" by (simp add: raw_def mqr_raw_def)
    then show ?case by (simp del: retM_apply)
  next
    case (Suc n)
    have "foldM F (raw, filler) [0..<Suc n] = bindM (foldM F (raw, filler) [0..<n]) (\<lambda>st. F st n)"
      by (simp add: foldM_append bindM_ret_right del: retM_apply)
    with Suc step [of n] show ?case by (simp add: foldM_append bindM_assoc del: of_nat_Suc retM_apply)
  qed
  have data: "concat (map (\<lambda>i. nbits (k i) (unat (codes ! i))) [0..<d]) = bits"
  proof -
    have "map (\<lambda>i. nbits (k i) (unat (codes ! i))) [0..<d] =
        map (\<lambda>i. nbits (if i < length bits div 8 then 8 else length bits mod 8) (unat (bs_bytes bits ! i))) [0..<d]"
      by (simp add: k_def codes_def nth_append d_def)
    then show ?thesis using concat_bs_bytes [OF bits(1)] by (simp add: d_def del: map_eq_conv)
  qed
  have ecc: "concat (map (\<lambda>i. nbits (k (d + i)) (unat (codes ! (d + i)))) [0..<e]) = bytes_bits (parity e (bs_bytes bits))"
  proof -
    have "length (parity e (bs_bytes bits)) = e" using codes by (simp add: codes_def d_def)
    then have "map (\<lambda>i. nbits (k (d + i)) (unat (codes ! (d + i)))) [0..<e] =
        map (\<lambda>c. nbits 8 (unat c)) (parity e (bs_bytes bits))"
      by (intro nth_equalityI) (simp_all add: k_def codes_def nth_append d_def)
    then show ?thesis by (simp add: bytes_bits_def)
  qed
  have "concat (map (\<lambda>i. nbits (k i) (unat (codes ! i))) [0..<d + e]) = mqr_symbol_bits v l bits"
    unfolding map_upt_add concat_append data ecc by (simp add: mqr_symbol_bits_def e_def)
  then show ?thesis using upto [of "d + e"] unfolding put_codesMQR_def sel F_def by (simp add: d e nat_add_distrib)
qed

end
