(* ===== verification/MQRframe_Correct.thy ===== *)
theory MQRframe_Correct
  imports MQRstream_Correct
begin

text \<open>
  The frame of a Micro QR Code symbol once its codes are placed and masked: the cells that are not
  fixed are those the filler visits, in the order of the standard, the masking changes these and
  no others, and the format information goes to the fifteen cells beside the finder.
\<close>

subsection \<open>The path of the filler\<close>

definition mqr_path :: "nat \<Rightarrow> (nat \<times> nat) list" where
  "mqr_path w = concat (map (right_pair w) [0..<(w - 1) div 2]) @ [(if even ((w - 1) div 2) then w - 1 else 0, 0)]"

definition mqr_func :: "nat \<times> nat \<Rightarrow> bool" where
  "mqr_func = (\<lambda>(y, x). y = 0 \<or> x = 0 \<or> y \<le> 8 \<and> x \<le> 8)"

definition mqr_data_path :: "int \<Rightarrow> (nat \<times> nat) list" where
  "mqr_data_path v = filter (\<lambda>p. \<not> mqr_func p) (mqr_path (MQRspec_getWidth v))"

lemma mqr_marks_all:
  "list_all (\<lambda>v. map marked (mqr_frame_template v) =
     concat (map (\<lambda>y. map (\<lambda>x. mqr_func (y, x)) [0..<MQRspec_getWidth v]) [0..<MQRspec_getWidth v])) [1, 2, 3, 4]"
  by code_simp


lemma mqr_width:
  assumes "1 \<le> v" and "v \<le> 4"
  shows "int (MQRspec_getWidth v) = 2 * v + 9" and "odd (MQRspec_getWidth v)" and "11 \<le> MQRspec_getWidth v" and "MQRspec_getWidth v \<le> 17"
proof -
  have "v \<in> {1, 2, 3, 4}" using assms by auto
  then show "int (MQRspec_getWidth v) = 2 * v + 9" by (auto simp: MQRspec_getWidth_def mqrspecCapacity_def)
  then show "odd (MQRspec_getWidth v)" and "11 \<le> MQRspec_getWidth v" and "MQRspec_getWidth v \<le> 17" using assms by presburger+
qed

lemma mqr_marked:
  assumes "1 \<le> v" and "v \<le> 4" and "p \<in> grid (MQRspec_getWidth v)"
  shows "marked (mqr_frame_template v ! idx (MQRspec_getWidth v) p) = mqr_func p"
proof -
  obtain y x where p: "p = (y, x)" "y < MQRspec_getWidth v" "x < MQRspec_getWidth v" using assms(3) by (auto simp: grid_def)
  have "v \<in> {1, 2, 3, 4}" using assms by auto
  then have all: "map marked (mqr_frame_template v) =
     concat (map (\<lambda>y. map (\<lambda>x. mqr_func (y, x)) [0..<MQRspec_getWidth v]) [0..<MQRspec_getWidth v])"
    using mqr_marks_all by auto
  have "idx (MQRspec_getWidth v) p < length (mqr_frame_template v)"
    using idx_less [OF assms(3)] by (simp add: length_mqr_frame_template)
  then have "marked (mqr_frame_template v ! idx (MQRspec_getWidth v) p) = map marked (mqr_frame_template v) ! idx (MQRspec_getWidth v) p"
    by simp
  also have "\<dots> = mqr_func p" unfolding all using p by (simp add: grid_nth)
  finally show ?thesis .
qed

lemma walk_mqr:
  assumes "odd w" and "11 \<le> w"
  shows "mqr_path w = (w - 1, w - 1) # tl (mqr_path w)" and "walk w True (int w - 1, int w - 1, -1, 0) (tl (mqr_path w))"
proof -
  define K where "K = (w - 1) div 2"
  have w: "w = 2 * K + 1" "5 \<le> K" using assms by (auto simp: K_def elim!: oddE)
  define rest where "rest = [(if even K then w - 1 else 0 :: nat, 0 :: nat)]"
  have "walk w True (enter w K) []"
    by (rule walk_end [of _ _ _ "-1" "if even K then int w - 1 else 0" "if even K then -1 else 1" 1])
      (use w in \<open>auto simp: enter_def step_def of_nat_diff\<close>)
  then have "walk w True (enter w 0) (tl (concat (map (right_pair w) [0..<K]) @ rest))"
    using w by (intro walk_pairs) (auto simp: rest_def)
  moreover have "mqr_path w = concat (map (right_pair w) [0..<K]) @ rest"
    using w by (simp add: mqr_path_def rest_def)
  ultimately show "walk w True (int w - 1, int w - 1, -1, 0) (tl (mqr_path w))"
    using w by (simp add: enter_def of_nat_diff)
  have "mqr_path w = right_pair w 0 @ concat (map (right_pair w) [1..<K]) @ rest"
    using w by (simp add: mqr_path_def rest_def upt_conv_Cons)
  then show "mqr_path w = (w - 1, w - 1) # tl (mqr_path w)"
    using Cons_append_tl [OF right_pair_Cons [of w 0]] w by simp
qed

lemma mqr_path_props:
  assumes "odd w" and "11 \<le> w"
  shows "distinct (mqr_path w)" and "set (mqr_path w) \<subseteq> grid w" and "{0..<w} \<times> {1..<w} \<subseteq> set (mqr_path w)"
proof -
  define K where "K = (w - 1) div 2"
  have w: "w = 2 * K + 1" "5 \<le> K" using assms by (auto simp: K_def elim!: oddE)
  define cs where "cs = concat (map (right_pair w) [0..<K])"
  have path: "mqr_path w = cs @ [(if even K then w - 1 else 0, 0)]" using w by (simp add: mqr_path_def cs_def)
  have cs: "set cs = {0..<w} \<times> {1..<w}" using set_right [of K K] by (simp add: cs_def w)
  then show "set (mqr_path w) \<subseteq> grid w" "{0..<w} \<times> {1..<w} \<subseteq> set (mqr_path w)"
    using assms(2) unfolding path by (auto simp: grid_def)
  have "distinct cs"
    by (rule card_distinct) (simp add: cs card_cartesian_product, simp add: cs_def length_right w)
  then show "distinct (mqr_path w)" by (auto simp: path cs)
qed

lemma mqr_data_path_props:
  assumes "1 \<le> v" and "v \<le> 4"
  defines "w \<equiv> MQRspec_getWidth v"
  shows "distinct (mqr_data_path v)" and "set (mqr_data_path v) = {p \<in> grid w. \<not> mqr_func p}"
    and "length (mqr_data_path v) = (w - 1) * (w - 1) - 64"
proof -
  note w = mqr_width [OF assms(1,2), folded w_def]
  show d: "distinct (mqr_data_path v)" using mqr_path_props(1) [OF w(2,3)] by (simp add: mqr_data_path_def w_def)
  show s: "set (mqr_data_path v) = {p \<in> grid w. \<not> mqr_func p}"
  proof -
    have "p \<in> set (mqr_path w)" if "p \<in> grid w" "\<not> mqr_func p" for p
      by (rule subsetD [OF mqr_path_props(3) [OF w(2,3)]]) (use that in \<open>auto simp: mqr_func_def grid_def\<close>)
    then show ?thesis using mqr_path_props(2) [OF w(2,3)] by (auto simp: mqr_data_path_def simp flip: w_def)
  qed
  have "{p \<in> grid w. \<not> mqr_func p} = {1..<w} \<times> {1..<w} - {1..8} \<times> {1..8}"
    using w(3) by (auto simp: grid_def mqr_func_def)
  moreover have "card ({1..<w} \<times> {1..<w} - {1..8} \<times> {1..8 :: nat}) = (w - 1) * (w - 1) - 64"
    using w(3) by (subst card_Diff_subset) (auto simp: card_cartesian_product)
  ultimately show "length (mqr_data_path v) = (w - 1) * (w - 1) - 64"
    using distinct_card [OF d] s by simp
qed

lemma mqr_frame_trail:
  assumes "1 \<le> v" and "v \<le> 4"
  defines "w \<equiv> MQRspec_getWidth v"
  shows "trail w True (mqr_frame_template v) (int w - 1, int w - 1, -1, -1) (mqr_path w)"
    and "filter (\<lambda>p. \<not> marked (mqr_frame_template v ! idx w p)) (mqr_path w) = mqr_data_path v"
proof -
  note w = mqr_width [OF assms(1,2), folded w_def]
  have "\<not> marked (mqr_frame_template v ! idx w (w - 1, w - 1))"
    using mqr_marked [OF assms(1,2), of "(w - 1, w - 1)"] w by (auto simp: grid_def mqr_func_def simp flip: w_def)
  then show "trail w True (mqr_frame_template v) (int w - 1, int w - 1, -1, -1) (mqr_path w)"
    using walk_mqr [OF w(2,3)] w(3) unfolding trail_def by fastforce
  have "\<And>p. p \<in> set (mqr_path w) \<Longrightarrow> marked (mqr_frame_template v ! idx w p) = mqr_func p"
    using mqr_marked [OF assms(1,2)] mqr_path_props(2) [OF w(2,3)] by (auto simp flip: w_def)
  then show "filter (\<lambda>p. \<not> marked (mqr_frame_template v ! idx w p)) (mqr_path w) = mqr_data_path v"
    unfolding mqr_data_path_def w_def [symmetric] by (intro filter_cong) simp_all
qed


subsection \<open>Filling and masking\<close>

definition mqr_filled :: "int \<Rightarrow> u8 list \<Rightarrow> frame" where
  "mqr_filled v bits = writes (mqr_frame_template v) (zip (map (idx (MQRspec_getWidth v)) (mqr_data_path v)) (modules bits))"

lemma mqr_put_symbol:
  assumes "1 \<le> v" and "v \<le> 4" and "bit_list bits" and "length bits = length (mqr_data_path v)"
  defines "w \<equiv> MQRspec_getWidth v"
  shows "\<exists>st. (foldM put_module (filler_at w True (mqr_frame_template v) (int w - 1, int w - 1, -1, -1)) (modules bits)
      :: ('s, FrameFiller) M) = retM (filler_at w True (mqr_filled v bits) st)"
proof -
  have "\<forall>c \<in> set (modules bits). \<not> marked c" using assms(3) marked_module by (auto simp: bit_list_def)
  moreover have "length (modules bits) \<le> length (mqr_data_path v)" using assms(4) by simp
  ultimately obtain st ps where "(foldM put_module (filler_at w True (mqr_frame_template v) (int w - 1, int w - 1, -1, -1))
      (modules bits) :: ('s, FrameFiller) M) =
      retM (filler_at w True (writes (mqr_frame_template v) (zip (map (idx w) (mqr_data_path v)) (modules bits))) st)"
      and "trail w True (writes (mqr_frame_template v) (zip (map (idx w) (mqr_data_path v)) (modules bits))) st ps"
    using put_modules [OF mqr_frame_trail [OF assms(1,2), folded w_def], of "modules bits"] by blast
  then show ?thesis unfolding mqr_filled_def w_def by blast
qed

lemma mqr_filled_at:
  assumes "1 \<le> v" and "v \<le> 4" and "length bits = length (mqr_data_path v)"
  defines "w \<equiv> MQRspec_getWidth v"
  shows "k < length bits \<Longrightarrow> mqr_filled v bits ! idx w (mqr_data_path v ! k) = 2 OR bits ! k"
    and "length (mqr_filled v bits) = w * w"
proof -
  note props = mqr_data_path_props [OF assms(1,2), folded w_def]
  have sub: "set (mqr_data_path v) \<subseteq> grid w" and len: "length (modules bits) = length (mqr_data_path v)"
    "length (mqr_frame_template v) = w * w"
    using props(2) assms(3) by (auto simp: length_mqr_frame_template w_def)
  show "mqr_filled v bits ! idx w (mqr_data_path v ! k) = 2 OR bits ! k" if "k < length bits"
    using path_writes(1) [OF props(1) sub len, of k] that assms(3) by (simp add: mqr_filled_def flip: w_def)
  show "length (mqr_filled v bits) = w * w" using len by (simp add: mqr_filled_def)
qed

definition mqr_mask_exp :: "nat \<Rightarrow> nat \<Rightarrow> nat \<Rightarrow> nat" where
  "mqr_mask_exp i = [\<lambda>x y. y mod 2, \<lambda>x y. (y div 2 + x div 3) mod 2,
     \<lambda>x y. ((x * y) mod 2 + (x * y) mod 3) mod 2, \<lambda>x y. ((x + y) mod 2 + (x * y) mod 3) mod 2] ! i"

lemma MMask_maskMakers_exp: "i < 4 \<Longrightarrow> MMask_maskMakers ! i = (\<lambda>w f. snd (MASKMAKER (mqr_mask_exp i) w f))"
proof -
  assume "i < 4"
  then have "i = 0 \<or> i = 1 \<or> i = 2 \<or> i = 3" by auto
  then show ?thesis
    by (elim disjE) (simp_all add: MMask_maskMakers_def mqr_mask_exp_def MMask_mask0_def MMask_mask1_def
      MMask_mask2_def MMask_mask3_def MMask_MASKMAKER_def MASKMAKER_def Let_def fun_eq_iff)
qed

definition mqr_masked :: "int \<Rightarrow> frame \<Rightarrow> QRecLevel \<Rightarrow> nat \<Rightarrow> frame" where
  "mqr_masked v f l i = (let w = MQRspec_getWidth v in
     MMask_writeFormatInformation v w (snd (MASKMAKER (mqr_mask_exp i) w f)) (int i) l)"

text \<open>The fifteen bits of the format information, on the column and the row next to the finder.\<close>

definition mqr_format_pos :: "nat \<Rightarrow> nat \<times> nat" where
  "mqr_format_pos k = (if k < 8 then (k + 1, 8) else (8, 15 - k))"

lemma mqr_format_writes:
  assumes "11 \<le> w"
  shows "MMask_writeFormatInformation v w f m l =
    writes f (map (\<lambda>k. (idx w (mqr_format_pos k), 0x84 OR ucast (drop_bit k (MQRspec_getFormatInfo m v l) AND 1))) [0..<15])"
proof -
  have "[0..<15] = [0..<8] @ map (\<lambda>i. 8 + i) [0..<7 :: nat]" by (simp add: upt_rec numeral_eq_Suc)
  moreover have "map (\<lambda>i. (w * (i + 1) + 8, c i)) [0..<8] = map (\<lambda>k. (idx w (mqr_format_pos k), c k)) [0..<8]"
    "map (\<lambda>i. (w * 8 + 7 - i, c (8 + i))) [0..<7] = map (\<lambda>i. (idx w (mqr_format_pos (8 + i)), c (8 + i))) [0..<7]"
    for c :: "nat \<Rightarrow> u8"
    by (rule map_cong [OF refl], simp add: mqr_format_pos_def)+
  ultimately show ?thesis
    by (simp only: MMask_writeFormatInformation_def Let_def comp_def map_append map_map writes_append)
qed

end
