(* ===== verification/MQRread_Correct.thy ===== *)
theory MQRread_Correct
  imports MQRframe_Correct
begin

text \<open>
  A reader of Micro QR Code symbols, written from the standard: the format information names the
  version, the level and the mask pattern, the modules along the path give the data and the error
  correction bits, and the data bits the segments.
\<close>

subsection \<open>Reading segments\<close>

definition mqr_modes :: "QRencodeMode list" where
  "mqr_modes = [QR_MODE_NUM, QR_MODE_AN, QR_MODE_8, QR_MODE_KANJI]"

definition read_segMQR :: "int \<Rightarrow> u8 list \<Rightarrow> (QRencodeMode \<times> u8 list \<times> u8 list) option" where
  "read_segMQR v bs =
     (let k = nat (v - 1); m = bits_val (take k bs) in
      if \<not> m < 4 then None
      else let mode = mqr_modes ! m; l = nat (MQRspec_lengthIndicator mode v); n = bits_val (take l (drop k bs))
           in Some (mode, read_data mode n (drop (k + l) bs)))"

text \<open>A terminator of zeros, or what is left of it at the end of the symbol, ends the segments.\<close>

function read_segsMQR :: "int \<Rightarrow> u8 list \<Rightarrow> (QRencodeMode \<times> u8 list) list" where
  "read_segsMQR v bs =
     (if list_all (\<lambda>b. b = 0) (take (nat (2 * v + 1)) bs) then []
      else case read_segMQR v bs of
             None \<Rightarrow> []
           | Some (mode, data, rest) \<Rightarrow> if length rest < length bs then (mode, data) # read_segsMQR v rest else [])"
  by pat_completeness auto
termination by (relation "measure (\<lambda>(v, bs). length bs)") auto

declare read_segsMQR.simps [simp del]

definition mqr_readable :: "int \<Rightarrow> QRinput_List \<Rightarrow> bool" where
  "mqr_readable v e \<longleftrightarrow> data_ok (en_mode e) (en_data e) \<and> (en_mode e = QR_MODE_KANJI \<longrightarrow> 3 \<le> v)"

lemma mqr_count_all:
  "list_all (\<lambda>(v, l). list_all (\<lambda>mode.
     (case mode of QR_MODE_NUM \<Rightarrow> True | QR_MODE_AN \<Rightarrow> 2 \<le> v | _ \<Rightarrow> 3 \<le> v) \<longrightarrow>
       MQRspec_getDataLengthBit v l < est mode (MQRspec_maximumWords mode v + (if mode = QR_MODE_KANJI then 2 else 1)) \<and>
       0 \<le> MQRspec_maximumWords mode v \<and>
       MQRspec_maximumWords mode v < QRspec_maximumWords mode v \<and>
       MQRspec_maximumWords mode v = (if mode = QR_MODE_KANJI then 2 else 1) * (2 ^ nat (MQRspec_lengthIndicator mode v) - 1)) mqr_modes) mqr_kinds"
  by code_simp

lemma mqr_count:
  assumes "(v, l) \<in> set mqr_kinds" and "mode_ok v True mode" and "mode = QR_MODE_KANJI \<longrightarrow> 3 \<le> v"
  shows "MQRspec_getDataLengthBit v l < est mode (MQRspec_maximumWords mode v + (if mode = QR_MODE_KANJI then 2 else 1))"
    and "0 \<le> MQRspec_maximumWords mode v" and "MQRspec_maximumWords mode v < QRspec_maximumWords mode v"
    and "MQRspec_maximumWords mode v = (if mode = QR_MODE_KANJI then 2 else 1) * (2 ^ nat (MQRspec_lengthIndicator mode v) - 1)"
proof -
  have "mode \<in> set mqr_modes" and "case mode of QR_MODE_NUM \<Rightarrow> True | QR_MODE_AN \<Rightarrow> 2 \<le> v | _ \<Rightarrow> 3 \<le> v"
    using assms(2,3) by (auto simp: mode_ok_def splittable_modes mqr_modes_def mqr_min_version_def)
  then show "MQRspec_getDataLengthBit v l < est mode (MQRspec_maximumWords mode v + (if mode = QR_MODE_KANJI then 2 else 1))"
    and "0 \<le> MQRspec_maximumWords mode v" and "MQRspec_maximumWords mode v < QRspec_maximumWords mode v"
    and "MQRspec_maximumWords mode v = (if mode = QR_MODE_KANJI then 2 else 1) * (2 ^ nat (MQRspec_lengthIndicator mode v) - 1)"
    using mqr_count_all assms(1) unfolding list_all_iff by fastforce+
qed

text \<open>Data that fit the symbol are one segment, whose count fits the length field.\<close>

lemma mqr_single_segment:
  assumes "(v, l) \<in> set mqr_kinds" and "mode_ok v True mode" and "mode = QR_MODE_KANJI \<longrightarrow> 3 \<le> v \<and> even (length data)"
    and fit: "int (length (enc_entry v True mode data)) \<le> MQRspec_getDataLengthBit v l"
  shows "enc_entry v True mode data = enc_seg v True mode data" and "seg_count mode data < 2 ^ nat (MQRspec_lengthIndicator mode v)"
proof -
  define N mw where "N = nat (QRspec_maximumWords mode v)" and "mw = MQRspec_maximumWords mode v"
  note c = mqr_count [OF assms(1,2), folded mw_def]
  have kanji: "mode = QR_MODE_KANJI \<longrightarrow> 3 \<le> v" and spl: "QRinput_isSplittableMode mode"
    using assms(2,3) by (simp_all add: mode_ok_def)
  have N: "mw < int N" "0 \<le> mw" using c(2,3) kanji by (simp_all add: N_def)
  have "\<exists>rest. chunks N data = take N data # rest" using N by (subst chunks.simps) auto
  then have "length (payload mode (take N data)) \<le> length (enc_entry v True mode data)"
    by (auto simp: enc_entry_def enc_seg_def N_def [symmetric])
  then have le: "est mode (int (length (take N data))) \<le> MQRspec_getDataLengthBit v l"
    using fit length_payload_est [OF spl, of "take N data"] by simp
  have "int (length (take N data)) \<le> mw"
  proof (rule ccontr)
    assume "\<not> int (length (take N data)) \<le> mw"
    moreover have "even N" if "mode = QR_MODE_KANJI"
      using that even_maximumWords [of mode v] maximumWords_pos [OF spl, of v] by (simp add: N_def even_nat_iff)
    then have "even mw" "even (length (take N data))" if "mode = QR_MODE_KANJI"
      using c(4) kanji that assms(3) by (auto simp: min_def)
    ultimately have "mw + (if mode = QR_MODE_KANJI then 2 else 1) \<le> int (length (take N data))"
      by (auto elim!: evenE simp del: length_take)
    with est_mono [of "mw + (if mode = QR_MODE_KANJI then 2 else 1)" _ mode] N(2) le c(1) kanji
    show False by fastforce
  qed
  then have len: "int (length data) \<le> mw" "length data \<le> N" using N(1) by (auto simp: min_def split: if_splits)
  show "enc_entry v True mode data = enc_seg v True mode data"
    using chunks_whole [OF len(2)] by (simp add: enc_entry_def N_def del: chunks.simps)
  show "seg_count mode data < 2 ^ nat (MQRspec_lengthIndicator mode v)"
  proof -
    have "int (seg_count mode data) \<le> 2 ^ nat (MQRspec_lengthIndicator mode v) - 1"
      using len(1) c(4) kanji spl by (cases "mode = QR_MODE_KANJI") (auto simp: seg_count_def zdiv_int)
    then have "int (seg_count mode data) < int (2 ^ nat (MQRspec_lengthIndicator mode v))" by simp
    then show ?thesis by (simp only: of_nat_less_iff)
  qed
qed


lemma mqr_mode_id_less:
  assumes "mode_ok v True mode" and "mode = QR_MODE_KANJI \<longrightarrow> 3 \<le> v"
  shows "mqr_mode_id mode < 2 ^ nat (v - 1)"
proof -
  have m: "mode \<in> {QR_MODE_NUM, QR_MODE_AN, QR_MODE_8, QR_MODE_KANJI}" "mqr_min_version mode \<le> v"
    using assms(1) by (simp_all add: mode_ok_def splittable_modes)
  have p: "(2 :: nat) ^ 1 \<le> 2 ^ nat (v - 1)" if "2 \<le> v" using that by (intro power_increasing) auto
  have q: "(2 :: nat) ^ 2 \<le> 2 ^ nat (v - 1)" if "3 \<le> v" using that by (intro power_increasing) auto
  show ?thesis using m assms(2) p q by (auto simp: mqr_mode_id_def mqr_min_version_def)
qed

lemma read_segMQR_seg:
  assumes "data_ok mode data" and "mode_ok v True mode" and "mode = QR_MODE_KANJI \<longrightarrow> 3 \<le> v"
    and "seg_count mode data < 2 ^ nat (MQRspec_lengthIndicator mode v)"
  shows "read_segMQR v (enc_seg v True mode data @ rest) = Some (mode, data, rest)"
proof -
  have "mqr_modes ! mqr_mode_id mode = mode" "mqr_mode_id mode < 4"
    using assms(2) by (auto simp: mqr_modes_def mqr_mode_id_def mode_ok_def splittable_modes)
  then show ?thesis using mqr_mode_id_less [OF assms(2,3)] assms(4) read_data_payload [OF assms(1), of rest]
    by (simp add: read_segMQR_def enc_seg_def seg_header_def bits_val_nbits Let_def)
qed

lemma bits_val_zeros: "list_all (\<lambda>b. b = 0) bs \<Longrightarrow> bits_val bs = 0"
proof (induction bs rule: rev_induct)
  case (snoc b bs)
  then show ?case by (simp add: bits_val_def)
qed (simp add: bits_val_def)

lemma mqr_not_terminator:
  assumes "mode_ok v True mode" and "mode = QR_MODE_KANJI \<longrightarrow> 3 \<le> v" and "data \<noteq> []" and "data_ok mode data"
    and "seg_count mode data < 2 ^ nat (MQRspec_lengthIndicator mode v)"
  shows "\<not> list_all (\<lambda>b. b = 0) (take (nat (2 * v + 1)) (enc_seg v True mode data @ rest))"
proof
  assume z: "list_all (\<lambda>b. b = 0) (take (nat (2 * v + 1)) (enc_seg v True mode data @ rest))"
  have m: "mode \<in> {QR_MODE_NUM, QR_MODE_AN, QR_MODE_8, QR_MODE_KANJI}" "mqr_min_version mode \<le> v" "v \<le> 4"
    using assms(1) by (simp_all add: mode_ok_def splittable_modes)
  have "enc_seg v True mode data @ rest = nbits (nat (v - 1)) (mqr_mode_id mode) @
      nbits (nat (MQRspec_lengthIndicator mode v)) (seg_count mode data) @ payload mode data @ rest"
    by (simp add: enc_seg_def seg_header_def)
  then have ids: "list_all (\<lambda>b. b = 0) (nbits (nat (v - 1)) (mqr_mode_id mode))"
    and counts: "list_all (\<lambda>b. b = 0) (take (nat (2 * v + 1) - nat (v - 1))
      (nbits (nat (MQRspec_lengthIndicator mode v)) (seg_count mode data)))"
    using z m by simp_all
  have "mqr_mode_id mode = 0"
    using bits_val_zeros [OF ids] mqr_mode_id_less [OF assms(1,2)] by (simp add: bits_val_nbits)
  then have num: "mode = QR_MODE_NUM" using m(1) by (auto simp: mqr_mode_id_def)
  then have v: "v \<in> {1, 2, 3, 4}" using m by (auto simp: mqr_min_version_def)
  then have "MQRspec_lengthIndicator mode v = v + 2" by (auto simp: num MQRspec_lengthIndicator_def mqr_lengthTableBits_def)
  moreover have "nat (2 * v + 1) - nat (v - 1) = nat (v + 2)" using v by auto
  ultimately have "list_all (\<lambda>b. b = 0) (nbits (nat (MQRspec_lengthIndicator mode v)) (seg_count mode data))"
    using counts by simp
  from bits_val_zeros [OF this] have "seg_count mode data = 0" using assms(5) by (simp add: bits_val_nbits)
  then show False using assms(3) by (simp add: num seg_count_def splittable_modes)
qed

lemma read_segsMQR_seg:
  assumes "mode_ok v True mode" and "mode = QR_MODE_KANJI \<longrightarrow> 3 \<le> v" and "data \<noteq> []" and "data_ok mode data"
    and "seg_count mode data < 2 ^ nat (MQRspec_lengthIndicator mode v)"
  shows "read_segsMQR v (enc_seg v True mode data @ rest) = (mode, data) # read_segsMQR v rest"
proof -
  have "enc_seg v True mode data \<noteq> []" using mqr_not_terminator [OF assms, of "[]"] by auto
  then show ?thesis
    using mqr_not_terminator [OF assms] read_segMQR_seg [OF assms(4,1,2,5)] by (subst read_segsMQR.simps) simp
qed

lemma read_segsMQR_padding: "len \<le> n \<Longrightarrow> read_segsMQR v (mqr_padding n (nat (2 * v + 1)) len) = []"
  by (subst read_segsMQR.simps) (simp add: mqr_padding_terminator list_all_iff)

lemma read_segsMQR_entries:
  assumes "(v, l) \<in> set mqr_kinds" and "entries_ok v True es" and "\<forall>e \<in> set es. mqr_readable v e"
    and "int (length (enc_entries v True es)) \<le> MQRspec_getDataLengthBit v l"
  shows "read_segsMQR v (enc_entries v True es @ rest) = map (\<lambda>e. (en_mode e, en_data e)) es @ read_segsMQR v rest"
  using assms(2-4)
proof (induction es)
  case (Cons e es)
  have e: "entry_ok e" "mode_ok v True (en_mode e)" "data_ok (en_mode e) (en_data e)" "en_mode e = QR_MODE_KANJI \<longrightarrow> 3 \<le> v"
    using Cons.prems by (auto simp: mqr_readable_def)
  have "en_data e \<noteq> []" using e(1) by (auto simp: entry_ok_def QRinput_check_def)
  moreover have "en_mode e = QR_MODE_KANJI \<longrightarrow> 3 \<le> v \<and> even (length (en_data e))"
    using e(1,2,4) simple_facts(5) [of e] by (auto simp: simple_def mode_ok_def)
  ultimately show ?case
    using mqr_single_segment [OF assms(1) e(2)] Cons read_segsMQR_seg [OF e(2,4) _ e(3)] by simp
qed simp


lemma read_mqr_data_bits:
  assumes "mqr_input_ok input" and "mqr_fits input" and "\<forall>e \<in> set (in_head input). mqr_readable (in_version input) e"
  shows "read_segsMQR (in_version input) (mqr_data_bits input) = map (\<lambda>e. (en_mode e, en_data e)) (in_head input)"
proof -
  show ?thesis
    using read_segsMQR_entries [of "in_version input" "in_level input" "in_head input"] assms
      read_segsMQR_padding [of "length (enc_entries (in_version input) True (in_head input))"
        "nat (MQRspec_getDataLengthBit (in_version input) (in_level input))" "in_version input"]
    by (simp add: mqr_input_ok_def mqr_fits_def mqr_data_bits_def Let_def mult.commute [of _ 2])
qed

subsection \<open>Reading a symbol\<close>

definition mqr_format :: "int \<Rightarrow> QRecLevel \<Rightarrow> nat \<Rightarrow> u32" where
  "mqr_format v l i = bch15_5 (4 * the (mqr_symbol_number v l) + of_nat i) XOR 0x4445"

definition mqr_formats :: "(int \<times> QRecLevel \<times> nat) list" where
  "mqr_formats = map (\<lambda>((v, l), i). (v, l, i)) (List.product mqr_kinds [0..<4])"

definition read_formatMQR :: "u32 \<Rightarrow> (int \<times> QRecLevel \<times> nat) option" where
  "read_formatMQR fmt = find (\<lambda>(v, l, i). mqr_format v l i = fmt) mqr_formats"

definition format_wordMQR :: "nat \<Rightarrow> frame \<Rightarrow> u32" where
  "format_wordMQR w f = horner_sum of_bool 2 (map (\<lambda>k. dark (f ! idx w (mqr_format_pos k))) [0..<15])"

definition read_bitsMQR :: "int \<Rightarrow> nat \<Rightarrow> frame \<Rightarrow> u8 list" where
  "read_bitsMQR v i f = map (\<lambda>(y, x). of_bool (dark (f ! idx (MQRspec_getWidth v) (y, x)) \<noteq> (mqr_mask_exp i x y = 0))) (mqr_data_path v)"

definition read_symbolMQR :: "nat \<Rightarrow> frame \<Rightarrow> (int \<times> QRecLevel \<times> nat \<times> (QRencodeMode \<times> u8 list) list) option" where
  "read_symbolMQR w f =
     (case read_formatMQR (format_wordMQR w f) of
        None \<Rightarrow> None
      | Some (v, l, i) \<Rightarrow>
          if w \<noteq> MQRspec_getWidth v then None
          else
            let bits = read_bitsMQR v i f; n = nat (MQRspec_getDataLengthBit v l); data = take n bits
            in if codeword (nat (MQRspec_getECCLength v l)) (bs_bytes data @ bs_bytes (drop n bits))
               then Some (v, l, i, read_segsMQR v data) else None)"

lemma mqr_format_table:
  "list_all (\<lambda>(v, l, i). take_bit 15 (MQRspec_getFormatInfo (int i) v l) = MQRspec_getFormatInfo (int i) v l) mqr_formats"
  "distinct (map (\<lambda>(v, l, i). MQRspec_getFormatInfo (int i) v l) mqr_formats)"
  by code_simp+

lemma mqr_format_eq: "(v, l, i) \<in> set mqr_formats \<Longrightarrow> MQRspec_getFormatInfo (int i) v l = mqr_format v l i"
proof -
  assume "(v, l, i) \<in> set mqr_formats"
  then have k: "(v, l) \<in> set mqr_kinds" "i < 4" by (auto simp: mqr_formats_def simp del: upt_rec_numeral)
  have n: "mqr_symbol_number v l \<noteq> None" using k(1) by (auto simp: mqr_kinds_def mqr_symbol_number_def)
  have "v \<in> {1, 2, 3, 4}" "l \<in> {0, 1, 2, 3}" using mqr_kinds_facts(1-3) [OF k(1)] by auto
  moreover have "int i \<in> {0, 1, 2, 3}" using k(2) by auto
  ultimately have "MQRspec_getFormatInfo (int i) v l
       = (case mqr_symbol_number v l of None \<Rightarrow> 0 | Some n \<Rightarrow> bch15_5 (4 * n + of_int (int i)) XOR 0x4445)"
    using mqr_format_info_all unfolding list_all_iff list.set by blast
  then show ?thesis using n by (auto simp: mqr_format_def)
qed

lemma mqr_format:
  assumes "(v, l) \<in> set mqr_kinds" and "i < 4"
  shows "MQRspec_getFormatInfo (int i) v l = mqr_format v l i" and "take_bit 15 (mqr_format v l i) = mqr_format v l i"
    and "read_formatMQR (mqr_format v l i) = Some (v, l, i)"
proof -
  have mem: "(v, l, i) \<in> set mqr_formats"
    unfolding mqr_formats_def set_map set_product using assms
    by (intro image_eqI [of _ _ "((v, l), i)"]) (simp_all del: upt_rec_numeral)
  then show eq: "MQRspec_getFormatInfo (int i) v l = mqr_format v l i" by (rule mqr_format_eq)
  then show "take_bit 15 (mqr_format v l i) = mqr_format v l i"
    using mqr_format_table(1) mem unfolding list_all_iff by fastforce
  have "map (\<lambda>(v, l, i). mqr_format v l i) mqr_formats = map (\<lambda>(v, l, i). MQRspec_getFormatInfo (int i) v l) mqr_formats"
    using mqr_format_eq by auto
  then have "distinct (map (\<lambda>(v, l, i). mqr_format v l i) mqr_formats)" using mqr_format_table(2) by (simp only:)
  from find_distinct [OF this mem] show "read_formatMQR (mqr_format v l i) = Some (v, l, i)"
    by (simp add: read_formatMQR_def case_prod_unfold)
qed

lemma mqr_format_pos_ok:
  assumes "11 \<le> w"
  shows "distinct (map (idx w \<circ> mqr_format_pos) [0..<15])" and "k < 15 \<Longrightarrow> mqr_format_pos k \<in> grid w" and "k < 15 \<Longrightarrow> mqr_func (mqr_format_pos k)"
proof -
  show g: "k < 15 \<Longrightarrow> mqr_format_pos k \<in> grid w" "k < 15 \<Longrightarrow> mqr_func (mqr_format_pos k)" for k
    using assms by (auto simp: mqr_format_pos_def grid_def mqr_func_def)
  have "inj_on (idx w \<circ> mqr_format_pos) {0..<15}"
  proof (intro inj_onI)
    fix j k assume "j \<in> {0..<15 :: nat}" "k \<in> {0..<15 :: nat}" "(idx w \<circ> mqr_format_pos) j = (idx w \<circ> mqr_format_pos) k"
    then have "mqr_format_pos j = mqr_format_pos k" and "j < 15" "k < 15" using g(1) idx_inj by auto
    then show "j = k" by (auto simp: mqr_format_pos_def split: if_splits)
  qed
  then show "distinct (map (idx w \<circ> mqr_format_pos) [0..<15])" by (simp add: distinct_map del: upt_rec_numeral)
qed

lemma mqr_masked_at:
  assumes "11 \<le> MQRspec_getWidth v" and "length f = MQRspec_getWidth v * MQRspec_getWidth v"
  defines "w \<equiv> MQRspec_getWidth v"
  shows "k < 15 \<Longrightarrow> dark (mqr_masked v f l i ! idx w (mqr_format_pos k)) = bit (MQRspec_getFormatInfo (int i) v l) k"
    and "p \<in> grid w \<Longrightarrow> \<not> mqr_func p \<Longrightarrow> mqr_masked v f l i ! idx w p = mask_cell (mqr_mask_exp i (snd p) (fst p)) (f ! idx w p)"
    and "length (mqr_masked v f l i) = w * w"
proof -
  define g where "g = snd (MASKMAKER (mqr_mask_exp i) w f)"
  define cell where "cell k = (0x84 OR ucast (drop_bit k (MQRspec_getFormatInfo (int i) v l) AND 1) :: u8)" for k
  define ws where "ws = map (\<lambda>k. (idx w (mqr_format_pos k), cell k)) [0..<15]"
  have m: "mqr_masked v f l i = writes g ws"
    using mqr_format_writes [OF assms(1)] by (simp add: mqr_masked_def Let_def g_def ws_def cell_def w_def)
  have len: "length g = w * w" by (simp add: g_def)
  then show "length (mqr_masked v f l i) = w * w" by (simp add: m)
  note pos = mqr_format_pos_ok [OF assms(1), folded w_def]
  have dist: "distinct (map fst ws)" using pos(1) by (simp add: ws_def comp_def del: upt_rec_numeral)
  show "dark (mqr_masked v f l i ! idx w (mqr_format_pos k)) = bit (MQRspec_getFormatInfo (int i) v l) k" if k: "k < 15"
  proof -
    have "writes g ws ! idx w (mqr_format_pos k) = cell k"
      using k idx_less [OF pos(2) [OF k]] len by (intro writes_nth_distinct [OF dist]) (auto simp: ws_def simp del: upt_rec_numeral)
    then show ?thesis by (simp add: m cell_def dark_def bit_or_iff bit_and_iff bit_drop_bit_eq bit_unsigned_iff)
  qed
  show "mqr_masked v f l i ! idx w p = mask_cell (mqr_mask_exp i (snd p) (fst p)) (f ! idx w p)"
    if p: "p \<in> grid w" "\<not> mqr_func p"
  proof -
    have "idx w p \<notin> fst ` set ws"
    proof
      assume "idx w p \<in> fst ` set ws"
      then obtain k where "k < 15" "idx w p = idx w (mqr_format_pos k)" by (auto simp: ws_def simp del: upt_rec_numeral)
      then show False using idx_inj [OF p(1) pos(2)] pos(3) p(2) by auto
    qed
    then have "writes g ws ! idx w p = g ! idx w p" using idx_less [OF p(1)] len by (intro writes_nth) simp
    moreover obtain y x where "p = (y, x)" "y < w" "x < w" using p(1) by (auto simp: grid_def)
    ultimately show ?thesis by (simp add: m g_def MASKMAKER_nth)
  qed
qed


lemma read_formatMQR_masked:
  assumes "(v, l) \<in> set mqr_kinds" and "i < 4" and "length f = MQRspec_getWidth v * MQRspec_getWidth v"
  shows "read_formatMQR (format_wordMQR (MQRspec_getWidth v) (mqr_masked v f l i)) = Some (v, l, i)"
proof -
  note k = mqr_kinds_facts [OF assms(1)]
  have "map (\<lambda>k. dark (mqr_masked v f l i ! idx (MQRspec_getWidth v) (mqr_format_pos k))) [0..<15] = map (bit (mqr_format v l i)) [0..<15]"
    using mqr_masked_at(1) [OF mqr_width(3) [OF k(1,2)] assms(3)] mqr_format(1) [OF assms(1,2)] by simp
  then have "format_wordMQR (MQRspec_getWidth v) (mqr_masked v f l i) = take_bit 15 (mqr_format v l i)"
    by (simp only: format_wordMQR_def horner_sum_bit_eq_take_bit)
  then show ?thesis using mqr_format [OF assms(1,2)] by simp
qed

lemma read_bitsMQR_masked:
  assumes "1 \<le> v" and "v \<le> 4" and "length bits = length (mqr_data_path v)" and "bit_list bits"
  shows "read_bitsMQR v i (mqr_masked v (mqr_filled v bits) l i) = bits"
proof (rule nth_equalityI)
  define w where "w = MQRspec_getWidth v"
  show "length (read_bitsMQR v i (mqr_masked v (mqr_filled v bits) l i)) = length bits"
    using assms(3) by (simp add: read_bitsMQR_def)
  fix k assume "k < length (read_bitsMQR v i (mqr_masked v (mqr_filled v bits) l i))"
  then have k: "k < length bits" "k < length (mqr_data_path v)" using assms(3) by (simp_all add: read_bitsMQR_def)
  obtain y x where yx: "mqr_data_path v ! k = (y, x)" by force
  then have mem: "(y, x) \<in> grid w" "\<not> mqr_func (y, x)"
    using mqr_data_path_props(2) [OF assms(1,2)] k(2) nth_mem [of k "mqr_data_path v"] by (simp_all add: w_def)
  have b: "bits ! k \<in> {0, 1}" using assms(4) k(1) nth_mem unfolding bit_list_def by blast
  have "mqr_masked v (mqr_filled v bits) l i ! idx w (y, x) = mask_cell (mqr_mask_exp i x y) (2 OR bits ! k)"
    using mqr_masked_at(2) [of v "mqr_filled v bits" "(y, x)" l i] mqr_width(3) [OF assms(1,2)]
      mqr_filled_at(1) [OF assms(1-3) k(1)] mqr_filled_at(2) [OF assms(1-3)] mem yx by (simp add: w_def del: idx_simp)
  then have "read_bitsMQR v i (mqr_masked v (mqr_filled v bits) l i) ! k = of_bool (dark (2 OR bits ! k))"
    using k(2) yx dark_mask_cell [OF marked_module [OF b], of "mqr_mask_exp i x y"]
    by (simp add: read_bitsMQR_def flip: w_def del: idx_simp)
  then show "read_bitsMQR v i (mqr_masked v (mqr_filled v bits) l i) ! k = bits ! k" by (simp add: dark_module [OF b])
qed

lemma length_mqr_symbol_bits:
  assumes "(v, l) \<in> set mqr_kinds" and "int (length bits) = MQRspec_getDataLengthBit v l"
  shows "length (mqr_symbol_bits v l bits) = length (mqr_data_path v)"
    and "length (parity (nat (MQRspec_getECCLength v l)) (bs_bytes bits)) = nat (MQRspec_getECCLength v l)"
    and "codeword (nat (MQRspec_getECCLength v l)) (bs_bytes bits @ parity (nat (MQRspec_getECCLength v l)) (bs_bytes bits))"
proof -
  note k = mqr_kinds_facts [OF assms(1)]
  define e where "e = nat (MQRspec_getECCLength v l)"
  have "int (length (bs_bytes bits)) = MQRspec_getDataLength v l"
    using k(7) assms(2) by (metis length_bs_bytes nat_int)
  then have b: "0 < e" "0 < length (bs_bytes bits)" "e + length (bs_bytes bits) \<le> 255"
    using k(4,5,7-9) unfolding e_def by linarith+
  show p: "length (parity (nat (MQRspec_getECCLength v l)) (bs_bytes bits)) = nat (MQRspec_getECCLength v l)"
    using parity_codeword(1) [OF b] by (simp add: e_def)
  show "codeword (nat (MQRspec_getECCLength v l)) (bs_bytes bits @ parity (nat (MQRspec_getECCLength v l)) (bs_bytes bits))"
    using parity_codeword(2) [OF b] by (simp add: e_def codeword_def)
  have "MQRspec_getDataLengthBit v l + 8 * MQRspec_getECCLength v l = (int (MQRspec_getWidth v) - 1) * (int (MQRspec_getWidth v) - 1) - 64"
    using assms(1) by (auto simp: mqr_kinds_def MQRspec_getDataLengthBit_def MQRspec_getECCLength_def MQRspec_getWidth_def mqrspecCapacity_def)
  moreover have "int (length (mqr_data_path v)) = (int (MQRspec_getWidth v) - 1) * (int (MQRspec_getWidth v) - 1) - 64"
  proof -
    have w: "11 \<le> MQRspec_getWidth v" by (rule mqr_width(3) [OF k(1,2)])
    then have "10 * 10 \<le> (MQRspec_getWidth v - 1) * (MQRspec_getWidth v - 1)" by (intro mult_le_mono) auto
    then show ?thesis using mqr_data_path_props(3) [OF k(1,2)] w by (simp add: of_nat_diff)
  qed
  ultimately show "length (mqr_symbol_bits v l bits) = length (mqr_data_path v)"
    using p assms(2) k(8) by (simp add: mqr_symbol_bits_def)
qed

lemma read_symbolMQR_masked:
  assumes "(v, l) \<in> set mqr_kinds" and "i < 4" and "int (length bits) = MQRspec_getDataLengthBit v l" and "bit_list bits"
  shows "read_symbolMQR (MQRspec_getWidth v) (mqr_masked v (mqr_filled v (mqr_symbol_bits v l bits)) l i) =
    Some (v, l, i, read_segsMQR v bits)"
proof -
  note k = mqr_kinds_facts [OF assms(1)]
  note len = length_mqr_symbol_bits [OF assms(1,3)]
  have bl: "bit_list (mqr_symbol_bits v l bits)" using assms(4) by (simp add: mqr_symbol_bits_def)
  note bits = read_bitsMQR_masked [OF k(1,2) len(1) bl, of i l]
  note fmt = read_formatMQR_masked [OF assms(1,2) mqr_filled_at(2) [OF k(1,2) len(1)]]
  have "nat (MQRspec_getDataLengthBit v l) = length bits" using assms(3) by linarith
  then show ?thesis using len(3)
    by (simp add: read_symbolMQR_def fmt bits Let_def) (simp add: mqr_symbol_bits_def bs_bytes_bytes_bits)
qed


end
