(* ===== verification/MQRencode_Correct.thy ===== *)
theory MQRencode_Correct
  imports MQRread_Correct
begin

text \<open>
  Encoding an input as a Micro QR Code symbol: an input that fits gives a symbol from which the
  reader gets the segments back, and one that does not is refused with ERANGE.
\<close>

subsection \<open>The mask pattern\<close>

lemma mmask_candidate_masked: "i < 4 \<Longrightarrow> snd (mmask_candidate v f l i) = mqr_masked v f l i"
  by (simp add: mmask_candidate_def mqr_masked_def MMask_maskMakers_exp Let_def)

lemma le_sum_list_int:
  fixes g :: "'a \<Rightarrow> int"
  shows "x \<in> set xs \<Longrightarrow> (\<And>y. 0 \<le> g y) \<Longrightarrow> g x \<le> (\<Sum>y \<leftarrow> xs. g y)"
  proof (induction xs)
  case (Cons a xs)
  have "0 \<le> (\<Sum>y \<leftarrow> xs. g y)" using Cons.prems(2) by (intro sum_list_nonneg) auto
  with Cons show ?case by (auto intro: add_increasing)
qed simp

lemma MMask_evaluateSymbol_pos:
  assumes "x \<in> {1..<w}" and "dark (f ! idx w (w - 1, x))"
  shows "0 < MMask_evaluateSymbol w f"
proof -
  have nn: "0 \<le> (\<Sum>x \<leftarrow> xs. uint (g x AND (1 :: u8)))" for g and xs :: "nat list" by (intro sum_list_nonneg) auto
  have "uint (f ! (w * (w - 1) + x) AND 1) = 1" using assms(2) by (simp add: uint_and_1 mult.commute)
  then have "1 \<le> (\<Sum>x \<leftarrow> [1..<w]. uint (f ! (w * (w - 1) + x) AND 1))"
    using le_sum_list_int [of x "[1..<w]" "\<lambda>x. uint (f ! (w * (w - 1) + x) AND 1)"] assms(1) by simp
  then show ?thesis using nn [of "\<lambda>y. f ! (w * 2 - 1 + (y - 1) * w)" "[1..<w]"] by (simp add: MMask_evaluateSymbol_def Let_def)
qed

lemma mmask_some_positive:
  assumes "1 \<le> v" and "v \<le> 4" and "length f = MQRspec_getWidth v * MQRspec_getWidth v"
    and "\<And>p. p \<in> grid (MQRspec_getWidth v) \<Longrightarrow> \<not> mqr_func p \<Longrightarrow> \<not> marked (f ! idx (MQRspec_getWidth v) p)"
  shows "\<exists>i < 4. 0 < fst (mmask_candidate v f l i)"
proof -
  define w where "w = MQRspec_getWidth v"
  note w = mqr_width [OF assms(1,2), folded w_def]
  define x where "x = (if odd ((w - 1) div 2) then 1 else 3 :: nat)"
  have g: "(w - 1, x) \<in> grid w" "\<not> mqr_func (w - 1, x)" using w(3) by (auto simp: grid_def mqr_func_def x_def)
  have x: "x \<in> {1..<w}" using w(3) by (simp add: x_def)
  have e: "mqr_mask_exp 0 x (w - 1) = 0" "mqr_mask_exp 1 x (w - 1) \<noteq> 0"
    using w(2) by (auto simp: mqr_mask_exp_def x_def mod_2_eq_odd)
  have "dark (mqr_masked v f l i ! idx w (w - 1, x)) = (dark (f ! idx w (w - 1, x)) \<noteq> (mqr_mask_exp i x (w - 1) = 0))" (is "?A i = (?B \<noteq> ?C i)") for i
    using mqr_masked_at(2) [OF _ assms(3), folded w_def, OF w(3) g, of l i]
      dark_mask_cell [OF assms(4) [folded w_def, OF g]] by simp
  from this [of 0] this [of 1] e have "?A 0 \<or> ?A 1" by (cases ?B) simp_all
  moreover have "0 < fst (mmask_candidate v f l i)" if "dark (mqr_masked v f l i ! idx w (w - 1, x))" "i < 4" for i
    using MMask_evaluateSymbol_pos [OF _ that(1)] mmask_candidate_masked [OF that(2), of v f l] x
    by (simp add: mmask_candidate_def Let_def flip: w_def)
  moreover have "(0 :: nat) < 4" "(1 :: nat) < 4" by simp_all
  ultimately show ?thesis by blast
qed

definition mqr_mask_used :: "int \<Rightarrow> int \<Rightarrow> frame \<Rightarrow> QRecLevel \<Rightarrow> nat \<Rightarrow> bool" where
  "mqr_mask_used msk v f l i \<longleftrightarrow> i < 4 \<and>
     (if 0 \<le> msk then int i = msk
      else (\<forall>j < 4. fst (mmask_candidate v f l j) \<le> fst (mmask_candidate v f l i)) \<and>
           (\<forall>j < i. fst (mmask_candidate v f l j) < fst (mmask_candidate v f l i)))"

lemma MMask_mask_best:
  assumes "script s = []" and "\<exists>i < 4. 0 < fst (mmask_candidate v f l i)"
  shows "\<exists>i < 4. MMask_mask v f l s = (Inr (mqr_masked v f l i), s) \<and>
    (\<forall>j < 4. fst (mmask_candidate v f l j) \<le> fst (mmask_candidate v f l i)) \<and>
    (\<forall>j < i. fst (mmask_candidate v f l j) < fst (mmask_candidate v f l i))"
proof -
  let ?c = "mmask_candidate v f l"
  have "\<not> (\<forall>i \<in> set [0..<4]. - 0 \<le> - fst (?c i))" using assms(2) by (auto simp: not_le)
  with mmask.loop_best [OF assms(1), of v f l "[0..<4]" 0 None]
  obtain xs i ys where i: "[0..<4] = xs @ i # ys"
    and run: "mmask_loop v f l [0..<4] 0 None s = (Inr (Some (snd (?c i))), s)"
    and best: "\<forall>j \<in> set xs. - fst (?c i) < - fst (?c j)" "\<forall>j \<in> set ys. - fst (?c i) \<le> - fst (?c j)"
    by blast
  note split = upt_split [OF i]
  have "j \<in> set xs \<or> j = i \<or> j \<in> set ys" if "j < 4" for j
  proof -
    have "j \<in> set [0..<4]" unfolding set_upt using that by simp
    then show ?thesis unfolding i by auto
  qed
  then have "\<forall>j < 4. fst (?c j) \<le> fst (?c i)" using best by (metis neg_le_iff_le order.refl less_imp_le)
  moreover have "\<forall>j < i. fst (?c j) < fst (?c i)" using best(1) split(2) by simp
  moreover have "MMask_mask v f l s = (Inr (snd (?c i)), s)"
    using run assms(1) by (simp add: MMask_mask_def bindM_def del: upt_rec_numeral)
  ultimately show ?thesis using split(1) mmask_candidate_masked [OF split(1)] by metis
qed


subsection \<open>Encoding a symbol\<close>

definition placeMQR :: "MQRRawCode \<Rightarrow> int \<Rightarrow> ('z qr_heap_scheme, frame) M" where
  "placeMQR raw version =
     bindM (MQRspec_newFrame version) (\<lambda>frame.
     bindM (FrameFiller_new (MQRspec_getWidth version) frame True) (\<lambda>filler.
     bindM (put_codesMQR raw filler) (\<lambda>(raw, filler). retM (ff_frame filler))))"

definition finishMQR :: "int \<Rightarrow> int \<Rightarrow> QRecLevel \<Rightarrow> frame \<Rightarrow> ('z heap_scheme, QRcode) M" where
  "finishMQR msk version level frame =
     bindM (if msk < 0 then MMask_mask version frame level else MMask_makeMask version frame msk level) (\<lambda>masked.
     QRcode_new version (MQRspec_getWidth version) masked)"

lemma QRcode_encodeMaskMQR_parts:
  "QRcode_encodeMaskMQR msk = bindM getO (\<lambda>input.
     if \<not> in_mqr input then failM EINVAL
     else if in_version input \<le> 0 \<or> in_version input > MQRSPEC_VERSION_MAX then failM EINVAL
     else if in_level input > QR_ECLEVEL_Q then failM EINVAL
     else
       bindM MQRraw_new (\<lambda>raw.
       bindM getO (\<lambda>input.
       lift (bindM (placeMQR raw (mraw_version raw)) (finishMQR msk (mraw_version raw) (in_level input))))))"
  unfolding QRcode_encodeMaskMQR_def placeMQR_def finishMQR_def Let_def
  by (simp add: bindM_assoc case_prod_unfold cong: if_cong del: retM_apply)

lemma placeMQR_delivers:
  assumes "(v, l) \<in> set mqr_kinds" and "bit_list bits" and "int (length bits) = MQRspec_getDataLengthBit v l"
  shows "delivers qr_ok (placeMQR (mqr_raw v l (bs_bytes bits)) v) (Inr (mqr_filled v (mqr_symbol_bits v l bits)))"
proof -
  let ?w = "MQRspec_getWidth v" and ?bits = "mqr_symbol_bits v l bits"
  let ?filler = "filler_at ?w True (mqr_frame_template v) (int ?w - 1, int ?w - 1, -1, -1)"
  note v = mqr_kinds_facts(1,2) [OF assms(1)]
  have "bit_list ?bits" using assms(2) by (simp add: mqr_symbol_bits_def)
  then obtain st where st: "(foldM put_module ?filler (modules ?bits) :: ('a qr_heap_scheme, FrameFiller) M) =
      retM (filler_at ?w True (mqr_filled v ?bits) st)"
    using mqr_put_symbol [OF v _ length_mqr_symbol_bits(1) [OF assms(1,3)]] by blast
  have fill: "(bindM (put_codesMQR (mqr_raw v l (bs_bytes bits)) ?filler) (\<lambda>(raw, filler).
       retM (ff_frame filler)) :: ('a qr_heap_scheme, frame) M) = retM (mqr_filled v ?bits)"
    by (simp add: put_codesMQR_modules [OF assms] bindM_assoc st del: retM_apply)
  have new: "delivers qr_ok (FrameFiller_new ?w (mqr_frame_template v) True) (Inr ?filler)"
    unfolding FrameFiller_new_def filler_at_def by (intro qr.malloc_then delivers_ret_eq) simp
  show ?thesis unfolding placeMQR_def
    by (rule delivers_bind [OF MQRspec_newFrame_delivers [OF v]], rule delivers_bind [OF new])
      (simp add: fill delivers_ret_eq del: retM_apply)
qed

lemma mqr_filled_unmarked:
  assumes "1 \<le> v" and "v \<le> 4" and "bit_list bits" and "length bits = length (mqr_data_path v)"
    and "p \<in> grid (MQRspec_getWidth v)" and "\<not> mqr_func p"
  shows "\<not> marked (mqr_filled v bits ! idx (MQRspec_getWidth v) p)"
proof -
  obtain k where "k < length bits" "p = mqr_data_path v ! k"
    using assms(4-6) mqr_data_path_props(2) [OF assms(1,2)] by (metis (mono_tags, lifting) in_set_conv_nth mem_Collect_eq)
  moreover have "bits ! k \<in> {0, 1}" using assms(3) nth_mem [OF calculation(1)] by (auto simp: bit_list_def)
  ultimately show ?thesis using mqr_filled_at(1) [OF assms(1,2,4), of k] by (auto simp: marked_def)
qed

lemma finishMQR_mask:
  assumes "(v, l) \<in> set mqr_kinds" and "bit_list bits" and "length bits = length (mqr_data_path v)"
    and "msk < 4" and "script s = []"
  defines "f \<equiv> mqr_filled v bits"
  shows "\<exists>i. mqr_mask_used msk v f l i \<and>
    finishMQR msk v l f s = (Inr \<lparr>qr_version = v, qr_width = MQRspec_getWidth v, qr_data = mqr_masked v f l i\<rparr>, s)"
proof (cases "msk < 0")
  case True
  note v = mqr_kinds_facts(1,2) [OF assms(1)]
  obtain i where i: "i < 4" "MMask_mask v f l s = (Inr (mqr_masked v f l i), s)"
    "\<forall>j < 4. fst (mmask_candidate v f l j) \<le> fst (mmask_candidate v f l i)"
    "\<forall>j < i. fst (mmask_candidate v f l j) < fst (mmask_candidate v f l i)"
    using MMask_mask_best [OF assms(5) mmask_some_positive [OF v mqr_filled_at(2) [OF v assms(3)]
      mqr_filled_unmarked [OF v assms(2,3)]], of l] unfolding f_def by blast
  then show ?thesis using True assms(5)
    by (intro exI [of _ i]) (simp add: mqr_mask_used_def finishMQR_def bindM_def QRcode_new_def)
next
  case False
  then obtain i where i: "msk = int i" by (metis nat_0_le not_less)
  with assms(4) have "i < 4" by simp
  then show ?thesis using i assms(5)
    by (intro exI [of _ i])
      (simp add: mqr_mask_used_def finishMQR_def bindM_def QRcode_new_def MMask_makeMask_def mqr_masked_def
        MMask_maskMakers_exp Let_def)
qed

lemma QRcode_encodeMaskMQR_symbol:
  assumes "mqr_input_ok input" and "mqr_fits input" and "msk < 4" and "qr_ok s" and "script s = []"
  defines "v \<equiv> in_version input" and "l \<equiv> in_level input"
  defines "f \<equiv> mqr_filled v (mqr_symbol_bits v l (mqr_data_bits input))"
  shows "\<exists>i s'. mqr_mask_used msk v f l i \<and> qr_ok s' \<and> script s' = [] \<and>
    QRcode_encodeMaskMQR msk (input, s) =
      (Inr \<lparr>qr_version = v, qr_width = MQRspec_getWidth v, qr_data = mqr_masked v f l i\<rparr>, (mqr_encoded input, s'))"
proof -
  have kind: "(v, l) \<in> set mqr_kinds" and mqr: "in_mqr input" using assms(1) by (simp_all add: mqr_input_ok_def v_def l_def)
  have bits: "bit_list (mqr_data_bits input)" "int (length (mqr_data_bits input)) = MQRspec_getDataLengthBit v l"
    using length_mqr_data_bits [OF assms(1,2)] by (simp_all add: v_def l_def)
  define raw where "raw = mqr_raw v l (mqr_bytes input)"
  from qr.MQRraw_new_acts [OF assms(1)] assms(2,4,5) obtain s1 where
    s1: "MQRraw_new (input, s) = (Inr raw, (mqr_encoded input, s1))" "qr_ok s1" "script s1 = []"
    by (auto simp: acts_def raw_def v_def l_def)
  have "delivers qr_ok (placeMQR raw v) (Inr f)"
    unfolding raw_def f_def mqr_bytes_def by (rule placeMQR_delivers [OF kind bits])
  with s1(2,3) obtain s2 where s2: "placeMQR raw v s1 = (Inr f, s2)" "qr_ok s2" "script s2 = []"
    by (auto simp: delivers_def prod_eq_iff)
  have "bit_list (mqr_symbol_bits v l (mqr_data_bits input))" using bits(1) by (simp add: mqr_symbol_bits_def)
  from finishMQR_mask [OF kind this length_mqr_symbol_bits(1) [OF kind bits(2)] assms(3) s2(3), folded f_def] obtain i where
    i: "mqr_mask_used msk v f l i" "finishMQR msk v l f s2 =
      (Inr \<lparr>qr_version = v, qr_width = MQRspec_getWidth v, qr_data = mqr_masked v f l i\<rparr>, s2)" by blast
  have raw: "mraw_version raw = v" "in_level (mqr_encoded input) = l" by (simp_all add: raw_def mqr_raw_def mqr_encoded_def l_def)
  then have "QRcode_encodeMaskMQR msk (input, s) =
      (Inr \<lparr>qr_version = v, qr_width = MQRspec_getWidth v, qr_data = mqr_masked v f l i\<rparr>, (mqr_encoded input, s2))"
    using mqr_kinds_facts(1-3) [OF kind] mqr s1(1) s2(1) i(2) unfolding QRcode_encodeMaskMQR_parts
    by (simp add: bindM_def getO_def lift_def v_def l_def)
  with i(1) s2 show ?thesis by blast
qed

lemma QRcode_encodeMaskMQR_reads:
  assumes "mqr_input_ok input" and "mqr_fits input" and "\<forall>e \<in> set (in_head input). mqr_readable (in_version input) e"
    and "msk < 4" and "qr_ok s" and "script s = []"
  shows "\<exists>qr i s'. QRcode_encodeMaskMQR msk (input, s) = (Inr qr, (mqr_encoded input, s')) \<and>
    qr_ok s' \<and> qr_version qr = in_version input \<and> (0 \<le> msk \<longrightarrow> int i = msk) \<and>
    read_symbolMQR (qr_width qr) (qr_data qr) =
      Some (in_version input, in_level input, i, map (\<lambda>e. (en_mode e, en_data e)) (in_head input))"
proof -
  have kind: "(in_version input, in_level input) \<in> set mqr_kinds" using assms(1) by (simp add: mqr_input_ok_def)
  from QRcode_encodeMaskMQR_symbol [OF assms(1,2,4-6)] obtain i s' where
    i: "mqr_mask_used msk (in_version input)
      (mqr_filled (in_version input) (mqr_symbol_bits (in_version input) (in_level input) (mqr_data_bits input))) (in_level input) i"
      "qr_ok s'" and
    run: "QRcode_encodeMaskMQR msk (input, s) = (Inr \<lparr>qr_version = in_version input, qr_width = MQRspec_getWidth (in_version input),
      qr_data = mqr_masked (in_version input) (mqr_filled (in_version input)
        (mqr_symbol_bits (in_version input) (in_level input) (mqr_data_bits input))) (in_level input) i\<rparr>, (mqr_encoded input, s'))"
    by blast
  have "i < 4" "0 \<le> msk \<longrightarrow> int i = msk" using i(1) by (auto simp: mqr_mask_used_def)
  with read_symbolMQR_masked [OF kind _ length_mqr_data_bits [OF assms(1,2)] bit_list_mqr_data_bits, of i]
    read_mqr_data_bits [OF assms(1-3)] i(2) run show ?thesis by fastforce
qed

lemma QRcode_encodeMaskMQR_overflow:
  assumes "mqr_input_ok input" and "\<not> mqr_fits input" and "qr_ok s" and "script s = []"
  shows "\<exists>s'. QRcode_encodeMaskMQR msk (input, s) = (Inl ERANGE, (mqr_encoded input, s'))"
proof -
  from qr.MQRraw_new_acts [OF assms(1)] assms(2-4) obtain s1 where
    s1: "MQRraw_new (input, s) = (Inl ERANGE, (mqr_encoded input, s1))" by (auto simp: acts_def)
  have "(in_version input, in_level input) \<in> set mqr_kinds" "in_mqr input" using assms(1) by (simp_all add: mqr_input_ok_def)
  with mqr_kinds_facts(1-3) [OF this(1)] s1 show ?thesis
    unfolding QRcode_encodeMaskMQR_parts by (simp add: bindM_def getO_def)
qed

end
