(* ===== verification/Entry_Correct.thy ===== *)
theory Entry_Correct
  imports Capacity MQRencode_Correct
begin

text \<open>
  The entry points of \<^verbatim>\<open>qrencode.c\<close> that take a string or a block of bytes, and which of their failures
  blame the arguments.
\<close>

subsection \<open>Outcomes\<close>

text \<open>
  \<open>refuses wrong late f s\<close>: with wrong arguments \<open>f\<close> fails with \<^verbatim>\<open>EINVAL\<close> before it asks for memory, whatever
  the allocations do. Otherwise, when no allocation fails, it fails with \<^verbatim>\<open>EINVAL\<close> if \<open>late\<close> holds, and
  if not, it returns a result or fails with \<^verbatim>\<open>ERANGE\<close>.
\<close>

definition refuses :: "bool \<Rightarrow> bool \<Rightarrow> ('z qr_heap_scheme, 'a) M \<Rightarrow> 'z qr_heap_scheme \<Rightarrow> bool" where
  "refuses wrong late f s \<longleftrightarrow>
     (if wrong then f s = (Inl EINVAL, s)
      else qr_ok s \<and> script s = [] \<longrightarrow>
        (if late then fst (f s) = Inl EINVAL else fst (f s) = Inl ERANGE \<or> (\<exists>a. fst (f s) = Inr a)))"

lemma encodeMask_outcome:
  assumes "input_ok input" and "qr_ok s" and "script s = []"
  shows "fst (evalO (QRcode_encodeMask (-1)) input s) = Inl ERANGE \<or>
    (\<exists>code. fst (evalO (QRcode_encodeMask (-1)) input s) = Inr code)"
proof (cases "fits input")
  case True
  from QRcode_encodeMask_symbol [OF assms(1) this _ _ assms(2,3), of "-1"] show ?thesis by (auto simp: evalO_def)
next
  case False
  from QRcode_encodeMask_range [OF assms(1) this assms(2,3), of "-1"] show ?thesis by (auto simp: evalO_def)
qed

lemma encodeMaskMQR_outcome:
  assumes "mqr_input_ok input" and "qr_ok s" and "script s = []"
  shows "fst (evalO (QRcode_encodeMaskMQR (-1)) input s) = Inl ERANGE \<or>
    (\<exists>code. fst (evalO (QRcode_encodeMaskMQR (-1)) input s) = Inr code)"
proof (cases "mqr_fits input")
  case True
  from QRcode_encodeMaskMQR_symbol [OF assms(1) this _ assms(2,3), of "-1"] show ?thesis by (auto simp: evalO_def)
next
  case False
  from QRcode_encodeMaskMQR_overflow [OF assms(1) this assms(2,3), of "-1"] show ?thesis by (auto simp: evalO_def)
qed

subsection \<open>Strings\<close>

lemma encodeString_empty:
  assumes "0 \<le> version" and "version \<le> 40" and "level \<le> 3" and "hint \<in> {QR_MODE_8, QR_MODE_KANJI}"
    and "qr_ok (s :: 'z qr_heap_scheme)" and "script s = []"
  shows "fst (QRcode_encodeString (Some []) version level hint casesensitive s) = Inl EINVAL"
proof -
  obtain s1 where "QRinput_new2 version level s = (Inr (fresh version level), s1)"
    using QRinput_new2_delivers [OF assms(1-3)] assms(5,6) by (auto simp: delivers_def prod_eq_iff)
  then show ?thesis using assms(4)
    by (auto simp: QRcode_encodeString_def QRcode_encodeStringReal_def Split_splitStringToQRinput_def deref_def
        bindM_def evalO_def)
qed

lemma encodeString_refuses:
  fixes s :: "'z qr_heap_scheme"
  assumes "\<And>str. string = Some str \<Longrightarrow> 0 \<notin> set str \<and> length str < 2 ^ 31"
  shows "refuses (string = None \<or> version < 0 \<or> 40 < version \<or> 3 < level \<or> hint \<notin> {QR_MODE_8, QR_MODE_KANJI})
    (string = Some []) (QRcode_encodeString string version level hint casesensitive) s"
proof (cases "string = None \<or> version < 0 \<or> 40 < version \<or> 3 < level \<or> hint \<notin> {QR_MODE_8, QR_MODE_KANJI}")
  case True
  then show ?thesis
    by (auto simp: refuses_def QRcode_encodeString_def QRcode_encodeStringReal_def QRinput_new2_def)
next
  case False
  then obtain str where str: "string = Some str" by auto
  have "fst (QRcode_encodeString string version level hint casesensitive s) = Inl ERANGE \<or>
      (\<exists>code. fst (QRcode_encodeString string version level hint casesensitive s) = Inr code)"
    if heap: "qr_ok s" "script s = []" and ne: "str \<noteq> []"
  proof -
    obtain es s' where es: "split_of hint (split_text hint casesensitive str) es" and s': "qr_ok s'" "script s' = []"
      and run: "QRcode_encodeString string version level hint casesensitive s =
        evalO (QRcode_encodeMask (-1)) (extended (fresh version level) es) s'"
      unfolding str using QRcode_encodeString_input [OF ne _ _ _ _ _ _ heap, of version level hint casesensitive]
        assms [OF str] False by auto
    have "input_ok (extended (fresh version level) es)" using es False by (intro split_input_valid) auto
    from encodeMask_outcome [OF this s'] show ?thesis unfolding run .
  qed
  moreover have "fst (QRcode_encodeString (Some []) version level hint casesensitive s) = Inl EINVAL"
    if "qr_ok s" "script s = []"
    using False that by (intro encodeString_empty) auto
  ultimately show ?thesis using False by (auto simp: refuses_def str)
qed

subsection \<open>Blocks of bytes\<close>

lemma encodeDataReal_wrong:
  "data = None \<or> sz = 0 \<or> (if mqr then QRinput_newMQR version level else QRinput_new2 version level) s = (Inl EINVAL, s) \<Longrightarrow>
     QRcode_encodeDataReal data sz version level mqr s = (Inl EINVAL, s)"
  by (cases data) (auto simp: QRcode_encodeDataReal_def bindM_run(2))

lemma encodeDataReal_negative:
  assumes "(if mqr then QRinput_newMQR version level else QRinput_new2 version level) s = (Inr input, s')" and "sz < 0"
  shows "fst (QRcode_encodeDataReal (Some data) sz version level mqr s) = Inl EINVAL"
proof -
  have "\<not> QRinput_check QR_MODE_8 sz data" using assms(2) by (simp add: QRinput_check_def)
  then show ?thesis using assms
    by (simp add: QRcode_encodeDataReal_def bindM_run(1) QRinput_append_def QRinput_List_newEntry_def)
qed

lemma encodeDataReal_refuses:
  fixes s :: "'z qr_heap_scheme"
  assumes "\<And>d. data = Some d \<Longrightarrow> sz \<le> int (length d)"
  shows "refuses (data = None \<or> sz = 0 \<or> version < 0 \<or> 40 < version \<or> 3 < level) (sz < 0)
    (QRcode_encodeDataReal data sz version level False) s"
proof (cases "data = None \<or> sz = 0 \<or> version < 0 \<or> 40 < version \<or> 3 < level")
  case True
  then have "QRcode_encodeDataReal data sz version level False s = (Inl EINVAL, s)"
    by (intro encodeDataReal_wrong) (auto simp: QRinput_new2_def)
  with True show ?thesis by (simp add: refuses_def)
next
  case False
  then obtain d where d: "data = Some d" by auto
  have "fst (QRcode_encodeDataReal data sz version level False s) = Inl EINVAL"
    if neg: "sz < 0" and heap: "qr_ok s" "script s = []"
  proof -
    obtain s1 where "QRinput_new2 version level s = (Inr (fresh version level), s1)"
      using QRinput_new2_delivers [of version level] False heap by (auto simp: delivers_def prod_eq_iff)
    then show ?thesis unfolding d using neg by (intro encodeDataReal_negative) auto
  qed
  moreover have "fst (QRcode_encodeDataReal data sz version level False s) = Inl ERANGE \<or>
      (\<exists>code. fst (QRcode_encodeDataReal data sz version level False s) = Inr code)"
    if heap: "qr_ok s" "script s = []" and "\<not> sz < 0"
  proof -
    have pos: "0 < sz" "sz \<le> int (length d)" using that False assms [OF d] by auto
    then obtain s' where s': "qr_ok s'" "script s' = []" "QRcode_encodeDataReal data sz version level False s =
        evalO (QRcode_encodeMask (-1)) (eight_bit_input version level (take (nat sz) d)) s'"
      unfolding d using encodeDataReal_input [OF pos _ _ _ heap, of version level] False by auto
    have "take (nat sz) d \<noteq> []" using pos by auto
    with False have "input_ok (eight_bit_input version level (take (nat sz) d))" by (intro eight_bit_input_ok) auto
    from encodeMask_outcome [OF this s'(1,2)] show ?thesis unfolding s'(3) .
  qed
  ultimately show ?thesis using False by (auto simp: refuses_def)
qed

subsection \<open>Micro QR Code\<close>

lemma newMQR_wrong:
  assumes "level \<le> 3" and "(version, level) \<notin> set mqr_kinds"
  shows "QRinput_newMQR version level s = (Inl EINVAL, s)"
proof (cases "1 \<le> version \<and> version \<le> 4")
  case True
  then have "version \<in> {1, 2, 3, 4}" "level \<in> {0, 1, 2, 3}" using assms(1) by auto
  then show ?thesis using assms(2)
    by (auto simp: QRinput_newMQR_def mqr_kinds_def MQRspec_getECCLength_def mqrspecCapacity_def)
qed (auto simp: QRinput_newMQR_def)

lemma newMQR_delivers:
  assumes "(version, level) \<in> set mqr_kinds"
  shows "delivers qr_ok (QRinput_newMQR version level) (Inr (fresh version level\<lparr>in_mqr := True\<rparr>))"
proof -
  have "delivers qr_ok (QRinput_new2 version level) (Inr (fresh version level))"
    using mqr_kinds_facts(1-3) [OF assms] by (intro QRinput_new2_delivers) auto
  moreover have "MQRspec_getECCLength version level \<noteq> 0"
    using assms by (auto simp: mqr_kinds_def MQRspec_getECCLength_def mqrspecCapacity_def)
  ultimately show ?thesis using mqr_kinds_facts(1,2) [OF assms] unfolding QRinput_newMQR_def
    by (auto intro!: delivers_bind delivers_ret_eq simp del: retM_apply)
qed

definition eight_bit_micro :: "int \<Rightarrow> QRecLevel \<Rightarrow> u8 list \<Rightarrow> QRinput" where
  "eight_bit_micro version level data = extended (fresh version level\<lparr>in_mqr := True\<rparr>) [new_entry QR_MODE_8 (int (length data)) data]"

lemma encodeDataReal_micro:
  assumes "0 < sz" and "sz \<le> int (length data)" and "(version, level) \<in> set mqr_kinds"
    and "qr_ok (s :: 'z qr_heap_scheme)" and "script s = []"
  shows "\<exists>s'. qr_ok s' \<and> script s' = [] \<and> QRcode_encodeDataReal (Some data) sz version level True s =
    evalO (QRcode_encodeMaskMQR (-1)) (eight_bit_micro version level (take (nat sz) data)) s'"
proof -
  let ?input = "eight_bit_micro version level (take (nat sz) data)"
  have "QRinput_check QR_MODE_8 sz data" using assms(1) by (simp add: QRinput_check_def)
  moreover have "?input = extended (fresh version level\<lparr>in_mqr := True\<rparr>) [new_entry QR_MODE_8 sz data]"
    using assms(1,2) by (simp add: eight_bit_micro_def new_entry_def)
  ultimately have "delivers (qr_ok :: 'z qr_heap_scheme \<Rightarrow> bool)
      (QRinput_append (fresh version level\<lparr>in_mqr := True\<rparr>) QR_MODE_8 sz data) (Inr ?input)"
    using assms(2) qr.QRinput_append_delivers [of QR_MODE_8 sz data "fresh version level\<lparr>in_mqr := True\<rparr>"]
    by (simp add: tail_ok_def fresh_def)
  then have "delivers (qr_ok :: 'z qr_heap_scheme \<Rightarrow> bool) (bindM (QRinput_newMQR version level) (\<lambda>input.
      QRinput_append input QR_MODE_8 sz data)) (Inr ?input)"
    by (rule delivers_bind [OF newMQR_delivers [OF assms(3)]])
  then obtain s' where s': "bindM (QRinput_newMQR version level) (\<lambda>input.
      QRinput_append input QR_MODE_8 sz data) s = (Inr ?input, s')" "qr_ok s'" "script s' = []"
    using assms(4,5) unfolding delivers_def by (metis prod.collapse)
  have "QRcode_encodeDataReal (Some data) sz version level True s =
      bindM (bindM (QRinput_newMQR version level) (\<lambda>input.
        QRinput_append input QR_MODE_8 sz data)) (evalO QRcode_encodeInput) s"
    using assms(1) by (simp add: QRcode_encodeDataReal_def bindM_assoc)
  also have "\<dots> = evalO QRcode_encodeInput ?input s'"
    by (subst bindM_def) (simp add: s')
  also have "\<dots> = evalO (QRcode_encodeMaskMQR (-1)) ?input s'"
    by (simp add: evalO_def QRcode_encodeInput_def bindM_def getO_def eight_bit_micro_def extended_def fresh_def)
  finally show ?thesis using s' by blast
qed

text \<open>Versions M1 and M2 have no 8-bit mode.\<close>

context heap_invariant
begin

lemma encodeMode8_M2: "version < 3 \<Longrightarrow> acts I (QRinput_encodeMode8 version True) entry (Inl EINVAL) (entry\<lparr>en_bstream := None\<rparr>)"
  using delivers_runs [OF BitStream_new_delivers]
  by (fastforce simp: acts_def runs_def QRinput_encodeMode8_def with_bstream_def bindM_def getO_def)

lemma encodeBitStream_M2_short:
  assumes "en_mode entry = QR_MODE_8" and "version < 3" and "en_size entry \<le> 255"
  shows "acts I (QRinput_encodeBitStream version True) entry (Inl EINVAL) (entry\<lparr>en_bstream := None\<rparr>)"
proof -
  have "QRspec_maximumWords QR_MODE_8 version = 255"
    using assms(2) by (simp add: QRspec_maximumWords_def QRinput_isSplittableMode_def lengthTableBits_def Let_def)
  then show ?thesis using assms(1,3) encodeMode8_M2 [OF assms(2), of "entry\<lparr>en_bstream := None\<rparr>"]
    by (intro encodeBitStream_actsI [where g = "bindM (QRinput_encodeMode8 version True) (\<lambda>_. bstream_size)"] acts_bind_fail)
      (simp, subst encodeBitStream.simps, simp add: encode_mode_def)
qed

lemma acts_call_fail: "acts I f y (Inl e) y' \<Longrightarrow> acts I (bindM (call f y) g) x (Inl e) x"
  by (fastforce simp: acts_def call_def bindM_def)

lemma encodeBitStream_M2:
  assumes "en_mode entry = QR_MODE_8" and "version < 3" and "entry_ok entry"
  shows "acts I (QRinput_encodeBitStream version True) entry (Inl EINVAL) (entry\<lparr>en_bstream := None\<rparr>)"
proof (cases "en_size entry \<le> 255")
  case True
  with assms(1,2) show ?thesis by (rule encodeBitStream_M2_short)
next
  case False
  have words: "QRspec_maximumWords QR_MODE_8 version = 255"
    using assms(2) by (simp add: QRspec_maximumWords_def QRinput_isSplittableMode_def lengthTableBits_def Let_def)
  let ?st1 = "new_entry QR_MODE_8 255 (en_data entry)" and ?rest = "drop 255 (en_data entry)"
  define g where "g = (\<lambda>(_ :: int, st1 :: QRinput_List).
       bindM (call (\<lambda>(_, s). encodeBitStream (new_entry QR_MODE_8 (en_size entry - 255) ?rest) version True s)
         (new_entry QR_MODE_8 (en_size entry - 255) ?rest)) (\<lambda>(_, st2).
       bindM (lift BitStream_new) (\<lambda>b.
       bindM (putO (entry\<lparr>en_bstream := Some b\<rparr>)) (\<lambda>_.
       bindM (append_bstream (en_bstream st1)) (\<lambda>_.
       bindM (append_bstream (en_bstream st2)) (\<lambda>_. bstream_size))))) :: (QRinput_List, 'z heap_scheme, int) OM)"
  have c: "QRinput_check QR_MODE_8 255 (en_data entry)" "255 \<le> int (length (en_data entry))"
    "QRinput_check QR_MODE_8 (en_size entry - 255) ?rest" "en_size entry - 255 \<le> int (length ?rest)"
    using False assms(3) by (auto simp: QRinput_check_def entry_ok_def)
  have "acts I (\<lambda>(_, s). encodeBitStream ?st1 version True s) ?st1 (Inl EINVAL) (?st1\<lparr>en_bstream := None\<rparr>)"
    using encodeBitStream_M2_short [of ?st1 version] assms(2)
    by (simp add: new_entry_def acts_def QRinput_encodeBitStream_def)
  note call1 = acts_call_fail [OF this]
  show ?thesis
    apply (rule encodeBitStream_actsI [where g = "bindM (lift (QRinput_List_newEntry QR_MODE_8 255 (en_data entry))) (\<lambda>_.
        bindM (lift (QRinput_List_newEntry QR_MODE_8 (en_size entry - 255) ?rest)) (\<lambda>_.
        bindM (call (\<lambda>(_, s). encodeBitStream ?st1 version True s) ?st1) g))"])
     apply (rule acts_lift_then [OF delivers_runs [OF QRinput_List_newEntry_delivers [OF c(1,2)]]])
     apply (rule acts_lift_then [OF delivers_runs [OF QRinput_List_newEntry_delivers [OF c(3,4)]]])
     apply (rule call1)
    apply (subst encodeBitStream.simps)
    using False assms(1) by (simp add: words g_def Let_def)
qed

end

context rs_invariant
begin

lemma MQRraw_new_M2:
  assumes "in_mqr input" and "in_head input = [e]" and "en_mode e = QR_MODE_8" and "entry_ok e" and "in_version input < 3"
  shows "acts I MQRraw_new input (Inl EINVAL) (input\<lparr>in_head := [e\<lparr>en_bstream := None\<rparr>]\<rparr>)"
proof -
  have "acts I QRinput_createBitStream input (Inl EINVAL) (input\<lparr>in_head := [e\<lparr>en_bstream := None\<rparr>]\<rparr>)"
    using encodeBitStream_M2 [OF assms(3,5,4)] assms(1,2)
    by (fastforce simp: acts_def QRinput_createBitStream_def)
  then have "acts I QRinput_getByteStream input (Inl EINVAL) (input\<lparr>in_head := [e\<lparr>en_bstream := None\<rparr>]\<rparr>)"
    unfolding QRinput_getByteStream_def QRinput_getBitStream_def QRinput_mergeBitStream_def using assms(1)
    by (intro acts_bind_fail acts_get_then) (simp add: acts_bind_fail)
  then show ?thesis unfolding MQRraw_new_def Let_def
    by (intro acts_lift_then [OF delivers_runs [OF malloc_delivers]] acts_get_then acts_bind_fail)
qed

end

lemma encodeMaskMQR_M2:
  assumes "(version, level) \<in> set mqr_kinds" and "version < 3" and "data \<noteq> []"
    and "qr_ok (s :: 'z qr_heap_scheme)" and "script s = []"
  shows "fst (evalO (QRcode_encodeMaskMQR (-1)) (eight_bit_micro version level data) s) = Inl EINVAL"
proof -
  let ?input = "eight_bit_micro version level data" and ?e = "new_entry QR_MODE_8 (int (length data)) data"
  have i: "in_mqr ?input" "in_head ?input = [?e]" "in_version ?input = version" "in_level ?input = level"
    by (simp_all add: eight_bit_micro_def extended_def fresh_def)
  have "en_mode ?e = QR_MODE_8" "entry_ok ?e" using assms(3) by (simp_all add: new_entry_def entry_ok_def QRinput_check_def)
  from qr.MQRraw_new_M2 [OF i(1,2) this] assms(2,4,5) i(3) obtain s' where
    "MQRraw_new (?input, s) = (Inl EINVAL, (?input\<lparr>in_head := [?e\<lparr>en_bstream := None\<rparr>]\<rparr>, s'))"
    by (auto simp: acts_def)
  then show ?thesis using mqr_kinds_facts(1-3) [OF assms(1)] i unfolding QRcode_encodeMaskMQR_parts
    by (simp add: evalO_def bindM_def getO_def)
qed

lemma eight_bit_micro_ok:
  assumes "(version, level) \<in> set mqr_kinds" and "3 \<le> version" and "data \<noteq> []"
  shows "mqr_input_ok (eight_bit_micro version level data)"
  using assms mqr_kinds_facts(2) [OF assms(1)]
  by (simp add: mqr_input_ok_def eight_bit_micro_def extended_def fresh_def new_entry_def entry_ok_def entries_ok_def
      mode_ok_def mode_ids_def mqr_min_version_def QRinput_check_def QRinput_isSplittableMode_def)

lemma encodeDataReal_refuses_MQR:
  fixes s :: "'z qr_heap_scheme"
  assumes "\<And>d. data = Some d \<Longrightarrow> sz \<le> int (length d)" and "level \<le> 3"
  shows "refuses (data = None \<or> sz = 0 \<or> (version, level) \<notin> set mqr_kinds) (sz < 0 \<or> version < 3)
    (QRcode_encodeDataReal data sz version level True) s"
proof (cases "data = None \<or> sz = 0 \<or> (version, level) \<notin> set mqr_kinds")
  case True
  then have "QRcode_encodeDataReal data sz version level True s = (Inl EINVAL, s)"
    using newMQR_wrong [OF assms(2), of version s] by (intro encodeDataReal_wrong) auto
  with True show ?thesis by (simp add: refuses_def)
next
  case False
  then obtain d where d: "data = Some d" and kind: "(version, level) \<in> set mqr_kinds" by auto
  let ?r = "fst (QRcode_encodeDataReal data sz version level True s)"
  have "?r = Inl EINVAL" if neg: "sz < 0" and heap: "qr_ok s" "script s = []"
  proof -
    obtain s1 where "QRinput_newMQR version level s = (Inr (fresh version level\<lparr>in_mqr := True\<rparr>), s1)"
      using newMQR_delivers [OF kind] heap by (auto simp: delivers_def prod_eq_iff)
    then show ?thesis unfolding d using neg by (intro encodeDataReal_negative) auto
  qed
  moreover have "if version < 3 then ?r = Inl EINVAL else ?r = Inl ERANGE \<or> (\<exists>code. ?r = Inr code)"
    if heap: "qr_ok s" "script s = []" and "\<not> sz < 0"
  proof -
    have pos: "0 < sz" "sz \<le> int (length d)" using that False assms(1) [OF d] by auto
    then obtain s' where s': "qr_ok s'" "script s' = []" "QRcode_encodeDataReal data sz version level True s =
        evalO (QRcode_encodeMaskMQR (-1)) (eight_bit_micro version level (take (nat sz) d)) s'"
      unfolding d using encodeDataReal_micro [OF pos kind heap] by auto
    have "take (nat sz) d \<noteq> []" using pos by auto
    with encodeMaskMQR_M2 [OF kind _ this s'(1,2)] encodeMaskMQR_outcome [OF eight_bit_micro_ok [OF kind _ this] s'(1,2)]
    show ?thesis unfolding s'(3) by simp
  qed
  ultimately show ?thesis using False unfolding refuses_def by (cases "sz < 0") (auto split: if_splits)
qed

end
