(* ===== verification/Utf.thy ===== *)
theory Utf
  imports Prelude
begin

text \<open>
  The UTF-8 coder of Jansson (\<^verbatim>\<open>utf.c\<close>). A \<^verbatim>\<open>char\<close> buffer is a list of bytes; a byte string that C
  ends with a NUL is the list of the bytes before it, and reading at the end of the list gives the
  NUL. Code points are integers, as \<^verbatim>\<open>int32_t\<close> values far from the bounds of the type.
\<close>

subsection \<open>The functions\<close>

definition utf8_encode :: "int \<Rightarrow> u8 list option" where
  "utf8_encode codepoint =
     (if codepoint < 0 then None
      else if codepoint < 0x80 then Some [of_int codepoint]
      else if codepoint < 0x800 then
        Some [0xC0 + of_int (drop_bit 6 (codepoint AND 0x7C0)), 0x80 + of_int (codepoint AND 0x03F)]
      else if codepoint < 0x10000 then
        Some [0xE0 + of_int (drop_bit 12 (codepoint AND 0xF000)), 0x80 + of_int (drop_bit 6 (codepoint AND 0x0FC0)),
              0x80 + of_int (codepoint AND 0x003F)]
      else if codepoint \<le> 0x10FFFF then
        Some [0xF0 + of_int (drop_bit 18 (codepoint AND 0x1C0000)), 0x80 + of_int (drop_bit 12 (codepoint AND 0x03F000)),
              0x80 + of_int (drop_bit 6 (codepoint AND 0x000FC0)), 0x80 + of_int (codepoint AND 0x00003F)]
      else None)"

definition utf8_check_first :: "u8 \<Rightarrow> nat" where
  "utf8_check_first u =
     (if u < 0x80 then 1
      else if 0x80 \<le> u \<and> u \<le> 0xBF then 0
      else if u = 0xC0 \<or> u = 0xC1 then 0
      else if 0xC2 \<le> u \<and> u \<le> 0xDF then 2
      else if 0xE0 \<le> u \<and> u \<le> 0xEF then 3
      else if 0xF0 \<le> u \<and> u \<le> 0xF4 then 4
      else 0)"

definition cbyte :: "u8 list \<Rightarrow> nat \<Rightarrow> u8" where
  "cbyte s i = (if i < length s then s ! i else 0)"

fun check_full_loop :: "u8 list \<Rightarrow> nat list \<Rightarrow> int \<Rightarrow> int option" where
  "check_full_loop buffer [] val = Some val"
| "check_full_loop buffer (i # is) val =
     (let u = cbyte buffer i
      in if u < 0x80 \<or> u > 0xBF then None
         else check_full_loop buffer is (push_bit 6 val + uint (u AND 0x3F)))"

text \<open>The code point, or \<open>None\<close> where the C function returns 0.\<close>

definition utf8_check_full :: "u8 list \<Rightarrow> nat \<Rightarrow> int option" where
  "utf8_check_full buffer sz =
     (let u = cbyte buffer 0;
          start = (if sz = 2 then Some (uint (u AND 0x1F))
                   else if sz = 3 then Some (uint (u AND 0xF))
                   else if sz = 4 then Some (uint (u AND 0x7))
                   else None)
      in case start of
           None \<Rightarrow> None
         | Some val \<Rightarrow>
             (case check_full_loop buffer [1..<sz] val of
                None \<Rightarrow> None
              | Some val \<Rightarrow>
                  if val > 0x10FFFF then None
                  else if 0xD800 \<le> val \<and> val \<le> 0xDFFF then None
                  else if sz = 2 \<and> val < 0x80 \<or> sz = 3 \<and> val < 0x800 \<or> sz = 4 \<and> val < 0x10000 then None
                  else Some val))"

text \<open>
  The rest of the buffer and the code point, if one is written; at the end of the string the code
  point is left alone.
\<close>

definition utf8_iterate :: "u8 list \<Rightarrow> (u8 list \<times> int option) option" where
  "utf8_iterate buffer =
     (if cbyte buffer 0 = 0 then Some (buffer, None)
      else
        let count = utf8_check_first (cbyte buffer 0)
        in if count = 0 then None
           else if count = 1 then Some (drop 1 buffer, Some (uint (cbyte buffer 0)))
           else case utf8_check_full buffer count of
                  None \<Rightarrow> None
                | Some val \<Rightarrow> Some (drop count buffer, Some val))"

function check_string_loop :: "u8 list \<Rightarrow> nat \<Rightarrow> nat \<Rightarrow> bool" where
  "check_string_loop string len i =
     (if i < len then
        let count = utf8_check_first (cbyte string i)
        in if count = 0 then False
           else if count > 1 then
             (if i + count > len then False
              else if utf8_check_full (drop i string) count = None then False
              else check_string_loop string len (i + (count - 1) + 1))
           else check_string_loop string len (i + 1)
      else True)"
  by pat_completeness auto
termination
  by (relation "measure (\<lambda>(string, len, i). len - i)") auto

declare check_string_loop.simps [simp del]

text \<open>
  The length -1 stands for the string up to its NUL, whose length is converted to \<^verbatim>\<open>int\<close>; the loop has
  no turn for a negative length.
\<close>

definition utf8_check_string :: "u8 list \<Rightarrow> int \<Rightarrow> bool" where
  "utf8_check_string string len =
     check_string_loop string (nat (if len = -1 then int32 (int (length (takeWhile (\<lambda>c. c \<noteq> 0) string))) else len)) 0"

end
