(* ===== verification/Utf_Correct.thy ===== *)
theory Utf_Correct
  imports Utf
begin

text \<open>
  Correctness of the UTF-8 coder: the iterator takes exactly the code of one Unicode scalar value
  off a string, and the string check accepts exactly the concatenations of such codes.
\<close>

subsection \<open>Encoding and decoding\<close>

text \<open>The Unicode scalar values: the code points that are not UTF-16 surrogates.\<close>

definition scalar :: "int \<Rightarrow> bool" where
  "scalar cp \<longleftrightarrow> 0 \<le> cp \<and> cp \<le> 0x10FFFF \<and> \<not> (0xD800 \<le> cp \<and> cp \<le> 0xDFFF)"

definition utf8 :: "int \<Rightarrow> u8 list" where
  "utf8 cp = the (utf8_encode cp)"

lemma drop_bit_and_field: "drop_bit n (x AND push_bit n (mask m)) = take_bit m (drop_bit n x)" for x :: int
  by (rule bit_eqI) (auto simp: bit_simps ac_simps)

lemma field:
  fixes x :: int
  shows "drop_bit 6 (x AND 0x7C0) = x div 64 mod 32" "x AND 0x3F = x mod 64"
    "drop_bit 12 (x AND 0xF000) = x div 4096 mod 16" "drop_bit 6 (x AND 0xFC0) = x div 64 mod 64"
    "drop_bit 18 (x AND 0x1C0000) = x div 262144 mod 8" "drop_bit 12 (x AND 0x3F000) = x div 4096 mod 64"
proof -
  have fields: "push_bit 6 (mask 5) = (0x7C0 :: int)" "mask 6 = (0x3F :: int)" "push_bit 12 (mask 4) = (0xF000 :: int)"
    "push_bit 6 (mask 6) = (0xFC0 :: int)" "push_bit 18 (mask 3) = (0x1C0000 :: int)" "push_bit 12 (mask 6) = (0x3F000 :: int)"
    by code_simp+
  show "drop_bit 6 (x AND 0x7C0) = x div 64 mod 32" "drop_bit 12 (x AND 0xF000) = x div 4096 mod 16"
    "drop_bit 6 (x AND 0xFC0) = x div 64 mod 64" "drop_bit 18 (x AND 0x1C0000) = x div 262144 mod 8"
    "drop_bit 12 (x AND 0x3F000) = x div 4096 mod 64"
    unfolding fields [symmetric] drop_bit_and_field by (simp_all add: drop_bit_eq_div take_bit_eq_mod)
  show "x AND 0x3F = x mod 64"
    unfolding fields(2) [symmetric] take_bit_eq_mask [symmetric] by (simp add: take_bit_eq_mod)
qed

lemma low_bits: "uint (u AND 0x1F) = uint u mod 32" "uint (u AND 0xF) = uint u mod 16" "uint (u AND 0x7) = uint u mod 8"
  "uint (u AND 0x3F) = uint u mod 64" for u :: u8
proof -
  have masks: "mask 5 = (0x1F :: int)" "mask 4 = (0xF :: int)" "mask 3 = (0x7 :: int)" "mask 6 = (0x3F :: int)" by code_simp+
  have "uint (u AND 0x1F) = uint u AND 0x1F" "uint (u AND 0xF) = uint u AND 0xF" "uint (u AND 0x7) = uint u AND 0x7"
    "uint (u AND 0x3F) = uint u AND 0x3F" by (simp_all add: unsigned_and_eq)
  then show "uint (u AND 0x1F) = uint u mod 32" "uint (u AND 0xF) = uint u mod 16" "uint (u AND 0x7) = uint u mod 8"
    "uint (u AND 0x3F) = uint u mod 64"
    unfolding masks [symmetric] take_bit_eq_mask [symmetric] by (simp_all add: take_bit_eq_mod)
qed

lemma uint_byte: "0 \<le> k \<Longrightarrow> k < 256 \<Longrightarrow> uint (of_int k :: u8) = k"
  by (simp add: unsigned_of_int take_bit_int_eq_self)

lemma byte_of_uint: "of_int (uint u) = (u :: u8)"
  by simp

lemma byte_sum: "0 \<le> k \<Longrightarrow> 0 \<le> c \<Longrightarrow> c + k < 256 \<Longrightarrow> uint (of_int c + of_int k :: u8) = c + k"
  using uint_byte [of "c + k"] by simp


lemma check_first_uint:
  "utf8_check_first u =
     (if uint u < 0x80 then 1 else if uint u < 0xC2 then 0 else if uint u < 0xE0 then 2
      else if uint u < 0xF0 then 3 else if uint u < 0xF5 then 4 else 0)"
  by (auto simp: utf8_check_first_def word_less_def word_le_def word_uint_eq_iff)

lemma cbyte_simps [simp]: "cbyte [] i = 0" "cbyte (c # s) 0 = c" "cbyte (c # s) (Suc i) = cbyte s i"
  by (simp_all add: cbyte_def)

lemma cbyte_numeral [simp]: "cbyte (c # s) (numeral n) = cbyte s (pred_numeral n)"
  by (simp add: numeral_eq_Suc)

definition continuation :: "u8 \<Rightarrow> bool" where
  "continuation u \<longleftrightarrow> 0x80 \<le> uint u \<and> uint u < 0xC0"

lemma check_full_loop_uint:
  "check_full_loop buffer (i # is) val =
     (if continuation (cbyte buffer i) then check_full_loop buffer is (val * 64 + uint (cbyte buffer i) mod 64) else None)"
  by (auto simp: continuation_def word_less_def word_le_def low_bits push_bit_eq_mult)

declare check_full_loop.simps(2) [simp del]

text \<open>What the decoder computes, for each of the three sizes.\<close>

lemma check_full_sizes:
  shows "utf8_check_full (a # s) 2 = Some cp \<longleftrightarrow> (\<exists>b s'. s = b # s' \<and> continuation b \<and>
      cp = uint a mod 32 * 64 + uint b mod 64 \<and> 0x80 \<le> cp \<and> scalar cp)" (is ?two)
    and "utf8_check_full (a # s) 3 = Some cp \<longleftrightarrow> (\<exists>b c s'. s = b # c # s' \<and> continuation b \<and> continuation c \<and>
      cp = (uint a mod 16 * 64 + uint b mod 64) * 64 + uint c mod 64 \<and> 0x800 \<le> cp \<and> scalar cp)" (is ?three)
    and "utf8_check_full (a # s) 4 = Some cp \<longleftrightarrow> (\<exists>b c d s'. s = b # c # d # s' \<and> continuation b \<and> continuation c \<and> continuation d \<and>
      cp = ((uint a mod 8 * 64 + uint b mod 64) * 64 + uint c mod 64) * 64 + uint d mod 64 \<and> 0x10000 \<le> cp \<and> scalar cp)" (is ?four)
proof -
  have nul: "\<not> continuation 0" by (simp add: continuation_def)
  have upts: "[Suc 0..<2] = [Suc 0]" "[Suc 0..<3] = [Suc 0, 2]" "[Suc 0..<4] = [Suc 0, 2, 3]" by (simp_all add: upt_conv_Cons)
  define ok where "ok k v = (if k \<le> v \<and> scalar v then Some v else None)" for k v
  have ok: "ok k v = Some cp \<longleftrightarrow> cp = v \<and> k \<le> cp \<and> scalar cp" for k v by (auto simp: ok_def)
  have "utf8_check_full (a # s) 2 = Option.bind (check_full_loop (a # s) [Suc 0] (uint a mod 32)) (ok 0x80)"
    "utf8_check_full (a # s) 3 = Option.bind (check_full_loop (a # s) [Suc 0, 2] (uint a mod 16)) (ok 0x800)"
    "utf8_check_full (a # s) 4 = Option.bind (check_full_loop (a # s) [Suc 0, 2, 3] (uint a mod 8)) (ok 0x10000)"
    by (auto simp: utf8_check_full_def low_bits Let_def upts ok_def scalar_def split: option.split)
  note full = this check_full_loop_uint bind_eq_Some_conv ok
  show ?two unfolding full by (cases s) (auto simp: nul)
  show ?three unfolding full by (cases s; cases "tl s") (auto simp: nul)
  show ?four unfolding full by (cases s; cases "tl s"; cases "tl (tl s)") (auto simp: nul)
qed

text \<open>The bytes of a code point, as numbers.\<close>

lemma utf8_uints:
  assumes "0 \<le> cp" and "cp \<le> 0x10FFFF"
  shows "utf8_encode cp = Some (utf8 cp)"
    and "cp < 0x80 \<Longrightarrow> map uint (utf8 cp) = [cp]"
    and "0x80 \<le> cp \<Longrightarrow> cp < 0x800 \<Longrightarrow> map uint (utf8 cp) = [0xC0 + cp div 64, 0x80 + cp mod 64]"
    and "0x800 \<le> cp \<Longrightarrow> cp < 0x10000 \<Longrightarrow> map uint (utf8 cp) = [0xE0 + cp div 4096, 0x80 + cp div 64 mod 64, 0x80 + cp mod 64]"
    and "0x10000 \<le> cp \<Longrightarrow> map uint (utf8 cp) =
      [0xF0 + cp div 262144, 0x80 + cp div 4096 mod 64, 0x80 + cp div 64 mod 64, 0x80 + cp mod 64]"
proof -
  have add: "uint (numeral c + of_int k :: u8) = numeral c + k" if "0 \<le> k" "numeral c + k < 256" for c k
    using byte_sum [OF that(1) _ that(2)] by simp
  have mod: "0 \<le> x mod 64" "x mod 64 < 64" for x :: int by simp_all
  show "utf8_encode cp = Some (utf8 cp)" using assms by (simp add: utf8_def utf8_encode_def)
  show "map uint (utf8 cp) = [cp]" if "cp < 0x80"
    using that assms by (simp add: utf8_def utf8_encode_def uint_byte)
  show "map uint (utf8 cp) = [0xC0 + cp div 64, 0x80 + cp mod 64]" if r: "0x80 \<le> cp" "cp < 0x800"
  proof -
    have "0 \<le> cp div 64" "cp div 64 < 32" using r by simp_all
    with r mod [of cp] show ?thesis unfolding utf8_def utf8_encode_def field by (simp add: add)
  qed
  show "map uint (utf8 cp) = [0xE0 + cp div 4096, 0x80 + cp div 64 mod 64, 0x80 + cp mod 64]" if r: "0x800 \<le> cp" "cp < 0x10000"
  proof -
    have "0 \<le> cp div 4096" "cp div 4096 < 16" using r by simp_all
    with r mod [of cp] mod [of "cp div 64"] show ?thesis unfolding utf8_def utf8_encode_def field by (simp add: add)
  qed
  show "map uint (utf8 cp) = [0xF0 + cp div 262144, 0x80 + cp div 4096 mod 64, 0x80 + cp div 64 mod 64, 0x80 + cp mod 64]"
    if r: "0x10000 \<le> cp"
  proof -
    have "0 \<le> cp div 262144" "cp div 262144 < 8" using r assms by simp_all
    with r assms mod [of cp] mod [of "cp div 64"] mod [of "cp div 4096"] show ?thesis unfolding utf8_def utf8_encode_def field by (simp add: add)
  qed
qed

lemma utf8_eqI: "map uint (utf8 cp) = map uint bs \<Longrightarrow> utf8 cp = (bs :: u8 list)"
  by (rule injD [OF inj_mapI [of uint]]) (auto intro: injI)

lemma digits64: "0 \<le> b \<Longrightarrow> b < 64 \<Longrightarrow> (a * 64 + b) div 64 = a" "0 \<le> b \<Longrightarrow> b < 64 \<Longrightarrow> (a * 64 + b) mod 64 = (b :: int)"
  by simp_all

lemma div_64s: "cp div 4096 = cp div 64 div 64" "cp div 262144 = cp div 64 div 64 div 64" for cp :: int
  by (simp_all add: zdiv_zmult2_eq [symmetric])

lemma mod_offset:
  fixes x :: int
  assumes "c dvd b" and "b \<le> x" and "x < b + c"
  shows "b + x mod c = x"
proof -
  have "x mod c = (x - b) mod c" using assms(1) by (metis mod_mod_trivial mod_diff_right_eq dvd_imp_mod_0 diff_zero)
  also have "\<dots> = x - b" using assms by (intro mod_pos_pos_trivial) simp_all
  finally show ?thesis by simp
qed

lemma utf8_of_digits:
  assumes "continuation b" "continuation c" "continuation d"
  shows "cp = uint a mod 32 * 64 + uint b mod 64 \<Longrightarrow> 0xC0 \<le> uint a \<Longrightarrow> uint a < 0xE0 \<Longrightarrow> 0x80 \<le> cp \<Longrightarrow> utf8 cp = [a, b]"
    and "cp = (uint a mod 16 * 64 + uint b mod 64) * 64 + uint c mod 64 \<Longrightarrow> 0xE0 \<le> uint a \<Longrightarrow> uint a < 0xF0 \<Longrightarrow> 0x800 \<le> cp
      \<Longrightarrow> utf8 cp = [a, b, c]"
    and "cp = ((uint a mod 8 * 64 + uint b mod 64) * 64 + uint c mod 64) * 64 + uint d mod 64 \<Longrightarrow> 0xF0 \<le> uint a \<Longrightarrow> uint a < 0xF8
      \<Longrightarrow> 0x10000 \<le> cp \<Longrightarrow> cp \<le> 0x10FFFF \<Longrightarrow> utf8 cp = [a, b, c, d]"
proof -
  have cont: "0x80 + uint u mod 64 = uint u" if "continuation u" for u
    using that by (intro mod_offset) (simp_all add: continuation_def)
  have m: "0 \<le> x mod 64" "x mod 64 < 64" for x :: int by simp_all
  show "utf8 cp = [a, b]" if cp: "cp = uint a mod 32 * 64 + uint b mod 64" and a: "0xC0 \<le> uint a" "uint a < 0xE0" and r: "0x80 \<le> cp"
  proof (rule utf8_eqI)
    have "0xC0 + uint a mod 32 = uint a" using a by (intro mod_offset) simp_all
    moreover have "uint a mod 32 < 32" by simp
    then have "cp < 0x800" using m(2) [of "uint b"] cp by linarith
    ultimately show "map uint (utf8 cp) = map uint [a, b]"
      using utf8_uints(3) [of cp] r cont [OF assms(1)] by (simp add: cp digits64 m)
  qed
  show "utf8 cp = [a, b, c]" if cp: "cp = (uint a mod 16 * 64 + uint b mod 64) * 64 + uint c mod 64"
    and a: "0xE0 \<le> uint a" "uint a < 0xF0" and r: "0x800 \<le> cp"
  proof (rule utf8_eqI)
    have a': "0xE0 + uint a mod 16 = uint a" using a by (intro mod_offset) simp_all
    have "(x * 64 + y) * 64 + z < 0x10000" if "x < 16" "y < 64" "z < 64" for x y z :: int
      using that by (simp add: distrib_right)
    then have lt: "cp < 0x10000" using cp m(2) by simp
    have d: "cp div 64 = uint a mod 16 * 64 + uint b mod 64" "cp mod 64 = uint c mod 64"
      unfolding cp by (intro digits64 m)+
    have d2: "cp div 4096 = uint a mod 16" "cp div 64 mod 64 = uint b mod 64"
      unfolding div_64s d(1) by (intro digits64 m)+
    have "0 \<le> cp" "cp \<le> 0x10FFFF" using r lt by linarith+
    note u = utf8_uints(4) [OF this r lt]
    show "map uint (utf8 cp) = map uint [a, b, c]"
      unfolding u d(2) d2 a' cont [OF assms(1)] cont [OF assms(2)] by (simp only: list.map)
  qed
  show "utf8 cp = [a, b, c, d]" if cp: "cp = ((uint a mod 8 * 64 + uint b mod 64) * 64 + uint c mod 64) * 64 + uint d mod 64"
    and a: "0xF0 \<le> uint a" "uint a < 0xF8" and r: "0x10000 \<le> cp" "cp \<le> 0x10FFFF"
  proof (rule utf8_eqI)
    have d: "cp div 64 = (uint a mod 8 * 64 + uint b mod 64) * 64 + uint c mod 64" "cp mod 64 = uint d mod 64"
      unfolding cp by (intro digits64 m)+
    then have d2: "cp div 64 div 64 = uint a mod 8 * 64 + uint b mod 64" "cp div 64 mod 64 = uint c mod 64"
      by (simp_all only: digits64 m)
    have d3: "cp div 262144 = uint a mod 8" "cp div 4096 mod 64 = uint b mod 64"
      unfolding div_64s d2(1) by (intro digits64 m)+
    have a': "0xF0 + uint a mod 8 = uint a" using a by (intro mod_offset) simp_all
    have "0 \<le> cp" using r(1) by linarith
    note u = utf8_uints(5) [OF this r(2) r(1)]
    show "map uint (utf8 cp) = map uint [a, b, c, d]"
      unfolding u d(2) d2(2) d3 a' cont [OF assms(1)] cont [OF assms(2)] cont [OF assms(3)] by (simp only: list.map)
  qed
qed


lemma check_first_range: "utf8_check_first a \<in> {0, 1, 2, 3, 4}"
  by (simp add: check_first_uint)

lemma utf8_iterate_first:
  assumes "cbyte s 0 \<noteq> 0"
  obtains a r where "s = a # r" and "utf8_check_first a = 0" and "utf8_iterate s = None"
  | a r where "s = a # r" and "uint a < 0x80" and "0 < uint a" and "utf8_iterate s = Some (r, Some (uint a))"
  | a r n where "s = a # r" and "n = utf8_check_first a" and "n \<in> {2, 3, 4}"
      and "utf8_iterate s = map_option (\<lambda>cp. (drop n s, Some cp)) (utf8_check_full s n)"
proof -
  from assms obtain a r where s: "s = a # r" by (cases s) auto
  consider "utf8_check_first a = 0" | "utf8_check_first a = 1" | "utf8_check_first a \<in> {2, 3, 4}"
    using check_first_range [of a] by auto
  then show thesis
  proof cases
    case 1
    then show thesis using assms s by (intro that(1)) (simp_all add: utf8_iterate_def)
  next
    case 2
    then have "uint a < 0x80" by (auto simp: check_first_uint split: if_splits)
    moreover have "0 < uint a" using assms s uint_ge_0 [of a] by (simp add: less_le uint_0_iff)
    ultimately show thesis using 2 assms s by (intro that(2)) (simp_all add: utf8_iterate_def)
  next
    case 3
    then show thesis using assms s by (intro that(3)) (auto simp: utf8_iterate_def split: option.split)
  qed
qed

lemma map_eq_lists:
  "map f xs = [w] \<Longrightarrow> \<exists>a. xs = [a] \<and> f a = w"
  "map f xs = [w, x] \<Longrightarrow> \<exists>a b. xs = [a, b] \<and> f a = w \<and> f b = x"
  "map f xs = [w, x, y] \<Longrightarrow> \<exists>a b c. xs = [a, b, c] \<and> f a = w \<and> f b = x \<and> f c = y"
  "map f xs = [w, x, y, z] \<Longrightarrow> \<exists>a b c d. xs = [a, b, c, d] \<and> f a = w \<and> f b = x \<and> f c = y \<and> f d = z"
  by (auto simp: map_eq_Cons_conv)

lemma utf8_shapes:
  assumes "scalar cp"
  obtains a where "utf8 cp = [a]" and "uint a = cp" and "cp < 0x80"
  | a b where "utf8 cp = [a, b]" and "uint a = 0xC0 + cp div 64" and "uint b = 0x80 + cp mod 64" and "0x80 \<le> cp" and "cp < 0x800"
  | a b c where "utf8 cp = [a, b, c]" and "uint a = 0xE0 + cp div 4096" and "uint b = 0x80 + cp div 64 mod 64"
      and "uint c = 0x80 + cp mod 64" and "0x800 \<le> cp" and "cp < 0x10000"
  | a b c d where "utf8 cp = [a, b, c, d]" and "uint a = 0xF0 + cp div 262144" and "uint b = 0x80 + cp div 4096 mod 64"
      and "uint c = 0x80 + cp div 64 mod 64" and "uint d = 0x80 + cp mod 64" and "0x10000 \<le> cp"
proof -
  have r: "0 \<le> cp" "cp \<le> 0x10FFFF" using assms by (simp_all add: scalar_def)
  consider "cp < 0x80" | "0x80 \<le> cp" "cp < 0x800" | "0x800 \<le> cp" "cp < 0x10000" | "0x10000 \<le> cp" by linarith
  then show thesis
  proof cases
    case 1 then show thesis using map_eq_lists(1) [OF utf8_uints(2) [OF r]] that(1) by blast
  next
    case 2 then show thesis using map_eq_lists(2) [OF utf8_uints(3) [OF r]] that(2) by blast
  next
    case 3 then show thesis using map_eq_lists(3) [OF utf8_uints(4) [OF r]] that(3) by blast
  next
    case 4 then show thesis using map_eq_lists(4) [OF utf8_uints(5) [OF r]] that(4) by blast
  qed
qed

lemma mod_64_digit: "(0x80 + x mod 64) mod 64 = x mod 64" "0x80 \<le> 0x80 + x mod 64" "0x80 + x mod 64 < 0xC0" for x :: int
proof -
  show "(0x80 + x mod 64) mod 64 = x mod 64" using mod_mult_self3 [of 2 64 "x mod 64"] by simp
  have "0 \<le> x mod 64" "x mod 64 < 64" by simp_all
  then show "0x80 \<le> 0x80 + x mod 64" "0x80 + x mod 64 < 0xC0" by linarith+
qed

lemma lead_digit:
  fixes q :: int
  shows "0 \<le> q \<Longrightarrow> q < 32 \<Longrightarrow> (0xC0 + q) mod 32 = q" and "0 \<le> q \<Longrightarrow> q < 16 \<Longrightarrow> (0xE0 + q) mod 16 = q"
    and "0 \<le> q \<Longrightarrow> q < 8 \<Longrightarrow> (0xF0 + q) mod 8 = q"
  using mod_mult_self3 [of 6 32 q] mod_mult_self3 [of 14 16 q] mod_mult_self3 [of 30 8 q] by simp_all

lemma digits_join:
  fixes cp :: int
  shows "cp div 64 * 64 + cp mod 64 = cp" and "(cp div 4096 * 64 + cp div 64 mod 64) * 64 + cp mod 64 = cp"
    and "((cp div 262144 * 64 + cp div 4096 mod 64) * 64 + cp div 64 mod 64) * 64 + cp mod 64 = cp"
  by (simp_all only: div_64s div_mult_mod_eq)

text \<open>The first byte gives the number of bytes, and these give the code point back.\<close>

lemma utf8_scan:
  assumes "scalar cp"
  shows "utf8 cp \<noteq> [] \<and> utf8_check_first (cbyte (utf8 cp @ r) 0) = length (utf8 cp) \<and>
    (if length (utf8 cp) = 1 then cbyte (utf8 cp @ r) 0 = of_int cp
     else utf8_check_full (utf8 cp @ r) (length (utf8 cp)) = Some cp)"
  using assms
proof (cases rule: utf8_shapes)
  case (1 a)
  then have "a = of_int cp" by (metis word_of_int_uint)
  with 1 show ?thesis by (simp add: check_first_uint)
next
  case (2 a b)
  have "cp div 64 < 32" "2 \<le> cp div 64" using 2(4,5) by simp_all
  note k = this
  then have k2: "(0xC0 + cp div 64) mod 32 = cp div 64" by (intro lead_digit) linarith+
  have "utf8_check_first a = 2" unfolding check_first_uint 2(2) using k by simp
  moreover have "utf8_check_full (a # b # r) 2 = Some cp"
    unfolding check_full_sizes using assms 2(4)
    by (intro exI [of _ b] exI [of _ r] conjI) (simp_all only: continuation_def 2(2,3) k2 mod_64_digit digits_join simp_thms)
  ultimately show ?thesis by (simp add: 2(1) numeral_eq_Suc)
next
  case (3 a b c)
  have "cp div 4096 < 16" "0 \<le> cp div 4096" using 3(5,6) by simp_all
  note k = this
  then have k3: "(0xE0 + cp div 4096) mod 16 = cp div 4096" by (intro lead_digit) linarith+
  have "utf8_check_first a = 3" unfolding check_first_uint 3(2) using k by simp
  moreover have "utf8_check_full (a # b # c # r) 3 = Some cp"
    unfolding check_full_sizes using assms 3(5)
    by (intro exI [of _ b] exI [of _ c] exI [of _ r] conjI)
      (simp_all only: continuation_def 3(2-4) k3 mod_64_digit digits_join simp_thms)
  ultimately show ?thesis by (simp add: 3(1) numeral_eq_Suc)
next
  case (4 a b c d)
  have r: "cp \<le> 0x10FFFF" using assms by (simp add: scalar_def)
  have k: "cp div 262144 < 5" "0 \<le> cp div 262144" using 4(6) r by simp_all
  then have k3: "(0xF0 + cp div 262144) mod 8 = cp div 262144" by (intro lead_digit) linarith+
  have "utf8_check_first a = 4" unfolding check_first_uint 4(2) using k by simp
  moreover have "utf8_check_full (a # b # c # d # r) 4 = Some cp"
    unfolding check_full_sizes using assms 4(6)
    by (intro exI [of _ b] exI [of _ c] exI [of _ d] exI [of _ r] conjI)
      (simp_all only: continuation_def 4(2-5) k3 mod_64_digit digits_join simp_thms)
  ultimately show ?thesis by (simp add: 4(1) numeral_eq_Suc)
qed

lemma utf8_iterate_utf8:
  assumes "scalar cp" and "cp \<noteq> 0"
  shows "utf8_iterate (utf8 cp @ r) = Some (r, Some cp)"
proof -
  note sc = utf8_scan [OF assms(1), of r]
  have nz: "cbyte (utf8 cp @ r) 0 \<noteq> 0"
  proof
    assume z: "cbyte (utf8 cp @ r) 0 = 0"
    with sc have "length (utf8 cp) = 1" by (auto simp: check_first_uint)
    with sc z have "of_int cp = (0 :: u8)" "utf8 cp = [0]" by (auto simp: length_Suc_conv)
    with assms show False by (cases rule: utf8_shapes [OF assms(1)]) auto
  qed
  show ?thesis
  proof (cases "length (utf8 cp) = 1")
    case True
    then obtain a where a: "utf8 cp = [a]" by (auto simp: length_Suc_conv)
    have "uint a = cp" by (cases rule: utf8_shapes [OF assms(1)]) (auto simp: a)
    then have "utf8_iterate (a # r) = Some (r, Some cp)" using nz sc unfolding a by (auto simp: utf8_iterate_def)
    then show ?thesis by (simp add: a)
  next
    case False
    with nz sc show ?thesis by (auto simp: utf8_iterate_def)
  qed
qed

lemma utf8_check_full_utf8:
  assumes "utf8_check_full s n = Some cp" and "n = utf8_check_first (cbyte s 0)" and "n \<in> {2, 3, 4}"
  shows "scalar cp \<and> cp \<noteq> 0 \<and> s = utf8 cp @ drop n s"
proof -
  obtain a r where s: "s = a # r" using assms(2,3) by (cases s) (auto simp: check_first_uint)
  from assms(3) consider "n = 2" | "n = 3" | "n = 4" by auto
  then show ?thesis
  proof cases
    case 1
    then have a: "0xC0 \<le> uint a" "uint a < 0xE0" using assms(2) s by (auto simp: check_first_uint split: if_splits)
    from assms(1) obtain b r' where r: "r = b # r'" "continuation b" "cp = uint a mod 32 * 64 + uint b mod 64"
      and cp: "0x80 \<le> cp" "scalar cp" unfolding 1 s check_full_sizes by blast
    show ?thesis using cp utf8_of_digits(1) [OF r(2,2,2,3) a cp(1)] by (simp add: 1 s r(1))
  next
    case 2
    then have a: "0xE0 \<le> uint a" "uint a < 0xF0" using assms(2) s by (auto simp: check_first_uint split: if_splits)
    from assms(1) obtain b c r' where r: "r = b # c # r'" "continuation b" "continuation c"
        "cp = (uint a mod 16 * 64 + uint b mod 64) * 64 + uint c mod 64"
      and cp: "0x800 \<le> cp" "scalar cp" unfolding 2 s check_full_sizes by blast
    show ?thesis using cp utf8_of_digits(2) [OF r(2,3,3,4) a cp(1)] by (simp add: 2 s r(1))
  next
    case 3
    then have a: "0xF0 \<le> uint a" "uint a < 0xF8" using assms(2) s by (auto simp: check_first_uint split: if_splits)
    from assms(1) obtain b c d r' where r: "r = b # c # d # r'" "continuation b" "continuation c" "continuation d"
        "cp = ((uint a mod 8 * 64 + uint b mod 64) * 64 + uint c mod 64) * 64 + uint d mod 64"
      and cp: "0x10000 \<le> cp" "scalar cp" unfolding 3 s check_full_sizes by blast
    have "cp \<le> 0x10FFFF" using cp(2) by (simp add: scalar_def)
    with cp utf8_of_digits(3) [OF r(2,3,4,5) a cp(1)] show ?thesis by (simp add: 3 s r(1))
  qed
qed

lemma utf8_ascii: "uint a < 0x80 \<Longrightarrow> utf8 (uint a) = [a]"
  using utf8_uints(2) [of "uint a"] by (auto simp: map_eq_Cons_conv word_uint_eq_iff)

text \<open>The iterator takes exactly the code of one scalar value off the string.\<close>

lemma utf8_iterate_iff: "utf8_iterate s = Some (r, Some cp) \<longleftrightarrow> scalar cp \<and> cp \<noteq> 0 \<and> s = utf8 cp @ r"
proof
  assume it: "utf8_iterate s = Some (r, Some cp)"
  then have "cbyte s 0 \<noteq> 0" by (auto simp: utf8_iterate_def)
  then show "scalar cp \<and> cp \<noteq> 0 \<and> s = utf8 cp @ r"
  proof (cases rule: utf8_iterate_first)
    case 1 with it show ?thesis by simp
  next
    case (2 a r') with it show ?thesis by (auto simp: utf8_ascii scalar_def)
  next
    case (3 a r' n)
    have "utf8_check_full s n = Some cp" "r = drop n s" using it unfolding 3(4) by auto
    with utf8_check_full_utf8 [of s n cp] 3(1-3) show ?thesis by simp
  qed
qed (auto simp: utf8_iterate_utf8)

subsection \<open>Checking a string\<close>

definition utf8s :: "int list \<Rightarrow> u8 list" where
  "utf8s cps = concat (map utf8 cps)"

lemma utf8s_simps [simp]: "utf8s [] = []" "utf8s (cp # cps) = utf8 cp @ utf8s cps" "utf8s (xs @ ys) = utf8s xs @ utf8s ys"
  by (simp_all add: utf8s_def)

text \<open>The well-formed byte sequences.\<close>

definition wf_utf8 :: "u8 list \<Rightarrow> bool" where
  "wf_utf8 t \<longleftrightarrow> (\<exists>cps. (\<forall>cp \<in> set cps. scalar cp) \<and> t = utf8s cps)"

lemma check_full_take: "c \<le> m \<Longrightarrow> utf8_check_full (take m s) c = utf8_check_full s c"
proof -
  assume "c \<le> m"
  then have "\<forall>i \<in> set is. i < m \<Longrightarrow> check_full_loop (take m s) is v = check_full_loop s is v" for "is" v
    by (induction "is" arbitrary: v) (auto simp: check_full_loop_uint cbyte_def)
  with \<open>c \<le> m\<close> show ?thesis by (cases "m = 0") (auto simp: utf8_check_full_def cbyte_def Let_def)
qed

lemma wf_utf8_step:
  assumes "t \<noteq> []"
  defines "c \<equiv> utf8_check_first (cbyte t 0)"
  shows "wf_utf8 t \<longleftrightarrow> c \<noteq> 0 \<and> c \<le> length t \<and> (1 < c \<longrightarrow> utf8_check_full t c \<noteq> None) \<and> wf_utf8 (drop c t)"
proof
  assume "wf_utf8 t"
  then obtain cps where cps: "\<forall>cp \<in> set cps. scalar cp" "t = utf8s cps" by (auto simp: wf_utf8_def)
  with assms(1) obtain cp cs where c: "cps = cp # cs" by (cases cps) auto
  with cps have "scalar cp" by simp
  note sc = utf8_scan [OF this, of "utf8s cs"]
  have "c = length (utf8 cp)" using sc cps(2) c by (simp add: c_def)
  then show "c \<noteq> 0 \<and> c \<le> length t \<and> (1 < c \<longrightarrow> utf8_check_full t c \<noteq> None) \<and> wf_utf8 (drop c t)"
    using sc cps c by (auto simp: wf_utf8_def split: if_splits)
next
  assume r: "c \<noteq> 0 \<and> c \<le> length t \<and> (1 < c \<longrightarrow> utf8_check_full t c \<noteq> None) \<and> wf_utf8 (drop c t)"
  then obtain cps where cps: "\<forall>cp \<in> set cps. scalar cp" "drop c t = utf8s cps" by (auto simp: wf_utf8_def)
  have "\<exists>cp. scalar cp \<and> t = utf8 cp @ drop c t"
  proof (cases "c = 1")
    case True
    then have "uint (hd t) < 0x80" "t = hd t # drop c t"
      using assms(1) by (cases t; auto simp: c_def check_first_uint split: if_splits)+
    then show ?thesis using utf8_ascii [of "hd t"] by (intro exI [of _ "uint (hd t)"]) (auto simp: scalar_def)
  next
    case False
    then have "c \<in> {2, 3, 4}" using r check_first_range [of "cbyte t 0"] by (auto simp: c_def)
    moreover obtain cp where "utf8_check_full t c = Some cp" using False r by auto
    ultimately show ?thesis using utf8_check_full_utf8 [of t c cp] by (auto simp: c_def)
  qed
  then obtain cp where "scalar cp" "t = utf8 cp @ utf8s cps" using cps(2) by auto
  with cps(1) show "wf_utf8 t" unfolding wf_utf8_def by (intro exI [of _ "cp # cps"]) simp
qed

lemma check_string_loop_wf:
  "len \<le> length s \<Longrightarrow> i \<le> len \<Longrightarrow> check_string_loop s len i \<longleftrightarrow> wf_utf8 (take (len - i) (drop i s))"
proof (induction s len i rule: check_string_loop.induct)
  case (1 s len i)
  show ?case
  proof (cases "i < len")
    case False
    then show ?thesis by (subst check_string_loop.simps) (auto simp: wf_utf8_def intro: exI [of _ "[]"])
  next
    case True
    define t where "t = take (len - i) (drop i s)"
    define c where "c = utf8_check_first (cbyte s i)"
    have t: "t \<noteq> []" "cbyte t 0 = cbyte s i" "length t = len - i"
      using True 1(3) by (auto simp: t_def cbyte_def)
    have "drop c t = take (len - (i + c)) (drop (i + c) s)" by (simp add: t_def drop_take add.commute)
    moreover have "utf8_check_full t c = utf8_check_full (drop i s) c" if "i + c \<le> len"
      unfolding t_def using that by (intro check_full_take) simp
    moreover have "check_string_loop s len i \<longleftrightarrow> c \<noteq> 0 \<and> i + c \<le> len \<and> (1 < c \<longrightarrow> utf8_check_full (drop i s) c \<noteq> None) \<and>
        check_string_loop s len (i + c)"
      using True by (subst check_string_loop.simps, cases "c = 1") (auto simp: Let_def simp flip: c_def)
    moreover have "check_string_loop s len (i + c) \<longleftrightarrow> wf_utf8 (take (len - (i + c)) (drop (i + c) s))"
      if "c \<noteq> 0" "i + c \<le> len" "1 < c \<longrightarrow> utf8_check_full (drop i s) c \<noteq> None"
      using 1(1) [OF True refl] 1(2) [OF True refl] that 1(3) by (cases "c = 1") (auto simp flip: c_def)
    moreover note wf_utf8_step [OF t(1), unfolded t(2,3), folded c_def]
    moreover have "c \<le> len - i \<longleftrightarrow> i + c \<le> len" using True by auto
    ultimately show ?thesis unfolding t_def [symmetric] by metis
  qed
qed


lemma utf8_check_string_wf:
  "0 \<le> len \<Longrightarrow> len \<le> int (length s) \<Longrightarrow> utf8_check_string s len \<longleftrightarrow> wf_utf8 (take (nat len) s)"
  "length (takeWhile (\<lambda>c. c \<noteq> 0) s) < 2 ^ 31 \<Longrightarrow> utf8_check_string s (-1) \<longleftrightarrow> wf_utf8 (takeWhile (\<lambda>c. c \<noteq> 0) s)"
  "2 ^ 31 \<le> length (takeWhile (\<lambda>c. c \<noteq> 0) s) \<Longrightarrow> length (takeWhile (\<lambda>c. c \<noteq> 0) s) < 2 ^ 32 \<Longrightarrow> utf8_check_string s (-1)"
proof -
  show "utf8_check_string s len \<longleftrightarrow> wf_utf8 (take (nat len) s)" if "0 \<le> len" "len \<le> int (length s)"
    using check_string_loop_wf [of "nat len" s 0] that by (simp add: utf8_check_string_def)
  show "utf8_check_string s (-1)" if "2 ^ 31 \<le> length (takeWhile (\<lambda>c. c \<noteq> 0) s)" "length (takeWhile (\<lambda>c. c \<noteq> 0) s) < 2 ^ 32"
    using int32_negative [OF that] by (simp add: utf8_check_string_def check_string_loop.simps [of s 0])
  show "utf8_check_string s (-1) \<longleftrightarrow> wf_utf8 (takeWhile (\<lambda>c. c \<noteq> 0) s)" if "length (takeWhile (\<lambda>c. c \<noteq> 0) s) < 2 ^ 31"
    using int32_length [OF that] check_string_loop_wf [of "length (takeWhile (\<lambda>c. c \<noteq> 0) s)" s 0]
    by (simp add: utf8_check_string_def length_takeWhile_le flip: takeWhile_eq_take)
qed

end
