(* ===== verification/Strbuffer.thy ===== *)
theory Strbuffer
  imports Prelude
begin

text \<open>
  The string buffer of Jansson (\<^verbatim>\<open>strbuffer.c\<close>) on its allocator (\<^verbatim>\<open>memory.c\<close>). A block of memory is
  the list of its bytes, \<open>None\<close> where nothing was stored yet; a null pointer is \<open>None\<close>; a \<^verbatim>\<open>size_t\<close> is
  a 64-bit word, so the sums and differences of the code wrap. Storing outside a block or through a
  null pointer is the failure \<open>CRASH\<close>. The functions of the user that \<^verbatim>\<open>json_set_alloc_funcs\<close> installs
  are covered by the allocation script.
\<close>

type_synonym size_t = "64 word"
type_synonym block = "u8 option list"

subsection \<open>Memory\<close>

definition jsonp_malloc :: "size_t \<Rightarrow> ('z heap_scheme, block) M" where
  "jsonp_malloc sz = (if sz = 0 then failM ENOMEM else bindM malloc (\<lambda>_. retM (replicate (unat sz) None)))"

text \<open>\<^verbatim>\<open>memcpy\<close> to an offset of a block.\<close>

definition store :: "block option \<Rightarrow> nat \<Rightarrow> block \<Rightarrow> ('s, block) M" where
  "store p off bytes = (case p of
       None \<Rightarrow> failM CRASH
     | Some b \<Rightarrow> if off + length bytes \<le> length b then retM (take off b @ bytes @ drop (off + length bytes) b)
                 else failM CRASH)"

definition jsonp_strdup :: "u8 list \<Rightarrow> ('z heap_scheme, block) M" where
  "jsonp_strdup str =
     bindM (jsonp_malloc (of_nat (length str) + 1)) (\<lambda>new_str. store (Some new_str) 0 (map Some (str @ [0])))"

subsection \<open>The buffer\<close>

record strbuffer =
  sb_value :: "block option"
  sb_length :: size_t
  sb_size :: size_t

abbreviation (input) STRBUFFER_MIN_SIZE :: size_t where "STRBUFFER_MIN_SIZE \<equiv> 16"
abbreviation (input) STRBUFFER_FACTOR :: size_t where "STRBUFFER_FACTOR \<equiv> 2"
abbreviation (input) STRBUFFER_SIZE_MAX :: size_t where "STRBUFFER_SIZE_MAX \<equiv> - 1"

definition strbuffer_init :: "(strbuffer, 'z heap_scheme, unit) OM" where
  "strbuffer_init = bindM getO (\<lambda>sb.
     bindM (putO (sb\<lparr>sb_size := STRBUFFER_MIN_SIZE, sb_length := 0, sb_value := None\<rparr>)) (\<lambda>_.
     bindM (lift (jsonp_malloc STRBUFFER_MIN_SIZE)) (\<lambda>b.
     bindM (lift (store (Some b) 0 [Some 0])) (\<lambda>b.
     putO (sb\<lparr>sb_size := STRBUFFER_MIN_SIZE, sb_length := 0, sb_value := Some b\<rparr>)))))"

definition strbuffer_close :: "(strbuffer, 's, unit) OM" where
  "strbuffer_close = bindM getO (\<lambda>sb. putO (sb\<lparr>sb_value := None, sb_length := 0, sb_size := 0\<rparr>))"

definition strbuffer_clear :: "(strbuffer, 's, unit) OM" where
  "strbuffer_clear = bindM getO (\<lambda>sb.
     bindM (putO (sb\<lparr>sb_length := 0\<rparr>)) (\<lambda>_.
     bindM (lift (store (sb_value sb) 0 [Some 0])) (\<lambda>b.
     putO (sb\<lparr>sb_length := 0, sb_value := Some b\<rparr>))))"

definition strbuffer_value :: "strbuffer \<Rightarrow> block option" where
  "strbuffer_value sb = sb_value sb"

text \<open>The outcome of the new initialisation is not looked at.\<close>

definition strbuffer_steal_value :: "(strbuffer, 'z heap_scheme, block option) OM" where
  "strbuffer_steal_value = bindM getO (\<lambda>sb. bindM (tryM strbuffer_init) (\<lambda>_. retM (sb_value sb)))"

definition strbuffer_append_bytes :: "u8 list \<Rightarrow> size_t \<Rightarrow> (strbuffer, 'z heap_scheme, unit) OM" where
  "strbuffer_append_bytes data sz = bindM getO (\<lambda>sb.
     bindM (if sz \<ge> sb_size sb - sb_length sb then
              if sb_size sb > STRBUFFER_SIZE_MAX div STRBUFFER_FACTOR \<or> sz > STRBUFFER_SIZE_MAX - 1
                 \<or> sb_length sb > STRBUFFER_SIZE_MAX - 1 - sz
              then failM NOERRNO
              else
                let new_size = max (sb_size sb * STRBUFFER_FACTOR) (sb_length sb + sz + 1)
                in bindM (lift (jsonp_malloc new_size)) (\<lambda>new_value.
                   bindM (lift (store (Some new_value) 0 (take (unat (sb_length sb)) (the (sb_value sb))))) (\<lambda>new_value.
                   putO (sb\<lparr>sb_value := Some new_value, sb_size := new_size\<rparr>)))
            else retM ()) (\<lambda>_.
     bindM getO (\<lambda>sb.
     bindM (lift (store (sb_value sb) (unat (sb_length sb)) (map Some (take (unat sz) data)))) (\<lambda>b.
     bindM (lift (store (Some b) (unat (sb_length sb + sz)) [Some 0])) (\<lambda>b.
     putO (sb\<lparr>sb_value := Some b, sb_length := sb_length sb + sz\<rparr>))))))"

definition strbuffer_append :: "u8 list \<Rightarrow> (strbuffer, 'z heap_scheme, unit) OM" where
  "strbuffer_append string = strbuffer_append_bytes string (of_nat (length string))"

definition strbuffer_append_byte :: "u8 \<Rightarrow> (strbuffer, 'z heap_scheme, unit) OM" where
  "strbuffer_append_byte byte = strbuffer_append_bytes [byte] 1"

definition strbuffer_pop :: "(strbuffer, 's, u8) OM" where
  "strbuffer_pop = bindM getO (\<lambda>sb.
     if sb_length sb > 0 then
       let n = sb_length sb - 1
       in case sb_value sb of
            None \<Rightarrow> failM CRASH
          | Some b \<Rightarrow>
              (case (if unat n < length b then b ! unat n else None) of
                 None \<Rightarrow> failM CRASH
               | Some c \<Rightarrow>
                   bindM (lift (store (Some b) (unat n) [Some 0])) (\<lambda>b.
                   bindM (putO (sb\<lparr>sb_value := Some b, sb_length := n\<rparr>)) (\<lambda>_. retM c)))
     else retM 0)"

subsection \<open>The invariant\<close>

text \<open>The buffer \<open>sb\<close> holds the bytes \<open>bs\<close>, followed by a NUL, in a block of its size.\<close>

definition holds :: "u8 list \<Rightarrow> strbuffer \<Rightarrow> bool" where
  "holds bs sb \<longleftrightarrow> (\<exists>rest. sb_value sb = Some (map Some bs @ Some 0 # rest) \<and>
     unat (sb_length sb) = length bs \<and> unat (sb_size sb) = length bs + 1 + length rest)"

lemma store_append:
  "length bytes = length old \<Longrightarrow> store (Some (xs @ old @ ys)) (length xs) bytes = retM (xs @ bytes @ ys)"
  by (simp add: store_def)

text \<open>The buffer holds \<open>bs\<close> and has room for \<open>n\<close> bytes and a NUL, but need not have a NUL.\<close>

definition room :: "u8 list \<Rightarrow> nat \<Rightarrow> strbuffer \<Rightarrow> bool" where
  "room bs n sb \<longleftrightarrow> (\<exists>rest. sb_value sb = Some (map Some bs @ rest) \<and> n < length rest \<and>
     unat (sb_length sb) = length bs \<and> unat (sb_size sb) = length bs + length rest)"

lemma holds_room: "holds bs sb \<Longrightarrow> n < unat (sb_size sb) - length bs \<Longrightarrow> room bs n sb"
  unfolding holds_def room_def by (elim exE conjE, rule exI) auto

definition append_here :: "u8 list \<Rightarrow> size_t \<Rightarrow> (strbuffer, 's, unit) OM" where
  "append_here data sz = bindM getO (\<lambda>sb.
     bindM (lift (store (sb_value sb) (unat (sb_length sb)) (map Some (take (unat sz) data)))) (\<lambda>b.
     bindM (lift (store (Some b) (unat (sb_length sb + sz)) [Some 0])) (\<lambda>b.
     putO (sb\<lparr>sb_value := Some b, sb_length := sb_length sb + sz\<rparr>))))"

lemma append_here_room:
  assumes "room bs (unat sz) sb" and "unat sz \<le> length data"
  shows "\<exists>sb'. append_here data sz (sb, s) = (Inr (), (sb', s)) \<and> holds (bs @ take (unat sz) data) sb'"
proof -
  from assms(1) obtain rest where v: "sb_value sb = Some (map Some bs @ rest)" and n: "unat sz < length rest"
    and len: "unat (sb_length sb) = length bs" "unat (sb_size sb) = length bs + length rest"
    by (auto simp: room_def)
  define new where "new = bs @ take (unat sz) data"
  obtain c r where r: "drop (unat sz) rest = c # r" using n by (cases "drop (unat sz) rest") auto
  have nlen: "length new = length bs + unat sz" using assms(2) by (simp add: new_def)
  have rlen: "length rest = unat sz + 1 + length r" using arg_cong [OF r, of length] n by simp
  have "unat (sb_size sb) < 2 ^ LENGTH(64)" by (rule unsigned_less)
  then have "unat (sb_length sb) + unat sz < 2 ^ 64" using len n by simp
  then have l: "unat (sb_length sb + sz) = length new" using len nlen by (simp add: unat_add_lem [THEN iffD1])
  have s1: "store (sb_value sb) (unat (sb_length sb)) (map Some (take (unat sz) data)) s = (Inr (map Some new @ c # r), s)"
    using len n assms(2) r by (simp add: store_def v new_def)
  have s2: "store (Some (map Some new @ c # r)) (unat (sb_length sb + sz)) [Some 0] s = (Inr (map Some new @ Some 0 # r), s)"
    by (simp add: store_def l)
  have "append_here data sz (sb, s) =
      (Inr (), (sb\<lparr>sb_value := Some (map Some new @ Some 0 # r), sb_length := sb_length sb + sz\<rparr>, s))"
    unfolding append_here_def by (simp add: bindM_def getO_def putO_def lift_def s1 s2)
  moreover have "holds new (sb\<lparr>sb_value := Some (map Some new @ Some 0 # r), sb_length := sb_length sb + sz\<rparr>)"
    using len rlen nlen l by (auto simp: holds_def intro!: exI [of _ r])
  ultimately show ?thesis unfolding new_def by blast
qed

definition grow :: "size_t \<Rightarrow> (strbuffer, 'z heap_scheme, unit) OM" where
  "grow sz = bindM getO (\<lambda>sb.
     if sz \<ge> sb_size sb - sb_length sb then
       if sb_size sb > STRBUFFER_SIZE_MAX div STRBUFFER_FACTOR \<or> sz > STRBUFFER_SIZE_MAX - 1
          \<or> sb_length sb > STRBUFFER_SIZE_MAX - 1 - sz
       then failM NOERRNO
       else
         let new_size = max (sb_size sb * STRBUFFER_FACTOR) (sb_length sb + sz + 1)
         in bindM (lift (jsonp_malloc new_size)) (\<lambda>new_value.
            bindM (lift (store (Some new_value) 0 (take (unat (sb_length sb)) (the (sb_value sb))))) (\<lambda>new_value.
            putO (sb\<lparr>sb_value := Some new_value, sb_size := new_size\<rparr>)))
     else retM ())"

lemma strbuffer_append_bytes_parts: "strbuffer_append_bytes data sz = bindM (grow sz) (\<lambda>_. append_here data sz)"
  unfolding strbuffer_append_bytes_def grow_def append_here_def
  by (rule ext) (auto simp: bindM_def getO_def split: prod.splits)

text \<open>When the tests of the code pass, no sum or product of it wraps.\<close>

lemma grow_no_wrap:
  fixes size len sz :: size_t
  assumes "\<not> size > - 1 div 2" and "\<not> sz > - 1 - 1" and "\<not> len > - 1 - 1 - sz"
  shows "unat (max (size * 2) (len + sz + 1)) = max (unat size * 2) (unat len + unat sz + 1)"
    and "0 < unat (max (size * 2) (len + sz + 1))"
proof -
  have c: "(- 1 div 2 :: size_t) = 0x7FFFFFFFFFFFFFFF" "(- 1 - 1 :: size_t) = 0xFFFFFFFFFFFFFFFE" by code_simp+
  have "size \<le> 0x7FFFFFFFFFFFFFFF" using assms(1) unfolding c by simp
  then have "unat size \<le> 0x7FFFFFFFFFFFFFFF" by (simp add: word_le_nat_alt)
  then have m: "unat (size * 2) = unat size * 2" by (subst unat_mult_lem [THEN iffD1]) simp_all
  have z: "sz \<le> 0xFFFFFFFFFFFFFFFE" using assms(2) unfolding c by simp
  then have "unat (0xFFFFFFFFFFFFFFFE - sz) = 0xFFFFFFFFFFFFFFFE - unat sz" by (simp add: unat_sub)
  moreover have "len \<le> 0xFFFFFFFFFFFFFFFE - sz" using assms(3) unfolding c by simp
  ultimately have "unat len \<le> 0xFFFFFFFFFFFFFFFE - unat sz" by (simp add: word_le_nat_alt)
  moreover have "unat sz \<le> 0xFFFFFFFFFFFFFFFE" using z by (simp add: word_le_nat_alt)
  ultimately have s: "unat len + unat sz + 1 < 2 ^ 64" by simp
  then have "unat (len + sz) = unat len + unat sz" by (subst unat_add_lem [THEN iffD1]) simp_all
  with s have a: "unat (len + sz + 1) = unat len + unat sz + 1" by (subst unat_add_lem [THEN iffD1]) simp_all
  show max: "unat (max (size * 2) (len + sz + 1)) = max (unat size * 2) (unat len + unat sz + 1)"
    by (simp add: max_def word_le_nat_alt m a)
  show "0 < unat (max (size * 2) (len + sz + 1))" unfolding max by simp
qed


lemma grow_outcome:
  assumes "holds bs sb"
  shows "(\<exists>sb' s'. grow sz (sb, s) = (Inr (), (sb', s')) \<and> room bs (unat sz) sb' \<and> (script s = [] \<longrightarrow> script s' = [])) \<or>
    (\<exists>s'. grow sz (sb, s) = (Inl ENOMEM, (sb, s')) \<and> script s \<noteq> []) \<or>
    grow sz (sb, s) = (Inl NOERRNO, (sb, s)) \<and> (2 ^ 63 \<le> unat (sb_size sb) \<or> 2 ^ 64 \<le> length bs + unat sz + 1)"
proof -
  from assms obtain rest where v: "sb_value sb = Some (map Some bs @ Some 0 # rest)"
    and len: "unat (sb_length sb) = length bs" "unat (sb_size sb) = length bs + 1 + length rest"
    by (auto simp: holds_def)
  have "sb_length sb \<le> sb_size sb" using len by (simp add: word_le_nat_alt)
  then have free: "unat (sb_size sb - sb_length sb) = unat (sb_size sb) - length bs" using len by (simp add: unat_sub)
  let ?over = "sb_size sb > - 1 div 2 \<or> sz > - 1 - 1 \<or> sb_length sb > - 1 - 1 - sz"
  consider (fits) "\<not> sz \<ge> sb_size sb - sb_length sb" | (over) "sz \<ge> sb_size sb - sb_length sb" ?over
    | (grow) "sz \<ge> sb_size sb - sb_length sb" "\<not> ?over" by blast
  then show ?thesis
  proof cases
    case fits
    then have "room bs (unat sz) sb" using free by (intro holds_room [OF assms]) (simp add: word_le_nat_alt)
    with fits show ?thesis by (simp add: grow_def bindM_def getO_def)
  next
    case over
    have c: "(- 1 div 2 :: size_t) = 0x7FFFFFFFFFFFFFFF" "(- 1 - 1 :: size_t) = 0xFFFFFFFFFFFFFFFE" by code_simp+
    have "2 ^ 63 \<le> unat (sb_size sb) \<or> 2 ^ 64 \<le> length bs + unat sz + 1"
    proof (rule ccontr)
      assume "\<not> ?thesis"
      then have small: "unat (sb_size sb) \<le> 0x7FFFFFFFFFFFFFFF" "unat sz \<le> 0xFFFFFFFFFFFFFFFE" "length bs + unat sz \<le> 0xFFFFFFFFFFFFFFFE"
        by simp_all
      have "sz \<le> 0xFFFFFFFFFFFFFFFE" using small by (simp add: word_le_nat_alt)
      then have "unat (0xFFFFFFFFFFFFFFFE - sz) = 0xFFFFFFFFFFFFFFFE - unat sz" by (simp add: unat_sub)
      with small over(2) len(1) show False unfolding c by (simp add: word_less_nat_alt)
    qed
    moreover have "grow sz (sb, s) = (Inl NOERRNO, (sb, s))" using over by (simp add: grow_def bindM_def getO_def)
    ultimately show ?thesis by blast
  next
    case grow
    define size' where "size' = max (sb_size sb * 2) (sb_length sb + sz + 1)"
    note w = grow_no_wrap [of "sb_size sb" sz "sb_length sb", folded size'_def]
    have n: "unat size' = max (unat (sb_size sb) * 2) (length bs + unat sz + 1)" "size' \<noteq> 0"
      using grow w len(1) by auto
    have run: "grow sz (sb, s) = (case jsonp_malloc size' s of
        (Inl e, s') \<Rightarrow> (Inl e, (sb, s'))
      | (Inr b, s') \<Rightarrow> bindM (lift (store (Some b) 0 (map Some bs))) (\<lambda>b. putO (sb\<lparr>sb_value := Some b, sb_size := size'\<rparr>)) (sb, s'))"
      using grow by (simp add: grow_def bindM_def getO_def lift_def v len size'_def Let_def split: prod.split sum.split)
    show ?thesis
    proof (cases "fst (malloc s)")
      case (Inl e)
      then have "e = ENOMEM" "script s \<noteq> []" by (auto simp: malloc_def split: list.splits if_splits)
      with Inl n show ?thesis unfolding run by (auto simp: jsonp_malloc_def bindM_def split: prod.splits)
    next
      case (Inr u)
      let ?sb = "sb\<lparr>sb_value := Some (map Some bs @ replicate (unat size' - length bs) None), sb_size := size'\<rparr>"
      have "grow sz (sb, s) = (Inr (), (?sb, snd (malloc s)))"
        unfolding run using Inr n by (auto simp: jsonp_malloc_def bindM_def store_def lift_def putO_def split: prod.splits)
      moreover have "room bs (unat sz) ?sb" using n len unfolding room_def
        by (intro exI [of _ "replicate (unat size' - length bs) None"]) auto
      moreover have "script s = [] \<longrightarrow> script (snd (malloc s)) = []" by simp
      ultimately show ?thesis by blast
    qed
  qed
qed

lemma append_bytes_outcome:
  assumes "holds bs sb" and "unat sz \<le> length data"
  shows "(\<exists>sb' s'. strbuffer_append_bytes data sz (sb, s) = (Inr (), (sb', s')) \<and> holds (bs @ take (unat sz) data) sb' \<and>
      (script s = [] \<longrightarrow> script s' = [])) \<or>
    (\<exists>s'. strbuffer_append_bytes data sz (sb, s) = (Inl ENOMEM, (sb, s')) \<and> script s \<noteq> []) \<or>
    strbuffer_append_bytes data sz (sb, s) = (Inl NOERRNO, (sb, s)) \<and> (2 ^ 63 \<le> unat (sb_size sb) \<or> 2 ^ 64 \<le> length bs + unat sz + 1)"
  using grow_outcome [OF assms(1), of sz s] append_here_room [OF _ assms(2)]
  unfolding strbuffer_append_bytes_parts bindM_def by fastforce

lemma append_byte_outcome:
  assumes "holds bs sb"
  shows "(\<exists>sb' s'. strbuffer_append_byte c (sb, s) = (Inr (), (sb', s')) \<and> holds (bs @ [c]) sb' \<and>
      (script s = [] \<longrightarrow> script s' = [])) \<or>
    (\<exists>s'. strbuffer_append_byte c (sb, s) = (Inl ENOMEM, (sb, s')) \<and> script s \<noteq> []) \<or>
    strbuffer_append_byte c (sb, s) = (Inl NOERRNO, (sb, s)) \<and> (2 ^ 63 \<le> unat (sb_size sb) \<or> 2 ^ 64 \<le> length bs + 2)"
  using append_bytes_outcome [OF assms, of 1 "[c]" s] by (simp add: strbuffer_append_byte_def)

lemma strbuffer_pop_holds:
  shows "holds (bs @ [c]) sb \<Longrightarrow> \<exists>sb'. strbuffer_pop (sb, s) = (Inr c, (sb', s)) \<and> holds bs sb'"
    and "holds [] sb \<Longrightarrow> strbuffer_pop (sb, s) = (Inr 0, (sb, s))"
proof -
  assume "holds (bs @ [c]) sb"
  then obtain rest where v: "sb_value sb = Some (map Some bs @ Some c # Some 0 # rest)"
    and len: "unat (sb_length sb) = length bs + 1" "unat (sb_size sb) = length bs + 2 + length rest"
    by (auto simp: holds_def)
  have p: "0 < sb_length sb" using len by (simp add: word_less_nat_alt)
  then have "1 \<le> sb_length sb" by (simp add: word_le_nat_alt word_less_nat_alt)
  then have n: "unat (sb_length sb - 1) = length bs" using len by (simp add: unat_sub)
  let ?sb = "sb\<lparr>sb_value := Some (map Some bs @ Some 0 # Some 0 # rest), sb_length := sb_length sb - 1\<rparr>"
  have "strbuffer_pop (sb, s) = (Inr c, (?sb, s))"
    using p n by (simp add: strbuffer_pop_def bindM_def getO_def putO_def lift_def store_def v Let_def nth_append)
  moreover have "holds bs ?sb" using n len by (auto simp: holds_def intro!: exI [of _ "Some 0 # rest"])
  ultimately show "\<exists>sb'. strbuffer_pop (sb, s) = (Inr c, (sb', s)) \<and> holds bs sb'" by blast
next
  assume "holds [] sb"
  then have "sb_length sb = 0" by (auto simp: holds_def unat_eq_0)
  then show "strbuffer_pop (sb, s) = (Inr 0, (sb, s))" by (simp add: strbuffer_pop_def bindM_def getO_def)
qed

lemma strbuffer_init_outcome:
  "script s = [] \<Longrightarrow> \<exists>sb'. strbuffer_init (sb, s) = (Inr (), (sb', s)) \<and> holds [] sb'"
  "fst (malloc s) = Inl e \<Longrightarrow> strbuffer_init (sb, s) =
     (Inl e, (sb\<lparr>sb_value := None, sb_length := 0, sb_size := STRBUFFER_MIN_SIZE\<rparr>, snd (malloc s)))"
  by (auto simp: strbuffer_init_def bindM_def getO_def putO_def lift_def jsonp_malloc_def store_def holds_def split: prod.splits sum.splits)

lemma strbuffer_clear_holds:
  assumes "holds bs sb"
  shows "\<exists>sb'. strbuffer_clear (sb, s) = (Inr (), (sb', s)) \<and> holds [] sb'"
proof -
  from assms obtain c rest where v: "sb_value sb = Some (c # rest)" and len: "unat (sb_size sb) = 1 + length rest"
    by (cases bs) (auto simp: holds_def)
  then show ?thesis
    by (auto simp: strbuffer_clear_def bindM_def getO_def putO_def lift_def store_def holds_def intro!: exI [of _ rest])
qed

end
