(* ===== verification/Lex.thy ===== *)
theory Lex
  imports Utf Strbuffer
begin

text \<open>
  The input stream of Jansson and how its lexical analyser reads strings (\<^verbatim>\<open>load.c\<close>, from
  \<^verbatim>\<open>stream_init\<close> to \<^verbatim>\<open>lex_scan_string\<close>, and the input callbacks of \<^verbatim>\<open>json_loads\<close> and \<^verbatim>\<open>json_loadb\<close>). The
  callback \<open>get\<close> is an argument; it returns a byte or \<open>None\<close> for \<^verbatim>\<open>EOF\<close>. A \<^verbatim>\<open>char\<close> is signed, so a byte
  above 0x7F becomes a negative \<^verbatim>\<open>int\<close>. Failed assertions and reads of bytes that were not stored
  are the failure \<open>CRASH\<close>. The loop that collects the string has fuel, as the stream may be endless.
  Of the error record the lexer keeps the first message with its position; the text that is formatted
  from it is left out.
\<close>

subsection \<open>Data\<close>

datatype lex_message = Unable_to_decode int | Premature_end | Unexpected_newline | Control_character int
  | Invalid_escape | Invalid_Unicode int | Invalid_Unicode_pair int int | Null_not_allowed

record lex_error =
  er_message :: lex_message
  er_line :: int
  er_column :: int
  er_position :: size_t

datatype stream_state = STREAM_OK | STREAM_EOF | STREAM_ERROR

abbreviation (input) STREAM_STATE_EOF :: int where "STREAM_STATE_EOF \<equiv> -1"
abbreviation (input) STREAM_STATE_ERROR :: int where "STREAM_STATE_ERROR \<equiv> -2"

record 'd stream =
  sm_data :: 'd
  sm_buffer :: "u8 list"
  sm_buffer_pos :: nat
  sm_state :: stream_state
  sm_line :: int
  sm_column :: int
  sm_last_column :: int
  sm_position :: size_t

datatype token = TOKEN_INVALID | TOKEN_EOF | TOKEN_STRING | TOKEN_INTEGER | TOKEN_REAL | TOKEN_TRUE | TOKEN_FALSE | TOKEN_NULL
  | TOKEN_CHAR int

record 'd lex_t =
  lx_stream :: "'d stream"
  lx_saved_text :: strbuffer
  lx_token :: token
  lx_string :: "block option"
  lx_error :: "lex_error option"

type_synonym ('d, 'z, 'a) LM = "('d lex_t, 'z heap_scheme, 'a) OM"
type_synonym 'd get_func = "'d \<Rightarrow> u8 option \<times> 'd"

definition l_isupper :: "int \<Rightarrow> bool" where "l_isupper c \<longleftrightarrow> 0x41 \<le> c \<and> c \<le> 0x5A"
definition l_islower :: "int \<Rightarrow> bool" where "l_islower c \<longleftrightarrow> 0x61 \<le> c \<and> c \<le> 0x7A"
definition l_isdigit :: "int \<Rightarrow> bool" where "l_isdigit c \<longleftrightarrow> 0x30 \<le> c \<and> c \<le> 0x39"
definition l_isxdigit :: "int \<Rightarrow> bool" where
  "l_isxdigit c \<longleftrightarrow> l_isdigit c \<or> 0x41 \<le> c \<or> c \<le> 0x46 \<or> 0x61 \<le> c \<or> c \<le> 0x66"

subsection \<open>The stream\<close>

definition stream_init :: "'d \<Rightarrow> 'd stream \<Rightarrow> 'd stream" where
  "stream_init data stream = stream\<lparr>sm_data := data, sm_buffer := (sm_buffer stream)[0 := 0], sm_buffer_pos := 0,
     sm_state := STREAM_OK, sm_line := 1, sm_column := 0, sm_position := 0\<rparr>"

text \<open>The first error is kept; its position is that of the stream.\<close>

definition error_set :: "lex_message \<Rightarrow> 'd lex_t \<Rightarrow> 'd lex_t" where
  "error_set msg lx = (case lx_error lx of
       Some e \<Rightarrow> lx
     | None \<Rightarrow> lx\<lparr>lx_error := Some \<lparr>er_message = msg, er_line = sm_line (lx_stream lx),
         er_column = sm_column (lx_stream lx), er_position = sm_position (lx_stream lx)\<rparr>\<rparr>)"

text \<open>The remaining bytes of a sequence; the value of \<^verbatim>\<open>EOF\<close> is stored as the byte 0xFF.\<close>

fun get_rest :: "'d get_func \<Rightarrow> nat list \<Rightarrow> u8 list \<Rightarrow> 'd \<Rightarrow> u8 list \<times> 'd" where
  "get_rest get [] buffer data = (buffer, data)"
| "get_rest get (i # is) buffer data =
     (case get data of (c, data) \<Rightarrow> get_rest get is (buffer[i := (case c of None \<Rightarrow> 0xFF | Some c \<Rightarrow> c)]) data)"

text \<open>
  Fills the buffer with the next character: the stream, and the byte that cannot be decoded, if that
  is the case.
\<close>

definition stream_fill :: "'d get_func \<Rightarrow> 'd stream \<Rightarrow> 'd stream \<times> int option" where
  "stream_fill get stream =
     (case get (sm_data stream) of
        (None, data) \<Rightarrow> (stream\<lparr>sm_data := data, sm_state := STREAM_EOF\<rparr>, None)
      | (Some c, data) \<Rightarrow>
          let stream = stream\<lparr>sm_data := data, sm_buffer := (sm_buffer stream)[0 := c], sm_buffer_pos := 0\<rparr>
          in if 0x80 \<le> c then
               let count = utf8_check_first c
               in if count = 0 then (stream\<lparr>sm_state := STREAM_ERROR\<rparr>, Some (uint c))
                  else
                    case get_rest get [1..<count] (sm_buffer stream) data of
                      (buffer, data) \<Rightarrow>
                        let stream = stream\<lparr>sm_data := data, sm_buffer := buffer\<rparr>
                        in if utf8_check_full buffer count = None then (stream\<lparr>sm_state := STREAM_ERROR\<rparr>, Some (uint c))
                           else (stream\<lparr>sm_buffer := buffer[count := 0]\<rparr>, None)
             else (stream\<lparr>sm_buffer := (sm_buffer stream)[1 := 0]\<rparr>, None))"

definition stream_take :: "'d stream \<Rightarrow> int \<times> 'd stream" where
  "stream_take stream =
     (let c = sint (cbyte (sm_buffer stream) (sm_buffer_pos stream));
          stream = stream\<lparr>sm_buffer_pos := sm_buffer_pos stream + 1, sm_position := sm_position stream + 1\<rparr>
      in (c,
          if c = 0x0A then stream\<lparr>sm_line := sm_line stream + 1, sm_last_column := sm_column stream, sm_column := 0\<rparr>
          else if utf8_check_first (of_int c) \<noteq> 0 then stream\<lparr>sm_column := sm_column stream + 1\<rparr>
          else stream))"

definition state_value :: "stream_state \<Rightarrow> int" where
  "state_value st = (case st of STREAM_OK \<Rightarrow> 0 | STREAM_EOF \<Rightarrow> STREAM_STATE_EOF | STREAM_ERROR \<Rightarrow> STREAM_STATE_ERROR)"

definition stream_get :: "'d get_func \<Rightarrow> ('d, 'z, int) LM" where
  "stream_get get = bindM getO (\<lambda>lx.
     let stream = lx_stream lx in
     if sm_state stream \<noteq> STREAM_OK then retM (state_value (sm_state stream))
     else
       let (stream, bad) = (if cbyte (sm_buffer stream) (sm_buffer_pos stream) = 0 then stream_fill get stream else (stream, None))
       in case bad of
            Some c \<Rightarrow> bindM (putO (error_set (Unable_to_decode c) (lx\<lparr>lx_stream := stream\<rparr>))) (\<lambda>_. retM STREAM_STATE_ERROR)
          | None \<Rightarrow>
              if sm_state stream = STREAM_EOF then bindM (putO (lx\<lparr>lx_stream := stream\<rparr>)) (\<lambda>_. retM STREAM_STATE_EOF)
              else let (c, stream) = stream_take stream in bindM (putO (lx\<lparr>lx_stream := stream\<rparr>)) (\<lambda>_. retM c))"

definition stream_unget :: "int \<Rightarrow> ('d, 'z, unit) LM" where
  "stream_unget c =
     (if c = STREAM_STATE_EOF \<or> c = STREAM_STATE_ERROR then retM ()
      else bindM getO (\<lambda>lx.
        let stream = lx_stream lx;
            stream = stream\<lparr>sm_position := sm_position stream - 1\<rparr>;
            stream = (if c = 0x0A then stream\<lparr>sm_line := sm_line stream - 1, sm_column := sm_last_column stream\<rparr>
                      else if utf8_check_first (of_int c) \<noteq> 0 then stream\<lparr>sm_column := sm_column stream - 1\<rparr>
                      else stream)
        in if sm_buffer_pos stream = 0 then failM CRASH
           else
             let stream = stream\<lparr>sm_buffer_pos := sm_buffer_pos stream - 1\<rparr>
             in if sint (cbyte (sm_buffer stream) (sm_buffer_pos stream)) \<noteq> c then failM CRASH
                else putO (lx\<lparr>lx_stream := stream\<rparr>)))"

subsection \<open>The saved text\<close>

text \<open>Runs an operation on the buffer of the saved text.\<close>

definition on_saved :: "(strbuffer, 'z heap_scheme, 'a) OM \<Rightarrow> ('d, 'z, 'a) LM" where
  "on_saved f = (\<lambda>(lx, s). case f (lx_saved_text lx, s) of (r, (sb, s')) \<Rightarrow> (r, (lx\<lparr>lx_saved_text := sb\<rparr>, s')))"

definition lex_get :: "'d get_func \<Rightarrow> ('d, 'z, int) LM" where
  "lex_get get = stream_get get"

text \<open>The outcome of the append is not looked at, but for a crash.\<close>

definition lex_save :: "int \<Rightarrow> ('d, 'z, unit) LM" where
  "lex_save c = bindM (tryM (on_saved (strbuffer_append_byte (of_int c)))) (\<lambda>r. if r = Inl CRASH then failM CRASH else retM ())"

definition lex_get_save :: "'d get_func \<Rightarrow> ('d, 'z, int) LM" where
  "lex_get_save get = bindM (stream_get get) (\<lambda>c.
     bindM (if c \<noteq> STREAM_STATE_EOF \<and> c \<noteq> STREAM_STATE_ERROR then lex_save c else retM ()) (\<lambda>_. retM c))"

definition lex_unget :: "int \<Rightarrow> ('d, 'z, unit) LM" where
  "lex_unget c = stream_unget c"

definition lex_unget_unsave :: "int \<Rightarrow> ('d, 'z, unit) LM" where
  "lex_unget_unsave c =
     (if c \<noteq> STREAM_STATE_EOF \<and> c \<noteq> STREAM_STATE_ERROR then
        bindM (stream_unget c) (\<lambda>_.
        bindM (on_saved strbuffer_pop) (\<lambda>d. if c = sint d then retM () else failM CRASH))
      else retM ())"

subsection \<open>Strings\<close>

definition set_error :: "lex_message \<Rightarrow> ('d, 'z, unit) LM" where
  "set_error msg = bindM getO (\<lambda>lx. putO (error_set msg lx))"

text \<open>The four characters behind \<^verbatim>\<open>\u\<close>: the one behind them, or \<open>None\<close> for the jump to \<^verbatim>\<open>out\<close>.\<close>

fun scan_hex :: "nat \<Rightarrow> 'd get_func \<Rightarrow> int \<Rightarrow> ('d, 'z, int option) LM" where
  "scan_hex 0 get c = retM (Some c)"
| "scan_hex (Suc n) get c =
     (if \<not> l_isxdigit c then bindM (set_error Invalid_escape) (\<lambda>_. retM None)
      else bindM (lex_get_save get) (\<lambda>c. scan_hex n get c))"

definition is_escape_char :: "int \<Rightarrow> bool" where
  "is_escape_char c \<longleftrightarrow> c = 0x22 \<or> c = 0x5C \<or> c = 0x2F \<or> c = 0x62 \<or> c = 0x66 \<or> c = 0x6E \<or> c = 0x72 \<or> c = 0x74"

definition scan_escape :: "'d get_func \<Rightarrow> ('d, 'z, int option) LM" where
  "scan_escape get = bindM (lex_get_save get) (\<lambda>c.
     if c = 0x75 then bindM (lex_get_save get) (\<lambda>c. scan_hex 4 get c)
     else if is_escape_char c then bindM (lex_get_save get) (\<lambda>c. retM (Some c))
     else bindM (set_error Invalid_escape) (\<lambda>_. retM None))"

text \<open>The loop over the characters of the string; \<open>False\<close> is the jump to \<^verbatim>\<open>out\<close>.\<close>

fun scan_chars :: "nat \<Rightarrow> 'd get_func \<Rightarrow> int \<Rightarrow> ('d, 'z, bool) LM" where
  "scan_chars 0 get c = failM DIVERGES"
| "scan_chars (Suc n) get c =
     (if c = 0x22 then retM True
      else if c = STREAM_STATE_ERROR then retM False
      else if c = STREAM_STATE_EOF then bindM (set_error Premature_end) (\<lambda>_. retM False)
      else if 0 \<le> c \<and> c \<le> 0x1F then
        bindM (lex_unget_unsave c) (\<lambda>_.
        bindM (set_error (if c = 0x0A then Unexpected_newline else Control_character c)) (\<lambda>_. retM False))
      else
        bindM (if c = 0x5C then scan_escape get else bindM (lex_get_save get) (\<lambda>c. retM (Some c))) (\<lambda>r.
        case r of None \<Rightarrow> retM False | Some c \<Rightarrow> scan_chars n get c))"

text \<open>A byte of the saved text, as a signed \<^verbatim>\<open>char\<close>.\<close>

definition peek :: "block \<Rightarrow> nat \<Rightarrow> ('s, u8) M" where
  "peek text i = (if i < length text then case text ! i of None \<Rightarrow> failM CRASH | Some c \<Rightarrow> retM c else failM CRASH)"

fun decode_digits :: "block \<Rightarrow> nat list \<Rightarrow> int \<Rightarrow> ('s, int) M" where
  "decode_digits str [] val = retM val"
| "decode_digits str (i # is) val = bindM (peek str i) (\<lambda>c.
     let c = sint c; val = push_bit 4 val in
     if l_isdigit c then decode_digits str is (val + c - 0x30)
     else if l_islower c then decode_digits str is (val + c - 0x61 + 10)
     else if l_isupper c then decode_digits str is (val + c - 0x41 + 10)
     else failM CRASH)"

definition decode_unicode_escape :: "block \<Rightarrow> nat \<Rightarrow> ('s, int) M" where
  "decode_unicode_escape str p = bindM (peek str p) (\<lambda>c.
     if c \<noteq> 0x75 then failM CRASH else decode_digits str [p + 1..<p + 5] 0)"

text \<open>
  The code point of an escape whose \<^verbatim>\<open>u\<close> is at \<open>p\<close>, with the place behind it; a message instead of the
  code point is the jump to \<^verbatim>\<open>out\<close>.
\<close>

definition decode_escape :: "block \<Rightarrow> nat \<Rightarrow> ('s, (lex_message + int) \<times> nat) M" where
  "decode_escape text p =
     bindM (decode_unicode_escape text p) (\<lambda>val.
     let p = p + 5 in
     if 0xD800 \<le> val \<and> val \<le> 0xDBFF then
       bindM (peek text p) (\<lambda>c0.
       bindM (if c0 = 0x5C then peek text (p + 1) else retM 0) (\<lambda>c1.
       if c0 = 0x5C \<and> c1 = 0x75 then
         bindM (decode_unicode_escape text (p + 1)) (\<lambda>value2.
         retM (if 0xDC00 \<le> value2 \<and> value2 \<le> 0xDFFF
               then Inr (push_bit 10 (val - 0xD800) + (value2 - 0xDC00) + 0x10000)
               else Inl (Invalid_Unicode_pair val value2), p + 6))
       else retM (Inl (Invalid_Unicode val), p)))
     else if 0xDC00 \<le> val \<and> val \<le> 0xDFFF then retM (Inl (Invalid_Unicode val), p)
     else if val = 0 then retM (Inl Null_not_allowed, p)
     else retM (Inr val, p))"

definition short_escape :: "u8 \<Rightarrow> ('s, u8) M" where
  "short_escape c =
     (if c = 0x22 \<or> c = 0x5C \<or> c = 0x2F then retM c
      else if c = 0x62 then retM 0x08
      else if c = 0x66 then retM 0x0C
      else if c = 0x6E then retM 0x0A
      else if c = 0x72 then retM 0x0D
      else if c = 0x74 then retM 0x09
      else failM CRASH)"

text \<open>
  The loop that writes the value: \<open>p\<close> is the place in the saved text, \<open>t\<close> in the target. Every turn moves
  \<open>p\<close>, and reading behind the text crashes, so the length of the text bounds the turns.
\<close>

fun decode_chars :: "nat \<Rightarrow> block \<Rightarrow> nat \<Rightarrow> block \<Rightarrow> nat \<Rightarrow> ('s, lex_message + block) M" where
  "decode_chars 0 text p target t = failM DIVERGES"
| "decode_chars (Suc n) text p target t = bindM (peek text p) (\<lambda>c.
     if c = 0x22 then bindM (store (Some target) t [Some 0]) (\<lambda>target. retM (Inr target))
     else if c = 0x5C then
       bindM (peek text (p + 1)) (\<lambda>c.
       if c = 0x75 then
         bindM (decode_escape text (p + 1)) (\<lambda>(r, p). case r of
           Inl msg \<Rightarrow> retM (Inl msg)
         | Inr val \<Rightarrow>
             (case utf8_encode val of
                None \<Rightarrow> failM CRASH
              | Some bytes \<Rightarrow>
                  bindM (store (Some target) t (map Some bytes)) (\<lambda>target.
                  decode_chars n text p target (t + length bytes))))
       else
         bindM (short_escape c) (\<lambda>b.
         bindM (store (Some target) t [Some b]) (\<lambda>target.
         decode_chars n text (p + 2) target (t + 1))))
     else
       bindM (store (Some target) t [Some c]) (\<lambda>target.
       decode_chars n text (p + 1) target (t + 1)))"

definition lex_scan_string :: "nat \<Rightarrow> 'd get_func \<Rightarrow> ('d, 'z, unit) LM" where
  "lex_scan_string n get =
     bindM getO (\<lambda>lx.
     bindM (putO (lx\<lparr>lx_string := None, lx_token := TOKEN_INVALID\<rparr>)) (\<lambda>_.
     bindM (lex_get_save get) (\<lambda>c.
     bindM (scan_chars n get c) (\<lambda>found.
     if \<not> found then retM ()
     else
       bindM getO (\<lambda>lx.
       bindM (tryM (lift (jsonp_malloc (sb_length (lx_saved_text lx) + 1)))) (\<lambda>r. case r of
         Inl e \<Rightarrow> retM ()
       | Inr target \<Rightarrow>
           (case strbuffer_value (lx_saved_text lx) of
              None \<Rightarrow> failM CRASH
            | Some text \<Rightarrow>
                bindM (lift (decode_chars (length text + 1) text 1 target 0)) (\<lambda>r. case r of
                  Inl msg \<Rightarrow> set_error msg
                | Inr target \<Rightarrow> putO (lx\<lparr>lx_string := Some target, lx_token := TOKEN_STRING\<rparr>)))))))))"

subsection \<open>Sources\<close>

record string_data =
  sd_data :: "u8 list"
  sd_pos :: nat

definition string_get :: "string_data get_func" where
  "string_get stream =
     (let c = cbyte (sd_data stream) (sd_pos stream)
      in if c = 0 then (None, stream) else (Some c, stream\<lparr>sd_pos := sd_pos stream + 1\<rparr>))"

record buffer_data =
  bd_data :: "u8 list"
  bd_len :: nat
  bd_pos :: nat

definition buffer_get :: "buffer_data get_func" where
  "buffer_get stream =
     (if bd_pos stream \<ge> bd_len stream then (None, stream)
      else (Some (cbyte (bd_data stream) (bd_pos stream)), stream\<lparr>bd_pos := bd_pos stream + 1\<rparr>))"

end
