(* ===== verification/Dump.thy ===== *)
theory Dump
  imports Utf Strbuffer
begin

text \<open>
  How Jansson writes strings (\<^verbatim>\<open>dump_string\<close> of \<^verbatim>\<open>dump.c\<close>). The callback that takes the output is an
  argument: it is given a buffer and the number of bytes of it to write, transforms the state and may
  fail. Pointers into the string are the rests of the string they point at, so the difference of two
  of them is a difference of lengths.
\<close>

type_synonym 's dump_callback = "u8 list \<Rightarrow> size_t \<Rightarrow> ('s, unit) M"

abbreviation (input) JSON_ENSURE_ASCII :: size_t where "JSON_ENSURE_ASCII \<equiv> 0x40"
abbreviation (input) JSON_ESCAPE_SLASH :: size_t where "JSON_ESCAPE_SLASH \<equiv> 0x400"

definition dump_to_strbuffer :: "(strbuffer \<times> 'z heap_scheme) dump_callback" where
  "dump_to_strbuffer buffer sz = strbuffer_append_bytes buffer sz"

text \<open>The tests that end a run of characters that are written as they are.\<close>

definition must_escape :: "size_t \<Rightarrow> int \<Rightarrow> bool" where
  "must_escape flags codepoint \<longleftrightarrow>
     codepoint = 0x5C \<or> codepoint = 0x22 \<or> codepoint < 0x20 \<or>
     flags AND JSON_ESCAPE_SLASH \<noteq> 0 \<and> codepoint = 0x2F \<or>
     flags AND JSON_ENSURE_ASCII \<noteq> 0 \<and> codepoint > 0x7F"

lemma utf8_iterate_shorter: "utf8_iterate p = Some (r, Some cp) \<Longrightarrow> length r < length p"
  by (cases p) (auto simp: utf8_iterate_def Let_def cbyte_def split: if_splits option.splits)

text \<open>
  The inner loop, in whose head \<^verbatim>\<open>pos\<close> and \<^verbatim>\<open>end\<close> are equal: where the run ends, the rest behind the
  character that ended it, and this character; at the end of the string both rests are equal.
  \<open>None\<close> stands for a character that is not valid UTF-8.
\<close>

function scan_run :: "size_t \<Rightarrow> u8 list \<Rightarrow> (u8 list \<times> u8 list \<times> int) option" where
  "scan_run flags pos =
     (if cbyte pos 0 = 0 then Some (pos, pos, 0)
      else case utf8_iterate pos of
             Some (rest, Some codepoint) \<Rightarrow>
               if must_escape flags codepoint then Some (pos, rest, codepoint) else scan_run flags rest
           | _ \<Rightarrow> None)"
  by pat_completeness auto
termination
  by (relation "measure (\<lambda>(flags, pos). length pos)") (auto dest: utf8_iterate_shorter)

declare scan_run.simps [simp del]

text \<open>The conversion \<^verbatim>\<open>%04x\<close> for values of at most four digits.\<close>

definition hex_digit :: "int \<Rightarrow> u8" where
  "hex_digit d = (if d < 10 then of_int (0x30 + d) else of_int (0x61 + d - 10))"

definition hex4 :: "int \<Rightarrow> u8 list" where
  "hex4 v = map hex_digit [v div 4096 mod 16, v div 256 mod 16, v div 16 mod 16, v mod 16]"

definition escape_text :: "int \<Rightarrow> u8 list" where
  "escape_text codepoint =
     (if codepoint = 0x5C then [0x5C, 0x5C]
      else if codepoint = 0x22 then [0x5C, 0x22]
      else if codepoint = 0x08 then [0x5C, 0x62]
      else if codepoint = 0x0C then [0x5C, 0x66]
      else if codepoint = 0x0A then [0x5C, 0x6E]
      else if codepoint = 0x0D then [0x5C, 0x72]
      else if codepoint = 0x09 then [0x5C, 0x74]
      else if codepoint = 0x2F then [0x5C, 0x2F]
      else if codepoint < 0x10000 then [0x5C, 0x75] @ hex4 codepoint
      else
        let codepoint = codepoint - 0x10000;
            first = 0xD800 OR drop_bit 10 (codepoint AND 0xffc00);
            second = 0xDC00 OR (codepoint AND 0x003ff)
        in [0x5C, 0x75] @ hex4 first @ [0x5C, 0x75] @ hex4 second)"

lemma scan_run_shorter: "scan_run flags p = Some (pos, rest, cp) \<Longrightarrow> rest \<noteq> pos \<Longrightarrow> length rest < length p"
proof (induction flags p rule: scan_run.induct)
  case (1 flags p)
  show ?case
  proof (cases "cbyte p 0 = 0")
    case True
    then show ?thesis using 1(2,3) by (auto simp add: scan_run.simps [of flags p])
  next
    case False
    with 1(2) obtain r c where it: "utf8_iterate p = Some (r, Some c)"
      by (auto simp: scan_run.simps [of flags p] split: option.splits)
    note r = utf8_iterate_shorter [OF it]
    show ?thesis
    proof (cases "must_escape flags c")
      case True
      then show ?thesis using 1(2) False it r by (simp add: scan_run.simps [of flags p])
    next
      case no: False
      then have "scan_run flags r = Some (pos, rest, cp)" using 1(2) False it by (simp add: scan_run.simps [of flags p])
      from 1(1) [OF False it _ refl no this 1(3)] r show ?thesis by simp
    qed
  qed
qed

function dump_string_loop :: "u8 list \<Rightarrow> 's dump_callback \<Rightarrow> size_t \<Rightarrow> ('s, unit) M" where
  "dump_string_loop str dump flags =
     (case scan_run flags str of
        None \<Rightarrow> failM NOERRNO
      | Some (pos, rest, codepoint) \<Rightarrow>
          bindM (if pos \<noteq> str then dump str (of_nat (length str - length pos)) else retM ()) (\<lambda>_.
          if rest = pos then retM ()
          else
            bindM (dump (escape_text codepoint) (of_nat (length (escape_text codepoint)))) (\<lambda>_.
            dump_string_loop rest dump flags)))"
  by pat_completeness auto
termination
  by (relation "measure (\<lambda>(str, dump, flags). length str)") (auto dest: scan_run_shorter)

declare dump_string_loop.simps [simp del]

definition dump_string :: "u8 list \<Rightarrow> 's dump_callback \<Rightarrow> size_t \<Rightarrow> ('s, unit) M" where
  "dump_string str dump flags =
     bindM (dump [0x22] 1) (\<lambda>_.
     bindM (dump_string_loop str dump flags) (\<lambda>_.
     dump [0x22] 1))"

end
