(* ===== verification/Dump_Correct.thy ===== *)
theory Dump_Correct
  imports Dump Utf_Correct
begin

text \<open>
  What \<^verbatim>\<open>dump_string\<close> writes: the characters between quotes, those that need it escaped. The contract of
  an output callback is the locale \<open>byte_sink\<close>, interpreted for the string buffer.
\<close>

subsection \<open>The text of a string\<close>

definition char_ok :: "int \<Rightarrow> bool" where
  "char_ok cp \<longleftrightarrow> scalar cp \<and> cp \<noteq> 0"

definition written :: "size_t \<Rightarrow> int \<Rightarrow> u8 list" where
  "written flags cp = (if must_escape flags cp then escape_text cp else utf8 cp)"

definition quoted :: "size_t \<Rightarrow> int list \<Rightarrow> u8 list" where
  "quoted flags cps = 0x22 # concat (map (written flags) cps) @ [0x22]"

lemma iterate_char: "char_ok cp \<Longrightarrow> utf8_iterate (utf8 cp @ r) = Some (r, Some cp)"
  by (simp add: char_ok_def utf8_iterate_iff)

lemma char_starts: "char_ok cp \<Longrightarrow> cbyte (utf8 cp @ r) 0 \<noteq> 0"
  using iterate_char [of cp r] by (auto simp: utf8_iterate_def split: if_splits)

lemma char_not_empty: "char_ok cp \<Longrightarrow> utf8 cp \<noteq> []"
  using char_starts [of cp "[]"] by (auto simp: cbyte_def)

lemma scan_run_utf8s:
  assumes "list_all char_ok cps"
  shows "scan_run flags (utf8s cps) = Some (case dropWhile (\<lambda>c. \<not> must_escape flags c) cps of
      [] \<Rightarrow> ([], [], 0) | cp # ds \<Rightarrow> (utf8s (cp # ds), utf8s ds, cp))"
  using assms
proof (induction cps)
  case Nil
  then show ?case by (simp add: scan_run.simps)
next
  case (Cons cp cps)
  then have ok: "char_ok cp" by simp
  show ?case using Cons by (subst scan_run.simps) (simp add: char_starts [OF ok] iterate_char [OF ok])
qed

lemma length_escape_text: "length (escape_text cp) \<le> 12"
  by (simp add: escape_text_def hex4_def Let_def)

lemma unat_len: "n < 2 ^ 63 \<Longrightarrow> unat (of_nat n :: size_t) = n"
  by (simp add: unat_of_nat)

lemma concat_written_plain: "\<forall>c \<in> set cps. \<not> must_escape flags c \<Longrightarrow> concat (map (written flags) cps) = utf8s cps"
  by (induction cps) (simp_all add: written_def)

subsection \<open>Writing to a sink\<close>

locale byte_sink =
  fixes dump :: "'s dump_callback" and R :: "u8 list \<Rightarrow> 's \<Rightarrow> bool" and cap :: nat
  assumes dump_law: "R bs s \<Longrightarrow> unat sz \<le> length buf \<Longrightarrow> length bs + unat sz < cap \<Longrightarrow>
      \<exists>s'. dump buf sz s = (Inr (), s') \<and> R (bs @ take (unat sz) buf) s'"
    and cap_law: "cap \<le> 2 ^ 63"
begin

lemma dump_prefix:
  assumes "R bs s" and "n \<le> length buf" and "length bs + n < cap"
  shows "\<exists>s'. dump buf (of_nat n) s = (Inr (), s') \<and> R (bs @ take n buf) s'"
  using dump_law [OF assms(1), of "of_nat n" buf] assms(2,3) cap_law by (simp add: unat_len)

lemma dump_loop_run:
  assumes "list_all char_ok cps" and "R bs s" and "length bs + length (concat (map (written flags) cps)) < cap"
  shows "\<exists>s'. dump_string_loop (utf8s cps) dump flags s = (Inr (), s') \<and> R (bs @ concat (map (written flags) cps)) s'"
  using assms
proof (induction "length cps" arbitrary: cps bs s rule: less_induct)
  case less
  define P where "P = takeWhile (\<lambda>c. \<not> must_escape flags c) cps"
  define D where "D = dropWhile (\<lambda>c. \<not> must_escape flags c) cps"
  have cps: "cps = P @ D" by (simp add: P_def D_def)
  have plain: "concat (map (written flags) P) = utf8s P" by (rule concat_written_plain) (auto simp: P_def dest: set_takeWhileD)
  have scan: "scan_run flags (utf8s cps) = Some (case D of [] \<Rightarrow> ([], [], 0) | cp # ds \<Rightarrow> (utf8s (cp # ds), utf8s ds, cp))"
    unfolding D_def by (rule scan_run_utf8s [OF less(2)])
  have fits: "length bs + length (utf8s P) + length (concat (map (written flags) D)) < cap"
    using less(4) unfolding cps by (simp add: plain)
  have pos: "fst (case D of [] \<Rightarrow> ([], [], 0) | cp # ds \<Rightarrow> (utf8s (cp # ds), utf8s ds, cp)) = utf8s D" by (cases D) simp_all
  have ld: "length (utf8s cps) - length (utf8s D) = length (utf8s P)" by (simp add: cps)
  have eq: "utf8s D = utf8s cps \<longleftrightarrow> utf8s P = []" by (auto simp: cps)
  have pre: "take (length (utf8s P)) (utf8s cps) = utf8s P" "length (utf8s P) \<le> length (utf8s cps)" by (simp_all add: cps)
  obtain s1 where s1: "(if utf8s D \<noteq> utf8s cps then dump (utf8s cps) (of_nat (length (utf8s P))) else retM ()) s = (Inr (), s1)" "R (bs @ utf8s P) s1"
    using dump_prefix [OF less(3) pre(2)] fits less(3) unfolding eq by (cases "utf8s P = []") (auto simp: pre)
  show ?case
  proof (cases D)
    case Nil
    then show ?thesis using s1 scan plain ld by (subst dump_string_loop.simps) (auto simp: bindM_def cps)
  next
    case (Cons cp ds)
    have esc: "must_escape flags cp" using Cons hd_dropWhile [of "\<lambda>c. \<not> must_escape flags c" cps] by (auto simp: D_def)
    then have w: "written flags cp = escape_text cp" by (simp add: written_def)
    have ok: "char_ok cp" "list_all char_ok ds" using less(2) by (auto simp: cps Cons)
    have ne: "utf8s ds \<noteq> utf8 cp @ utf8s ds" using char_not_empty [OF ok(1)] by auto
    obtain s2 where s2: "dump (escape_text cp) (of_nat (length (escape_text cp))) s1 = (Inr (), s2)" "R (bs @ utf8s P @ escape_text cp) s2"
      using dump_prefix [OF s1(2), of "length (escape_text cp)" "escape_text cp"] fits by (auto simp: Cons w)
    have "\<exists>s'. dump_string_loop (utf8s ds) dump flags s2 = (Inr (), s') \<and> R ((bs @ utf8s P @ escape_text cp) @ concat (map (written flags) ds)) s'"
      using fits by (intro less(1) [OF _ ok(2) s2(2)]) (simp_all add: cps Cons w)
    then show ?thesis using s1 s2 scan plain ld ne w
      by (subst dump_string_loop.simps) (auto simp: bindM_def cps Cons)
  qed
qed

lemma dump_string_run:
  assumes "list_all char_ok cps" and "R bs s" and "length bs + length (quoted flags cps) < cap"
  shows "\<exists>s'. dump_string (utf8s cps) dump flags s = (Inr (), s') \<and> R (bs @ quoted flags cps) s'"
proof -
  obtain s1 where s1: "dump [0x22] 1 s = (Inr (), s1)" "R (bs @ [0x22]) s1"
    using dump_prefix [OF assms(2), of 1 "[0x22]"] assms(3) by (auto simp: quoted_def)
  obtain s2 where s2: "dump_string_loop (utf8s cps) dump flags s1 = (Inr (), s2)" "R (bs @ 0x22 # concat (map (written flags) cps)) s2"
    using dump_loop_run [OF assms(1) s1(2), of flags] assms(3) by (auto simp: quoted_def)
  obtain s3 where "dump [0x22] 1 s2 = (Inr (), s3)" "R (bs @ quoted flags cps) s3"
    using dump_prefix [OF s2(2), of 1 "[0x22]"] assms(3) by (auto simp: quoted_def)
  then show ?thesis using s1 s2 by (auto simp: dump_string_def bindM_def)
qed

end

subsection \<open>The string buffer as a sink\<close>

definition buffered :: "u8 list \<Rightarrow> strbuffer \<times> 'z heap_scheme \<Rightarrow> bool" where
  "buffered bs = (\<lambda>(sb, s). holds bs sb \<and> script s = [] \<and> unat (sb_size sb) \<le> 2 ^ 62)"

lemma append_here_size: "append_here data sz (sb, s) = (Inr (), (sb', s')) \<Longrightarrow> sb_size sb' = sb_size sb"
  by (auto simp: append_here_def bindM_def getO_def putO_def lift_def store_def split: option.splits if_splits)

lemma grow_new_size:
  assumes "grow sz (sb, s) = (Inr (), (sb', s'))"
  shows "sb_size sb' = sb_size sb \<or> sz \<ge> sb_size sb - sb_length sb \<and> \<not> sb_size sb > - 1 div 2 \<and> \<not> sz > - 1 - 1 \<and>
    \<not> sb_length sb > - 1 - 1 - sz \<and> sb_size sb' = max (sb_size sb * 2) (sb_length sb + sz + 1)"
  using assms by (auto simp: grow_def bindM_def getO_def putO_def lift_def Let_def split: if_splits prod.splits sum.splits)

lemma buffered_append:
  assumes "buffered bs x" and "unat sz \<le> length buf" and "length bs + unat sz < 2 ^ 61"
  shows "\<exists>x'. strbuffer_append_bytes buf sz x = (Inr (), x') \<and> buffered (bs @ take (unat sz) buf) x'"
proof -
  obtain sb s where x: "x = (sb, s)" by force
  have h: "holds bs sb" "script s = []" "unat (sb_size sb) \<le> 2 ^ 62" using assms(1) by (simp_all add: buffered_def x)
  from append_bytes_outcome [OF h(1) assms(2), of s] obtain sb' s' where
    run: "strbuffer_append_bytes buf sz (sb, s) = (Inr (), (sb', s'))" "holds (bs @ take (unat sz) buf) sb'" "script s' = []"
    using h(2,3) assms(3) by auto
  obtain sb1 s1 where g: "grow sz (sb, s) = (Inr (), (sb1, s1))" "append_here buf sz (sb1, s1) = (Inr (), (sb', s'))"
    using run(1) unfolding strbuffer_append_bytes_parts by (auto simp: bindM_def split: prod.splits sum.splits)
  have len: "unat (sb_length sb) = length bs" "length bs < unat (sb_size sb)" using h(1) by (auto simp: holds_def)
  have "unat (sb_size sb1) \<le> 2 ^ 62" using grow_new_size [OF g(1)]
  proof (elim disjE conjE)
    assume "sz \<ge> sb_size sb - sb_length sb" and ok: "\<not> sb_size sb > - 1 div 2" "\<not> sz > - 1 - 1" "\<not> sb_length sb > - 1 - 1 - sz"
      and eq: "sb_size sb1 = max (sb_size sb * 2) (sb_length sb + sz + 1)"
    moreover have "sb_length sb \<le> sb_size sb" using len by (simp add: word_le_nat_alt)
    ultimately have "unat (sb_size sb) \<le> length bs + unat sz" using len by (simp add: word_le_nat_alt unat_sub)
    then show ?thesis using grow_no_wrap(1) [OF ok] assms(3) len by (simp add: eq)
  qed (use h(3) in simp)
  then show ?thesis using run append_here_size [OF g(2)] by (auto simp: x buffered_def)
qed

interpretation sb: byte_sink dump_to_strbuffer buffered "2 ^ 61"
proof
  show "\<exists>s'. dump_to_strbuffer buf sz s = (Inr (), s') \<and> buffered (bs @ take (unat sz) buf) s'"
    if "buffered bs s" "unat sz \<le> length buf" "length bs + unat sz < 2 ^ 61" for bs sz buf and s :: "strbuffer \<times> 'a heap_scheme"
    unfolding dump_to_strbuffer_def by (rule buffered_append [OF that])
qed simp

end
