(* ===== verification/Lex_Correct.thy ===== *)
theory Lex_Correct
  imports Lex Dump_Correct
begin

text \<open>
  The lexer reads back the strings that \<^verbatim>\<open>dump_string\<close> writes. The contract of an input callback is the
  locale \<open>byte_source\<close>, interpreted for strings and for buffers. The first loop of \<^verbatim>\<open>lex_scan_string\<close> saves
  the text up to the closing quote (\<open>scans\<close>), the second writes the bytes of the characters
  (\<open>decodes\<close>), within the memory it has.
\<close>

subsection \<open>Bytes of characters\<close>

lemma cont_byte: "uint (b :: u8) = 0x80 + x mod 64 \<Longrightarrow> 0x80 \<le> uint b \<and> uint b < 0xF5"
  using mod_64_digit(2,3) [of x] by linarith

lemma char_bytes:
  assumes "char_ok cp" and "b \<in> set (utf8 cp)"
  shows "b \<noteq> 0" and "uint b < 0xF5" and "uint b < 0x80 \<Longrightarrow> utf8 cp = [b] \<and> uint b = cp"
proof -
  have sc: "scalar cp" "cp \<noteq> 0" "0 \<le> cp" "cp \<le> 0x10FFFF" using assms(1) by (auto simp: char_ok_def scalar_def)
  have "utf8 cp = [b] \<and> uint b = cp \<and> cp < 0x80 \<or> 0x80 \<le> uint b \<and> uint b < 0xF5"
    using sc(1)
  proof (cases rule: utf8_shapes)
    case 1 then show ?thesis using assms(2) by auto
  next
    case (2 a c)
    have "0x80 \<le> uint a \<and> uint a < 0xF5" unfolding 2(2) using 2(4,5) by simp
    then show ?thesis using assms(2) cont_byte [OF 2(3)] unfolding 2(1) by auto
  next
    case (3 a c d)
    have "0x80 \<le> uint a \<and> uint a < 0xF5" unfolding 3(2) using 3(5,6) by simp
    then show ?thesis using assms(2) cont_byte [OF 3(3)] cont_byte [OF 3(4)] unfolding 3(1) by auto
  next
    case (4 a c d e)
    have "0x80 \<le> uint a \<and> uint a < 0xF5" unfolding 4(2) using 4(6) sc(4) by simp
    then show ?thesis using assms(2) cont_byte [OF 4(3)] cont_byte [OF 4(4)] cont_byte [OF 4(5)] unfolding 4(1) by auto
  qed
  with sc(2) show "b \<noteq> 0" "uint b < 0xF5" "uint b < 0x80 \<Longrightarrow> utf8 cp = [b] \<and> uint b = cp" by auto
qed

lemma sint_byte: "sint (b :: u8) = (if uint b < 0x80 then uint b else uint b - 256)"
proof -
  have r: "0 \<le> uint b" "uint b < 256" using uint_lt2p [of b] by simp_all
  have "sint b = signed_take_bit 7 (uint b)" by (simp add: sint_uint)
  also have "\<dots> = (uint b + 128) mod 256 - 128" by (simp add: signed_take_bit_eq_take_bit_shift take_bit_eq_mod)
  also have "\<dots> = (if uint b < 0x80 then uint b else uint b - 256)"
  proof (cases "uint b < 0x80")
    case False
    have "(uint b + 128) mod 256 = (uint b - 128 + 256) mod 256" by (simp add: add.commute)
    also have "\<dots> = uint b - 128" unfolding mod_add_self2 using False r by (intro mod_pos_pos_trivial) simp_all
    finally have "(uint b + 128) mod 256 = uint b - 128" .
    then show ?thesis using False by simp
  qed (use r in simp)
  finally show ?thesis .
qed

lemma byte_of_sint [simp]: "of_int (sint (b :: u8)) = b"
  by simp

subsection \<open>Sources\<close>

locale byte_source =
  fixes get :: "'d get_func" and S :: "u8 list \<Rightarrow> 'd \<Rightarrow> bool"
  assumes get_some: "S (b # bs) d \<Longrightarrow> \<exists>d'. get d = (Some b, d') \<and> S bs d'"
    and get_none: "S [] d \<Longrightarrow> get d = (None, d)"
begin

lemma get_rest_run:
  assumes "S (bs @ rest) d" and "i + length bs \<le> length buf"
  shows "\<exists>d'. get_rest get [i..<i + length bs] buf d = (take i buf @ bs @ drop (i + length bs) buf, d') \<and> S rest d'"
  using assms
proof (induction bs arbitrary: i buf d)
  case (Cons b bs)
  obtain d1 where d1: "get d = (Some b, d1)" "S (bs @ rest) d1" using get_some Cons.prems(1) by fastforce
  obtain d2 where d2: "get_rest get [Suc i..<Suc i + length bs] (buf[i := b]) d1 =
      (take (Suc i) (buf[i := b]) @ bs @ drop (Suc i + length bs) (buf[i := b]), d2)" "S rest d2"
    using Cons.IH [OF d1(2), of "Suc i" "buf[i := b]"] Cons.prems(2) by auto
  have "take (Suc i) (buf[i := b]) = take i buf @ [b]" using Cons.prems(2) by (simp add: take_Suc_conv_app_nth)
  moreover have "[i..<i + length (b # bs)] = i # [Suc i..<Suc i + length bs]" by (simp add: upt_rec)
  ultimately show ?case using d1 d2 Cons.prems(2) by (auto simp del: upt_Suc)
qed simp

lemma stream_fill_run:
  assumes "S (utf8 cp @ rest) (sm_data st)" and "char_ok cp" and "length (sm_buffer st) = 5"
  shows "\<exists>d' junk. stream_fill get st = (st\<lparr>sm_data := d', sm_buffer := utf8 cp @ 0 # junk, sm_buffer_pos := 0\<rparr>, None) \<and>
    S rest d' \<and> length (utf8 cp @ 0 # junk) = 5"
proof -
  obtain b bs where u: "utf8 cp = b # bs" using char_not_empty [OF assms(2)] by (cases "utf8 cp") auto
  have sc: "utf8_check_first b = Suc (length bs)"
    and full: "bs \<noteq> [] \<Longrightarrow> utf8_check_full (b # bs @ r) (Suc (length bs)) = Some cp" for r
    using utf8_scan [of cp r] assms(2) by (auto simp: char_ok_def u)
  have le: "length bs \<le> 3" using sc by (simp add: check_first_uint split: if_splits)
  obtain d1 where d1: "get (sm_data st) = (Some b, d1)" "S (bs @ rest) d1" using get_some assms(1) u by fastforce
  obtain x0 xs where buf: "sm_buffer st = x0 # xs" "length xs = 4" using assms(3) by (cases "sm_buffer st") auto
  have small: "\<not> 0x80 \<le> b \<longleftrightarrow> bs = []"
    using sc by (auto simp: check_first_uint word_le_def split: if_splits)
  show ?thesis
  proof (cases "bs = []")
    case True
    obtain x1 ys where "xs = x1 # ys" "length ys = 3" using buf(2) by (cases xs) auto
    then show ?thesis using True small d1 buf by (auto simp: stream_fill_def u intro!: exI [of _ d1] exI [of _ ys])
  next
    case False
    obtain d2 where d2: "get_rest get [1..<Suc (length bs)] (b # xs) d1 = (b # bs @ drop (length bs) xs, d2)" "S rest d2"
      using get_rest_run [OF d1(2), of 1 "b # xs"] le buf(2) by auto
    obtain y ys where y: "drop (length bs) xs = y # ys" "length ys = 3 - length bs"
      using le buf(2) by (cases "drop (length bs) xs") (auto dest: arg_cong [of _ _ length])
    have "(b # bs @ y # ys)[Suc (length bs) := 0] = b # bs @ 0 # ys" by simp
    then show ?thesis using False small d1(1) buf d2 sc full [OF False, of "y # ys"] y le by (auto simp: stream_fill_def u Let_def simp del: upt_Suc intro!: exI [of _ d2] exI [of _ ys])
  qed
qed

end

interpretation str_src: byte_source string_get "\<lambda>bs d. drop (sd_pos d) (sd_data d) = bs \<and> 0 \<notin> set bs"
proof
  show "\<exists>d'. string_get d = (Some b, d') \<and> drop (sd_pos d') (sd_data d') = bs \<and> 0 \<notin> set bs"
    if "drop (sd_pos d) (sd_data d) = b # bs \<and> 0 \<notin> set (b # bs)" for b bs and d :: string_data
  proof -
    have "sd_pos d < length (sd_data d)" using that by (metis drop_all leI list.distinct(1))
    then have "cbyte (sd_data d) (sd_pos d) = b" "drop (Suc (sd_pos d)) (sd_data d) = bs"
      using that by (auto simp: cbyte_def Cons_nth_drop_Suc [symmetric])
    then show ?thesis using that by (auto simp: string_get_def Let_def)
  qed
  show "string_get d = (None, d)" if "drop (sd_pos d) (sd_data d) = [] \<and> 0 \<notin> set []" for d :: string_data
    using that by (simp add: string_get_def cbyte_def)
qed

interpretation buf_src: byte_source buffer_get "\<lambda>bs d. take (bd_len d - bd_pos d) (drop (bd_pos d) (bd_data d)) = bs \<and> bd_len d \<le> length (bd_data d)"
proof
  show "\<exists>d'. buffer_get d = (Some b, d') \<and> take (bd_len d' - bd_pos d') (drop (bd_pos d') (bd_data d')) = bs \<and> bd_len d' \<le> length (bd_data d')"
    if a: "take (bd_len d - bd_pos d) (drop (bd_pos d) (bd_data d)) = b # bs \<and> bd_len d \<le> length (bd_data d)" for b bs and d :: buffer_data
  proof -
    have p: "bd_pos d < bd_len d" using a by (cases "bd_len d - bd_pos d") auto
    then have "drop (bd_pos d) (bd_data d) = bd_data d ! bd_pos d # drop (Suc (bd_pos d)) (bd_data d)" using a by (simp add: Cons_nth_drop_Suc)
    then show ?thesis using a p by (cases "bd_len d - bd_pos d") (auto simp: buffer_get_def cbyte_def Suc_diff_Suc diff_Suc)
  qed
  show "buffer_get d = (None, d)" if "take (bd_len d - bd_pos d) (drop (bd_pos d) (bd_data d)) = [] \<and> bd_len d \<le> length (bd_data d)" for d :: buffer_data
    using that by (auto simp: buffer_get_def)
qed

subsection \<open>Reading bytes\<close>

text \<open>
  The stream has the bytes \<open>xs\<close> of characters before it, part of the first maybe in its buffer already,
  and then whatever \<open>tail\<close> is.
\<close>

text \<open>The line and the column of the stream stay inside \<^verbatim>\<open>int\<close> for \<open>n\<close> more bytes.\<close>

definition counters :: "nat \<Rightarrow> 'd stream \<Rightarrow> bool" where
  "counters n st \<longleftrightarrow> 0 \<le> sm_line st \<and> sm_line st + int n < 2 ^ 31 \<and> 0 \<le> sm_column st \<and> sm_column st + int n < 2 ^ 31"

definition fed :: "(u8 list \<Rightarrow> 'd \<Rightarrow> bool) \<Rightarrow> u8 list \<Rightarrow> u8 list \<Rightarrow> 'd stream \<Rightarrow> bool" where
  "fed S tail xs st \<longleftrightarrow> (\<exists>pend cps junk. xs = pend @ utf8s cps \<and> list_all char_ok cps \<and>
     (\<forall>b \<in> set pend. b \<noteq> 0 \<and> uint b < 0xF5) \<and> sm_state st = STREAM_OK \<and> length (sm_buffer st) = 5 \<and>
     drop (sm_buffer_pos st) (sm_buffer st) = pend @ 0 # junk \<and> S (utf8s cps @ tail) (sm_data st)) \<and> counters (length xs) st"

lemma cbyte_drop: "cbyte xs i = cbyte (drop i xs) 0"
  by (auto simp: cbyte_def)

lemma stream_take_run:
  assumes "sm_state st = STREAM_OK" and "length (sm_buffer st) = 5" and "drop (sm_buffer_pos st) (sm_buffer st) = b # bs"
  shows "\<exists>st'. stream_take st = (sint b, st') \<and> sm_state st' = STREAM_OK \<and> length (sm_buffer st') = 5 \<and> sm_data st' = sm_data st \<and>
    drop (sm_buffer_pos st') (sm_buffer st') = bs \<and> (\<forall>n. counters (Suc n) st \<longrightarrow> counters n st')"
proof -
  have b: "cbyte (sm_buffer st) (sm_buffer_pos st) = b" using assms(3) by (simp add: cbyte_drop [of _ "sm_buffer_pos st"])
  have "drop (Suc (sm_buffer_pos st)) (sm_buffer st) = bs" using assms(3) by (metis drop_Suc drop_tl list.sel(3))
  then show ?thesis using assms(1,2) by (auto simp: stream_take_def b Let_def counters_def)
qed

context byte_source begin

lemma stream_get_run:
  assumes "fed S tail (x # xs) (lx_stream lx)"
  shows "\<exists>st'. stream_get get (lx, s) = (Inr (sint x), (lx\<lparr>lx_stream := st'\<rparr>, s)) \<and> fed S tail xs st' \<and> x \<noteq> 0 \<and> uint x < 0xF5"
proof -
  define st where "st = lx_stream lx"
  obtain pend cps junk where f: "x # xs = pend @ utf8s cps" "list_all char_ok cps" "\<forall>b \<in> set pend. b \<noteq> 0 \<and> uint b < 0xF5"
      "sm_state st = STREAM_OK" "length (sm_buffer st) = 5" "drop (sm_buffer_pos st) (sm_buffer st) = pend @ 0 # junk" "S (utf8s cps @ tail) (sm_data st)"
      and cnt: "counters (Suc (length xs)) st"
    using assms by (auto simp: fed_def st_def)
  have c: "cbyte (sm_buffer st) (sm_buffer_pos st) = cbyte (pend @ 0 # junk) 0" by (simp add: cbyte_drop [of _ "sm_buffer_pos st"] f(6))
  have run: "stream_get get (lx, s) =
      (let (c, st2) = stream_take st1 in (Inr c, (lx\<lparr>lx_stream := st2\<rparr>, s)))"
    if "(if cbyte (pend @ 0 # junk) 0 = 0 then stream_fill get st else (st, None)) = (st1, None)" "sm_state st1 = STREAM_OK" for st1
    using f(4) that by (auto simp: stream_get_def bindM_def getO_def putO_def Let_def c st_def [symmetric] split: prod.splits)
  show ?thesis
  proof (cases pend)
    case (Cons p ps)
    then have p: "p = x" "xs = ps @ utf8s cps" "x \<noteq> 0" "uint x < 0xF5" using f(1,3) by auto
    obtain st' where st': "stream_take st = (sint x, st')" "sm_state st' = STREAM_OK" "length (sm_buffer st') = 5" "sm_data st' = sm_data st"
      "drop (sm_buffer_pos st') (sm_buffer st') = ps @ 0 # junk" "counters (length xs) st'"
      using stream_take_run [OF f(4,5), of x "ps @ 0 # junk"] f(6) Cons p(1) cnt by auto
    have "stream_get get (lx, s) = (Inr (sint x), (lx\<lparr>lx_stream := st'\<rparr>, s))" using run [of st] f(4) st'(1) p Cons by simp
    moreover have "fed S tail xs st'" using st' f(2,3,7) p(2) Cons unfolding fed_def by auto
    ultimately show ?thesis using p by blast
  next
    case Nil
    then obtain cp ds where cps: "cps = cp # ds" using f(1) by (cases cps) auto
    have ok: "char_ok cp" "list_all char_ok ds" using f(2) cps by auto
    obtain d' j where fl: "stream_fill get st = (st\<lparr>sm_data := d', sm_buffer := utf8 cp @ 0 # j, sm_buffer_pos := 0\<rparr>, None)"
        "S (utf8s ds @ tail) d'" "length (utf8 cp @ 0 # j) = 5"
      using stream_fill_run [OF _ ok(1) f(5), of "utf8s ds @ tail"] f(7) cps by auto
    let ?st = "st\<lparr>sm_data := d', sm_buffer := utf8 cp @ 0 # j, sm_buffer_pos := 0\<rparr>"
    obtain bs where u: "utf8 cp = x # bs" "xs = bs @ utf8s ds"
      using char_not_empty [OF ok(1)] f(1) Nil cps by (cases "utf8 cp") auto
    obtain st' where st': "stream_take ?st = (sint x, st')" "sm_state st' = STREAM_OK" "length (sm_buffer st') = 5" "sm_data st' = d'"
      "drop (sm_buffer_pos st') (sm_buffer st') = bs @ 0 # j" "counters (length xs) st'"
      using stream_take_run [of ?st x "bs @ 0 # j"] f(4) fl(3) u(1) cnt by (auto simp: counters_def)
    have "stream_get get (lx, s) = (Inr (sint x), (lx\<lparr>lx_stream := st'\<rparr>, s))" using run [of ?st] f(4) st'(1) fl(1) Nil by simp
    moreover have "fed S tail xs st'" using st' fl(2) ok char_bytes(1,2) [OF ok(1)] u unfolding fed_def by auto
    ultimately show ?thesis using char_bytes(1,2) [OF ok(1), of x] u(1) by auto
  qed
qed

end

text \<open>The parts of the lexer that reading a byte leaves alone.\<close>

definition lex_frame :: "'d lex_t \<Rightarrow> token \<times> block option \<times> lex_error option" where
  "lex_frame lx = (lx_token lx, lx_string lx, lx_error lx)"

definition lex_at :: "(u8 list \<Rightarrow> 'd \<Rightarrow> bool) \<Rightarrow> u8 list \<Rightarrow> u8 list \<Rightarrow> u8 list \<Rightarrow> token \<times> block option \<times> lex_error option \<Rightarrow> 'd lex_t \<times> 'z heap_scheme \<Rightarrow> bool" where
  "lex_at S tail bs xs fr = (\<lambda>(lx, s). buffered bs (lx_saved_text lx, s) \<and> fed S tail xs (lx_stream lx) \<and> lex_frame lx = fr)"

context byte_source begin

lemma get_save_run:
  assumes "lex_at S tail bs (x # xs) fr y" and "length bs + 1 < 2 ^ 61"
  shows "\<exists>y'. lex_get_save get y = (Inr (sint x), y') \<and> lex_at S tail (bs @ [x]) xs fr y'"
proof -
  obtain lx s where y: "y = (lx, s)" by force
  have a: "buffered bs (lx_saved_text lx, s)" "fed S tail (x # xs) (lx_stream lx)" "lex_frame lx = fr"
    using assms(1) by (simp_all add: lex_at_def y)
  obtain st' where g: "stream_get get (lx, s) = (Inr (sint x), (lx\<lparr>lx_stream := st'\<rparr>, s))" "fed S tail xs st'" "x \<noteq> 0" "uint x < 0xF5"
    using stream_get_run [OF a(2)] by blast
  have neg: "sint x \<noteq> -1" "sint x \<noteq> -2" using g(4) by (auto simp: sint_byte dest: arg_cong [of _ _ "\<lambda>k. 0 \<le> k"])
  obtain sb s' where ap: "strbuffer_append_byte x (lx_saved_text lx, s) = (Inr (), (sb, s'))" "buffered (bs @ [x]) (sb, s')"
    using buffered_append [OF a(1), of 1 "[x]"] assms(2) by (auto simp: strbuffer_append_byte_def)
  have "lex_get_save get y = (Inr (sint x), (lx\<lparr>lx_stream := st', lx_saved_text := sb\<rparr>, s'))"
    using g(1) ap(1) neg by (simp add: lex_get_save_def lex_save_def on_saved_def bindM_def tryM_def y)
  then show ?thesis using ap(2) g(2) a(3) by (auto simp: lex_at_def lex_frame_def)
qed

end

subsection \<open>Collecting the text of a string\<close>

definition plain_byte :: "u8 \<Rightarrow> bool" where
  "plain_byte w \<longleftrightarrow> w \<noteq> 0x22 \<and> w \<noteq> 0x5C \<and> \<not> (0 \<le> sint w \<and> sint w \<le> 0x1F) \<and> sint w \<noteq> -1 \<and> sint w \<noteq> -2"

lemma byte_sint_eq: "sint b = sint c \<longleftrightarrow> b = c" for b c :: u8
  by (auto intro: signed_word_eqI)

lemma char_plain: "char_ok cp \<Longrightarrow> \<not> must_escape flags cp \<Longrightarrow> w \<in> set (utf8 cp) \<Longrightarrow> plain_byte w"
proof -
  assume a: "char_ok cp" "\<not> must_escape flags cp" "w \<in> set (utf8 cp)"
  note b = char_bytes [OF a(1,3)]
  show ?thesis
  proof (cases "uint w < 0x80")
    case True
    then have "uint w = cp" "sint w = cp" using b(3) by (simp_all add: sint_byte)
    then show ?thesis using a(1,2) by (auto simp: plain_byte_def must_escape_def char_ok_def scalar_def)
  next
    case False
    then have "sint w = uint w - 256" by (simp add: sint_byte)
    then show ?thesis using False b(2) by (auto simp: plain_byte_def)
  qed
qed

context byte_source begin

text \<open>
  The text \<open>ws\<close>, whose first byte is read already, takes \<open>k\<close> turns of the loop and is saved, as is the
  byte that follows it.
\<close>

definition scans :: "nat \<Rightarrow> u8 list \<Rightarrow> 'z itself \<Rightarrow> bool" where
  "scans k ws _ \<longleftrightarrow> (\<forall>tail bs y xs fr n. \<forall>z :: 'd lex_t \<times> 'z heap_scheme. length bs + length ws + 1 < 2 ^ 61 \<longrightarrow>
     lex_at S tail (bs @ [hd ws]) (tl ws @ y # xs) fr z \<longrightarrow>
     (\<exists>z'. scan_chars (k + n) get (sint (hd ws)) z = scan_chars n get (sint y) z' \<and> lex_at S tail (bs @ ws @ [y]) xs fr z'))"

lemma scansD:
  fixes z :: "'d lex_t \<times> 'z heap_scheme" and T :: "'z itself"
  assumes "scans k ws T" and "length bs + length ws + 1 < 2 ^ 61" and "lex_at S tail (bs @ [hd ws]) (tl ws @ y # xs) fr z"
  shows "\<exists>z'. scan_chars (k + n) get (sint (hd ws)) z = scan_chars n get (sint y) z' \<and> lex_at S tail (bs @ ws @ [y]) xs fr z'"
  using assms unfolding scans_def by blast

lemma scans_append:
  fixes T :: "'z itself"
  assumes "scans k u T" and "scans l v T" and "u \<noteq> []" and "v \<noteq> []"
  shows "scans (k + l) (u @ v) T"
  unfolding scans_def
proof (intro allI impI)
  fix tail bs y xs fr n and z :: "'d lex_t \<times> 'z heap_scheme"
  assume len: "length bs + length (u @ v) + 1 < 2 ^ 61" and at: "lex_at S tail (bs @ [hd (u @ v)]) (tl (u @ v) @ y # xs) fr z"
  have v: "v = hd v # tl v" using assms(4) by simp
  have "lex_at S tail (bs @ [hd u]) (tl u @ hd v # (tl v @ y # xs)) fr z" using at assms(3,4) by (simp add: v [symmetric] append_Cons [symmetric] del: append_Cons)
  then obtain z1 where z1: "scan_chars (k + (l + n)) get (sint (hd u)) z = scan_chars (l + n) get (sint (hd v)) z1"
    "lex_at S tail ((bs @ u) @ [hd v]) (tl v @ y # xs) fr z1"
    using scansD [OF assms(1), of bs tail "hd v" "tl v @ y # xs" fr z "l + n"] len by auto
  obtain z2 where "scan_chars (l + n) get (sint (hd v)) z1 = scan_chars n get (sint y) z2" "lex_at S tail ((bs @ u) @ v @ [y]) xs fr z2"
    using scansD [OF assms(2) _ z1(2), of n] len by auto
  with z1(1) assms(3) show "\<exists>z'. scan_chars (k + l + n) get (sint (hd (u @ v))) z = scan_chars n get (sint y) z' \<and> lex_at S tail (bs @ (u @ v) @ [y]) xs fr z'"
    by (intro exI [of _ z2]) (simp add: add.assoc)
qed

lemma scans_plain:
  assumes "plain_byte w"
  shows "scans 1 [w] T"
  unfolding scans_def
proof (intro allI impI)
  fix tail bs y xs fr n and z :: "'d lex_t \<times> 'b heap_scheme"
  assume "length bs + length [w] + 1 < 2 ^ 61" and "lex_at S tail (bs @ [hd [w]]) (tl [w] @ y # xs) fr z"
  then obtain z1 where z1: "lex_get_save get z = (Inr (sint y), z1)" "lex_at S tail (bs @ [w, y]) xs fr z1"
    using get_save_run [of tail "bs @ [w]" y xs fr z] by auto
  have "sint w \<noteq> 0x22" "sint w \<noteq> 0x5C" 
    using assms byte_sint_eq [where b = w and c = "0x22"] byte_sint_eq [where b = w and c = "0x5C"] by (auto simp: plain_byte_def)
  then have "scan_chars (Suc n) get (sint w) z = scan_chars n get (sint y) z1"
    using assms z1(1) by (auto simp: plain_byte_def bindM_def)
  then show "\<exists>z'. scan_chars (1 + n) get (sint (hd [w])) z = scan_chars n get (sint y) z' \<and> lex_at S tail (bs @ [w] @ [y]) xs fr z'"
    using z1(2) by (intro exI [of _ z1]) simp
qed

lemma scans_short:
  assumes "is_escape_char (sint e)"
  shows "scans 1 [0x5C, e] T"
  unfolding scans_def
proof (intro allI impI)
  fix tail bs y xs fr n and z :: "'d lex_t \<times> 'b heap_scheme"
  assume len: "length bs + length [0x5C, e] + 1 < 2 ^ 61" and "lex_at S tail (bs @ [hd [0x5C, e]]) (tl [0x5C, e] @ y # xs) fr z"
  then have z0: "lex_at S tail (bs @ [0x5C]) (e # y # xs) fr z" by simp
  obtain z1 where z1: "lex_get_save get z = (Inr (sint e), z1)" "lex_at S tail ((bs @ [0x5C]) @ [e]) (y # xs) fr z1"
    using get_save_run [OF z0] len by auto
  obtain z2 where z2: "lex_get_save get z1 = (Inr (sint y), z2)" "lex_at S tail (((bs @ [0x5C]) @ [e]) @ [y]) xs fr z2"
    using get_save_run [OF z1(2)] len by auto
  have "sint e \<noteq> 0x75" using assms by (auto simp: is_escape_char_def)
  then have "scan_chars (Suc n) get 0x5C z = scan_chars n get (sint y) z2"
    using assms z1(1) z2(1) by (simp add: bindM_def scan_escape_def)
  then show "\<exists>z'. scan_chars (1 + n) get (sint (hd [0x5C, e])) z = scan_chars n get (sint y) z' \<and> lex_at S tail (bs @ [0x5C, e] @ [y]) xs fr z'"
    using z2(2) by (intro exI [of _ z2]) simp
qed

text \<open>The test for hexadecimal digits holds of every character.\<close>

lemma always_xdigit: "l_isxdigit c" by (simp add: l_isxdigit_def) linarith

lemma scans_unicode:
  assumes "length hs = 4"
  shows "scans 1 ([0x5C, 0x75] @ hs) T"
  unfolding scans_def
proof (intro allI impI)
  fix tail bs y xs fr n and z :: "'d lex_t \<times> 'b heap_scheme"
  assume len: "length bs + length ([0x5C, 0x75] @ hs) + 1 < 2 ^ 61"
    and at: "lex_at S tail (bs @ [hd ([0x5C, 0x75] @ hs)]) (tl ([0x5C, 0x75] @ hs) @ y # xs) fr z"
  obtain a b c d where hs: "hs = [a, b, c, d]" using assms by (auto simp: length_Suc_conv eval_nat_numeral)
  let ?b = "bs @ [0x5C]"
  have z0: "lex_at S tail ?b (0x75 # a # b # c # d # y # xs) fr z" using at hs by simp
  obtain z1 where z1: "lex_get_save get z = (Inr (sint (0x75 :: u8)), z1)" "lex_at S tail (?b @ [0x75]) (a # b # c # d # y # xs) fr z1"
    using get_save_run [OF z0] len hs by auto
  obtain z2 where z2: "lex_get_save get z1 = (Inr (sint a), z2)" "lex_at S tail ((?b @ [0x75]) @ [a]) (b # c # d # y # xs) fr z2"
    using get_save_run [OF z1(2)] len hs by auto
  obtain z3 where z3: "lex_get_save get z2 = (Inr (sint b), z3)" "lex_at S tail (((?b @ [0x75]) @ [a]) @ [b]) (c # d # y # xs) fr z3"
    using get_save_run [OF z2(2)] len hs by auto
  obtain z4 where z4: "lex_get_save get z3 = (Inr (sint c), z4)" "lex_at S tail ((((?b @ [0x75]) @ [a]) @ [b]) @ [c]) (d # y # xs) fr z4"
    using get_save_run [OF z3(2)] len hs by auto
  obtain z5 where z5: "lex_get_save get z4 = (Inr (sint d), z5)" "lex_at S tail (((((?b @ [0x75]) @ [a]) @ [b]) @ [c]) @ [d]) (y # xs) fr z5"
    using get_save_run [OF z4(2)] len hs by auto
  obtain z6 where z6: "lex_get_save get z5 = (Inr (sint y), z6)" "lex_at S tail ((((((?b @ [0x75]) @ [a]) @ [b]) @ [c]) @ [d]) @ [y]) xs fr z6"
    using get_save_run [OF z5(2)] len hs by auto
  have "scan_hex 4 get (sint a) z2 = (Inr (Some (sint y)), z6)"
    using z3(1) z4(1) z5(1) z6(1) by (simp add: eval_nat_numeral always_xdigit bindM_def)
  then have "scan_chars (Suc n) get 0x5C z = scan_chars n get (sint y) z6"
    using z1(1) z2(1) by (simp add: bindM_def scan_escape_def)
  then show "\<exists>z'. scan_chars (1 + n) get (sint (hd ([0x5C, 0x75] @ hs))) z = scan_chars n get (sint y) z' \<and>
      lex_at S tail (bs @ ([0x5C, 0x75] @ hs) @ [y]) xs fr z'"
    using z6(2) hs by (intro exI [of _ z6]) simp
qed

definition scannable :: "u8 list \<Rightarrow> 'z itself \<Rightarrow> bool" where
  "scannable ws T \<longleftrightarrow> ws \<noteq> [] \<and> (\<exists>k \<le> length ws. scans k ws T)"

lemma scannable_intros:
  "scannable u T \<Longrightarrow> scannable v T \<Longrightarrow> scannable (u @ v) T"
  "plain_byte w \<Longrightarrow> scannable [w] T"
  "is_escape_char (sint e) \<Longrightarrow> scannable [0x5C, e] T"
  "length hs = 4 \<Longrightarrow> scannable ([0x5C, 0x75] @ hs) T"
proof -
  show "scannable u T \<Longrightarrow> scannable v T \<Longrightarrow> scannable (u @ v) T"
    unfolding scannable_def by (metis scans_append add_mono append_is_Nil_conv length_append)
qed (use scans_plain scans_short scans_unicode in \<open>force simp: scannable_def intro: exI [of _ 1]\<close>)+

lemma scannable_plain: "ws \<noteq> [] \<Longrightarrow> \<forall>w \<in> set ws. plain_byte w \<Longrightarrow> scannable ws T"
proof (induction ws)
  case (Cons w ws)
  then show ?case using scannable_intros(1) [of "[w]" T ws] scannable_intros(2) [of w T] by (cases ws) auto
qed simp

lemma escape_scannable: "scannable (escape_text cp) T"
proof -
  have h: "length (hex4 v) = 4" for v by (simp add: hex4_def)
  have short: "scannable [0x5C, e] T" if "e \<in> {0x22, 0x5C, 0x2F, 0x62, 0x66, 0x6E, 0x72, 0x74}" for e
    using that by (intro scannable_intros(3)) (auto simp: is_escape_char_def)
  have one: "scannable (0x5C # 0x75 # hex4 v) T" for v using scannable_intros(4) [OF h, of v T] by simp
  have "scannable (0x5C # 0x75 # hex4 v @ 0x5C # 0x75 # hex4 w) T" for v w using scannable_intros(1) [OF one one, of v w] by simp
  with one short show ?thesis by (simp add: escape_text_def Let_def)
qed

lemma body_scannable: "list_all char_ok cps \<Longrightarrow> cps \<noteq> [] \<Longrightarrow> scannable (concat (map (written flags) cps)) T"
proof (induction cps)
  case (Cons cp cps)
  have w: "scannable (written flags cp) T"
    using Cons.prems escape_scannable char_plain scannable_plain [of "utf8 cp"] char_not_empty by (auto simp: written_def)
  show ?case using Cons w scannable_intros(1) [OF w] by (cases "cps = []") auto
qed simp

lemma scan_body:
  assumes "lex_at S tail [0x22] (body @ [0x22]) fr z" and "body = [] \<or> scannable body TYPE('z)" and "length body + 3 < 2 ^ 61" and "length body < n"
  shows "\<exists>z' :: 'd lex_t \<times> 'z heap_scheme. bindM (lex_get_save get) (scan_chars n get) z = (Inr True, z') \<and> lex_at S tail (0x22 # body @ [0x22]) [] fr z'"
proof (cases "body = []")
  case True
  then obtain z1 where "lex_get_save get z = (Inr (sint (0x22 :: u8)), z1)" "lex_at S tail [0x22, 0x22] [] fr z1"
    using assms(1) get_save_run [of tail "[0x22]" "0x22" "[]" fr z] by auto
  then show ?thesis using True assms(4) by (cases n) (auto simp: bindM_def)
next
  case False
  then obtain k where k: "k \<le> length body" "scans k body TYPE('z)" using assms(2) by (auto simp: scannable_def)
  obtain b bs where b: "body = b # bs" using False by (cases body) auto
  obtain z1 where z1: "lex_get_save get z = (Inr (sint b), z1)" "lex_at S tail ([0x22] @ [b]) (bs @ [0x22]) fr z1"
    using assms(1,3) get_save_run [of tail "[0x22]" b "bs @ [0x22]" fr z] by (auto simp: b)
  obtain m where n: "n = k + Suc m" using k(1) assms(4) less_imp_Suc_add [of k n] by auto
  obtain z2 where "scan_chars (k + Suc m) get (sint b) z1 = scan_chars (Suc m) get (sint (0x22 :: u8)) z2" "lex_at S tail ([0x22] @ body @ [0x22]) [] fr z2"
    using scansD [OF k(2), of "[0x22]" tail "0x22" "[]" fr z1 "Suc m"] z1(2) assms(3) by (auto simp: b)
  then show ?thesis using z1(1) by (auto simp: bindM_def n)
qed

end

subsection \<open>Hexadecimal digits and surrogates\<close>

lemma hex_digit_uint: "0 \<le> d \<Longrightarrow> d < 16 \<Longrightarrow> uint (hex_digit d) = (if d < 10 then 0x30 + d else 0x57 + d)"
  by (simp add: hex_digit_def uint_byte del: of_int_add of_int_diff)

lemma hex_digit_step:
  assumes "0 \<le> d" and "d < 16" and "peek str i s = (Inr (hex_digit d), s)"
  shows "decode_digits str (i # is) val s = decode_digits str is (val * 16 + d) s"
proof -
  have s: "sint (hex_digit d) = (if d < 10 then 0x30 + d else 0x57 + d)" using hex_digit_uint [OF assms(1,2)] assms(2) by (simp add: sint_byte)
  show ?thesis using assms by (simp add: bindM_def s Let_def l_isdigit_def l_islower_def push_bit_eq_mult)
qed

lemma peek_at: "i < length xs \<Longrightarrow> peek (map Some (pre @ xs) @ post) (length pre + i) s = (Inr (xs ! i), s)"
  by (simp add: peek_def nth_append)

lemma hex4_value: "0 \<le> v \<Longrightarrow> v < 0x10000 \<Longrightarrow>
    (((0 * 16 + v div 4096 mod 16) * 16 + v div 256 mod 16) * 16 + v div 16 mod 16) * 16 + v mod 16 = v" for v :: int
proof -
  assume "0 \<le> v" "v < 0x10000"
  then have "0 \<le> v div 4096" "v div 4096 < 16" by simp_all
  then have a: "v div 4096 mod 16 = v div 4096" by (rule mod_pos_pos_trivial)
  have "v div 4096 = v div 256 div 16" "v div 256 = v div 16 div 16" using zdiv_zmult2_eq [of 16 v 256] zdiv_zmult2_eq [of 16 v 16] by simp_all
  then have "v div 4096 * 16 + v div 256 mod 16 = v div 256" "v div 256 * 16 + v div 16 mod 16 = v div 16" "v div 16 * 16 + v mod 16 = v"
    by (metis div_mult_mod_eq)+
  then show ?thesis by (simp only: a mult_zero_left add_0)
qed

lemma decode_hex4:
  assumes "0 \<le> v" and "v < 0x10000"
  shows "decode_unicode_escape (map Some (pre @ 0x75 # hex4 v @ suf) @ post) (length pre) s = (Inr v, s)"
proof -
  let ?x = "map Some (pre @ 0x75 # hex4 v @ suf) @ post"
  have p: "peek ?x (length pre + i) s = (Inr ((0x75 # hex4 v @ suf) ! i), s)" if "i < 5" for i
    using that by (intro peek_at) (simp add: hex4_def)
  have step: "decode_digits ?x ((length pre + i) # is) val s = decode_digits ?x is (val * 16 + w mod 16) s"
    if "i < 5" and "(0x75 # hex4 v @ suf) ! i = hex_digit (w mod 16)" for i "is" val w
    using p [OF that(1)] that(2) by (intro hex_digit_step) simp_all
  have "decode_digits ?x [length pre + 1, length pre + 2, length pre + 3, length pre + 4] 0 s = decode_digits ?x []
      ((((0 * 16 + v div 4096 mod 16) * 16 + v div 256 mod 16) * 16 + v div 16 mod 16) * 16 + v mod 16) s"
    by (subst step [of _ "v div 4096"], simp, simp add: hex4_def, subst step [of _ "v div 256"], simp, simp add: hex4_def,
        subst step [of _ "v div 16"], simp, simp add: hex4_def, subst step [of _ v], simp, simp add: hex4_def, rule refl)
  then have "decode_digits ?x [length pre + 1, length pre + 2, length pre + 3, length pre + 4] 0 s = (Inr v, s)"
    unfolding hex4_value [OF assms] by simp
  moreover have "[length pre + 1..<length pre + 5] = [length pre + 1, length pre + 2, length pre + 3, length pre + 4]" by (simp add: upt_rec)
  ultimately show ?thesis using p [of 0] by (simp add: decode_unicode_escape_def bindM_def)
qed

lemma surrogates:
  fixes c :: int
  assumes "0 \<le> c" and "c < 0x100000"
  shows "0xD800 OR drop_bit 10 (c AND 0xffc00) = 0xD800 + c div 1024" and "0xDC00 OR (c AND 0x003ff) = 0xDC00 + c mod 1024"
proof -
  have or: "push_bit 10 a OR take_bit 10 b = push_bit 10 a + take_bit 10 b" for a b :: int
    using concat_bit_eq [of 10 b a] by (simp add: concat_bit_def or.commute add.commute)
  have "c div 1024 < 1024" using assms by simp
  then have "drop_bit 10 (c AND 0xffc00) = take_bit 10 (c div 1024)"
    using drop_bit_and_field [of 10 c 10] by (simp add: mask_eq_exp_minus_1 push_bit_eq_mult drop_bit_eq_div)
  moreover have "take_bit 10 (c div 1024) = c div 1024" using \<open>c div 1024 < 1024\<close> assms(1) by (simp add: take_bit_int_eq_self)
  ultimately show "0xD800 OR drop_bit 10 (c AND 0xffc00) = 0xD800 + c div 1024" using or [of 54 "c div 1024"] by (simp add: push_bit_eq_mult)
  have "c AND 0x003ff = take_bit 10 c" by (simp add: take_bit_eq_mask mask_eq_exp_minus_1)
  then show "0xDC00 OR (c AND 0x003ff) = 0xDC00 + c mod 1024" using or [of 55 c] by (simp add: push_bit_eq_mult take_bit_eq_mod)
qed

subsection \<open>Decoding the text of a string\<close>

text \<open>
  The text \<open>ws\<close> takes \<open>k\<close> turns of the second loop, which writes \<open>out\<close> for it. The target is followed by
  at least as many places as \<open>out\<close> has bytes.
\<close>

definition decodes :: "'s \<Rightarrow> nat \<Rightarrow> u8 list \<Rightarrow> u8 list \<Rightarrow> bool" where
  "decodes s k ws out \<longleftrightarrow> (\<forall>pre suf acc rest n. length out \<le> length rest \<longrightarrow>
     decode_chars (k + n) (map Some (pre @ ws) @ suf) (length pre) (map Some acc @ rest) (length acc) s =
     decode_chars n (map Some (pre @ ws) @ suf) (length (pre @ ws)) (map Some (acc @ out) @ drop (length out) rest) (length (acc @ out)) s)"

lemma decodesD:
  "decodes s k ws out \<Longrightarrow> length out \<le> length rest \<Longrightarrow>
     decode_chars (k + n) (map Some (pre @ ws) @ suf) (length pre) (map Some acc @ rest) (length acc) s =
     decode_chars n (map Some (pre @ ws) @ suf) (length (pre @ ws)) (map Some (acc @ out) @ drop (length out) rest) (length (acc @ out)) s"
  unfolding decodes_def by blast

lemma decodes_append:
  assumes "decodes s k u a" and "decodes s l v b"
  shows "decodes s (k + l) (u @ v) (a @ b)"
  unfolding decodes_def
proof (intro allI impI)
  fix pre acc :: "u8 list" and suf rest :: block and n
  assume len: "length (a @ b) \<le> length rest"
  have "decode_chars (k + (l + n)) (map Some (pre @ u) @ (map Some v @ suf)) (length pre) (map Some acc @ rest) (length acc) s =
      decode_chars (l + n) (map Some (pre @ u) @ (map Some v @ suf)) (length (pre @ u)) (map Some (acc @ a) @ drop (length a) rest) (length (acc @ a)) s"
    by (rule decodesD [OF assms(1)]) (use len in simp)
  also have "\<dots> = decode_chars (l + n) (map Some ((pre @ u) @ v) @ suf) (length (pre @ u)) (map Some (acc @ a) @ drop (length a) rest) (length (acc @ a)) s"
    by simp
  also have "\<dots> = decode_chars n (map Some ((pre @ u) @ v) @ suf) (length ((pre @ u) @ v)) (map Some ((acc @ a) @ b) @ drop (length b) (drop (length a) rest))
      (length ((acc @ a) @ b)) s"
    by (rule decodesD [OF assms(2)]) (use len in simp)
  finally show "decode_chars (k + l + n) (map Some (pre @ u @ v) @ suf) (length pre) (map Some acc @ rest) (length acc) s =
      decode_chars n (map Some (pre @ u @ v) @ suf) (length (pre @ u @ v)) (map Some (acc @ a @ b) @ drop (length (a @ b)) rest) (length (acc @ a @ b)) s"
    by (simp add: add.assoc add.commute [of "length b"])
qed

lemma store_at:
  "length out \<le> length rest \<Longrightarrow> store (Some (map Some acc @ rest)) (length acc) (map Some out) s =
    (Inr (map Some (acc @ out) @ drop (length out) rest), s)"
  by (simp add: store_def)

lemma peek_first: "peek (map Some (pre @ x # xs) @ post) (length pre) s = (Inr x, s)"
  "peek (map Some (pre @ x # y # xs) @ post) (Suc (length pre)) s = (Inr y, s)"
  using peek_at [of 0 "x # xs" pre post s] peek_at [of 1 "x # y # xs" pre post s] by simp_all

lemma decodes_plain:
  assumes "w \<noteq> 0x22" and "w \<noteq> 0x5C"
  shows "decodes s 1 [w] [w]"
  unfolding decodes_def
proof (intro allI impI)
  fix pre acc :: "u8 list" and suf rest :: block and n
  assume len: "length [w] \<le> length rest"
  show "decode_chars (1 + n) (map Some (pre @ [w]) @ suf) (length pre) (map Some acc @ rest) (length acc) s =
      decode_chars n (map Some (pre @ [w]) @ suf) (length (pre @ [w])) (map Some (acc @ [w]) @ drop (length [w]) rest) (length (acc @ [w])) s"
    using assms store_at [OF len, of acc s] peek_first(1) [of pre w "[]" suf s] by (simp add: bindM_def)
qed

lemma decodes_short:
  assumes "short_escape e s = (Inr b, s)" and "e \<noteq> 0x75"
  shows "decodes s 1 [0x5C, e] [b]"
  unfolding decodes_def
proof (intro allI impI)
  fix pre acc :: "u8 list" and suf rest :: block and n
  assume len: "length [b] \<le> length rest"
  show "decode_chars (1 + n) (map Some (pre @ [0x5C, e]) @ suf) (length pre) (map Some acc @ rest) (length acc) s =
      decode_chars n (map Some (pre @ [0x5C, e]) @ suf) (length (pre @ [0x5C, e])) (map Some (acc @ [b]) @ drop (length [b]) rest) (length (acc @ [b])) s"
    using assms store_at [OF len, of acc s] peek_first(1) [of pre "0x5C" "[e]" suf s] peek_first(2) [of pre "0x5C" e "[]" suf s] by (simp add: bindM_def)
qed

lemma decodes_escape:
  assumes "\<And>pre suf. decode_escape (map Some (pre @ 0x75 # ws) @ suf) (length pre) s = (Inr (Inr val, length pre + Suc (length ws)), s)"
    and "utf8_encode val = Some out"
  shows "decodes s 1 (0x5C # 0x75 # ws) out"
  unfolding decodes_def
proof (intro allI impI)
  fix pre acc :: "u8 list" and suf rest :: block and n
  assume len: "length out \<le> length rest"
  have e: "decode_escape (map Some (pre @ 0x5C # 0x75 # ws) @ suf) (Suc (length pre)) s = (Inr (Inr val, length pre + 2 + length ws), s)"
    using assms(1) [of "pre @ [0x5C]" suf] by simp
  show "decode_chars (1 + n) (map Some (pre @ 0x5C # 0x75 # ws) @ suf) (length pre) (map Some acc @ rest) (length acc) s =
      decode_chars n (map Some (pre @ 0x5C # 0x75 # ws) @ suf) (length (pre @ 0x5C # 0x75 # ws)) (map Some (acc @ out) @ drop (length out) rest)
        (length (acc @ out)) s"
    using e assms(2) store_at [OF len, of acc s] peek_first(1) [of pre "0x5C" "0x75 # ws" suf s] peek_first(2) [of pre "0x5C" "0x75" ws suf s]
    by (simp add: bindM_def)
qed

lemma decodes_bmp:
  assumes "char_ok v" and "v < 0x10000"
  shows "decodes s 1 (0x5C # 0x75 # hex4 v) (utf8 v)"
proof (rule decodes_escape)
  have v: "0 \<le> v" "v \<le> 0x10FFFF" "\<not> (0xD800 \<le> v \<and> v \<le> 0xDFFF)" "v \<noteq> 0" using assms(1) by (auto simp: char_ok_def scalar_def)
  show "utf8_encode v = Some (utf8 v)" by (rule utf8_uints(1) [OF v(1,2)])
  fix pre suf
  show "decode_escape (map Some (pre @ 0x75 # hex4 v) @ suf) (length pre) s = (Inr (Inr v, length pre + Suc (length (hex4 v))), s)"
    using decode_hex4 [OF v(1) assms(2), of pre "[]" suf s] v(3,4) by (auto simp: decode_escape_def bindM_def Let_def hex4_def)
qed

lemma decodes_pair:
  assumes "char_ok v" and "0x10000 \<le> v"
  defines "c \<equiv> v - 0x10000"
  shows "decodes s 1 (0x5C # 0x75 # hex4 (0xD800 + c div 1024) @ 0x5C # 0x75 # hex4 (0xDC00 + c mod 1024)) (utf8 v)"
proof (rule decodes_escape)
  have v: "0 \<le> v" "v \<le> 0x10FFFF" using assms(1) by (auto simp: char_ok_def scalar_def)
  show "utf8_encode v = Some (utf8 v)" by (rule utf8_uints(1) [OF v])
  have c: "0 \<le> c" "c < 0x100000" using assms(2) v(2) by (simp_all add: c_def)
  then have q: "0 \<le> c div 1024" "c div 1024 < 1024" by simp_all
  have r: "0 \<le> c mod 1024" "c mod 1024 < 1024" by simp_all
  define a where "a = 0xD800 + c div 1024"
  define b where "b = 0xDC00 + c mod 1024"
  have ab: "0xD800 \<le> a" "a \<le> 0xDBFF" "0xDC00 \<le> b" "b \<le> 0xDFFF" using q r by (simp_all add: a_def b_def)
  have val: "push_bit 10 (a - 0xD800) + (b - 0xDC00) + 0x10000 = v"
    using div_mult_mod_eq [of c 1024] by (simp add: a_def b_def push_bit_eq_mult c_def)
  fix pre suf
  let ?x = "map Some (pre @ 0x75 # hex4 a @ 0x5C # 0x75 # hex4 b) @ suf"
  have l4: "length (hex4 w) = 4" for w by (simp add: hex4_def)
  have d1: "decode_unicode_escape ?x (length pre) s = (Inr a, s)" by (rule decode_hex4) (use ab in simp_all)
  have "decode_unicode_escape (map Some ((pre @ 0x75 # hex4 a @ [0x5C]) @ 0x75 # hex4 b @ []) @ suf) (length (pre @ 0x75 # hex4 a @ [0x5C])) s = (Inr b, s)"
    by (rule decode_hex4) (use ab in simp_all)
  then have d2: "decode_unicode_escape ?x (length pre + 5 + 1) s = (Inr b, s)" by (simp add: l4 add.commute)
  have pk: "peek ?x (length pre + 5) s = (Inr 0x5C, s)" "peek ?x (length pre + 5 + 1) s = (Inr 0x75, s)"
    using peek_at [of 5 "0x75 # hex4 a @ 0x5C # 0x75 # hex4 b" pre suf s] peek_at [of 6 "0x75 # hex4 a @ 0x5C # 0x75 # hex4 b" pre suf s]
    by (simp_all add: l4 nth_append add.commute [of 6 "length pre"])
  show "decode_escape (map Some (pre @ 0x75 # hex4 (0xD800 + c div 1024) @ 0x5C # 0x75 # hex4 (0xDC00 + c mod 1024)) @ suf) (length pre) s =
      (Inr (Inr v, length pre + Suc (length (hex4 (0xD800 + c div 1024) @ 0x5C # 0x75 # hex4 (0xDC00 + c mod 1024)))), s)"
    unfolding a_def [symmetric] b_def [symmetric] using d1 d2 pk ab val
    by (simp add: decode_escape_def bindM_def Let_def l4)
qed

lemma decodes_plains: "\<forall>w \<in> set ws. w \<noteq> 0x22 \<and> w \<noteq> 0x5C \<Longrightarrow> decodes s (length ws) ws ws"
proof (induction ws)
  case Nil
  then show ?case by (simp add: decodes_def)
next
  case (Cons w ws)
  then show ?case using decodes_append [of s 1 "[w]" "[w]" "length ws" ws ws] decodes_plain [of w s] by simp
qed

lemma decodes_escape_text:
  assumes "char_ok cp"
  shows "decodes s 1 (escape_text cp) (utf8 cp)"
proof -
  have cp: "0 \<le> cp" "cp \<le> 0x10FFFF" using assms by (auto simp: char_ok_def scalar_def)
  have u: "utf8 c = [of_int c]" if "0 \<le> c" "c < 0x80" for c using that by (simp add: utf8_def utf8_encode_def)
  show ?thesis
  proof (cases "cp < 0x10000")
    case True
    then show ?thesis using decodes_bmp [OF assms True, of s]
      by (auto simp: escape_text_def u short_escape_def simp del: One_nat_def intro!: decodes_short)
  next
    case False
    have c: "0 \<le> cp - 0x10000" "cp - 0x10000 < 0x100000" using False cp by simp_all
    show ?thesis using decodes_pair [OF assms, of s] False unfolding escape_text_def Let_def surrogates [OF c] by simp
  qed
qed

lemma decodes_written:
  assumes "list_all char_ok cps"
  shows "\<exists>k \<le> length (concat (map (written flags) cps)). decodes s k (concat (map (written flags) cps)) (utf8s cps)"
  using assms
proof (induction cps)
  case Nil
  then show ?case by (simp add: decodes_def)
next
  case (Cons cp cps)
  then obtain k where k: "k \<le> length (concat (map (written flags) cps))" "decodes s k (concat (map (written flags) cps)) (utf8s cps)" by auto
  have ok: "char_ok cp" using Cons.prems by simp
  have "\<exists>l \<le> length (written flags cp). decodes s l (written flags cp) (utf8 cp)"
  proof (cases "must_escape flags cp")
    case True
    have "1 \<le> length (escape_text cp)" by (simp add: escape_text_def Let_def)
    with True decodes_escape_text [OF ok, of s] show ?thesis by (auto simp: written_def)
  next
    case False
    have "\<forall>w \<in> set (utf8 cp). w \<noteq> 0x22 \<and> w \<noteq> 0x5C" using char_plain [OF ok False] by (auto simp: plain_byte_def)
    with False decodes_plains [of "utf8 cp" s] show ?thesis by (auto simp: written_def)
  qed
  then obtain l where l: "l \<le> length (written flags cp)" "decodes s l (written flags cp) (utf8 cp)" by blast
  then show ?case using decodes_append [OF l(2) k(2)] k(1) by (auto intro!: exI [of _ "l + k"])
qed

subsection \<open>Reading back what was written\<close>

lemma utf8_le_written: "char_ok cp \<Longrightarrow> length (utf8 cp) \<le> length (written flags cp)"
proof -
  assume "char_ok cp"
  then have sc: "scalar cp" by (simp add: char_ok_def)
  have "length (utf8 cp) \<le> (if cp < 0x80 then 1 else if cp < 0x10000 then 3 else 4)"
    by (cases rule: utf8_shapes [OF sc]) simp_all
  also have "\<dots> \<le> length (escape_text cp)" by (auto simp: escape_text_def Let_def hex4_def)
  finally show ?thesis by (simp add: written_def)
qed

lemma utf8s_le_written: "list_all char_ok cps \<Longrightarrow> length (utf8s cps) \<le> length (concat (map (written flags) cps))"
  by (induction cps) (auto intro: add_mono utf8_le_written)

text \<open>The text is itself valid UTF-8 without NUL bytes.\<close>

lemma ascii_chars:
  assumes "\<forall>b \<in> set bs. 0 < uint b \<and> uint b < 0x80"
  shows "list_all char_ok (map uint bs) \<and> utf8s (map uint bs) = bs"
  using assms by (induction bs) (auto simp: char_ok_def scalar_def utf8_ascii)

lemma hex4_ascii: "b \<in> set (hex4 v) \<Longrightarrow> 0 < uint b \<and> uint b < 0x80"
proof -
  have "0 < uint (hex_digit (w mod 16)) \<and> uint (hex_digit (w mod 16)) < 0x80" for w :: int
    using hex_digit_uint [of "w mod 16"] pos_mod_bound [of 16 w] pos_mod_sign [of 16 w] by auto
  then show "b \<in> set (hex4 v) \<Longrightarrow> 0 < uint b \<and> uint b < 0x80" unfolding hex4_def by auto
qed

lemma escape_ascii: "b \<in> set (escape_text cp) \<Longrightarrow> 0 < uint b \<and> uint b < 0x80"
  using hex4_ascii by (auto simp: escape_text_def Let_def split: if_splits)

lemma written_chars:
  assumes "char_ok cp"
  shows "\<exists>ds. list_all char_ok ds \<and> utf8s ds = written flags cp"
proof (cases "must_escape flags cp")
  case True
  then show ?thesis using ascii_chars [of "escape_text cp"] escape_ascii by (auto simp: written_def)
next
  case False
  then show ?thesis using assms by (intro exI [of _ "[cp]"]) (simp add: written_def)
qed

lemma body_chars: "list_all char_ok cps \<Longrightarrow> \<exists>ds. list_all char_ok ds \<and> utf8s ds = concat (map (written flags) cps)"
proof (induction cps)
  case (Cons cp cps)
  then obtain ds where ds: "list_all char_ok ds" "utf8s ds = concat (map (written flags) cps)" by auto
  obtain es where "list_all char_ok es" "utf8s es = written flags cp" using written_chars [of cp flags] Cons.prems by auto
  with ds show ?case by (intro exI [of _ "es @ ds"]) simp
qed (simp add: exI [of _ "[]"])

lemma quoted_chars: "list_all char_ok cps \<Longrightarrow> \<exists>ds. list_all char_ok ds \<and> utf8s ds = concat (map (written flags) cps) @ [0x22]"
proof -
  assume "list_all char_ok cps"
  then obtain ds where "list_all char_ok ds" "utf8s ds = concat (map (written flags) cps)" using body_chars by blast
  moreover have "list_all char_ok [0x22] \<and> utf8s [0x22] = [0x22]" using ascii_chars [of "[0x22]"] by simp
  ultimately show ?thesis by (intro exI [of _ "ds @ [0x22]"]) simp
qed

lemma chars_no_nul: "list_all char_ok ds \<Longrightarrow> 0 \<notin> set (utf8s ds)"
  using char_bytes(1) by (induction ds) auto

text \<open>
  The lexer is between two characters of its input, and has not read so much that its line or column
  were near the end of \<^verbatim>\<open>int\<close>.
\<close>

definition between :: "'d lex_t \<Rightarrow> bool" where
  "between lx \<longleftrightarrow> (let st = lx_stream lx in sm_state st = STREAM_OK \<and> length (sm_buffer st) = 5 \<and> sm_buffer_pos st < 5 \<and>
     sm_buffer st ! sm_buffer_pos st = 0 \<and> 0 \<le> sm_line st \<and> sm_line st < 2 ^ 28 \<and> 0 \<le> sm_column st \<and> sm_column st < 2 ^ 28)"

lemma decode_body:
  assumes "list_all char_ok cps" and "text = map Some (0x22 # concat (map (written flags) cps) @ [0x22]) @ post"
  shows "\<exists>junk. decode_chars (length text + 1) text 1 (replicate (length (quoted flags cps) + 1) None) 0 s =
    (Inr (Inr (map Some (utf8s cps) @ Some 0 # junk)), s)"
proof -
  define body where "body = concat (map (written flags) cps)"
  obtain k where k: "k \<le> length body" "decodes s k body (utf8s cps)" using decodes_written [OF assms(1), of flags s] by (auto simp: body_def)
  have le: "length (utf8s cps) \<le> length body" using utf8s_le_written [OF assms(1)] by (simp add: body_def)
  let ?r = "replicate (length (quoted flags cps) + 1) None"
  have tx: "text = map Some ([0x22] @ body) @ (Some 0x22 # post)" by (simp add: assms(2) body_def)
  have q: "length (quoted flags cps) = length body + 2" by (simp add: quoted_def body_def)
  have "k < length text + 1" using k(1) by (simp add: tx)
  then obtain m where m: "length text + 1 = k + Suc m" using that [of "length text - k"] by simp
  have "decode_chars (length text + 1) text 1 ?r 0 s =
      decode_chars (Suc m) text (length ([0x22] @ body)) (map Some (utf8s cps) @ drop (length (utf8s cps)) ?r) (length (utf8s cps)) s"
    unfolding m using decodesD [OF k(2), of ?r "Suc m" "[0x22]" "Some 0x22 # post" "[]"] le q unfolding tx by simp
  also have "drop (length (utf8s cps)) ?r = None # replicate (length (quoted flags cps) - length (utf8s cps)) None"
    using le q by (simp add: drop_replicate Suc_diff_le flip: replicate_Suc)
  also have "decode_chars (Suc m) text (length ([0x22] @ body)) (map Some (utf8s cps) @ None # j) (length (utf8s cps)) s =
      (Inr (Inr (map Some (utf8s cps) @ Some 0 # j)), s)" for j
    using peek_first(1) [of "[0x22] @ body" "0x22" "[]" post s] by (simp add: tx bindM_def store_def)
  finally show ?thesis by blast
qed

context byte_source begin

lemma lex_scan_string_reads:
  fixes s :: "'z heap_scheme"
  assumes "list_all char_ok cps" and "length (quoted flags cps) < 7 * 2 ^ 28" and "between lx" and "buffered [0x22] (lx_saved_text lx, s)"
    and "S (tl (quoted flags cps) @ tail) (sm_data (lx_stream lx))" and "length (quoted flags cps) < n"
  shows "\<exists>lx' s' junk. lex_scan_string n get (lx, s) = (Inr (), (lx', s')) \<and> lx_token lx' = TOKEN_STRING \<and>
    lx_string lx' = Some (map Some (utf8s cps) @ Some 0 # junk) \<and> fed S tail [] (lx_stream lx') \<and> lx_error lx' = lx_error lx"
proof -
  define body where "body = concat (map (written flags) cps)"
  have q: "quoted flags cps = 0x22 # body @ [0x22]" by (simp add: quoted_def body_def)
  obtain ds where ds: "list_all char_ok ds" "utf8s ds = body @ [0x22]" using quoted_chars [OF assms(1)] by (auto simp: body_def)
  let ?lx = "lx\<lparr>lx_string := None, lx_token := TOKEN_INVALID\<rparr>"
  let ?fr = "(TOKEN_INVALID, None, lx_error lx)"
  have "drop (sm_buffer_pos (lx_stream lx)) (sm_buffer (lx_stream lx)) = [] @ 0 # drop (Suc (sm_buffer_pos (lx_stream lx))) (sm_buffer (lx_stream lx))"
    using assms(3) Cons_nth_drop_Suc [of "sm_buffer_pos (lx_stream lx)" "sm_buffer (lx_stream lx)"] by (auto simp: between_def Let_def)
  moreover have "counters (length (body @ [0x22])) (lx_stream lx)"
    using assms(2,3) by (simp add: between_def counters_def Let_def q)
  ultimately have "fed S tail (body @ [0x22]) (lx_stream lx)"
    unfolding fed_def using assms(3,5) ds
    by - (rule conjI, intro exI [of _ "[]"] exI [of _ ds] exI [of _ "drop (Suc (sm_buffer_pos (lx_stream lx))) (sm_buffer (lx_stream lx))"],
      simp add: between_def Let_def q, assumption)
  then have at: "lex_at S tail [0x22] (body @ [0x22]) ?fr (?lx, s)" using assms(4) by (simp add: lex_at_def lex_frame_def)
  have sc: "body = [] \<or> scannable body TYPE('z)" unfolding body_def using body_scannable [OF assms(1), of flags "TYPE('z)"] by (cases "cps = []") auto
  obtain lx1 s1 where scan: "bindM (lex_get_save get) (scan_chars n get) (?lx, s) = (Inr True, (lx1, s1))"
      "lex_at S tail (0x22 # body @ [0x22]) [] ?fr (lx1, s1)"
    using scan_body [OF at sc, of n] assms(2,6) by (auto simp: q)
  have b: "holds (quoted flags cps) (lx_saved_text lx1)" "script s1 = []" "fed S tail [] (lx_stream lx1)" "lx_error lx1 = lx_error lx"
    using scan(2) by (auto simp: lex_at_def buffered_def q lex_frame_def)
  obtain post where v: "sb_value (lx_saved_text lx1) = Some (map Some (quoted flags cps) @ Some 0 # post)"
      and len: "unat (sb_length (lx_saved_text lx1)) = length (quoted flags cps)" using b(1) by (auto simp: holds_def)
  have u: "unat (sb_length (lx_saved_text lx1) + 1) = length (quoted flags cps) + 1" using assms(2) len by (subst unat_add_lem [THEN iffD1]) simp_all
  then have "sb_length (lx_saved_text lx1) + 1 \<noteq> 0" by (metis Suc_eq_plus1 nat.distinct(1) unat_0)
  then have mal: "jsonp_malloc (sb_length (lx_saved_text lx1) + 1) s1 = (Inr (replicate (length (quoted flags cps) + 1) None), s1)"
    using b(2) u by (simp add: jsonp_malloc_def bindM_def)
  let ?text = "map Some (quoted flags cps) @ Some 0 # post"
  obtain junk where dec: "decode_chars (length ?text + 1) ?text 1 (replicate (length (quoted flags cps) + 1) None) 0 s1 =
      (Inr (Inr (map Some (utf8s cps) @ Some 0 # junk)), s1)"
    using decode_body [OF assms(1), of ?text flags "Some 0 # post" s1] by (auto simp: quoted_def)
  have "lex_scan_string n get (lx, s) = (Inr (), (lx1\<lparr>lx_string := Some (map Some (utf8s cps) @ Some 0 # junk), lx_token := TOKEN_STRING\<rparr>, s1))"
  proof -
    have "lex_scan_string n get (lx, s) = bindM (bindM (lex_get_save get) (scan_chars n get)) (\<lambda>found.
        if \<not> found then retM ()
        else bindM getO (\<lambda>lx.
          bindM (tryM (lift (jsonp_malloc (sb_length (lx_saved_text lx) + 1)))) (\<lambda>r. case r of
            Inl e \<Rightarrow> retM ()
          | Inr target \<Rightarrow> (case strbuffer_value (lx_saved_text lx) of
               None \<Rightarrow> failM CRASH
             | Some text \<Rightarrow> bindM (lift (decode_chars (length text + 1) text 1 target 0)) (\<lambda>r. case r of
                 Inl msg \<Rightarrow> set_error msg
               | Inr target \<Rightarrow> putO (lx\<lparr>lx_string := Some target, lx_token := TOKEN_STRING\<rparr>)))))) (?lx, s)"
      by (simp add: lex_scan_string_def bindM_def getO_def putO_def split: prod.splits sum.splits)
    also have "\<dots> = (Inr (), (lx1\<lparr>lx_string := Some (map Some (utf8s cps) @ Some 0 # junk), lx_token := TOKEN_STRING\<rparr>, s1))"
      unfolding bindM_run(1) [where f = "bindM (lex_get_save get) (scan_chars n get)", OF scan(1)]
      using mal dec by (simp add: bindM_def getO_def putO_def tryM_def lift_def v strbuffer_value_def)
    finally show ?thesis .
  qed
  then show ?thesis using b(3,4) by auto
qed

end

end
