(* ===== verification/Hashtable.thy ===== *)
theory Hashtable
  imports Strbuffer
begin

text \<open>
  The hash table of Jansson (\<^verbatim>\<open>hashtable.c\<close>, \<^verbatim>\<open>hashtable.h\<close>): pairs on a doubly linked ring whose head
  is a member of the table, and an array of buckets that point at the first and the last pair of
  a stretch of the ring.

  The memory of the table is split by fields: \<open>ht_pairs\<close> gives the members of the allocated pairs by
  their address, \<open>ht_next\<close> and \<open>ht_prev\<close> the members of the list nodes, where a node is the head of
  the ring or the node inside a pair. Reading or writing a node of a pair that is not allocated, or
  a bucket when the array is missing, is the failure \<open>CRASH\<close>. \<open>ht_fresh\<close> is the address of the next
  pair. Values are pointers to objects of another component; the references the table gives up
  with \<^verbatim>\<open>json_decref\<close> are recorded in the heap in their order. A \<^verbatim>\<open>char\<close> is signed.

  The loops over the ring have as much fuel as there are pairs, and one more; with less the loop
  would leave the ring, and the failure is \<open>DIVERGES\<close>.
\<close>

subsection \<open>Data\<close>

datatype lnode = Head | Node nat

type_synonym key = "u8 list"

record 'v pair_t =
  p_hash :: size_t
  p_value :: 'v
  p_serial :: size_t
  p_key :: key

record bucket =
  b_first :: lnode
  b_last :: lnode

record 'v hashtable =
  ht_size :: size_t
  ht_buckets :: "bucket list option"
  ht_num_buckets :: nat
  ht_next :: "lnode \<Rightarrow> lnode"
  ht_prev :: "lnode \<Rightarrow> lnode"
  ht_pairs :: "nat \<Rightarrow> 'v pair_t option"
  ht_fresh :: nat

record 'v jheap = heap +
  decrefs :: "'v list"

type_synonym ('v, 'z, 'a) HM = "('v hashtable, ('v, 'z) jheap_scheme, 'a) OM"

definition json_decref :: "'v \<Rightarrow> ('v, 'z, unit) HM" where
  "json_decref v = lift (\<lambda>s. (Inr (), s\<lparr>decrefs := decrefs s @ [v]\<rparr>))"

definition hash_str :: "key \<Rightarrow> size_t" where
  "hash_str str = foldl (\<lambda>hash c. (push_bit 5 hash + hash) + scast c) 5381 str"

subsection \<open>Lists\<close>

definition valid :: "'v hashtable \<Rightarrow> lnode \<Rightarrow> bool" where
  "valid h n = (case n of Head \<Rightarrow> True | Node a \<Rightarrow> ht_pairs h a \<noteq> None)"

definition get_next :: "lnode \<Rightarrow> ('v, 'z, lnode) HM" where
  "get_next n = bindM getO (\<lambda>h. if valid h n then retM (ht_next h n) else failM CRASH)"

definition get_prev :: "lnode \<Rightarrow> ('v, 'z, lnode) HM" where
  "get_prev n = bindM getO (\<lambda>h. if valid h n then retM (ht_prev h n) else failM CRASH)"

definition set_next :: "lnode \<Rightarrow> lnode \<Rightarrow> ('v, 'z, unit) HM" where
  "set_next n x = bindM getO (\<lambda>h. if valid h n then putO (h\<lparr>ht_next := (ht_next h)(n := x)\<rparr>) else failM CRASH)"

definition set_prev :: "lnode \<Rightarrow> lnode \<Rightarrow> ('v, 'z, unit) HM" where
  "set_prev n x = bindM getO (\<lambda>h. if valid h n then putO (h\<lparr>ht_prev := (ht_prev h)(n := x)\<rparr>) else failM CRASH)"

definition list_to_pair :: "lnode \<Rightarrow> ('v, 'z, 'v pair_t) HM" where
  "list_to_pair n = bindM getO (\<lambda>h. case n of
       Head \<Rightarrow> failM CRASH
     | Node a \<Rightarrow> (case ht_pairs h a of None \<Rightarrow> failM CRASH | Some p \<Rightarrow> retM p))"

definition list_init :: "lnode \<Rightarrow> ('v, 'z, unit) HM" where
  "list_init list = bindM (set_next list list) (\<lambda>_. set_prev list list)"

definition list_insert :: "lnode \<Rightarrow> lnode \<Rightarrow> ('v, 'z, unit) HM" where
  "list_insert list node =
     bindM (set_next node list) (\<lambda>_.
     bindM (get_prev list) (\<lambda>p.
     bindM (set_prev node p) (\<lambda>_.
     bindM (get_prev list) (\<lambda>p.
     bindM (set_next p node) (\<lambda>_.
     set_prev list node)))))"

definition list_remove :: "lnode \<Rightarrow> ('v, 'z, unit) HM" where
  "list_remove list =
     bindM (get_prev list) (\<lambda>p.
     bindM (get_next list) (\<lambda>n.
     bindM (set_next p n) (\<lambda>_.
     bindM (get_next list) (\<lambda>n.
     bindM (get_prev list) (\<lambda>p.
     set_prev n p)))))"

subsection \<open>Buckets\<close>

definition get_bucket :: "nat \<Rightarrow> ('v, 'z, bucket) HM" where
  "get_bucket i = bindM getO (\<lambda>h. case ht_buckets h of
       None \<Rightarrow> failM CRASH
     | Some bs \<Rightarrow> if i < length bs then retM (bs ! i) else failM CRASH)"

definition set_bucket :: "nat \<Rightarrow> bucket \<Rightarrow> ('v, 'z, unit) HM" where
  "set_bucket i b = bindM getO (\<lambda>h. case ht_buckets h of
       None \<Rightarrow> failM CRASH
     | Some bs \<Rightarrow> if i < length bs then putO (h\<lparr>ht_buckets := Some (bs[i := b])\<rparr>) else failM CRASH)"

definition bucket_is_empty :: "bucket \<Rightarrow> bool" where
  "bucket_is_empty b \<longleftrightarrow> b_first b = Head \<and> b_first b = b_last b"

definition insert_to_bucket :: "nat \<Rightarrow> lnode \<Rightarrow> ('v, 'z, unit) HM" where
  "insert_to_bucket i list = bindM (get_bucket i) (\<lambda>b.
     if bucket_is_empty b then
       bindM (list_insert Head list) (\<lambda>_. set_bucket i \<lparr>b_first = list, b_last = list\<rparr>)
     else
       bindM (list_insert (b_first b) list) (\<lambda>_. set_bucket i (b\<lparr>b_first := list\<rparr>)))"

definition primes :: "size_t list" where
  "primes = [5, 13, 23, 53, 97, 193, 389, 769, 1543, 3079, 6151, 12289, 24593,
    49157, 98317, 196613, 393241, 786433, 1572869, 3145739, 6291469,
    12582917, 25165843, 50331653, 100663319, 201326611, 402653189,
    805306457, 1610612741]"

definition num_buckets :: "('v, 'z, size_t) HM" where
  "num_buckets = bindM getO (\<lambda>h.
     if ht_num_buckets h < length primes then retM (primes ! ht_num_buckets h) else failM CRASH)"

definition fuel :: "'v hashtable \<Rightarrow> nat" where
  "fuel h = unat (ht_size h) + 1"

fun find_loop :: "nat \<Rightarrow> lnode \<Rightarrow> lnode \<Rightarrow> key \<Rightarrow> size_t \<Rightarrow> ('v, 'z, lnode option) HM" where
  "find_loop 0 last_node list key hash = failM DIVERGES"
| "find_loop (Suc n) last_node list key hash =
     bindM (list_to_pair list) (\<lambda>pair.
     if p_hash pair = hash \<and> p_key pair = key then retM (Some list)
     else if list = last_node then retM None
     else bindM (get_next list) (\<lambda>list. find_loop n last_node list key hash))"

definition hashtable_find_pair :: "bucket \<Rightarrow> key \<Rightarrow> size_t \<Rightarrow> ('v, 'z, lnode option) HM" where
  "hashtable_find_pair b key hash = bindM getO (\<lambda>h.
     if bucket_is_empty b then retM None
     else find_loop (fuel h) (b_last b) (b_first b) key hash)"

definition free_pair :: "lnode \<Rightarrow> ('v, 'z, unit) HM" where
  "free_pair n = bindM getO (\<lambda>h. case n of
       Head \<Rightarrow> failM CRASH
     | Node a \<Rightarrow> putO (h\<lparr>ht_pairs := (ht_pairs h)(a := None)\<rparr>))"

definition hashtable_do_del :: "key \<Rightarrow> size_t \<Rightarrow> ('v, 'z, unit) HM" where
  "hashtable_do_del key hash =
     bindM num_buckets (\<lambda>num.
     let index = unat (hash mod num) in
     bindM (get_bucket index) (\<lambda>b.
     bindM (hashtable_find_pair b key hash) (\<lambda>pair. case pair of
       None \<Rightarrow> failM NOERRNO
     | Some list \<Rightarrow>
         bindM (if list = b_first b \<and> list = b_last b then set_bucket index \<lparr>b_first = Head, b_last = Head\<rparr>
                else if list = b_first b then bindM (get_next list) (\<lambda>n. set_bucket index (b\<lparr>b_first := n\<rparr>))
                else if list = b_last b then bindM (get_prev list) (\<lambda>p. set_bucket index (b\<lparr>b_last := p\<rparr>))
                else retM ()) (\<lambda>_.
         bindM (list_remove list) (\<lambda>_.
         bindM (list_to_pair list) (\<lambda>p.
         bindM (json_decref (p_value p)) (\<lambda>_.
         bindM (free_pair list) (\<lambda>_.
         bindM getO (\<lambda>h. putO (h\<lparr>ht_size := ht_size h - 1\<rparr>)))))))))) "

fun clear_loop :: "nat \<Rightarrow> lnode \<Rightarrow> ('v, 'z, unit) HM" where
  "clear_loop 0 list = failM DIVERGES"
| "clear_loop (Suc n) list =
     (if list = Head then retM ()
      else
        bindM (get_next list) (\<lambda>nx.
        bindM (list_to_pair list) (\<lambda>p.
        bindM (json_decref (p_value p)) (\<lambda>_.
        bindM (free_pair list) (\<lambda>_.
        clear_loop n nx)))))"

definition hashtable_do_clear :: "('v, 'z, unit) HM" where
  "hashtable_do_clear = bindM getO (\<lambda>h. bindM (get_next Head) (\<lambda>list. clear_loop (fuel h) list))"

definition empty_buckets :: "size_t \<Rightarrow> bucket list" where
  "empty_buckets n = replicate (unat n) \<lparr>b_first = Head, b_last = Head\<rparr>"

fun rehash_loop :: "nat \<Rightarrow> size_t \<Rightarrow> lnode \<Rightarrow> ('v, 'z, unit) HM" where
  "rehash_loop 0 new_size list = failM DIVERGES"
| "rehash_loop (Suc n) new_size list =
     (if list = Head then retM ()
      else
        bindM (get_next list) (\<lambda>nx.
        bindM (list_to_pair list) (\<lambda>p.
        bindM (insert_to_bucket (unat (p_hash p mod new_size)) list) (\<lambda>_.
        rehash_loop n new_size nx))))"

definition hashtable_do_rehash :: "('v, 'z, unit) HM" where
  "hashtable_do_rehash =
     bindM getO (\<lambda>h.
     bindM (putO (h\<lparr>ht_buckets := None, ht_num_buckets := ht_num_buckets h + 1\<rparr>)) (\<lambda>_.
     bindM num_buckets (\<lambda>new_size.
     bindM (lift malloc) (\<lambda>_.
     bindM getO (\<lambda>h.
     bindM (putO (h\<lparr>ht_buckets := Some (empty_buckets new_size)\<rparr>)) (\<lambda>_.
     bindM (get_next Head) (\<lambda>list.
     bindM (list_init Head) (\<lambda>_.
     rehash_loop (fuel h) new_size list))))))))"

subsection \<open>The interface\<close>

definition hashtable_init :: "('v, 'z, unit) HM" where
  "hashtable_init =
     bindM getO (\<lambda>h.
     bindM (putO (h\<lparr>ht_size := 0, ht_num_buckets := 0, ht_buckets := None\<rparr>)) (\<lambda>_.
     bindM num_buckets (\<lambda>num.
     bindM (lift malloc) (\<lambda>_.
     bindM (list_init Head) (\<lambda>_.
     bindM getO (\<lambda>h. putO (h\<lparr>ht_buckets := Some (empty_buckets num)\<rparr>)))))))"

definition hashtable_close :: "('v, 'z, unit) HM" where
  "hashtable_close = bindM hashtable_do_clear (\<lambda>_. bindM getO (\<lambda>h. putO (h\<lparr>ht_buckets := None\<rparr>)))"

definition new_pair :: "'v pair_t \<Rightarrow> ('v, 'z, lnode) HM" where
  "new_pair p = bindM getO (\<lambda>h.
     bindM (putO (h\<lparr>ht_pairs := (ht_pairs h)(ht_fresh h := Some p), ht_fresh := ht_fresh h + 1\<rparr>)) (\<lambda>_.
     retM (Node (ht_fresh h))))"

definition set_value :: "lnode \<Rightarrow> 'v \<Rightarrow> ('v, 'z, unit) HM" where
  "set_value n v = bindM getO (\<lambda>h. case n of
       Head \<Rightarrow> failM CRASH
     | Node a \<Rightarrow>
         (case ht_pairs h a of
            None \<Rightarrow> failM CRASH
          | Some p \<Rightarrow> putO (h\<lparr>ht_pairs := (ht_pairs h)(a := Some (p\<lparr>p_value := v\<rparr>))\<rparr>)))"

definition hashtable_set :: "key \<Rightarrow> size_t \<Rightarrow> 'v \<Rightarrow> ('v, 'z, unit) HM" where
  "hashtable_set key serial val =
     bindM getO (\<lambda>h.
     bindM num_buckets (\<lambda>num.
     bindM (if ht_size h \<ge> num then hashtable_do_rehash else retM ()) (\<lambda>_.
     let hash = hash_str key in
     bindM num_buckets (\<lambda>num.
     let index = unat (hash mod num) in
     bindM (get_bucket index) (\<lambda>b.
     bindM (hashtable_find_pair b key hash) (\<lambda>pair. case pair of
       Some list \<Rightarrow>
         bindM (list_to_pair list) (\<lambda>p.
         bindM (json_decref (p_value p)) (\<lambda>_.
         set_value list val))
     | None \<Rightarrow>
         bindM (lift malloc) (\<lambda>_.
         bindM (new_pair \<lparr>p_hash = hash, p_value = val, p_serial = serial, p_key = key\<rparr>) (\<lambda>list.
         bindM (list_init list) (\<lambda>_.
         bindM (insert_to_bucket index list) (\<lambda>_.
         bindM getO (\<lambda>h. putO (h\<lparr>ht_size := ht_size h + 1\<rparr>))))))))))))"

definition hashtable_iter_at :: "key \<Rightarrow> ('v, 'z, lnode option) HM" where
  "hashtable_iter_at key =
     (let hash = hash_str key in
      bindM num_buckets (\<lambda>num.
      bindM (get_bucket (unat (hash mod num))) (\<lambda>b.
      hashtable_find_pair b key hash)))"

definition hashtable_get :: "key \<Rightarrow> ('v, 'z, 'v option) HM" where
  "hashtable_get key =
     (let hash = hash_str key in
      bindM num_buckets (\<lambda>num.
      bindM (get_bucket (unat (hash mod num))) (\<lambda>b.
      bindM (hashtable_find_pair b key hash) (\<lambda>pair. case pair of
        None \<Rightarrow> retM None
      | Some list \<Rightarrow> bindM (list_to_pair list) (\<lambda>p. retM (Some (p_value p)))))))"

definition hashtable_del :: "key \<Rightarrow> ('v, 'z, unit) HM" where
  "hashtable_del key = hashtable_do_del key (hash_str key)"

definition hashtable_clear :: "('v, 'z, unit) HM" where
  "hashtable_clear =
     bindM hashtable_do_clear (\<lambda>_.
     bindM num_buckets (\<lambda>num.
     bindM getO (\<lambda>h.
     bindM (if ht_buckets h = None then failM CRASH else putO (h\<lparr>ht_buckets := Some (empty_buckets num)\<rparr>)) (\<lambda>_.
     bindM (list_init Head) (\<lambda>_.
     bindM getO (\<lambda>h. putO (h\<lparr>ht_size := 0\<rparr>)))))))"

definition hashtable_iter_next :: "lnode \<Rightarrow> ('v, 'z, lnode option) HM" where
  "hashtable_iter_next list = bindM (get_next list) (\<lambda>n. retM (if n = Head then None else Some n))"

definition hashtable_iter :: "('v, 'z, lnode option) HM" where
  "hashtable_iter = hashtable_iter_next Head"

definition hashtable_iter_key :: "lnode \<Rightarrow> ('v, 'z, key) HM" where
  "hashtable_iter_key list = bindM (list_to_pair list) (\<lambda>p. retM (p_key p))"

definition hashtable_iter_serial :: "lnode \<Rightarrow> ('v, 'z, size_t) HM" where
  "hashtable_iter_serial list = bindM (list_to_pair list) (\<lambda>p. retM (p_serial p))"

definition hashtable_iter_value :: "lnode \<Rightarrow> ('v, 'z, 'v) HM" where
  "hashtable_iter_value list = bindM (list_to_pair list) (\<lambda>p. retM (p_value p))"

definition hashtable_iter_set :: "lnode \<Rightarrow> 'v \<Rightarrow> ('v, 'z, unit) HM" where
  "hashtable_iter_set list val =
     bindM (list_to_pair list) (\<lambda>p.
     bindM (json_decref (p_value p)) (\<lambda>_.
     set_value list val))"

end
