(* ===== verification/Hashtable_Ring.thy ===== *)
theory Hashtable_Ring
  imports Hashtable
begin

text \<open>
  The shape of a hash table in memory: doubly linked rings, their groups of pairs with equal index
  and the buckets that point at the groups; searching a bucket and linking a pair into one.
\<close>

subsection \<open>Doubly linked paths\<close>

fun dlink :: "(lnode \<Rightarrow> lnode) \<Rightarrow> (lnode \<Rightarrow> lnode) \<Rightarrow> lnode list \<Rightarrow> bool" where
  "dlink nx pv (a # b # cs) \<longleftrightarrow> nx a = b \<and> pv b = a \<and> dlink nx pv (b # cs)"
| "dlink nx pv _ \<longleftrightarrow> True"

lemma dlink_append: "dlink nx pv (us @ p # vs) \<longleftrightarrow> dlink nx pv (us @ [p]) \<and> dlink nx pv (p # vs)"
proof (induction us)
  case (Cons u us)
  then show ?case by (cases us) auto
qed simp

lemma dlink_next: "u \<notin> set (butlast as) \<Longrightarrow> dlink (nx(u := x)) pv as = dlink nx pv as"
  by (induction nx pv as rule: dlink.induct) (auto split: if_splits)

lemma dlink_prev: "u \<notin> set (tl as) \<Longrightarrow> dlink nx (pv(u := x)) as = dlink nx pv as"
  by (induction nx pv as rule: dlink.induct) auto

lemma dlink_insert:
  assumes "dlink nx pv (us @ p # l # vs)" and "n \<notin> set (us @ p # l # vs)"
    and "distinct (butlast (us @ p # l # vs))" and "distinct (tl (us @ p # l # vs))"
  shows "dlink (nx(n := l, p := n)) (pv(n := p, l := n)) (us @ p # n # l # vs)"
proof -
  have old: "dlink nx pv (us @ [p])" "dlink nx pv (l # vs)" using assms(1) dlink_append [of nx pv us p "l # vs"] by simp_all
  have "p \<notin> set us" "p \<notin> set (butlast (l # vs))" using assms(3) by (auto simp: butlast_append split: if_splits)
  moreover have "l \<notin> set (tl (us @ [p]))" "l \<notin> set vs" using assms(4) by (cases us; auto)+
  moreover have "n \<notin> set us" "n \<noteq> p" "n \<noteq> l" "n \<notin> set vs" using assms(2) by auto
  moreover from this have "n \<notin> set (tl (us @ [p]))" "n \<notin> set (butlast (l # vs))"
    by (cases us; auto dest: in_set_butlastD)+
  ultimately have "dlink (nx(n := l, p := n)) (pv(n := p, l := n)) (us @ [p])"
      "dlink (nx(n := l, p := n)) (pv(n := p, l := n)) (l # vs)"
    using old by (auto simp: dlink_next dlink_prev butlast_append dest: in_set_butlastD)
  then show ?thesis using \<open>n \<noteq> p\<close> \<open>n \<noteq> l\<close> by (subst dlink_append) auto
qed

lemma dlink_remove:
  assumes "dlink nx pv (us @ p # n # l # vs)"
    and "distinct (butlast (us @ p # n # l # vs))" and "distinct (tl (us @ p # n # l # vs))"
  shows "nx n = l" and "pv n = p" and "dlink (nx(p := l)) (pv(l := p)) (us @ p # l # vs)"
proof -
  have old: "dlink nx pv (us @ [p])" "dlink nx pv (l # vs)" and n: "nx n = l" "pv n = p"
    using assms(1) dlink_append [of nx pv us p "n # l # vs"] by simp_all
  have "p \<notin> set us" "p \<notin> set (butlast (l # vs))" using assms(2) by (auto simp: butlast_append split: if_splits)
  moreover have "l \<notin> set (tl (us @ [p]))" "l \<notin> set vs" using assms(3) by (cases us; auto)+
  ultimately have "dlink (nx(p := l)) (pv(l := p)) (us @ [p])" "dlink (nx(p := l)) (pv(l := p)) (l # vs)"
    using old by (auto simp: dlink_next dlink_prev butlast_append)
  then show "dlink (nx(p := l)) (pv(l := p)) (us @ p # l # vs)" by (subst dlink_append) auto
  show "nx n = l" "pv n = p" by (fact n)+
qed

subsection \<open>The ring\<close>

definition ring :: "nat list \<Rightarrow> lnode list" where
  "ring ns = Head # map Node ns @ [Head]"

lemma ring_distinct: "distinct ns \<Longrightarrow> distinct (butlast (ring ns))" "distinct ns \<Longrightarrow> distinct (tl (ring ns))"
  by (auto simp: ring_def butlast_append distinct_map inj_on_def)

text \<open>The neighbours of the place between \<open>xs\<close> and \<open>ys\<close>.\<close>

definition before :: "nat list \<Rightarrow> lnode" where
  "before xs = (if xs = [] then Head else Node (last xs))"

definition after :: "nat list \<Rightarrow> lnode" where
  "after ys = (if ys = [] then Head else Node (hd ys))"

lemma ring_split: "\<exists>us vs. \<forall>zs. ring (xs @ zs @ ys) = us @ before xs # map Node zs @ after ys # vs"
proof -
  obtain us where us: "Head # map Node xs = us @ [before xs]"
    by (cases xs rule: rev_cases) (auto simp: before_def)
  obtain vs where vs: "map Node ys @ [Head] = after ys # vs" by (cases ys) (auto simp: after_def)
  have "ring (xs @ zs @ ys) = (Head # map Node xs) @ map Node zs @ (map Node ys @ [Head])" for zs by (simp add: ring_def)
  then have "ring (xs @ zs @ ys) = us @ before xs # map Node zs @ after ys # vs" for zs unfolding us vs by simp
  then show ?thesis by blast
qed

lemma ring_insert:
  assumes "dlink nx pv (ring (xs @ ys))" and "distinct (xs @ ys)" and "n \<notin> set (xs @ ys)"
  shows "pv (after ys) = before xs"
    and "dlink (nx(Node n := after ys, before xs := Node n)) (pv(Node n := before xs, after ys := Node n)) (ring (xs @ n # ys))"
proof -
  obtain us vs where r: "\<And>zs. ring (xs @ zs @ ys) = us @ before xs # map Node zs @ after ys # vs" using ring_split [of xs ys] by blast
  note r0 = r [of "[]", simplified]
  have "Node n \<notin> set (ring (xs @ ys))" using assms(3) by (auto simp: ring_def)
  then show "dlink (nx(Node n := after ys, before xs := Node n)) (pv(Node n := before xs, after ys := Node n)) (ring (xs @ n # ys))"
    using dlink_insert [OF assms(1) [unfolded r0], of "Node n"] ring_distinct [OF assms(2)] r [of "[n]"] by (simp add: r0)
  show "pv (after ys) = before xs" using assms(1) dlink_append [of nx pv us "before xs" "after ys # vs"] unfolding r0 by simp
qed

lemma ring_remove:
  assumes "dlink nx pv (ring (xs @ n # ys))" and "distinct (xs @ n # ys)"
  shows "nx (Node n) = after ys" and "pv (Node n) = before xs"
    and "dlink (nx(before xs := after ys)) (pv(after ys := before xs)) (ring (xs @ ys))"
proof -
  obtain us vs where r: "\<And>zs. ring (xs @ zs @ ys) = us @ before xs # map Node zs @ after ys # vs" using ring_split [of xs ys] by blast
  note r1 = r [of "[n]", simplified] and r0 = r [of "[]", simplified]
  note rem = dlink_remove [OF assms(1) [unfolded r1], folded r1, OF ring_distinct [OF assms(2)]]
  show "nx (Node n) = after ys" "pv (Node n) = before xs"
    "dlink (nx(before xs := after ys)) (pv(after ys := before xs)) (ring (xs @ ys))" using rem unfolding r0 by blast+
qed

lemma ring_next:
  assumes "dlink nx pv (ring (xs @ a # ys))"
  shows "nx (Node a) = after ys"
proof -
  obtain us vs where r: "\<And>zs. ring (xs @ zs @ ys) = us @ before xs # map Node zs @ after ys # vs" using ring_split [of xs ys] by blast
  show ?thesis using assms dlink_append [of nx pv us "before xs" "Node a # after ys # vs"] r [of "[a]"] by simp
qed

lemma ring_first: "dlink nx pv (ring ns) \<Longrightarrow> nx Head = after ns"
  by (cases ns) (auto simp: ring_def after_def)

subsection \<open>Running the list operations\<close>

lemma bindM_getO: "bindM getO g (h, s) = g h (h, s)"
  by (simp add: bindM_def getO_def)

lemma bindM_putO: "bindM (putO x) g (h, s) = g () (x, s)" "putO x (h, s) = (Inr (), (x, s))"
  by (simp_all add: bindM_def putO_def)

lemmas hm_defs = bindM_def getO_def putO_def lift_def get_next_def get_prev_def set_next_def set_prev_def

lemma valid_update [simp]:
  "valid (h\<lparr>ht_next := f\<rparr>) n = valid h n" "valid (h\<lparr>ht_prev := f\<rparr>) n = valid h n" "valid (h\<lparr>ht_buckets := b\<rparr>) n = valid h n"
  "valid (h\<lparr>ht_size := z\<rparr>) n = valid h n" "valid h Head"
  by (simp_all add: valid_def split: lnode.split)

lemma valid_Pair: "valid h (Node a) \<longleftrightarrow> a \<in> dom (ht_pairs h)"
  by (auto simp: valid_def)

lemma valid_before: "set xs \<subseteq> dom (ht_pairs h) \<Longrightarrow> valid h (before xs)"
  by (cases xs rule: rev_cases) (auto simp: before_def valid_Pair)

lemma valid_after: "set ys \<subseteq> dom (ht_pairs h) \<Longrightarrow> valid h (after ys)"
  by (cases ys) (auto simp: after_def valid_Pair)

lemma list_insert_run:
  assumes "valid h list" "valid h node" "valid h (ht_prev h list)" "node \<noteq> list" "node \<noteq> ht_prev h list"
  shows "list_insert list node (h, s) = (Inr (), (h\<lparr>ht_next := (ht_next h)(node := list, ht_prev h list := node),
    ht_prev := (ht_prev h)(node := ht_prev h list, list := node)\<rparr>, s))"
  using assms by (simp add: list_insert_def hm_defs)

lemma list_remove_run:
  assumes "valid h list" "valid h (ht_prev h list)" "valid h (ht_next h list)" "ht_prev h list \<noteq> list"
  shows "list_remove list (h, s) = (Inr (), (h\<lparr>ht_next := (ht_next h)(ht_prev h list := ht_next h list),
    ht_prev := (ht_prev h)(ht_next h list := ht_prev h list)\<rparr>, s))"
  using assms by (simp add: list_remove_def hm_defs)

lemma list_init_run:
  "valid h n \<Longrightarrow> list_init n (h, s) = (Inr (), (h\<lparr>ht_next := (ht_next h)(n := n), ht_prev := (ht_prev h)(n := n)\<rparr>, s))"
  by (simp add: list_init_def hm_defs)

lemma list_to_pair_run: "ht_pairs h a = Some p \<Longrightarrow> list_to_pair (Node a) (h, s) = (Inr p, (h, s))"
  by (simp add: list_to_pair_def hm_defs)


subsection \<open>The invariant of a table\<close>

text \<open>
  The ring consists of groups, one for every index with pairs: \<open>gs\<close> lists the indices with the
  addresses of their pairs, and a bucket points at the ends of its group.
\<close>

type_synonym groups = "(nat \<times> nat list) list"

definition nodes :: "groups \<Rightarrow> nat list" where
  "nodes gs = concat (map snd gs)"

lemma nodes_simps [simp]: "nodes [] = []" "nodes ((i, g) # gs) = g @ nodes gs" "nodes (us @ vs) = nodes us @ nodes vs"
  by (simp_all add: nodes_def)

definition group_ends :: "nat list option \<Rightarrow> bucket" where
  "group_ends g = (case g of None \<Rightarrow> \<lparr>b_first = Head, b_last = Head\<rparr>
     | Some g \<Rightarrow> \<lparr>b_first = Node (hd g), b_last = Node (last g)\<rparr>)"

definition pair_at :: "'v hashtable \<Rightarrow> nat \<Rightarrow> 'v pair_t" where
  "pair_at h a = the (ht_pairs h a)"

definition prime :: "'v hashtable \<Rightarrow> size_t" where
  "prime h = primes ! ht_num_buckets h"

definition pair_index :: "'v hashtable \<Rightarrow> nat \<Rightarrow> nat" where
  "pair_index h a = unat (p_hash (pair_at h a) mod prime h)"

definition grouped :: "'v hashtable \<Rightarrow> groups \<Rightarrow> bool" where
  "grouped h gs \<longleftrightarrow> distinct (map fst gs) \<and> distinct (nodes gs) \<and> set (nodes gs) \<subseteq> dom (ht_pairs h) \<and>
     (\<forall>(i, g) \<in> set gs. g \<noteq> [] \<and> (\<forall>a \<in> set g. pair_index h a = i)) \<and>
     dlink (ht_next h) (ht_prev h) (ring (nodes gs)) \<and>
     ht_num_buckets h < length primes \<and>
     ht_buckets h = Some (map (\<lambda>i. group_ends (map_of gs i)) [0..<unat (prime h)])"

definition table :: "'v hashtable \<Rightarrow> groups \<Rightarrow> bool" where
  "table h gs \<longleftrightarrow> grouped h gs \<and> dom (ht_pairs h) = set (nodes gs) \<and> (\<forall>a \<in> dom (ht_pairs h). a < ht_fresh h) \<and>
     unat (ht_size h) = length (nodes gs) \<and>
     (\<forall>a \<in> dom (ht_pairs h). p_hash (pair_at h a) = hash_str (p_key (pair_at h a))) \<and>
     inj_on (\<lambda>a. p_key (pair_at h a)) (dom (ht_pairs h))"

lemma primes_bounds: "\<forall>p \<in> set primes. 5 \<le> unat p"
  by (simp add: primes_def)

lemma prime_pos: "ht_num_buckets h < length primes \<Longrightarrow> 5 \<le> unat (prime h)"
  unfolding prime_def using primes_bounds nth_mem by blast

lemma bucket_index_less: "ht_num_buckets h < length primes \<Longrightarrow> unat (x mod prime h) < unat (prime h)"
proof -
  assume "ht_num_buckets h < length primes"
  then have "0 < unat (prime h)" using prime_pos [of h] by linarith
  then show ?thesis by (simp add: unat_mod)
qed

lemma num_buckets_run: "ht_num_buckets h < length primes \<Longrightarrow> num_buckets (h, s) = (Inr (prime h), (h, s))"
  by (simp add: num_buckets_def hm_defs prime_def)

lemma get_bucket_run:
  "grouped h gs \<Longrightarrow> i < unat (prime h) \<Longrightarrow> get_bucket i (h, s) = (Inr (group_ends (map_of gs i)), (h, s))"
  by (simp add: get_bucket_def grouped_def hm_defs)

lemma set_bucket_run:
  "ht_buckets h = Some bs \<Longrightarrow> i < length bs \<Longrightarrow> set_bucket i b (h, s) = (Inr (), (h\<lparr>ht_buckets := Some (bs[i := b])\<rparr>, s))"
  by (simp add: set_bucket_def hm_defs)

lemma group_ends_empty [simp]: "bucket_is_empty (group_ends g) \<longleftrightarrow> g = None"
  by (auto simp: bucket_is_empty_def group_ends_def split: option.split)

lemma buckets_update:
  "i < n \<Longrightarrow> (map (\<lambda>i. group_ends (m i)) [0..<n])[i := group_ends x] = map (\<lambda>j. group_ends ((m(i := x)) j)) [0..<n]"
  by (rule nth_equalityI) (auto simp: nth_list_update)

subsection \<open>Searching\<close>

definition matches :: "'v hashtable \<Rightarrow> key \<Rightarrow> size_t \<Rightarrow> nat \<Rightarrow> bool" where
  "matches h key hash a \<longleftrightarrow> p_hash (pair_at h a) = hash \<and> p_key (pair_at h a) = key"

lemma find_loop_run:
  assumes "set g \<subseteq> dom (ht_pairs h)" and "dlink (ht_next h) (ht_prev h) (map Node g)" and "distinct g" and "g \<noteq> []" and "length g \<le> n"
  shows "find_loop n (Node (last g)) (Node (hd g)) key hash (h, s) = (Inr (map_option Node (find (matches h key hash) g)), (h, s))"
  using assms
proof (induction g arbitrary: n)
  case (Cons a g)
  then obtain m where n: "n = Suc m" by (cases n) auto
  obtain p where p: "ht_pairs h a = Some p" using Cons.prems(1) by auto
  note run = list_to_pair_run [of h a p, OF p]
  show ?case
  proof (cases "matches h key hash a \<or> g = []")
    case True
    then show ?thesis using p by (auto simp: n bindM_def run matches_def pair_at_def)
  next
    case False
    then have "hd g \<in> set g" "last g \<in> set g" by simp_all
    then have l: "Node a \<noteq> Node (last g)" "ht_next h (Node a) = Node (hd g)" "dlink (ht_next h) (ht_prev h) (map Node g)"
      using Cons.prems(2,3) False by (cases g; auto)+
    have nx: "get_next (Node a) (h, s) = (Inr (Node (hd g)), (h, s))" using p l(2) by (simp add: hm_defs valid_def)
    show ?thesis using Cons.IH [of m] Cons.prems False l p by (auto simp: n bindM_def run nx matches_def pair_at_def)
  qed
qed simp

lemma grouped_split:
  assumes "grouped h gs" and "map_of gs i = Some g"
  obtains us vs where "gs = us @ (i, g) # vs" and "i \<notin> fst ` set us" and "i \<notin> fst ` set vs" and "g \<noteq> []"
proof -
  from assms(2) obtain us vs where gs: "gs = us @ (i, g) # vs" by (meson map_of_SomeD split_list)
  then show thesis using assms(1) by (intro that [of us vs]) (auto simp: grouped_def)
qed

lemma group_link:
  assumes "grouped h gs" and "map_of gs i = Some g"
  shows "dlink (ht_next h) (ht_prev h) (map Node g)" and "distinct g" and "g \<noteq> []" and "set g \<subseteq> dom (ht_pairs h)"
    and "length g \<le> length (nodes gs)"
proof -
  obtain us vs where gs: "gs = us @ (i, g) # vs" "g \<noteq> []" using grouped_split [OF assms] .
  have r: "ring (nodes gs) = (Head # map Node (nodes us)) @ map Node g @ (map Node (nodes vs) @ [Head])"
    by (simp add: ring_def gs)
  have seg: "dlink nx pv (xs @ ys @ zs) \<Longrightarrow> dlink nx pv ys" for nx pv xs ys zs
  proof -
    have "dlink nx pv (xs @ ys) \<Longrightarrow> dlink nx pv ys" for xs ys
      using dlink_append [of nx pv xs "hd ys" "tl ys"] by (cases ys) auto
    moreover have "dlink nx pv (ys @ zs) \<Longrightarrow> dlink nx pv ys" for ys zs
      by (induction nx pv ys rule: dlink.induct) auto
    ultimately show "dlink nx pv (xs @ ys @ zs) \<Longrightarrow> dlink nx pv ys" by blast
  qed
  show "dlink (ht_next h) (ht_prev h) (map Node g)" using assms(1) seg unfolding grouped_def r by blast
  show "distinct g" "g \<noteq> []" "set g \<subseteq> dom (ht_pairs h)" "length g \<le> length (nodes gs)"
    using assms(1) gs by (auto simp: grouped_def)
qed

lemma find_pair_run:
  assumes "grouped h gs" and "length (nodes gs) \<le> unat (ht_size h)"
  shows "hashtable_find_pair (group_ends (map_of gs i)) key hash (h, s) =
    (Inr (case map_of gs i of None \<Rightarrow> None | Some g \<Rightarrow> map_option Node (find (matches h key hash) g)), (h, s))"
proof (cases "map_of gs i")
  case None
  then show ?thesis by (simp add: hashtable_find_pair_def hm_defs)
next
  case (Some g)
  note g = group_link [OF assms(1) Some]
  have "find_loop (fuel h) (Node (last g)) (Node (hd g)) key hash (h, s) = (Inr (map_option Node (find (matches h key hash) g)), (h, s))"
    using g assms(2) by (intro find_loop_run) (simp_all add: fuel_def)
  moreover have "\<not> bucket_is_empty (group_ends (Some g))" by simp
  ultimately show ?thesis using Some by (simp add: hashtable_find_pair_def hm_defs group_ends_def del: group_ends_empty)
qed

subsection \<open>Linking a pair into its bucket\<close>

lemma insert_to_bucket_run:
  assumes gr: "grouped h gs" and a: "a \<in> dom (ht_pairs h)" "a \<notin> set (nodes gs)" and i: "i = pair_index h a"
  obtains h' gs' where "insert_to_bucket i (Node a) (h, s) = (Inr (), (h', s))" and "grouped h' gs'"
    and "set (nodes gs') = insert a (set (nodes gs))" and "length (nodes gs') = Suc (length (nodes gs))"
    and "ht_pairs h' = ht_pairs h" and "ht_size h' = ht_size h" and "ht_num_buckets h' = ht_num_buckets h" and "ht_fresh h' = ht_fresh h"
    and "\<And>b. b \<notin> insert a (set (nodes gs)) \<Longrightarrow> ht_next h' (Node b) = ht_next h (Node b)"
proof -
  have num: "ht_num_buckets h < length primes" using gr by (simp add: grouped_def)
  have il: "i < unat (prime h)" unfolding i pair_index_def by (rule bucket_index_less [OF num])
  define bs where "bs = map (\<lambda>i. group_ends (map_of gs i)) [0..<unat (prime h)]"
  have bs: "ht_buckets h = Some bs" "length bs = unat (prime h)" using gr by (simp_all add: grouped_def bs_def)
  obtain xs ys gs' g' where ns: "nodes gs = xs @ ys" "nodes gs' = xs @ a # ys"
    and at: "(if map_of gs i = None then Head else b_first (group_ends (map_of gs i))) = after ys"
    and gs': "map_of gs' = (map_of gs)(i \<mapsto> g')" "distinct (map fst gs')"
      "\<forall>(j, g) \<in> set gs'. g \<noteq> [] \<and> (\<forall>b \<in> set g. pair_index h b = j)"
    and g': "(if map_of gs i = None then \<lparr>b_first = Node a, b_last = Node a\<rparr> else (group_ends (map_of gs i))\<lparr>b_first := Node a\<rparr>)
      = group_ends (Some g')"
  proof (cases "map_of gs i")
    case None
    then have "i \<notin> fst ` set gs" by (simp add: map_of_eq_None_iff)
    moreover have "map_of (gs @ [(i, [a])]) = (map_of gs)(i \<mapsto> [a])"
      using None by (auto simp: map_add_def fun_eq_iff split: option.split)
    ultimately show thesis using gr None i
      by (intro that [of "nodes gs" "[]" "gs @ [(i, [a])]" "[a]"]) (auto simp: grouped_def after_def group_ends_def)
  next
    case (Some g)
    obtain us vs where gs: "gs = us @ (i, g) # vs" "i \<notin> fst ` set us" "i \<notin> fst ` set vs" "g \<noteq> []" using grouped_split [OF gr Some] .
    have "map_of us i = None" using gs(2) by (simp add: map_of_eq_None_iff)
    then have "map_of (us @ (i, a # g) # vs) = (map_of gs)(i \<mapsto> a # g)" by (auto simp: gs(1) map_add_def fun_eq_iff split: option.split)
    then show thesis using gr Some i gs
      by (intro that [of "nodes us" "g @ nodes vs" "us @ (i, a # g) # vs" "a # g"])
        (auto simp: grouped_def after_def group_ends_def)
  qed
  let ?nx = "(ht_next h)(Node a := after ys, before xs := Node a)" and ?pv = "(ht_prev h)(Node a := before xs, after ys := Node a)"
  define h' where "h' = h\<lparr>ht_next := ?nx, ht_prev := ?pv, ht_buckets := Some (bs[i := group_ends (Some g')])\<rparr>"
  have dl: "dlink (ht_next h) (ht_prev h) (ring (xs @ ys))" "distinct (xs @ ys)" "set (xs @ ys) \<subseteq> dom (ht_pairs h)"
    using gr ns(1) by (simp_all add: grouped_def)
  note ins = ring_insert [OF dl(1,2) a(2) [unfolded ns]]
  have pv: "ht_prev h (after ys) = before xs" by (rule ins(1))
  have "Node a \<noteq> after ys" "Node a \<noteq> before xs" using a(2) unfolding ns(1)
    by (auto simp: after_def before_def split: if_splits)
  then have li: "list_insert (after ys) (Node a) (h, s) = (Inr (), (h\<lparr>ht_next := ?nx, ht_prev := ?pv\<rparr>, s))"
    using list_insert_run [of h "after ys" "Node a" s] a(1) dl(3) valid_after [of ys h] valid_before [of xs h]
    by (simp add: pv valid_Pair)
  have run: "insert_to_bucket i (Node a) (h, s) = (Inr (), (h', s))"
    using li at g' bs il
    by (cases "map_of gs i") (simp_all add: insert_to_bucket_def bindM_def get_bucket_run [OF gr il] set_bucket_run h'_def)
  have idx: "pair_index h' b = pair_index h b" "prime h' = prime h" for b
    by (simp_all add: pair_index_def pair_at_def prime_def h'_def)
  have gr': "grouped h' gs'" unfolding grouped_def
  proof (intro conjI)
    show "ht_buckets h' = Some (map (\<lambda>i. group_ends (map_of gs' i)) [0..<unat (prime h')])"
      unfolding idx(2) gs'(1) by (simp add: h'_def bs_def buckets_update [OF il])
    show "dlink (ht_next h') (ht_prev h') (ring (nodes gs'))" using ins(2) by (simp add: ns(2) h'_def)
    show "\<forall>(i, g) \<in> set gs'. g \<noteq> [] \<and> (\<forall>a \<in> set g. pair_index h' a = i)" using gs'(3) by (simp add: idx(1))
  qed (use gs' dl a ns num in \<open>auto simp: h'_def\<close>)
  show thesis
  proof (rule that [OF run gr'])
    show "ht_next h' (Node b) = ht_next h (Node b)" if "b \<notin> insert a (set (nodes gs))" for b
      using that ns(1) by (auto simp: h'_def before_def)
  qed (simp_all add: ns h'_def)
qed

end
