(* ===== verification/Hashtable_Correct.thy ===== *)
theory Hashtable_Correct
  imports Hashtable_Ring
begin

text \<open>
  The operations of the hash table on the map from keys to values and serial numbers that a table
  represents, with the references they give up and their behaviour when an allocation fails.
\<close>

subsection \<open>Lookup\<close>

definition lookup :: "'v hashtable \<Rightarrow> groups \<Rightarrow> key \<Rightarrow> nat option" where
  "lookup h gs key =
     (case map_of gs (unat (hash_str key mod prime h)) of
        None \<Rightarrow> None
      | Some g \<Rightarrow> find (matches h key (hash_str key)) g)"

lemma lookup_iff:
  assumes "table h gs"
  shows "lookup h gs key = Some a \<longleftrightarrow> a \<in> dom (ht_pairs h) \<and> p_key (pair_at h a) = key"
proof
  assume "lookup h gs key = Some a"
  then obtain g where g: "map_of gs (unat (hash_str key mod prime h)) = Some g" "a \<in> set g" "matches h key (hash_str key) a"
    by (auto simp: lookup_def find_Some_iff split: option.splits)
  then show "a \<in> dom (ht_pairs h) \<and> p_key (pair_at h a) = key"
    using group_link(4) [of h gs _ g] assms by (auto simp: table_def matches_def)
next
  assume a: "a \<in> dom (ht_pairs h) \<and> p_key (pair_at h a) = key"
  have t: "grouped h gs" "p_hash (pair_at h a) = hash_str key" "inj_on (\<lambda>a. p_key (pair_at h a)) (dom (ht_pairs h))"
    "a \<in> set (nodes gs)" using assms a by (auto simp: table_def)
  from t(4) obtain i g where g: "(i, g) \<in> set gs" "a \<in> set g" by (auto simp: nodes_def)
  have i: "i = unat (hash_str key mod prime h)" using t(1,2) g by (fastforce simp: grouped_def pair_index_def)
  have m: "map_of gs i = Some g" using t(1) g(1) by (simp add: grouped_def)
  have ma: "matches h key (hash_str key) a" using a t(2) by (simp add: matches_def)
  then obtain b where b: "find (matches h key (hash_str key)) g = Some b"
    using g(2) by (cases "find (matches h key (hash_str key)) g") (auto simp: find_None_iff)
  then have "b \<in> set g" "p_key (pair_at h b) = key" by (auto simp: find_Some_iff matches_def)
  moreover have "set g \<subseteq> dom (ht_pairs h)" by (rule group_link(4) [OF t(1) m])
  ultimately have "b = a" using t(3) a by (auto simp: inj_on_def)
  with b m show "lookup h gs key = Some a" by (simp add: lookup_def i)
qed

lemma find_key_run:
  assumes "table h gs"
  shows "num_buckets (h, s) = (Inr (prime h), (h, s))"
    and "get_bucket (unat (hash_str key mod prime h)) (h, s) = (Inr (group_ends (map_of gs (unat (hash_str key mod prime h)))), (h, s))"
    and "hashtable_find_pair (group_ends (map_of gs (unat (hash_str key mod prime h)))) key (hash_str key) (h, s) =
      (Inr (map_option Node (lookup h gs key)), (h, s))"
proof -
  have gr: "grouped h gs" and num: "ht_num_buckets h < length primes" and sz: "length (nodes gs) \<le> unat (ht_size h)"
    using assms by (auto simp: table_def grouped_def)
  show "num_buckets (h, s) = (Inr (prime h), (h, s))" by (rule num_buckets_run [OF num])
  show "get_bucket (unat (hash_str key mod prime h)) (h, s) = (Inr (group_ends (map_of gs (unat (hash_str key mod prime h)))), (h, s))"
    by (rule get_bucket_run [OF gr bucket_index_less [OF num]])
  show "hashtable_find_pair (group_ends (map_of gs (unat (hash_str key mod prime h)))) key (hash_str key) (h, s) =
      (Inr (map_option Node (lookup h gs key)), (h, s))"
    unfolding find_pair_run [OF gr sz] by (simp add: lookup_def split: option.split)
qed

lemma ran_pairs: "(\<exists>p \<in> ran (ht_pairs h). P p) \<longleftrightarrow> (\<exists>a \<in> dom (ht_pairs h). P (pair_at h a))"
proof
  assume "\<exists>p \<in> ran (ht_pairs h). P p"
  then obtain a p where "ht_pairs h a = Some p" "P p" by (auto simp: ran_def)
  then show "\<exists>a \<in> dom (ht_pairs h). P (pair_at h a)" by (auto simp: pair_at_def intro!: bexI [of _ a])
qed (auto simp: ran_def pair_at_def)

text \<open>The table \<open>h\<close> represents the map \<open>m\<close> from keys to values and serial numbers.\<close>

definition rep :: "(key \<rightharpoonup> 'v \<times> size_t) \<Rightarrow> 'v hashtable \<Rightarrow> bool" where
  "rep m h \<longleftrightarrow> (\<exists>gs. table h gs) \<and>
     (\<forall>k v r. m k = Some (v, r) \<longleftrightarrow> (\<exists>p \<in> ran (ht_pairs h). p_key p = k \<and> p_value p = v \<and> p_serial p = r))"

lemma rep_lookup:
  assumes "table h gs" and "rep m h"
  shows "m k = map_option (\<lambda>a. (p_value (pair_at h a), p_serial (pair_at h a))) (lookup h gs k)"
proof (cases "lookup h gs k")
  case None
  then have "\<not> (\<exists>a \<in> dom (ht_pairs h). p_key (pair_at h a) = k)" using lookup_iff [OF assms(1), of k] by auto
  then have "\<not> (\<exists>p \<in> ran (ht_pairs h). p_key p = k)" by (simp add: ran_pairs)
  then have "m k = None" using assms(2) by (cases "m k") (auto simp: rep_def)
  with None show ?thesis by simp
next
  case (Some a)
  then have a: "a \<in> dom (ht_pairs h)" "p_key (pair_at h a) = k" using lookup_iff [OF assms(1)] by auto
  then have "pair_at h a \<in> ran (ht_pairs h)" by (auto simp: pair_at_def ran_def)
  then have "m k = Some (p_value (pair_at h a), p_serial (pair_at h a))" using a assms(2) by (auto simp: rep_def)
  with Some show ?thesis by simp
qed

lemma rep_key:
  assumes "table h gs"
  shows "rep m h \<longleftrightarrow> (\<forall>k. m k = map_option (\<lambda>a. (p_value (pair_at h a), p_serial (pair_at h a))) (lookup h gs k))"
proof
  assume m: "\<forall>k. m k = map_option (\<lambda>a. (p_value (pair_at h a), p_serial (pair_at h a))) (lookup h gs k)"
  have "m k = Some (v, r) \<longleftrightarrow> (\<exists>p \<in> ran (ht_pairs h). p_key p = k \<and> p_value p = v \<and> p_serial p = r)" for k v r
  proof -
    have "(\<exists>p \<in> ran (ht_pairs h). p_key p = k \<and> p_value p = v \<and> p_serial p = r) \<longleftrightarrow>
        (\<exists>a \<in> dom (ht_pairs h). p_key (pair_at h a) = k \<and> p_value (pair_at h a) = v \<and> p_serial (pair_at h a) = r)"
      by (rule ran_pairs)
    also have "\<dots> \<longleftrightarrow> m k = Some (v, r)" using m lookup_iff [OF assms, of k] by auto
    finally show ?thesis by simp
  qed
  then show "rep m h" using assms by (auto simp: rep_def)
qed (auto simp: rep_lookup [OF assms])

lemma rep_size:
  assumes "table h gs" and "rep m h"
  shows "unat (ht_size h) = card (dom m)"
proof -
  have "dom m = (\<lambda>a. p_key (pair_at h a)) ` dom (ht_pairs h)"
    using lookup_iff [OF assms(1)] by (force simp: rep_lookup [OF assms] dom_def)
  moreover have "inj_on (\<lambda>a. p_key (pair_at h a)) (dom (ht_pairs h))" using assms(1) unfolding table_def by blast
  ultimately have "card (dom m) = card (dom (ht_pairs h))" by (simp add: card_image)
  also have "\<dots> = length (nodes gs)" using assms(1) by (simp add: table_def distinct_card grouped_def)
  finally show ?thesis using assms(1) by (simp add: table_def)
qed

lemma hashtable_get_run:
  assumes "rep m h"
  shows "hashtable_get key (h, s) = (Inr (map_option fst (m key)), (h, s))"
proof -
  from assms obtain gs where t: "table h gs" by (auto simp: rep_def)
  show ?thesis
  proof (cases "lookup h gs key")
    case None
    then show ?thesis using rep_lookup [OF t assms, of key]
      by (simp add: hashtable_get_def bindM_def Let_def find_key_run [OF t])
  next
    case (Some a)
    then obtain p where p: "ht_pairs h a = Some p" using lookup_iff [OF t] by blast
    have "list_to_pair (Node a) (h, s) = (Inr p, (h, s))" by (rule list_to_pair_run [OF p])
    then show ?thesis using rep_lookup [OF t assms, of key] Some p
      by (simp add: hashtable_get_def bindM_def Let_def find_key_run [OF t] pair_at_def)
  qed
qed


lemma hashtable_iter_at_run:
  assumes "table h gs"
  shows "hashtable_iter_at key (h, s) = (Inr (map_option Node (lookup h gs key)), (h, s))"
  by (simp add: hashtable_iter_at_def bindM_def Let_def find_key_run [OF assms])

subsection \<open>Deletion\<close>

text \<open>Taking a pair out of its group.\<close>

lemma group_remove:
  assumes "grouped h gs" and "map_of gs i = Some g" and "a \<in> set g"
  obtains xs ys gs' g' where "nodes gs = xs @ a # ys" and "nodes gs' = xs @ ys" and "a \<notin> set (xs @ ys)"
    and "map_of gs' = (map_of gs)(i := g')" and "distinct (map fst gs')"
    and "\<forall>(j, g) \<in> set gs'. g \<noteq> [] \<and> (\<forall>b \<in> set g. pair_index h b = j)"
    and "group_ends g' =
      (if a = hd g \<and> a = last g then \<lparr>b_first = Head, b_last = Head\<rparr>
       else if a = hd g then (group_ends (Some g))\<lparr>b_first := after ys\<rparr>
       else if a = last g then (group_ends (Some g))\<lparr>b_last := before xs\<rparr>
       else group_ends (Some g))"
proof -
  obtain us vs where gs: "gs = us @ (i, g) # vs" "i \<notin> fst ` set us" "i \<notin> fst ` set vs" "g \<noteq> []" using grouped_split [OF assms(1,2)] .
  obtain g1 g2 where g: "g = g1 @ a # g2" using assms(3) by (meson split_list)
  have d: "distinct (nodes us @ g1 @ a # g2 @ nodes vs)" using assms(1) by (simp add: grouped_def gs(1) g)
  have us: "map_of us i = None" and vs: "map_of vs i = None" using gs by (simp_all add: map_of_eq_None_iff)
  let ?xs = "nodes us @ g1" and ?ys = "g2 @ nodes vs"
  show thesis
  proof (cases "g1 @ g2 = []")
    case True
    have "map_of (us @ vs) = (map_of gs)(i := None)"
      using us vs by (auto simp: gs(1) map_add_def fun_eq_iff split: option.split)
    with assms(1) d True show thesis
      by (intro that [of ?xs ?ys "us @ vs" None]) (auto simp: gs(1) g grouped_def group_ends_def)
  next
    case False
    have "map_of (us @ (i, g1 @ g2) # vs) = (map_of gs)(i := Some (g1 @ g2))"
      using us by (auto simp: gs(1) map_add_def fun_eq_iff split: option.split)
    moreover have "group_ends (Some (g1 @ g2)) =
      (if a = hd g \<and> a = last g then \<lparr>b_first = Head, b_last = Head\<rparr>
       else if a = hd g then (group_ends (Some g))\<lparr>b_first := after ?ys\<rparr>
       else if a = last g then (group_ends (Some g))\<lparr>b_last := before ?xs\<rparr>
       else group_ends (Some g))"
    proof -
      have "g1 \<noteq> [] \<Longrightarrow> hd g1 \<noteq> a" "g2 \<noteq> [] \<Longrightarrow> last g2 \<noteq> a" using d hd_in_set [of g1] last_in_set [of g2] by auto
      then show ?thesis using False
        by (cases "g1 = []"; cases "g2 = []") (auto simp: g group_ends_def after_def before_def)
    qed
    ultimately show thesis using assms(1) d False
      by (intro that [of ?xs ?ys "us @ (i, g1 @ g2) # vs" "Some (g1 @ g2)"]) (auto simp: gs(1) g grouped_def)
  qed
qed


definition del_bucket :: "nat \<Rightarrow> bucket \<Rightarrow> lnode \<Rightarrow> ('v, 'z, unit) HM" where
  "del_bucket i b list =
     (if list = b_first b \<and> list = b_last b then set_bucket i \<lparr>b_first = Head, b_last = Head\<rparr>
      else if list = b_first b then bindM (get_next list) (\<lambda>n. set_bucket i (b\<lparr>b_first := n\<rparr>))
      else if list = b_last b then bindM (get_prev list) (\<lambda>p. set_bucket i (b\<lparr>b_last := p\<rparr>))
      else retM ())"

lemma del_bucket_run:
  assumes "ht_buckets h = Some bs" and "i < length bs" and "bs ! i = group_ends (Some g)"
    and "valid h (Node a)" and "ht_next h (Node a) = n" and "ht_prev h (Node a) = p"
    and "group_ends g' =
      (if a = hd g \<and> a = last g then \<lparr>b_first = Head, b_last = Head\<rparr>
       else if a = hd g then (group_ends (Some g))\<lparr>b_first := n\<rparr>
       else if a = last g then (group_ends (Some g))\<lparr>b_last := p\<rparr>
       else group_ends (Some g))"
  shows "del_bucket i (group_ends (Some g)) (Node a) (h, s) = (Inr (), (h\<lparr>ht_buckets := Some (bs[i := group_ends g'])\<rparr>, s))"
proof -
  have "h\<lparr>ht_buckets := Some (bs[i := group_ends (Some g)])\<rparr> = h\<lparr>ht_buckets := ht_buckets h\<rparr>"
    using assms(1,3) by (metis list_update_id)
  moreover have "\<dots> = h" by simp
  moreover have ends: "b_first (group_ends (Some g)) = Node (hd g)" "b_last (group_ends (Some g)) = Node (last g)"
    by (simp_all add: group_ends_def)
  ultimately show ?thesis using assms
    by (cases "a = hd g"; cases "a = last g") (simp_all add: del_bucket_def ends set_bucket_run hm_defs(1,2,5,6) del: list_update_id)
qed

text \<open>The invariant without one pair.\<close>

lemma table_remove:
  assumes t: "table h gs" and ns: "nodes gs = xs @ a # ys" "nodes gs' = xs @ ys" "a \<notin> set (xs @ ys)"
    and gs': "map_of gs' = (map_of gs)(i := g')" "distinct (map fst gs')"
      "\<forall>(j, g) \<in> set gs'. g \<noteq> [] \<and> (\<forall>b \<in> set g. pair_index h b = j)"
    and il: "i < unat (prime h)"
    and h': "ht_pairs h' = (ht_pairs h)(a := None)" "ht_size h' = ht_size h - 1" "ht_num_buckets h' = ht_num_buckets h"
      "ht_fresh h' = ht_fresh h" "ht_next h' = (ht_next h)(before xs := after ys)" "ht_prev h' = (ht_prev h)(after ys := before xs)"
      "ht_buckets h' = Some ((map (\<lambda>i. group_ends (map_of gs i)) [0..<unat (prime h)])[i := group_ends g'])"
  shows "table h' gs'"
proof -
  have gr: "grouped h gs" and dom: "dom (ht_pairs h) = set (xs @ a # ys)" and d: "distinct (xs @ a # ys)"
    using t ns(1) by (simp_all add: table_def grouped_def)
  have pa: "pair_at h' b = pair_at h b" if "b \<noteq> a" for b using that by (simp add: pair_at_def h')
  have pr: "prime h' = prime h" by (simp add: prime_def h')
  have dom': "dom (ht_pairs h') = set (nodes gs')" using dom d by (auto simp: h' ns(2))
  have idx: "pair_index h' b = pair_index h b" if "b \<in> set (nodes gs')" for b
  proof -
    have "b \<noteq> a" using that ns(2,3) by auto
    then show ?thesis by (simp add: pair_index_def pa pr)
  qed
  have "g \<noteq> [] \<and> (\<forall>b \<in> set g. pair_index h' b = j)" if "(j, g) \<in> set gs'" for j g
  proof -
    have "set g \<subseteq> set (nodes gs')" using that by (auto simp: nodes_def)
    moreover have "g \<noteq> []" "\<forall>b \<in> set g. pair_index h b = j" using gs'(3) that by auto
    ultimately show ?thesis using idx by (simp add: subset_iff)
  qed
  moreover have "dlink (ht_next h') (ht_prev h') (ring (nodes gs'))"
    using ring_remove(3) [of "ht_next h" "ht_prev h" xs a ys] gr ns d by (simp add: grouped_def h')
  ultimately have "grouped h' gs'"
    using gr gs' d dom' ns by (auto simp: grouped_def pr h' buckets_update [OF il])
  moreover have "unat (ht_size h - 1) = length (nodes gs')"
  proof -
    have "unat (ht_size h) = Suc (length (nodes gs'))" using t by (simp add: table_def ns)
    moreover from this have "1 \<le> ht_size h" by (simp add: word_le_nat_alt)
    ultimately show ?thesis by (simp add: unat_sub)
  qed
  moreover have "pair_at h' b = pair_at h b" "b \<in> set (nodes gs)" if "b \<in> set (nodes gs')" for b
    using that ns pa [of b] by auto
  ultimately show ?thesis using t unfolding table_def dom' h'(2,4) inj_on_def by simp
qed

lemma hashtable_del_run:
  assumes "table h gs" and "lookup h gs key = Some a"
  shows "\<exists>h' gs'. hashtable_del key (h, s) = (Inr (), (h', s\<lparr>decrefs := decrefs s @ [p_value (pair_at h a)]\<rparr>)) \<and>
    table h' gs' \<and> ht_pairs h' = (ht_pairs h)(a := None)"
proof -
  have gr: "grouped h gs" and num: "ht_num_buckets h < length primes" using assms(1) by (auto simp: table_def grouped_def)
  define i where "i = unat (hash_str key mod prime h)"
  have il: "i < unat (prime h)" unfolding i_def by (rule bucket_index_less [OF num])
  from assms(2) obtain g where g: "map_of gs i = Some g" "a \<in> set g"
    by (auto simp: lookup_def i_def find_Some_iff split: option.splits)
  obtain xs ys gs' g' where ns: "nodes gs = xs @ a # ys" "nodes gs' = xs @ ys" "a \<notin> set (xs @ ys)"
    and gs': "map_of gs' = (map_of gs)(i := g')" "distinct (map fst gs')"
      "\<forall>(j, g) \<in> set gs'. g \<noteq> [] \<and> (\<forall>b \<in> set g. pair_index h b = j)"
    and g': "group_ends g' =
      (if a = hd g \<and> a = last g then \<lparr>b_first = Head, b_last = Head\<rparr>
       else if a = hd g then (group_ends (Some g))\<lparr>b_first := after ys\<rparr>
       else if a = last g then (group_ends (Some g))\<lparr>b_last := before xs\<rparr>
       else group_ends (Some g))"
    by (rule group_remove [OF gr g])
  have dl: "dlink (ht_next h) (ht_prev h) (ring (xs @ a # ys))" "distinct (xs @ a # ys)"
    and dom: "dom (ht_pairs h) = set (xs @ a # ys)" using gr assms(1) ns(1) by (simp_all add: grouped_def table_def)
  note rem = ring_remove [OF dl]
  obtain p where p: "ht_pairs h a = Some p" using dom by (metis domD in_set_conv_decomp)
  define bs where "bs = map (\<lambda>i. group_ends (map_of gs i)) [0..<unat (prime h)]"
  have bs: "ht_buckets h = Some bs" "i < length bs" "bs ! i = group_ends (Some g)"
    using gr il g(1) by (simp_all add: grouped_def bs_def)
  define h1 where "h1 = h\<lparr>ht_buckets := Some (bs[i := group_ends g'])\<rparr>"
  define h2 where "h2 = h1\<lparr>ht_next := (ht_next h)(before xs := after ys), ht_prev := (ht_prev h)(after ys := before xs)\<rparr>"
  define h' where "h' = h2\<lparr>ht_pairs := (ht_pairs h)(a := None), ht_size := ht_size h - 1\<rparr>"
  have va: "valid h (Node a)" "valid h (before xs)" "valid h (after ys)" "before xs \<noteq> Node a"
    using dom ns(3) valid_before [of xs h] valid_after [of ys h] by (auto simp: valid_Pair before_def)
  have "del_bucket i (group_ends (Some g)) (Node a) (h, s) = (Inr (), (h1, s))"
    unfolding h1_def by (rule del_bucket_run [OF bs va(1) rem(1,2) g'])
  moreover have "list_remove (Node a) (h1, s) = (Inr (), (h2, s))"
    using list_remove_run [of h1 "Node a" s] va rem(1,2) by (simp add: h1_def h2_def)
  moreover have "list_to_pair (Node a) (h2, s) = (Inr p, (h2, s))" by (rule list_to_pair_run) (simp add: h2_def h1_def p)
  ultimately have "hashtable_del key (h, s) = (Inr (), (h', s\<lparr>decrefs := decrefs s @ [p_value (pair_at h a)]\<rparr>))"
    using find_key_run(1) [OF assms(1), where s = s] find_key_run(2,3) [OF assms(1), where key = key and s = s, folded i_def] assms(2) g(1)
    unfolding hashtable_del_def hashtable_do_del_def del_bucket_def [symmetric]
    by (simp add: bindM_def Let_def json_decref_def lift_def free_pair_def getO_def putO_def pair_at_def p
        h'_def h2_def h1_def flip: i_def)
  moreover have "table h' gs'"
    by (rule table_remove [OF assms(1) ns gs' il]) (simp_all add: h'_def h2_def h1_def bs_def)
  ultimately show ?thesis by (auto simp: h'_def h2_def h1_def)
qed

subsection \<open>Rehashing\<close>

fun npath :: "(lnode \<Rightarrow> lnode) \<Rightarrow> lnode \<Rightarrow> nat list \<Rightarrow> bool" where
  "npath nx x [] \<longleftrightarrow> x = Head"
| "npath nx x (a # as) \<longleftrightarrow> x = Node a \<and> npath nx (nx (Node a)) as"

lemma npath_cong: "(\<And>a. a \<in> set as \<Longrightarrow> nx (Node a) = nx' (Node a)) \<Longrightarrow> npath nx x as = npath nx' x as"
  by (induction as arbitrary: x) auto

lemma ring_npath:
  assumes "dlink nx pv (ring ns)"
  shows "npath nx (nx Head) ns"
proof -
  have "dlink nx pv (y # map Node as @ [Head]) \<Longrightarrow> npath nx (nx y) as" for y as
    by (induction as arbitrary: y) auto
  then show ?thesis using assms by (simp add: ring_def)
qed

lemma rehash_loop_run:
  assumes "grouped h gs" and "npath (ht_next h) list ms" and "set ms \<subseteq> dom (ht_pairs h)" and "distinct ms"
    and "set ms \<inter> set (nodes gs) = {}" and "length ms < n"
  shows "\<exists>h' gs'. rehash_loop n (prime h) list (h, s) = (Inr (), (h', s)) \<and> grouped h' gs' \<and>
    set (nodes gs') = set (nodes gs) \<union> set ms \<and> length (nodes gs') = length (nodes gs) + length ms \<and>
    ht_pairs h' = ht_pairs h \<and> ht_size h' = ht_size h \<and> ht_num_buckets h' = ht_num_buckets h \<and> ht_fresh h' = ht_fresh h"
  using assms
proof (induction ms arbitrary: h gs list n)
  case Nil
  then obtain k where "n = Suc k" by (cases n) auto
  with Nil show ?case by auto
next
  case (Cons a ms)
  obtain k where n: "n = Suc k" using Cons.prems(6) by (cases n) auto
  have list: "list = Node a" "npath (ht_next h) (ht_next h (Node a)) ms" using Cons.prems(2) by auto
  obtain p where p: "ht_pairs h a = Some p" using Cons.prems(3) by auto
  have nx: "get_next (Node a) (h, s) = (Inr (ht_next h (Node a)), (h, s))" using p by (simp add: hm_defs valid_def)
  have idx: "unat (p_hash p mod prime h) = pair_index h a" using p by (simp add: pair_index_def pair_at_def)
  have "a \<in> dom (ht_pairs h)" "a \<notin> set (nodes gs)" using Cons.prems(3,5) by auto
  from insert_to_bucket_run [OF Cons.prems(1) this refl, of s] obtain h' gs' where
    ins: "insert_to_bucket (pair_index h a) (Node a) (h, s) = (Inr (), (h', s))" "grouped h' gs'"
      "set (nodes gs') = insert a (set (nodes gs))" "length (nodes gs') = Suc (length (nodes gs))"
      "ht_pairs h' = ht_pairs h" "ht_size h' = ht_size h" "ht_num_buckets h' = ht_num_buckets h" "ht_fresh h' = ht_fresh h"
    and frame: "\<And>b. b \<notin> insert a (set (nodes gs)) \<Longrightarrow> ht_next h' (Node b) = ht_next h (Node b)" by metis
  have "ht_next h' (Node b) = ht_next h (Node b)" if "b \<in> set ms" for b
    using frame [of b] Cons.prems(4,5) that by auto
  then have "npath (ht_next h') (ht_next h (Node a)) ms" using list(2) npath_cong [of ms "ht_next h'" "ht_next h"] by blast
  moreover have "prime h' = prime h" by (simp add: prime_def ins)
  ultimately obtain h2 gs2 where "rehash_loop k (prime h) (ht_next h (Node a)) (h', s) = (Inr (), (h2, s))" "grouped h2 gs2"
      "set (nodes gs2) = set (nodes gs') \<union> set ms" "length (nodes gs2) = length (nodes gs') + length ms"
      "ht_pairs h2 = ht_pairs h" "ht_size h2 = ht_size h" "ht_num_buckets h2 = ht_num_buckets h" "ht_fresh h2 = ht_fresh h"
    using Cons.IH [OF ins(2), of "ht_next h (Node a)" k] Cons.prems(3-6) n ins by auto
  then show ?case using ins
    by (auto simp: n list(1) bindM_def nx list_to_pair_run [of h a p, OF p] idx intro!: exI [of _ h2] exI [of _ gs2])
qed

text \<open>The table between the two allocations of a rehash, and without the second.\<close>

definition no_buckets :: "'v hashtable \<Rightarrow> 'v hashtable" where
  "no_buckets h = h\<lparr>ht_buckets := None, ht_num_buckets := ht_num_buckets h + 1\<rparr>"

lemma rehash_run:
  assumes "table h gs" and "ht_num_buckets h + 1 < length primes" and "malloc s = (Inr u, s')"
  shows "\<exists>h' gs'. hashtable_do_rehash (h, s) = (Inr (), (h', s')) \<and> table h' gs' \<and> ht_pairs h' = ht_pairs h \<and>
    ht_size h' = ht_size h \<and> ht_fresh h' = ht_fresh h"
proof -
  have gr: "grouped h gs" and sz: "unat (ht_size h) = length (nodes gs)" and dom: "dom (ht_pairs h) = set (nodes gs)"
    using assms(1) by (auto simp: table_def)
  define N where "N = primes ! (ht_num_buckets h + 1)"
  define h1 where "h1 = h\<lparr>ht_num_buckets := ht_num_buckets h + 1, ht_buckets := Some (empty_buckets N),
    ht_next := (ht_next h)(Head := Head), ht_prev := (ht_prev h)(Head := Head)\<rparr>"
  have N: "prime h1 = N" by (simp add: h1_def prime_def N_def)
  have "grouped h1 []" unfolding grouped_def N
    using assms(2) by (simp add: h1_def ring_def empty_buckets_def group_ends_def map_replicate_const)
  moreover have "npath (ht_next h1) (ht_next h Head) (nodes gs)"
    using ring_npath [of "ht_next h" "ht_prev h" "nodes gs"] gr npath_cong [of "nodes gs" "ht_next h1" "ht_next h"]
    by (simp add: grouped_def h1_def)
  moreover have "set (nodes gs) \<subseteq> dom (ht_pairs h1)" "distinct (nodes gs)" using dom gr by (auto simp: h1_def grouped_def)
  ultimately obtain h' gs' where loop: "rehash_loop (fuel h) N (ht_next h Head) (h1, s') = (Inr (), (h', s'))" "grouped h' gs'"
      "set (nodes gs') = set (nodes gs)" "length (nodes gs') = length (nodes gs)"
      "ht_pairs h' = ht_pairs h" "ht_size h' = ht_size h" "ht_fresh h' = ht_fresh h"
    using rehash_loop_run [of h1 "[]" "ht_next h Head" "nodes gs" "fuel h" s'] sz unfolding N by (auto simp: fuel_def h1_def)
  have "hashtable_do_rehash (h, s) = (Inr (), (h', s'))"
    using loop(1) assms(2,3)
    by (simp add: hashtable_do_rehash_def hm_defs num_buckets_def list_init_run fuel_def N_def h1_def del: rehash_loop.simps)
  moreover have "table h' gs'" using assms(1) loop(2-4) unfolding table_def pair_at_def loop(5-7) by metis
  ultimately show ?thesis using loop by blast
qed

lemma rehash_fails:
  assumes "ht_num_buckets h + 1 < length primes" and "malloc s = (Inl e, s')"
  shows "hashtable_do_rehash (h, s) = (Inl e, (no_buckets h, s'))"
  using assms by (simp add: hashtable_do_rehash_def hm_defs num_buckets_def no_buckets_def)


subsection \<open>Setting a value\<close>

lemma set_value_run:
  fixes v :: 'v
  assumes "table h gs" and "ht_pairs h a = Some p"
  defines "h' \<equiv> h\<lparr>ht_pairs := (ht_pairs h)(a \<mapsto> p\<lparr>p_value := v\<rparr>)\<rparr>"
  shows "set_value (Node a) v (h, s) = (Inr (), (h', s))" and "table h' gs"
proof -
  show "set_value (Node a) v (h, s) = (Inr (), (h', s))" using assms(2) by (simp add: set_value_def hm_defs h'_def)
  have keep: "p_key (pair_at h' b) = p_key (pair_at h b)" "p_hash (pair_at h' b) = p_hash (pair_at h b)" for b
    using assms(2) by (simp_all add: pair_at_def h'_def)
  have dom: "dom (ht_pairs h') = dom (ht_pairs h)" using assms(2) by (auto simp: h'_def)
  have pr: "prime h' = prime h" "pair_index h' b = pair_index h b" for b by (simp_all add: prime_def pair_index_def keep) (simp add: h'_def)+
  have "grouped h' gs" using assms(1) unfolding table_def grouped_def dom pr by (simp add: h'_def)
  moreover have "ht_fresh h' = ht_fresh h" "ht_size h' = ht_size h" by (simp_all add: h'_def)
  ultimately show "table h' gs" using assms(1) unfolding table_def dom keep by metis
qed

lemma new_pair_run:
  fixes v :: 'v and r :: size_t
  assumes "table h gs" and "lookup h gs key = None" and "unat (ht_size h) < 2 ^ 32"
  defines "p \<equiv> \<lparr>p_hash = hash_str key, p_value = v, p_serial = r, p_key = key\<rparr>"
  shows "\<exists>h' gs'. bindM (new_pair p) (\<lambda>list. bindM (list_init list) (\<lambda>_.
      bindM (insert_to_bucket (unat (hash_str key mod prime h)) list) (\<lambda>_.
      bindM getO (\<lambda>h. putO (h\<lparr>ht_size := ht_size h + 1\<rparr>))))) (h, s) = (Inr (), (h', s)) \<and>
    table h' gs' \<and> ht_pairs h' = (ht_pairs h)(ht_fresh h \<mapsto> p) \<and> ht_fresh h \<notin> dom (ht_pairs h)"
proof -
  define a where "a = ht_fresh h"
  have gr: "grouped h gs" and dom: "dom (ht_pairs h) = set (nodes gs)" and new: "a \<notin> set (nodes gs)"
    and sz: "unat (ht_size h) = length (nodes gs)"
    using assms(1) by (auto simp: table_def a_def)
  define h1 where "h1 = h\<lparr>ht_pairs := (ht_pairs h)(a \<mapsto> p), ht_fresh := a + 1,
    ht_next := (ht_next h)(Node a := Node a), ht_prev := (ht_prev h)(Node a := Node a)\<rparr>"
  have pa: "pair_at h1 b = (if b = a then p else pair_at h b)" for b by (simp add: pair_at_def h1_def)
  have pr: "prime h1 = prime h" by (simp add: prime_def h1_def)
  have idx: "pair_index h1 b = pair_index h b" if "b \<noteq> a" for b using that by (simp add: pair_index_def pa pr)
  have "Node a \<notin> set (butlast (ring (nodes gs)))" "Node a \<notin> set (tl (ring (nodes gs)))"
    using new by (auto simp: ring_def dest: in_set_butlastD)
  then have "dlink (ht_next h1) (ht_prev h1) (ring (nodes gs))" using gr by (simp add: grouped_def h1_def dlink_next dlink_prev)
  moreover have "\<forall>(i, g) \<in> set gs. g \<noteq> [] \<and> (\<forall>b \<in> set g. pair_index h1 b = i)"
  proof -
    have "b \<noteq> a" if "(i, g) \<in> set gs" "b \<in> set g" for i g b using that new by (auto simp: nodes_def)
    then show ?thesis using gr idx by (fastforce simp: grouped_def)
  qed
  ultimately have gr1: "grouped h1 gs" using gr unfolding grouped_def pr by (auto simp: h1_def)
  have i: "unat (hash_str key mod prime h) = pair_index h1 a" by (simp add: pair_index_def pa pr p_def)
  have "a \<in> dom (ht_pairs h1)" by (simp add: h1_def)
  from insert_to_bucket_run [OF gr1 this new i, of s] obtain h2 gs' where
    ins: "insert_to_bucket (unat (hash_str key mod prime h)) (Node a) (h1, s) = (Inr (), (h2, s))" "grouped h2 gs'"
      "set (nodes gs') = insert a (set (nodes gs))" "length (nodes gs') = Suc (length (nodes gs))"
      "ht_pairs h2 = ht_pairs h1" "ht_size h2 = ht_size h1" "ht_num_buckets h2 = ht_num_buckets h1" "ht_fresh h2 = ht_fresh h1"
    by metis
  define h' where "h' = h2\<lparr>ht_size := ht_size h + 1\<rparr>"
  have run: "bindM (new_pair p) (\<lambda>list. bindM (list_init list) (\<lambda>_.
      bindM (insert_to_bucket (unat (hash_str key mod prime h)) list) (\<lambda>_.
      bindM getO (\<lambda>h. putO (h\<lparr>ht_size := ht_size h + 1\<rparr>))))) (h, s) = (Inr (), (h', s))"
    using ins(1,6) by (simp add: new_pair_def hm_defs list_init_run valid_def a_def h1_def h'_def)
  have pairs: "ht_pairs h' = (ht_pairs h)(a \<mapsto> p)" by (simp add: h'_def ins h1_def)
  have at: "pair_at h' b = (if b = a then p else pair_at h b)" for b by (simp add: pair_at_def pairs)
  have "grouped h' gs'" using ins(2) by (simp add: h'_def grouped_def pair_index_def pair_at_def prime_def)
  moreover have "unat (ht_size h + 1) = length (nodes gs')"
    using assms(3) sz ins(4) by (simp add: unat_add_lem [THEN iffD1])
  moreover have "inj_on (\<lambda>b. p_key (pair_at h' b)) (insert a (dom (ht_pairs h)))"
  proof -
    have "inj_on (\<lambda>b. p_key (pair_at h b)) (dom (ht_pairs h))" using assms(1) unfolding table_def by blast
    moreover have "\<forall>b \<in> dom (ht_pairs h). p_key (pair_at h b) \<noteq> key" using lookup_iff [OF assms(1), of key] assms(2) by auto
    ultimately show ?thesis using new dom by (auto simp: inj_on_def at p_def)
  qed
  moreover have "\<forall>b \<in> insert a (dom (ht_pairs h)). p_hash (pair_at h' b) = hash_str (p_key (pair_at h' b)) \<and> b < a + 1"
    using assms(1) unfolding table_def by (auto simp: at p_def a_def less_Suc_eq)
  moreover have "dom (ht_pairs h') = insert a (dom (ht_pairs h))" "insert a (dom (ht_pairs h)) = set (nodes gs')"
      "ht_fresh h' = a + 1" "ht_size h' = ht_size h + 1"
    using dom ins(3) by (auto simp: pairs) (simp_all add: h'_def ins(8) h1_def)
  ultimately have "table h' gs'" unfolding table_def by metis
  with run pairs new dom show ?thesis by (auto simp: a_def)
qed


text \<open>What setting a key does to the map: a key that is there keeps its serial number.\<close>

definition updated :: "(key \<rightharpoonup> 'v \<times> size_t) \<Rightarrow> key \<Rightarrow> size_t \<Rightarrow> 'v \<Rightarrow> (key \<rightharpoonup> 'v \<times> size_t)" where
  "updated m key serial v = m(key \<mapsto> (v, case m key of None \<Rightarrow> serial | Some (_, r) \<Rightarrow> r))"

definition old_value :: "(key \<rightharpoonup> 'v \<times> size_t) \<Rightarrow> key \<Rightarrow> 'v list" where
  "old_value m key = (case m key of None \<Rightarrow> [] | Some (v, _) \<Rightarrow> [v])"

lemma rep_set_value:
  assumes "table h gs" and "rep m h" and "lookup h gs key = Some a" and "ht_pairs h a = Some p"
    and "table h' gs'" and "ht_pairs h' = (ht_pairs h)(a \<mapsto> p\<lparr>p_value := v\<rparr>)"
  shows "rep (updated m key serial v) h'"
proof -
  have at: "pair_at h' b = (if b = a then p\<lparr>p_value := v\<rparr> else pair_at h b)" for b by (simp add: pair_at_def assms(6))
  have p: "pair_at h a = p" "p_key p = key" using assms(3,4) lookup_iff [OF assms(1), of key a] by (auto simp: pair_at_def)
  have "lookup h' gs' k = lookup h gs k" for k
  proof -
    have "lookup h' gs' k = Some b \<longleftrightarrow> lookup h gs k = Some b" for b
      using assms(4) p by (auto simp: lookup_iff [OF assms(1)] lookup_iff [OF assms(5)] at assms(6))
    then show ?thesis by (metis not_None_eq)
  qed
  note same = this
  have other: "lookup h gs k = Some a \<longleftrightarrow> k = key" for k
    using assms(3) lookup_iff [OF assms(1), of k a] p by (metis option.inject)
  have "updated m key serial v k =
      map_option (\<lambda>b. (p_value (pair_at h' b), p_serial (pair_at h' b))) (lookup h' gs' k)" for k
  proof (cases "k = key")
    case True
    then show ?thesis using p assms(3) rep_lookup [OF assms(1,2), of key] same [of key] by (simp add: updated_def at)
  next
    case False
    then have "lookup h gs k \<noteq> Some a" using other by blast
    then show ?thesis using False rep_lookup [OF assms(1,2), of k] same [of k]
      by (cases "lookup h gs k") (auto simp: updated_def at)
  qed
  then show ?thesis unfolding rep_key [OF assms(5)] by blast
qed

lemma rep_new_pair:
  assumes "table h gs" and "rep m h" and "lookup h gs key = None" and "a \<notin> dom (ht_pairs h)"
    and "table h' gs'" and "ht_pairs h' = (ht_pairs h)(a \<mapsto> \<lparr>p_hash = hash_str key, p_value = v, p_serial = r, p_key = key\<rparr>)"
  shows "rep (updated m key r v) h'"
proof -
  have at: "pair_at h' b = (if b = a then \<lparr>p_hash = hash_str key, p_value = v, p_serial = r, p_key = key\<rparr> else pair_at h b)" for b
    by (simp add: pair_at_def assms(6))
  have "lookup h' gs' k = (if k = key then Some a else lookup h gs k)" for k
  proof -
    have "\<forall>b \<in> dom (ht_pairs h). p_key (pair_at h b) \<noteq> key" using lookup_iff [OF assms(1), of key] assms(3) by auto
    then have "lookup h' gs' k = Some b \<longleftrightarrow> (if k = key then Some a else lookup h gs k) = Some b" for b
      using assms(4) by (auto simp: lookup_iff [OF assms(1)] lookup_iff [OF assms(5)] at assms(6))
    then show ?thesis by (metis not_None_eq)
  qed
  note look = this
  have other: "lookup h gs k \<noteq> Some a" for k using assms(4) lookup_iff [OF assms(1), of k a] by blast
  have "updated m key r v k = map_option (\<lambda>b. (p_value (pair_at h' b), p_serial (pair_at h' b))) (lookup h' gs' k)" for k
    using assms(3) rep_lookup [OF assms(1,2), of k] look [of k] other [of k]
    by (cases "k = key"; cases "lookup h gs k") (auto simp: updated_def at)
  then show ?thesis unfolding rep_key [OF assms(5)] by blast
qed

lemma rep_same_pairs: "rep m h \<Longrightarrow> table h' gs' \<Longrightarrow> ht_pairs h' = ht_pairs h \<Longrightarrow> rep m h'"
  by (auto simp: rep_def)

text \<open>The part of \<^verbatim>\<open>hashtable_set\<close> after the rehash.\<close>

definition set_key :: "key \<Rightarrow> size_t \<Rightarrow> 'v \<Rightarrow> ('v, 'z, unit) HM" where
  "set_key key serial val =
     bindM num_buckets (\<lambda>num.
     bindM (get_bucket (unat (hash_str key mod num))) (\<lambda>b.
     bindM (hashtable_find_pair b key (hash_str key)) (\<lambda>pair. case pair of
       Some list \<Rightarrow>
         bindM (list_to_pair list) (\<lambda>p.
         bindM (json_decref (p_value p)) (\<lambda>_.
         set_value list val))
     | None \<Rightarrow>
         bindM (lift malloc) (\<lambda>_.
         bindM (new_pair \<lparr>p_hash = hash_str key, p_value = val, p_serial = serial, p_key = key\<rparr>) (\<lambda>list.
         bindM (list_init list) (\<lambda>_.
         bindM (insert_to_bucket (unat (hash_str key mod num)) list) (\<lambda>_.
         bindM getO (\<lambda>h. putO (h\<lparr>ht_size := ht_size h + 1\<rparr>)))))))))"

lemma malloc_jheap: "decrefs (snd (malloc s)) = decrefs s"
  by (simp add: malloc_def split: list.split)

lemma set_key_run:
  assumes "rep m h" and "unat (ht_size h) < 2 ^ 32"
  shows "(\<exists>h' s'. set_key key serial v (h, s) = (Inr (), (h', s')) \<and> rep (updated m key serial v) h' \<and>
      decrefs s' = decrefs s @ old_value m key \<and> (script s = [] \<longrightarrow> script s' = [])) \<or>
    (\<exists>s'. set_key key serial v (h, s) = (Inl ENOMEM, (h, s')) \<and> decrefs s' = decrefs s \<and> script s \<noteq> [] \<and> m key = None)"
proof -
  from assms(1) obtain gs where t: "table h gs" by (auto simp: rep_def)
  note run = find_key_run(1) [OF t, where s = s] find_key_run(2,3) [OF t, where key = key and s = s]
  show ?thesis
  proof (cases "lookup h gs key")
    case (Some a)
    then obtain p where p: "ht_pairs h a = Some p" using lookup_iff [OF t] by blast
    note sv = set_value_run [OF t p, of v]
    have "set_key key serial v (h, s) = (Inr (), (h\<lparr>ht_pairs := (ht_pairs h)(a \<mapsto> p\<lparr>p_value := v\<rparr>)\<rparr>,
        s\<lparr>decrefs := decrefs s @ [p_value p]\<rparr>))"
      using run Some sv(1) by (simp add: set_key_def bindM_def list_to_pair_run [OF p] json_decref_def lift_def)
    moreover have "old_value m key = [p_value p]"
      using rep_lookup [OF t assms(1), of key] Some p by (simp add: old_value_def pair_at_def)
    ultimately show ?thesis using rep_set_value [OF t assms(1) Some p sv(2)] by simp
  next
    case None
    then have m: "m key = None" using rep_lookup [OF t assms(1), of key] by simp
    obtain h' gs' where new: "bindM (new_pair \<lparr>p_hash = hash_str key, p_value = v, p_serial = serial, p_key = key\<rparr>)
        (\<lambda>list. bindM (list_init list) (\<lambda>_. bindM (insert_to_bucket (unat (hash_str key mod prime h)) list) (\<lambda>_.
        bindM getO (\<lambda>h. putO (h\<lparr>ht_size := ht_size h + 1\<rparr>))))) (h, snd (malloc s)) = (Inr (), (h', snd (malloc s)))"
        "table h' gs'" "ht_pairs h' = (ht_pairs h)(ht_fresh h \<mapsto> \<lparr>p_hash = hash_str key, p_value = v, p_serial = serial, p_key = key\<rparr>)"
        "ht_fresh h \<notin> dom (ht_pairs h)"
      using new_pair_run [OF t None assms(2)] by blast
    have set: "set_key key serial v (h, s) = (case malloc s of (Inl e, s') \<Rightarrow> (Inl e, (h, s')) | (Inr _, s') \<Rightarrow> (Inr (), (h', s')))"
    proof -
      have "set_key key serial v (h, s) = bindM (lift malloc) (\<lambda>_.
          bindM (new_pair \<lparr>p_hash = hash_str key, p_value = v, p_serial = serial, p_key = key\<rparr>) (\<lambda>list.
          bindM (list_init list) (\<lambda>_. bindM (insert_to_bucket (unat (hash_str key mod prime h)) list) (\<lambda>_.
          bindM getO (\<lambda>h. putO (h\<lparr>ht_size := ht_size h + 1\<rparr>)))))) (h, s)"
        unfolding set_key_def by (simp add: bindM_run(1) [of num_buckets, OF run(1)]
          bindM_run(1) [of "get_bucket _", OF run(2)] bindM_run(1) [of "hashtable_find_pair _ _ _", OF run(3)] None)
      moreover have "lift malloc (h, s) = (fst (malloc s), (h, snd (malloc s)))" by (simp add: lift_def split: prod.split)
      ultimately show ?thesis using new(1) by (cases "malloc s"; cases "fst (malloc s)") (simp_all add: bindM_run [of "lift malloc"])
    qed
    show ?thesis
    proof (cases "fst (malloc s)")
      case (Inl e)
      then have "e = ENOMEM" "script s \<noteq> []" by (auto simp: malloc_def split: list.splits if_splits)
      with Inl m malloc_jheap [of s] show ?thesis unfolding set by (auto split: prod.split)
    next
      case (Inr u)
      have "script s = [] \<longrightarrow> script (snd (malloc s)) = []" by simp
      with Inr rep_new_pair [OF t assms(1) None new(4,2,3)] m malloc_jheap [of s] show ?thesis
        unfolding set by (auto simp: old_value_def split: prod.split)
    qed
  qed
qed

lemma hashtable_set_parts:
  "hashtable_set key serial v = bindM getO (\<lambda>h. bindM num_buckets (\<lambda>num.
     bindM (if ht_size h \<ge> num then hashtable_do_rehash else retM ()) (\<lambda>_. set_key key serial v)))"
  unfolding hashtable_set_def set_key_def Let_def ..

lemma last_prime: "ht_num_buckets h < length primes \<Longrightarrow> prime h \<le> ht_size h \<Longrightarrow> unat (ht_size h) < 1610612741 \<Longrightarrow>
    ht_num_buckets h + 1 < length primes"
proof (rule ccontr)
  assume "ht_num_buckets h < length primes" and le: "prime h \<le> ht_size h" and sz: "unat (ht_size h) < 1610612741"
    and "\<not> ht_num_buckets h + 1 < length primes"
  then have "ht_num_buckets h = 28" by (simp add: primes_def)
  then have "prime h = 1610612741" by (simp add: prime_def primes_def)
  with le sz show False by (simp add: word_le_nat_alt)
qed

lemma hashtable_set_outcome:
  assumes "rep m h" and "card (dom m) < 1610612741"
  shows "(\<exists>h' s'. hashtable_set key serial v (h, s) = (Inr (), (h', s')) \<and> rep (updated m key serial v) h' \<and>
      decrefs s' = decrefs s @ old_value m key \<and> (script s = [] \<longrightarrow> script s' = [])) \<or>
    (\<exists>h' s'. hashtable_set key serial v (h, s) = (Inl ENOMEM, (h', s')) \<and> decrefs s' = decrefs s \<and> script s \<noteq> [] \<and>
      (rep m h' \<and> m key = None \<or> prime h \<le> ht_size h \<and> h' = no_buckets h))"
proof -
  from assms(1) obtain gs where t: "table h gs" by (auto simp: rep_def)
  have num: "ht_num_buckets h < length primes" using t by (simp add: table_def grouped_def)
  have sz: "unat (ht_size h) < 1610612741" using rep_size [OF t assms(1)] assms(2) by simp
  have run: "hashtable_set key serial v (h, s) =
      bindM (if ht_size h \<ge> prime h then hashtable_do_rehash else retM ()) (\<lambda>_. set_key key serial v) (h, s)"
    by (simp add: hashtable_set_parts bindM_getO bindM_run(1) [of num_buckets, OF num_buckets_run [OF num]])
  show ?thesis
  proof (cases "prime h \<le> ht_size h")
    case False
    then have "hashtable_set key serial v (h, s) = set_key key serial v (h, s)" using run by simp
    then show ?thesis using set_key_run [OF assms(1), of key serial v s] sz assms(1) by fastforce
  next
    case True
    note nb = last_prime [OF num True sz]
    show ?thesis
    proof (cases "malloc s")
      case (Pair r s1)
      show ?thesis
      proof (cases r)
        case (Inl e)
        then have "e = ENOMEM" "script s \<noteq> []" using Pair by (auto simp: malloc_def split: list.splits if_splits)
        moreover have "hashtable_set key serial v (h, s) = (Inl e, (no_buckets h, s1))"
          using True rehash_fails [OF nb, of s e s1] Pair Inl by (simp add: run bindM_def)
        ultimately show ?thesis using True malloc_jheap [of s] Pair by auto
      next
        case (Inr u)
        from rehash_run [OF t nb, of s u s1] Pair Inr obtain h1 gs1 where
          h1: "hashtable_do_rehash (h, s) = (Inr (), (h1, s1))" "table h1 gs1" "ht_pairs h1 = ht_pairs h" "ht_size h1 = ht_size h"
          by auto
        have "hashtable_set key serial v (h, s) = set_key key serial v (h1, s1)" using True h1(1) by (simp add: run bindM_def)
        moreover have "decrefs s1 = decrefs s" "script s1 \<noteq> [] \<longrightarrow> script s \<noteq> []" using malloc_jheap [of s] Pair by auto
        moreover have "rep m h1" by (rule rep_same_pairs [OF assms(1) h1(2,3)])
        ultimately show ?thesis using set_key_run [of m h1 key serial v s1] sz h1(4) by fastforce
      qed
    qed
  qed
qed

lemma hashtable_del_outcome:
  assumes "rep m h"
  shows "case m key of
      None \<Rightarrow> hashtable_del key (h, s) = (Inl NOERRNO, (h, s))
    | Some (v, r) \<Rightarrow> \<exists>h'. hashtable_del key (h, s) = (Inr (), (h', s\<lparr>decrefs := decrefs s @ [v]\<rparr>)) \<and> rep (m(key := None)) h'"
proof -
  from assms obtain gs where t: "table h gs" by (auto simp: rep_def)
  note run = find_key_run(1) [OF t, where s = s] find_key_run(2,3) [OF t, where key = key and s = s]
  show ?thesis
  proof (cases "lookup h gs key")
    case None
    then have "hashtable_del key (h, s) = (Inl NOERRNO, (h, s))"
      using run by (simp add: hashtable_del_def hashtable_do_del_def bindM_def Let_def)
    then show ?thesis using rep_lookup [OF t assms, of key] None by simp
  next
    case (Some a)
    obtain h' gs' where del: "hashtable_del key (h, s) = (Inr (), (h', s\<lparr>decrefs := decrefs s @ [p_value (pair_at h a)]\<rparr>))"
        "table h' gs'" "ht_pairs h' = (ht_pairs h)(a := None)"
      using hashtable_del_run [OF t Some] by blast
    have at: "b \<noteq> a \<Longrightarrow> pair_at h' b = pair_at h b" for b by (simp add: pair_at_def del(3))
    have other: "lookup h gs k = Some a \<longleftrightarrow> k = key" for k
      using Some lookup_iff [OF t, of k a] lookup_iff [OF t, of key a] by (metis option.inject)
    have look: "lookup h' gs' k = (if k = key then None else lookup h gs k)" for k
    proof -
      have "lookup h' gs' k = Some b \<longleftrightarrow> (if k = key then None else lookup h gs k) = Some b" for b
        using other [of k] Some lookup_iff [OF t, of key] lookup_iff [OF t, of k b] lookup_iff [OF del(2), of k b] at [of b]
        by (cases "b = a") (auto simp: del(3))
      then show ?thesis by (metis not_None_eq)
    qed
    have "(m(key := None)) k = map_option (\<lambda>b. (p_value (pair_at h' b), p_serial (pair_at h' b))) (lookup h' gs' k)" for k
      using rep_lookup [OF t assms, of k] look [of k] other [of k] at
      by (cases "k = key"; cases "lookup h gs k") auto
    then have "rep (m(key := None)) h'" unfolding rep_key [OF del(2)] by blast
    then show ?thesis using rep_lookup [OF t assms, of key] Some del(1) by auto
  qed
qed

subsection \<open>Clearing\<close>

lemma clear_loop_run:
  assumes "npath (ht_next h) list ms" and "set ms \<subseteq> dom (ht_pairs h)" and "distinct ms" and "length ms < n"
  shows "clear_loop n list (h, s) = (Inr (), (h\<lparr>ht_pairs := (ht_pairs h) |` (- set ms)\<rparr>,
    s\<lparr>decrefs := decrefs s @ map (\<lambda>a. p_value (pair_at h a)) ms\<rparr>))"
  using assms
proof (induction ms arbitrary: h list n s)
  case Nil
  then obtain k where "n = Suc k" by (cases n) auto
  with Nil show ?case by simp
next
  case (Cons a ms)
  obtain k where n: "n = Suc k" using Cons.prems(4) by (cases n) auto
  have list: "list = Node a" "npath (ht_next h) (ht_next h (Node a)) ms" using Cons.prems(1) by auto
  obtain p where p: "ht_pairs h a = Some p" using Cons.prems(2) by auto
  define h1 where "h1 = h\<lparr>ht_pairs := (ht_pairs h)(a := None)\<rparr>"
  have nx: "get_next (Node a) (h, s) = (Inr (ht_next h (Node a)), (h, s))" for s using p by (simp add: hm_defs valid_def)
  have at: "map (\<lambda>b. p_value (pair_at h1 b)) ms = map (\<lambda>b. p_value (pair_at h b)) ms"
    using Cons.prems(3) by (auto simp: pair_at_def h1_def)
  have prems: "npath (ht_next h1) (ht_next h (Node a)) ms" "set ms \<subseteq> dom (ht_pairs h1)"
    using list(2) Cons.prems(2,3) by (auto simp: h1_def)
  have "clear_loop n list (h, s) = clear_loop k (ht_next h (Node a)) (h1, s\<lparr>decrefs := decrefs s @ [p_value p]\<rparr>)"
    by (simp add: n list(1) bindM_def nx list_to_pair_run [OF p] json_decref_def lift_def free_pair_def getO_def putO_def h1_def)
  also have "\<dots> = (Inr (), (h1\<lparr>ht_pairs := (ht_pairs h1) |` (- set ms)\<rparr>,
      s\<lparr>decrefs := decrefs s @ [p_value p] @ map (\<lambda>b. p_value (pair_at h1 b)) ms\<rparr>))"
    using Cons.IH [of h1 "ht_next h (Node a)" k "s\<lparr>decrefs := decrefs s @ [p_value p]\<rparr>"] prems Cons.prems(3,4) n by simp
  also have "(ht_pairs h1) |` (- set ms) = (ht_pairs h) |` (- set (a # ms))" by (auto simp: h1_def restrict_map_def fun_eq_iff)
  finally show ?case unfolding at by (simp add: h1_def pair_at_def p)
qed

lemma hashtable_do_clear_run:
  assumes "table h gs"
  shows "hashtable_do_clear (h, s) = (Inr (), (h\<lparr>ht_pairs := Map.empty\<rparr>,
    s\<lparr>decrefs := decrefs s @ map (\<lambda>a. p_value (pair_at h a)) (nodes gs)\<rparr>))"
proof -
  have gr: "grouped h gs" and dom: "dom (ht_pairs h) = set (nodes gs)" using assms by (auto simp: table_def)
  have "(ht_pairs h) |` (- set (nodes gs)) = Map.empty" using dom by (auto simp: restrict_map_def fun_eq_iff domIff)
  moreover have "npath (ht_next h) (ht_next h Head) (nodes gs)" using gr by (intro ring_npath [of _ "ht_prev h"]) (simp add: grouped_def)
  ultimately show ?thesis using clear_loop_run [of h "ht_next h Head" "nodes gs" "fuel h" s] assms gr
    by (simp add: hashtable_do_clear_def bindM_getO get_next_def bindM_assoc table_def grouped_def fuel_def del: clear_loop.simps)
qed

definition blank :: "nat \<Rightarrow> 'v hashtable \<Rightarrow> 'v hashtable" where
  "blank n h = h\<lparr>ht_size := 0, ht_num_buckets := n, ht_buckets := Some (empty_buckets (primes ! n)), ht_pairs := Map.empty,
     ht_next := (ht_next h)(Head := Head), ht_prev := (ht_prev h)(Head := Head)\<rparr>"

lemma rep_blank: "n < length primes \<Longrightarrow> rep Map.empty (blank n h)"
  unfolding rep_def
  by (auto simp: table_def grouped_def blank_def ring_def empty_buckets_def group_ends_def prime_def map_replicate_const intro!: exI [of _ "[]"])

lemma hashtable_clear_run:
  assumes "rep m h"
  shows "\<exists>h' s'. hashtable_clear (h, s) = (Inr (), (h', s')) \<and> rep Map.empty h' \<and> script s' = script s \<and>
    (\<exists>ks. distinct ks \<and> set ks = dom m \<and> decrefs s' = decrefs s @ map (\<lambda>k. fst (the (m k))) ks)"
proof -
  from assms obtain gs where t: "table h gs" by (auto simp: rep_def)
  have num: "ht_num_buckets h < length primes" and bs: "ht_buckets h \<noteq> None" using t by (auto simp: table_def grouped_def)
  define ks where "ks = map (\<lambda>a. p_key (pair_at h a)) (nodes gs)"
  have m: "m (p_key (pair_at h a)) = Some (p_value (pair_at h a), p_serial (pair_at h a))" if "a \<in> set (nodes gs)" for a
    using that t rep_lookup [OF t assms] lookup_iff [OF t, of "p_key (pair_at h a)" a] by (simp add: table_def)
  let ?s = "s\<lparr>decrefs := decrefs s @ map (\<lambda>a. p_value (pair_at h a)) (nodes gs)\<rparr>"
  have num': "num_buckets (h\<lparr>ht_pairs := Map.empty\<rparr>, ?s) = (Inr (prime h), (h\<lparr>ht_pairs := Map.empty\<rparr>, ?s))"
    using num_buckets_run [of "h\<lparr>ht_pairs := Map.empty\<rparr>" ?s] num by (simp add: prime_def)
  have "hashtable_clear (h, s) = (Inr (), (blank (ht_num_buckets h) h, ?s))"
    using bs unfolding hashtable_clear_def
    by (simp add: bindM_run(1) [of hashtable_do_clear, OF hashtable_do_clear_run [OF t]] bindM_run(1) [of num_buckets, OF num'] bindM_getO
        bindM_putO bindM_run(1) [of "list_init _", OF list_init_run] blank_def prime_def)
  moreover have "distinct ks" using t unfolding ks_def distinct_map table_def grouped_def by metis
  moreover have "set ks = dom m"
    using t rep_lookup [OF t assms] lookup_iff [OF t] by (force simp: ks_def table_def dom_def)
  moreover have "map (\<lambda>a. p_value (pair_at h a)) (nodes gs) = map (\<lambda>k. fst (the (m k))) ks" by (simp add: ks_def m)
  ultimately show ?thesis using rep_blank [OF num, of h] by (intro exI [of _ "blank (ht_num_buckets h) h"] exI [of _ ?s]) auto
qed

lemma hashtable_init_run:
  assumes "ht_pairs h = Map.empty" and "script s = []"
  shows "hashtable_init (h, s) = (Inr (), (blank 0 h, s))"
proof -
  have "blank 0 h = h\<lparr>ht_size := 0, ht_num_buckets := 0, ht_buckets := Some (empty_buckets 5),
     ht_next := (ht_next h)(Head := Head), ht_prev := (ht_prev h)(Head := Head)\<rparr>"
    using assms(1) by (simp add: blank_def primes_def)
  then show ?thesis using assms(2)
    by (simp add: hashtable_init_def bindM_def getO_def putO_def num_buckets_def lift_def list_init_run primes_def)
qed

subsection \<open>Iterating\<close>

fun iterate :: "nat \<Rightarrow> lnode option \<Rightarrow> ('v, 'z, (key \<times> 'v \<times> size_t) list) HM" where
  "iterate n None = retM []"
| "iterate 0 (Some it) = failM DIVERGES"
| "iterate (Suc n) (Some it) =
     bindM (hashtable_iter_key it) (\<lambda>k.
     bindM (hashtable_iter_value it) (\<lambda>v.
     bindM (hashtable_iter_serial it) (\<lambda>r.
     bindM (hashtable_iter_next it) (\<lambda>nx.
     bindM (iterate n nx) (\<lambda>es. retM ((k, v, r) # es))))))"

lemma iterate_run:
  assumes "npath (ht_next h) x ms" and "set ms \<subseteq> dom (ht_pairs h)" and "length ms \<le> n"
  shows "iterate n (if x = Head then None else Some x) (h, s) =
    (Inr (map (\<lambda>a. (p_key (pair_at h a), p_value (pair_at h a), p_serial (pair_at h a))) ms), (h, s))"
  using assms
proof (induction ms arbitrary: x n)
  case Nil
  then show ?case by simp
next
  case (Cons a ms)
  obtain k where n: "n = Suc k" using Cons.prems(3) by (cases n) auto
  have x: "x = Node a" "npath (ht_next h) (ht_next h (Node a)) ms" using Cons.prems(1) by auto
  obtain p where p: "ht_pairs h a = Some p" using Cons.prems(2) by auto
  have nx: "get_next (Node a) (h, s) = (Inr (ht_next h (Node a)), (h, s))" using p by (simp add: hm_defs valid_def)
  show ?case using Cons.IH [OF x(2), of k] Cons.prems(2,3)
    by (simp add: n x(1) bindM_def hashtable_iter_key_def hashtable_iter_value_def hashtable_iter_serial_def hashtable_iter_next_def
        list_to_pair_run [OF p] nx pair_at_def p)
qed

lemma iterate_all:
  assumes "rep m h"
  shows "\<exists>es. bindM hashtable_iter (iterate (unat (ht_size h))) (h, s) = (Inr es, (h, s)) \<and> distinct (map fst es) \<and> map_of es = m"
proof -
  from assms obtain gs where t: "table h gs" by (auto simp: rep_def)
  have dl: "dlink (ht_next h) (ht_prev h) (ring (nodes gs))" and dom: "dom (ht_pairs h) = set (nodes gs)" and dn: "distinct (nodes gs)"
    and inj: "inj_on (\<lambda>a. p_key (pair_at h a)) (set (nodes gs))"
    using t unfolding table_def grouped_def by metis+
  let ?e = "\<lambda>a. (p_key (pair_at h a), p_value (pair_at h a), p_serial (pair_at h a))"
  have "hashtable_iter (h, s) = (Inr (if ht_next h Head = Head then None else Some (ht_next h Head)), (h, s))"
    by (simp add: hashtable_iter_def hashtable_iter_next_def hm_defs)
  moreover have "iterate (unat (ht_size h)) (if ht_next h Head = Head then None else Some (ht_next h Head)) (h, s) =
      (Inr (map ?e (nodes gs)), (h, s))"
    using t dom by (intro iterate_run ring_npath [OF dl]) (simp_all add: table_def)
  ultimately have "bindM hashtable_iter (iterate (unat (ht_size h))) (h, s) = (Inr (map ?e (nodes gs)), (h, s))"
    by (simp add: bindM_def)
  moreover have d: "distinct (map fst (map ?e (nodes gs)))" using dn inj by (simp add: distinct_map comp_def)
  moreover have "map_of (map ?e (nodes gs)) = m"
  proof
    fix k
    show "map_of (map ?e (nodes gs)) k = m k"
    proof (cases "lookup h gs k")
      case None
      then show ?thesis using rep_lookup [OF t assms, of k] lookup_iff [OF t, of k] dom
        by (auto simp: map_of_eq_None_iff image_iff)
    next
      case (Some a)
      then have "(k, p_value (pair_at h a), p_serial (pair_at h a)) \<in> set (map ?e (nodes gs))"
        using lookup_iff [OF t, of k a] dom by auto
      then show ?thesis using rep_lookup [OF t assms, of k] Some d by (simp add: map_of_is_SomeI)
    qed
  qed
  ultimately show ?thesis by blast
qed

end
