(* ===== verification/Dictionary.thy ===== *)
theory Dictionary
  imports Hashtable_Correct
begin

text \<open>
  The interface of the hash table to its clients: the laws of a dictionary and what sequences of
  operations do, interpreted with the operations of the table.
\<close>

text \<open>
  The contract of a dictionary whose state \<open>h\<close> represents a map: reading, writing and deleting a
  key on a heap where no allocation fails, as long as there are fewer than \<open>cap\<close> keys. From the laws
  follows what any sequence of operations does.
\<close>

datatype 'v dict_op = Set key size_t 'v | Del key

fun abs_op :: "(key \<rightharpoonup> 'v \<times> size_t) \<Rightarrow> 'v dict_op \<Rightarrow> (key \<rightharpoonup> 'v \<times> size_t)" where
  "abs_op m (Set k r v) = updated m k r v"
| "abs_op m (Del k) = m(k := None)"

text \<open>The references that an operation gives up.\<close>

fun released :: "(key \<rightharpoonup> 'v \<times> size_t) \<Rightarrow> 'v dict_op \<Rightarrow> 'v list" where
  "released m (Set k r v) = old_value m k"
| "released m (Del k) = old_value m k"

fun all_released :: "(key \<rightharpoonup> 'v \<times> size_t) \<Rightarrow> 'v dict_op list \<Rightarrow> 'v list" where
  "all_released m [] = []"
| "all_released m (x # xs) = released m x @ all_released (abs_op m x) xs"

text \<open>One operation; the outcome of a deletion of a missing key is passed over.\<close>

fun run_op :: "(key \<Rightarrow> size_t \<Rightarrow> 'v \<Rightarrow> ('h, 's, unit) OM) \<Rightarrow> (key \<Rightarrow> ('h, 's, unit) OM) \<Rightarrow> 'v dict_op \<Rightarrow> ('h, 's, unit) OM" where
  "run_op st dl (Set k r v) = st k r v"
| "run_op st dl (Del k) = bindM (tryM (dl k)) (\<lambda>_. retM ())"

fun run_ops :: "(key \<Rightarrow> size_t \<Rightarrow> 'v \<Rightarrow> ('h, 's, unit) OM) \<Rightarrow> (key \<Rightarrow> ('h, 's, unit) OM) \<Rightarrow> 'v dict_op list \<Rightarrow> ('h, 's, unit) OM" where
  "run_ops st dl [] = retM ()"
| "run_ops st dl (x # xs) = bindM (run_op st dl x) (\<lambda>_. run_ops st dl xs)"

locale dictionary =
  fixes R :: "(key \<rightharpoonup> 'v \<times> size_t) \<Rightarrow> 'h \<Rightarrow> bool"
    and get :: "key \<Rightarrow> ('h, ('v, 'z) jheap_scheme, 'v option) OM"
    and set_key :: "key \<Rightarrow> size_t \<Rightarrow> 'v \<Rightarrow> ('h, ('v, 'z) jheap_scheme, unit) OM"
    and del :: "key \<Rightarrow> ('h, ('v, 'z) jheap_scheme, unit) OM"
    and cap :: nat
  assumes get_law: "R m h \<Longrightarrow> get k (h, s) = (Inr (map_option fst (m k)), (h, s))"
    and set_law: "R m h \<Longrightarrow> card (dom m) < cap \<Longrightarrow> script s = [] \<Longrightarrow>
      \<exists>h' s'. set_key k r v (h, s) = (Inr (), (h', s')) \<and> R (updated m k r v) h' \<and>
        decrefs s' = decrefs s @ old_value m k \<and> script s' = []"
    and del_law: "R m h \<Longrightarrow> m k \<noteq> None \<Longrightarrow>
      \<exists>h'. del k (h, s) = (Inr (), (h', s\<lparr>decrefs := decrefs s @ old_value m k\<rparr>)) \<and> R (m(k := None)) h'"
    and del_none_law: "R m h \<Longrightarrow> m k = None \<Longrightarrow> del k (h, s) = (Inl NOERRNO, (h, s))"
    and finite_law: "R m h \<Longrightarrow> finite (dom m)"
begin

lemma run_op_law:
  assumes "R m h" and "card (dom m) < cap" and "script s = []"
  shows "\<exists>h' s'. run_op set_key del x (h, s) = (Inr (), (h', s')) \<and> R (abs_op m x) h' \<and> decrefs s' = decrefs s @ released m x \<and> script s' = []"
proof (cases x)
  case (Set k r v)
  then show ?thesis using set_law [OF assms, of k r v] by simp
next
  case (Del k)
  show ?thesis
  proof (cases "m k")
    case None
    then have "m(k := None) = m" by auto
    with None Del assms show ?thesis using del_none_law [OF assms(1) None, of s] by (simp add: bindM_def tryM_def old_value_def)
  next
    case (Some a)
    then show ?thesis using Del assms(3) del_law [OF assms(1), of k s] by (auto simp: bindM_def tryM_def)
  qed
qed

lemma card_abs_op: "finite (dom m) \<Longrightarrow> card (dom (abs_op m x)) \<le> Suc (card (dom m))"
  by (cases x) (auto simp: updated_def card_insert_if intro: le_SucI card_mono)

lemma run_ops_law:
  assumes "R m h" and "card (dom m) + length xs \<le> cap" and "script s = []"
  shows "\<exists>h' s'. run_ops set_key del xs (h, s) = (Inr (), (h', s')) \<and> R (foldl abs_op m xs) h' \<and>
    decrefs s' = decrefs s @ all_released m xs \<and> script s' = []"
  using assms
proof (induction xs arbitrary: m h s)
  case (Cons x xs)
  then obtain h1 s1 where s1: "run_op set_key del x (h, s) = (Inr (), (h1, s1))" "R (abs_op m x) h1" "decrefs s1 = decrefs s @ released m x" "script s1 = []"
    using run_op_law [of m h s x] by auto
  have "card (dom (abs_op m x)) + length xs \<le> cap"
    using card_abs_op [OF finite_law [OF Cons.prems(1)], of x] Cons.prems(2) by simp
  from Cons.IH [OF s1(2) this s1(4)] s1 show ?case by (auto simp: bindM_def)
qed simp

text \<open>A value that was set is found until its key is set again or deleted.\<close>

lemma get_after_ops:
  assumes "R m h" and "card (dom m) + length xs \<le> cap" and "script s = []"
  shows "\<exists>h' s'. bindM (run_ops set_key del xs) (\<lambda>_. get k) (h, s) = (Inr (map_option fst (foldl abs_op m xs k)), (h', s')) \<and>
    R (foldl abs_op m xs) h' \<and> decrefs s' = decrefs s @ all_released m xs"
  using run_ops_law [OF assms] get_law by (fastforce simp: bindM_def)

end

lemma rep_finite: "rep m h \<Longrightarrow> finite (dom m)"
proof -
  assume r: "rep m h"
  then obtain gs where t: "table h gs" by (auto simp: rep_def)
  have "dom m \<subseteq> (\<lambda>a. p_key (pair_at h a)) ` set (nodes gs)"
    using t rep_lookup [OF t r] lookup_iff [OF t] by (force simp: table_def dom_def)
  then show ?thesis by (rule finite_subset) simp
qed

interpretation ht: dictionary rep hashtable_get hashtable_set hashtable_del 1610612741
proof
  fix m :: "key \<rightharpoonup> 'a \<times> size_t" and h k r v and s :: "('a, 'b) jheap_scheme"
  assume R: "rep m h"
  show "hashtable_get k (h, s) = (Inr (map_option fst (m k)), (h, s))" by (rule hashtable_get_run [OF R])
  show "\<exists>h' s'. hashtable_set k r v (h, s) = (Inr (), (h', s')) \<and> rep (updated m k r v) h' \<and>
        decrefs s' = decrefs s @ old_value m k \<and> script s' = []" if "card (dom m) < 1610612741" "script s = []"
    using hashtable_set_outcome [OF R that(1), of k r v s] that(2) by auto
  show "\<exists>h'. hashtable_del k (h, s) = (Inr (), (h', s\<lparr>decrefs := decrefs s @ old_value m k\<rparr>)) \<and> rep (m(k := None)) h'"
    if "m k \<noteq> None" using hashtable_del_outcome [OF R, of k s] that by (auto simp: old_value_def)
  show "hashtable_del k (h, s) = (Inl NOERRNO, (h, s))" if "m k = None"
    using hashtable_del_outcome [OF R, of k s] that by simp
  show "finite (dom m)" by (rule rep_finite [OF R])
qed

end
