(* ===== verification/JArray.thy ===== *)
theory JArray
  imports Strbuffer
begin

text \<open>
  The arrays of Jansson (\<^verbatim>\<open>value.c\<close>, from \<^verbatim>\<open>json_array\<close> to \<^verbatim>\<open>json_array_copy\<close>). Values are addresses, a null
  pointer is \<open>None\<close>; \<open>arrays\<close> gives the array objects by their address, so that two arguments of a
  function can be the same array. What happens to reference counts is recorded in the heap in
  the order of the calls. A table is a block of pointers, \<open>None\<close> where none was stored yet; copying
  from or to a place outside a block is the failure \<open>CRASH\<close>.
\<close>

type_synonym json = nat

datatype ref_event = Incref json | Decref json

record json_array_t =
  arr_size :: size_t
  arr_entries :: size_t
  arr_table :: "json option list"

record aheap = heap +
  arrays :: "json \<Rightarrow> json_array_t option"
  next_json :: json
  refs :: "ref_event list"

type_synonym ('z, 'a) AM = "('z aheap_scheme, 'a) M"

definition json_incref :: "json option \<Rightarrow> ('z, json option) AM" where
  "json_incref v = (\<lambda>s. (Inr v, case v of None \<Rightarrow> s | Some j \<Rightarrow> s\<lparr>refs := refs s @ [Incref j]\<rparr>))"

definition json_decref_ptr :: "json option \<Rightarrow> ('z, unit) AM" where
  "json_decref_ptr v = (\<lambda>s. (Inr (), case v of None \<Rightarrow> s | Some j \<Rightarrow> s\<lparr>refs := refs s @ [Decref j]\<rparr>))"

definition json_is_array :: "json option \<Rightarrow> ('z, bool) AM" where
  "json_is_array v = (\<lambda>s. (Inr (case v of None \<Rightarrow> False | Some j \<Rightarrow> arrays s j \<noteq> None), s))"

definition json_to_array :: "json option \<Rightarrow> ('z, json_array_t) AM" where
  "json_to_array v = (\<lambda>s. case v of
       None \<Rightarrow> (Inl CRASH, s)
     | Some j \<Rightarrow> (case arrays s j of None \<Rightarrow> (Inl CRASH, s) | Some a \<Rightarrow> (Inr a, s)))"

definition set_array :: "json option \<Rightarrow> json_array_t \<Rightarrow> ('z, unit) AM" where
  "set_array v a = (\<lambda>s. case v of None \<Rightarrow> (Inl CRASH, s) | Some j \<Rightarrow> (Inr (), s\<lparr>arrays := (arrays s)(j \<mapsto> a)\<rparr>))"

text \<open>A block for pointers of eight bytes; the product wraps as in C.\<close>

definition alloc_table :: "size_t \<Rightarrow> ('z, json option list) AM" where
  "alloc_table n = (if n * 8 = 0 then failM ENOMEM else bindM malloc (\<lambda>_. retM (replicate (unat (n * 8) div 8) None)))"

definition json_array :: "('z, json option) AM" where
  "json_array =
     bindM malloc (\<lambda>_.
     bindM (alloc_table 8) (\<lambda>table. \<lambda>s.
       (Inr (Some (next_json s)),
        s\<lparr>arrays := (arrays s)(next_json s \<mapsto> \<lparr>arr_size = 8, arr_entries = 0, arr_table = table\<rparr>),
          next_json := next_json s + 1\<rparr>)))"

definition get_slot :: "json_array_t \<Rightarrow> nat \<Rightarrow> ('z, json option) AM" where
  "get_slot a i = (if i < length (arr_table a) then retM (arr_table a ! i) else failM CRASH)"

fun decref_slots :: "json_array_t \<Rightarrow> nat list \<Rightarrow> ('z, unit) AM" where
  "decref_slots a [] = retM ()"
| "decref_slots a (i # is) = bindM (get_slot a i) (\<lambda>v. bindM (json_decref_ptr v) (\<lambda>_. decref_slots a is))"

definition json_delete_array :: "json \<Rightarrow> ('z, unit) AM" where
  "json_delete_array j =
     bindM (json_to_array (Some j)) (\<lambda>array.
     bindM (decref_slots array [0..<unat (arr_entries array)]) (\<lambda>_. \<lambda>s.
       (Inr (), s\<lparr>arrays := (arrays s)(j := None)\<rparr>)))"

definition json_array_size :: "json option \<Rightarrow> ('z, size_t) AM" where
  "json_array_size v = bindM (json_is_array v) (\<lambda>ok.
     if \<not> ok then retM 0 else bindM (json_to_array v) (\<lambda>array. retM (arr_entries array)))"

definition json_array_get :: "json option \<Rightarrow> size_t \<Rightarrow> ('z, json option) AM" where
  "json_array_get v index = bindM (json_is_array v) (\<lambda>ok.
     if \<not> ok then retM None
     else bindM (json_to_array v) (\<lambda>array.
       if index \<ge> arr_entries array then retM None else get_slot array (unat index)))"

definition json_array_set_new :: "json option \<Rightarrow> size_t \<Rightarrow> json option \<Rightarrow> ('z, unit) AM" where
  "json_array_set_new json index val =
     (if val = None then failM NOERRNO
      else bindM (json_is_array json) (\<lambda>ok.
        if \<not> ok \<or> json = val then bindM (json_decref_ptr val) (\<lambda>_. failM NOERRNO)
        else bindM (json_to_array json) (\<lambda>array.
          if index \<ge> arr_entries array then bindM (json_decref_ptr val) (\<lambda>_. failM NOERRNO)
          else bindM (get_slot array (unat index)) (\<lambda>old.
               bindM (json_decref_ptr old) (\<lambda>_.
               set_array json (array\<lparr>arr_table := (arr_table array)[unat index := val]\<rparr>))))))"

definition copy_block :: "json option list \<Rightarrow> nat \<Rightarrow> json option list \<Rightarrow> nat \<Rightarrow> nat \<Rightarrow> ('z, json option list) AM" where
  "copy_block dest dpos src spos n =
     (if dpos + n \<le> length dest \<and> spos + n \<le> length src
      then retM (take dpos dest @ take n (drop spos src) @ drop (dpos + n) dest)
      else failM CRASH)"

definition array_move :: "json option list \<Rightarrow> size_t \<Rightarrow> size_t \<Rightarrow> size_t \<Rightarrow> ('z, json option list) AM" where
  "array_move table dest src cnt = copy_block table (unat dest) table (unat src) (unat cnt)"

definition array_copy :: "json option list \<Rightarrow> size_t \<Rightarrow> json option list \<Rightarrow> size_t \<Rightarrow> size_t \<Rightarrow> ('z, json option list) AM" where
  "array_copy dest dpos src spos cnt = copy_block dest (unat dpos) src (unat spos) (unat cnt)"

text \<open>
  The array afterwards and, unless its table was large enough, the old table; the C function returns
  a null pointer where this one fails.
\<close>

definition json_array_grow :: "json_array_t \<Rightarrow> size_t \<Rightarrow> bool \<Rightarrow> ('z, json_array_t \<times> json option list option) AM" where
  "json_array_grow array amount copy =
     (if arr_entries array + amount \<le> arr_size array then retM (array, None)
      else
        let old_table = arr_table array;
            new_size = max (arr_size array + amount) (arr_size array * 2)
        in bindM (alloc_table new_size) (\<lambda>new_table.
           if copy then
             bindM (array_copy new_table 0 old_table 0 (arr_entries array)) (\<lambda>new_table.
             retM (array\<lparr>arr_size := new_size, arr_table := new_table\<rparr>, Some old_table))
           else retM (array\<lparr>arr_size := new_size, arr_table := new_table\<rparr>, Some old_table)))"

definition set_slot :: "json option list \<Rightarrow> nat \<Rightarrow> json option \<Rightarrow> ('z, json option list) AM" where
  "set_slot table i v = (if i < length table then retM (table[i := v]) else failM CRASH)"

text \<open>The branch in which growing fails gives the value up.\<close>

definition or_decref :: "('z, 'a) AM \<Rightarrow> json option \<Rightarrow> ('a \<Rightarrow> ('z, 'b) AM) \<Rightarrow> ('z, 'b) AM" where
  "or_decref f val g = bindM (tryM f) (\<lambda>r. case r of
       Inl e \<Rightarrow> if e = CRASH then failM CRASH else bindM (json_decref_ptr val) (\<lambda>_. failM e)
     | Inr a \<Rightarrow> g a)"

definition json_array_append_new :: "json option \<Rightarrow> json option \<Rightarrow> ('z, unit) AM" where
  "json_array_append_new json val =
     (if val = None then failM NOERRNO
      else bindM (json_is_array json) (\<lambda>ok.
        if \<not> ok \<or> json = val then bindM (json_decref_ptr val) (\<lambda>_. failM NOERRNO)
        else bindM (json_to_array json) (\<lambda>array.
          or_decref (json_array_grow array 1 True) val (\<lambda>(array, _).
          bindM (set_slot (arr_table array) (unat (arr_entries array)) val) (\<lambda>table.
          set_array json (array\<lparr>arr_table := table, arr_entries := arr_entries array + 1\<rparr>))))))"

definition json_array_insert_new :: "json option \<Rightarrow> size_t \<Rightarrow> json option \<Rightarrow> ('z, unit) AM" where
  "json_array_insert_new json index val =
     (if val = None then failM NOERRNO
      else bindM (json_is_array json) (\<lambda>ok.
        if \<not> ok \<or> json = val then bindM (json_decref_ptr val) (\<lambda>_. failM NOERRNO)
        else bindM (json_to_array json) (\<lambda>array.
          if index > arr_entries array then bindM (json_decref_ptr val) (\<lambda>_. failM NOERRNO)
          else
            or_decref (json_array_grow array 1 False) val (\<lambda>(array, old).
            bindM (case old of
                Some old_table \<Rightarrow>
                  bindM (array_copy (arr_table array) 0 old_table 0 index) (\<lambda>table.
                  array_copy table (index + 1) old_table index (arr_entries array - index))
              | None \<Rightarrow> array_move (arr_table array) (index + 1) index (arr_entries array - index)) (\<lambda>table.
            bindM (set_slot table (unat index) val) (\<lambda>table.
            set_array json (array\<lparr>arr_table := table, arr_entries := arr_entries array + 1\<rparr>)))))))"

definition json_array_remove :: "json option \<Rightarrow> size_t \<Rightarrow> ('z, unit) AM" where
  "json_array_remove json index = bindM (json_is_array json) (\<lambda>ok.
     if \<not> ok then failM NOERRNO
     else bindM (json_to_array json) (\<lambda>array.
       if index \<ge> arr_entries array then failM NOERRNO
       else bindM (get_slot array (unat index)) (\<lambda>v.
            bindM (json_decref_ptr v) (\<lambda>_.
            bindM (array_move (arr_table array) index (index + 1) (arr_entries array - index)) (\<lambda>table.
            set_array json (array\<lparr>arr_table := table, arr_entries := arr_entries array - 1\<rparr>))))))"

definition json_array_clear :: "json option \<Rightarrow> ('z, unit) AM" where
  "json_array_clear json = bindM (json_is_array json) (\<lambda>ok.
     if \<not> ok then failM NOERRNO
     else bindM (json_to_array json) (\<lambda>array.
       bindM (decref_slots array [0..<unat (arr_entries array)]) (\<lambda>_.
       set_array json (array\<lparr>arr_entries := 0\<rparr>))))"

fun incref_slots :: "json_array_t \<Rightarrow> nat list \<Rightarrow> ('z, unit) AM" where
  "incref_slots a [] = retM ()"
| "incref_slots a (i # is) = bindM (get_slot a i) (\<lambda>v. bindM (json_incref v) (\<lambda>_. incref_slots a is))"

definition json_array_extend :: "json option \<Rightarrow> json option \<Rightarrow> ('z, unit) AM" where
  "json_array_extend json other_json =
     bindM (json_is_array json) (\<lambda>ok. bindM (json_is_array other_json) (\<lambda>ok2.
     if \<not> ok \<or> \<not> ok2 then failM NOERRNO
     else
       bindM (json_to_array json) (\<lambda>array.
       bindM (json_to_array other_json) (\<lambda>other.
       bindM (json_array_grow array (arr_entries other) True) (\<lambda>(array, _).
       bindM (set_array json array) (\<lambda>_.
       bindM (json_to_array other_json) (\<lambda>other.
       bindM (incref_slots other [0..<unat (arr_entries other)]) (\<lambda>_.
       bindM (array_copy (arr_table array) (arr_entries array) (arr_table other) 0 (arr_entries other)) (\<lambda>table.
       set_array json (array\<lparr>arr_table := table, arr_entries := arr_entries array + arr_entries other\<rparr>))))))))))"

definition json_array_append :: "json option \<Rightarrow> json option \<Rightarrow> ('z, unit) AM" where
  "json_array_append json val = bindM (json_incref val) (\<lambda>val. json_array_append_new json val)"

fun copy_loop :: "nat \<Rightarrow> json option \<Rightarrow> json option \<Rightarrow> nat \<Rightarrow> ('z, unit) AM" where
  "copy_loop 0 result array i = retM ()"
| "copy_loop (Suc n) result array i =
     bindM (json_array_get array (of_nat i)) (\<lambda>v.
     bindM (tryM (json_array_append result v)) (\<lambda>r.
     if r = Inl CRASH then failM CRASH else copy_loop n result array (i + 1)))"

definition json_array_copy :: "json option \<Rightarrow> ('z, json option) AM" where
  "json_array_copy array =
     bindM json_array (\<lambda>result.
     bindM (json_array_size array) (\<lambda>n.
     bindM (copy_loop (unat n) result array 0) (\<lambda>_. retM result)))"

end
