(* ===== verification/JArray_Correct.thy ===== *)
theory JArray_Correct
  imports JArray
begin

text \<open>
  What the array operations do to the list of elements: \<open>has_elems s j es\<close> says that the array at \<open>j\<close>
  has the elements \<open>es\<close>. Appending, inserting, replacing, clearing and extending (also by the array
  itself) are the operations of lists, or fail for want of memory with the array unchanged and the
  reference of the caller given up. Removing is right as long as the table is not full.
\<close>

subsection \<open>The elements of an array\<close>

text \<open>The array \<open>a\<close> has the elements \<open>es\<close>; the bound keeps the sizes from wrapping.\<close>

definition elems :: "json list \<Rightarrow> json_array_t \<Rightarrow> bool" where
  "elems es a \<longleftrightarrow> (\<exists>rest. arr_table a = map Some es @ rest) \<and> unat (arr_entries a) = length es \<and>
     unat (arr_size a) = length (arr_table a) \<and> length es \<le> length (arr_table a) \<and> 0 < length (arr_table a)"

definition has_elems :: "'z aheap_scheme \<Rightarrow> json \<Rightarrow> json list \<Rightarrow> bool" where
  "has_elems s j es \<longleftrightarrow> (\<exists>a. arrays s j = Some a \<and> elems es a)"

lemma am_defs: "json_is_array (Some j) s = (Inr (arrays s j \<noteq> None), s)"
  "arrays s j = Some a \<Longrightarrow> json_to_array (Some j) s = (Inr a, s)"
  "set_array (Some j) a s = (Inr (), s\<lparr>arrays := (arrays s)(j \<mapsto> a)\<rparr>)"
  "json_decref_ptr (Some v) s = (Inr (), s\<lparr>refs := refs s @ [Decref v]\<rparr>)"
  by (simp_all add: json_is_array_def json_to_array_def set_array_def json_decref_ptr_def)

lemma alloc_table_outcome:
  assumes "0 < unat n" and "unat n < 2 ^ 60"
  shows "alloc_table n s = (case malloc s of (Inl e, s') \<Rightarrow> (Inl e, s') | (Inr _, s') \<Rightarrow> (Inr (replicate (unat n) None), s'))"
proof -
  have "unat (n * 8) = unat n * 8" using assms by (subst unat_mult_lem [THEN iffD1]) simp_all
  moreover from this have "n * 8 \<noteq> 0" using assms(1) by (metis mult_pos_pos unat_0 zero_less_numeral nless_le)
  ultimately show ?thesis by (simp add: alloc_table_def bindM_def split: prod.split sum.split)
qed

lemma grow_size:
  assumes "elems es a" and "length (arr_table a) + unat n < 2 ^ 59"
  defines "new_size \<equiv> max (arr_size a + n) (arr_size a * 2)"
  shows "(arr_entries a + n \<le> arr_size a) = (length es + unat n \<le> length (arr_table a))"
    and "unat new_size = max (length (arr_table a) + unat n) (2 * length (arr_table a))" and "0 < unat new_size" and "unat new_size < 2 ^ 60"
proof -
  have e: "unat (arr_entries a) = length es" "unat (arr_size a) = length (arr_table a)" "length es \<le> length (arr_table a)"
    "0 < length (arr_table a)" using assms(1) by (auto simp: elems_def)
  have u: "unat (arr_entries a + n) = length es + unat n" "unat (arr_size a + n) = length (arr_table a) + unat n"
    using assms(2) e by (subst unat_add_lem [THEN iffD1]; simp)+
  have v: "unat (arr_size a * 2) = 2 * length (arr_table a)"
    using assms(2) e by (subst unat_mult_lem [THEN iffD1]) simp_all
  show "(arr_entries a + n \<le> arr_size a) = (length es + unat n \<le> length (arr_table a))" by (simp add: word_le_nat_alt u e)
  show new: "unat new_size = max (length (arr_table a) + unat n) (2 * length (arr_table a))"
    by (simp add: new_size_def max_def word_le_nat_alt u v)
  show "0 < unat new_size" "unat new_size < 2 ^ 60" using e(4) assms(2) by (simp_all add: new less_max_iff_disj)
qed

text \<open>Growing with the elements copied.\<close>

lemma grow_copy_outcome:
  assumes "elems es a" and "length (arr_table a) + unat n < 2 ^ 59"
  shows "(\<exists>a' old s'. json_array_grow a n True s = (Inr (a', old), s') \<and> elems es a' \<and> length es + unat n \<le> length (arr_table a') \<and>
      arr_entries a' = arr_entries a \<and> (\<exists>m. s' = s\<lparr>script := m\<rparr>) \<and> (script s = [] \<longrightarrow> script s' = [])) \<or>
    (\<exists>s'. json_array_grow a n True s = (Inl ENOMEM, s') \<and> script s \<noteq> [] \<and> (\<exists>m. s' = s\<lparr>script := m\<rparr>))"
proof (cases "length es + unat n \<le> length (arr_table a)")
  case True
  then show ?thesis using assms grow_size(1) [OF assms] by (auto simp: json_array_grow_def intro!: exI [of _ "script s"])
next
  case False
  define N where "N = max (arr_size a + n) (arr_size a * 2)"
  note g = grow_size [OF assms, folded N_def]
  obtain rest where t: "arr_table a = map Some es @ rest" "unat (arr_entries a) = length es" using assms(1) by (auto simp: elems_def)
  have cp: "array_copy (replicate (unat N) None) 0 (arr_table a) 0 (arr_entries a) s' =
      (Inr (map Some es @ replicate (unat N - length es) None), s')" for s' :: "'a aheap_scheme"
    using g(2) t by (simp add: array_copy_def copy_block_def)
  have run: "json_array_grow a n True s = (case malloc s of (Inl e, s') \<Rightarrow> (Inl e, s')
      | (Inr _, s') \<Rightarrow> (Inr (a\<lparr>arr_size := N, arr_table := map Some es @ replicate (unat N - length es) None\<rparr>, Some (arr_table a)), s'))"
    using False g(1) by (simp add: json_array_grow_def bindM_def alloc_table_outcome [OF g(3,4)] cp N_def [symmetric] Let_def split: prod.split sum.split)
  have el: "elems es (a\<lparr>arr_size := N, arr_table := map Some es @ replicate (unat N - length es) None\<rparr>)"
    "length es + unat n \<le> length (map Some es @ replicate (unat N - length es) None :: json option list)"
    using t g(2,3) by (auto simp: elems_def)
  show ?thesis
  proof (cases "script s")
    case Nil
    then show ?thesis using el unfolding run by (auto intro!: exI [of _ "[]"])
  next
    case (Cons b bs)
    then show ?thesis using el unfolding run by (cases b) (auto simp: malloc_def intro!: exI [of _ bs])
  qed
qed

lemma entries_Suc: "elems es a \<Longrightarrow> length es < 2 ^ 60 \<Longrightarrow> unat (arr_entries a + 1) = Suc (length es)"
  by (subst unat_add_lem [THEN iffD1]) (simp_all add: elems_def)

lemma set_slot_next:
  assumes "elems es a" and "length es < length (arr_table a)" and "length es < 2 ^ 60"
  shows "\<exists>t. set_slot (arr_table a) (unat (arr_entries a)) (Some v) s = (Inr t, s) \<and>
    elems (es @ [v]) (a\<lparr>arr_table := t, arr_entries := arr_entries a + 1\<rparr>)"
proof -
  obtain rest where t: "arr_table a = map Some es @ rest" "unat (arr_entries a) = length es" using assms(1) by (auto simp: elems_def)
  obtain c r where r: "rest = c # r" using t(1) assms(2) by (cases rest) auto
  have "set_slot (arr_table a) (unat (arr_entries a)) (Some v) s = (Inr (map Some es @ Some v # r), s)"
    using t by (simp add: set_slot_def r list_update_append)
  moreover have "elems (es @ [v]) (a\<lparr>arr_table := map Some es @ Some v # r, arr_entries := arr_entries a + 1\<rparr>)"
    using assms(1) t entries_Suc [OF assms(1,3)] by (auto simp: elems_def r)
  ultimately show ?thesis by blast
qed

lemma append_outcome:
  assumes "has_elems s j es" and "v \<noteq> j" and "length (arr_table (the (arrays s j))) < 2 ^ 58"
  shows "(\<exists>s'. json_array_append_new (Some j) (Some v) s = (Inr (), s') \<and> has_elems s' j (es @ [v]) \<and> refs s' = refs s \<and>
      (\<forall>k. k \<noteq> j \<longrightarrow> arrays s' k = arrays s k) \<and> (script s = [] \<longrightarrow> script s' = [])) \<or>
    (\<exists>s'. json_array_append_new (Some j) (Some v) s = (Inl ENOMEM, s') \<and> arrays s' = arrays s \<and>
      refs s' = refs s @ [Decref v] \<and> script s \<noteq> [])"
proof -
  obtain a where a: "arrays s j = Some a" "elems es a" using assms(1) by (auto simp: has_elems_def)
  have small: "length (arr_table a) + unat (1 :: size_t) < 2 ^ 59" using assms(3) a(1) by simp
  have run: "json_array_append_new (Some j) (Some v) s = or_decref (json_array_grow a 1 True) (Some v) (\<lambda>(array, _).
      bindM (set_slot (arr_table array) (unat (arr_entries array)) (Some v)) (\<lambda>table.
      set_array (Some j) (array\<lparr>arr_table := table, arr_entries := arr_entries array + 1\<rparr>))) s"
    using a assms(2) by (auto simp: json_array_append_new_def bindM_def am_defs)
  from grow_copy_outcome [OF a(2) small, of s] show ?thesis
  proof (elim disjE exE conjE)
    fix a' old s' m
    assume g: "json_array_grow a 1 True s = (Inr (a', old), s')" "elems es a'" "length es + unat (1 :: size_t) \<le> length (arr_table a')"
      "s' = s\<lparr>script := m\<rparr>" "script s = [] \<longrightarrow> script s' = []"
    have "length es < 2 ^ 60" "length es < length (arr_table a')" using a(2) small g(3) by (auto simp: elems_def)
    with set_slot_next [OF g(2), of v s'] obtain t where
      t: "set_slot (arr_table a') (unat (arr_entries a')) (Some v) s' = (Inr t, s')"
        "elems (es @ [v]) (a'\<lparr>arr_table := t, arr_entries := arr_entries a' + 1\<rparr>)" by blast
    have "json_array_append_new (Some j) (Some v) s =
        (Inr (), s'\<lparr>arrays := (arrays s')(j \<mapsto> a'\<lparr>arr_table := t, arr_entries := arr_entries a' + 1\<rparr>)\<rparr>)"
      using g(1) t(1) unfolding run by (simp add: or_decref_def bindM_def tryM_def am_defs)
    then show ?thesis using t(2) g(4,5) by (auto simp: has_elems_def)
  next
    fix s' m
    assume "json_array_grow a 1 True s = (Inl ENOMEM, s')" "script s \<noteq> []" "s' = s\<lparr>script := m\<rparr>"
    then show ?thesis unfolding run by (auto simp: or_decref_def bindM_def tryM_def am_defs)
  qed
qed

subsection \<open>Insertion\<close>

lemma elems_insert:
  assumes "elems es a" and "i \<le> length es" and "length es < 2 ^ 60" and "length t = unat (arr_size a')" and "arr_entries a' = arr_entries a"
    and "t = map Some (take i es) @ c # map Some (drop i es) @ rest"
  shows "elems (take i es @ v # drop i es) (a'\<lparr>arr_table := t[i := Some v], arr_entries := arr_entries a' + 1\<rparr>)"
  using assms entries_Suc [OF assms(1,3)] by (auto simp: elems_def list_update_append)

lemma move_up:
  assumes "elems es a" and "length es < length (arr_table a)" and "unat index \<le> length es" and "length es < 2 ^ 60"
  shows "\<exists>t c rest. array_move (arr_table a) (index + 1) index (arr_entries a - index) s = (Inr t, s) \<and> length t = unat (arr_size a) \<and>
    t = map Some (take (unat index) es) @ c # map Some (drop (unat index) es) @ rest"
proof -
  define i where "i = unat index"
  obtain r where t: "arr_table a = map Some es @ r" "unat (arr_entries a) = length es" "unat (arr_size a) = length (arr_table a)"
    using assms(1) by (auto simp: elems_def)
  obtain c rest where r: "r = c # rest" using t(1) assms(2) by (cases r) auto
  have i1: "unat (index + 1) = Suc i" using assms(3,4) by (subst unat_add_lem [THEN iffD1]) (simp_all add: i_def)
  have "index \<le> arr_entries a" using assms(3) t(2) by (simp add: word_le_nat_alt)
  then have n: "unat (arr_entries a - index) = length es - i" using t(2) by (simp add: unat_sub i_def)
  have il: "i \<le> length es" using assms(3) by (simp add: i_def)
  have tk: "take (Suc i) (map Some es @ c # rest) = map Some (take i es) @ [(map Some es @ c # rest) ! i]"
    using il by (subst take_Suc_conv_app_nth) (auto simp: take_map)
  have "array_move (arr_table a) (index + 1) index (arr_entries a - index) s =
      (Inr (map Some (take i es) @ (map Some es @ c # rest) ! i # map Some (drop i es) @ rest), s)"
    using il tk by (simp add: array_move_def copy_block_def i1 n t(1) r flip: i_def) (simp add: drop_map take_map)
  then show ?thesis using t(3) il
    by (intro exI [of _ "map Some (take i es) @ (map Some es @ c # rest) ! i # map Some (drop i es) @ rest"]
        exI [of _ "(map Some es @ c # rest) ! i"] exI [of _ rest]) (simp add: t(1) r flip: i_def)
qed

lemma or_decref_run: "f s = (Inr x, s') \<Longrightarrow> or_decref f val g s = g x s'"
  by (simp add: or_decref_def bindM_def tryM_def)

lemma copy_around:
  assumes "elems es a" and "unat index \<le> length es" and "length es < N" and "length es < 2 ^ 60"
  defines "i \<equiv> unat index"
  shows "bindM (array_copy (replicate N None) 0 (arr_table a) 0 index)
      (\<lambda>t. array_copy t (index + 1) (arr_table a) index (arr_entries a - index)) s =
    (Inr (map Some (take i es) @ None # map Some (drop i es) @ replicate (N - Suc (length es)) None), s)"
proof -
  obtain r where t: "arr_table a = map Some es @ r" "unat (arr_entries a) = length es" using assms(1) by (auto simp: elems_def)
  have i1: "unat (index + 1) = Suc i" using assms(2,4) by (subst unat_add_lem [THEN iffD1]) (simp_all add: i_def)
  have "index \<le> arr_entries a" using assms(2) t(2) by (simp add: word_le_nat_alt)
  then have n: "unat (arr_entries a - index) = length es - i" using t(2) by (simp add: unat_sub i_def)
  have il: "i \<le> length es" using assms(2) by (simp add: i_def)
  have "array_copy (replicate N None) 0 (arr_table a) 0 index s = (Inr (map Some (take i es) @ replicate (N - i) None), s)"
    using il assms(3) by (simp add: array_copy_def copy_block_def t(1) take_map flip: i_def)
  moreover have "array_copy (map Some (take i es) @ replicate (N - i) None) (index + 1) (arr_table a) index (arr_entries a - index) s =
      (Inr (map Some (take i es) @ None # map Some (drop i es) @ replicate (N - Suc (length es)) None), s)"
    using il assms(3) by (simp add: array_copy_def copy_block_def i1 n t(1) take_map drop_map Suc_diff_le flip: i_def)
  ultimately show ?thesis by (simp add: bindM_def)
qed

lemma grow_nocopy_outcome:
  assumes "elems es a" and "length (arr_table a) + 1 < 2 ^ 59"
  shows "(length es < length (arr_table a) \<and> json_array_grow a 1 False s = (Inr (a, None), s)) \<or>
    (\<exists>N s'. length es < unat N \<and> json_array_grow a 1 False s =
      (Inr (a\<lparr>arr_size := N, arr_table := replicate (unat N) None\<rparr>, Some (arr_table a)), s') \<and>
      (\<exists>m. s' = s\<lparr>script := m\<rparr>) \<and> (script s = [] \<longrightarrow> script s' = [])) \<or>
    (\<exists>s'. json_array_grow a 1 False s = (Inl ENOMEM, s') \<and> script s \<noteq> [] \<and> (\<exists>m. s' = s\<lparr>script := m\<rparr>))"
proof (cases "length es < length (arr_table a)")
  case True
  then show ?thesis using assms grow_size(1) [OF assms(1), of 1] by (simp add: json_array_grow_def)
next
  case False
  define N where "N = max (arr_size a + 1) (arr_size a * 2)"
  have small: "length (arr_table a) + unat (1 :: size_t) < 2 ^ 59" using assms(2) by simp
  note g = grow_size [OF assms(1) small, folded N_def]
  have lt: "length es < unat N" using False assms(1) by (auto simp: g(2) elems_def less_max_iff_disj)
  have run: "json_array_grow a 1 False s = (case malloc s of (Inl e, s') \<Rightarrow> (Inl e, s')
      | (Inr _, s') \<Rightarrow> (Inr (a\<lparr>arr_size := N, arr_table := replicate (unat N) None\<rparr>, Some (arr_table a)), s'))"
    using False g(1) by (simp add: json_array_grow_def bindM_def alloc_table_outcome [OF g(3,4)] N_def [symmetric] Let_def split: prod.split sum.split)
  show ?thesis
  proof (cases "script s")
    case Nil
    then show ?thesis using lt unfolding run by (auto intro!: exI [of _ N] exI [of _ "[]"])
  next
    case (Cons b bs)
    then show ?thesis using lt unfolding run by (cases b) (auto simp: malloc_def intro!: exI [of _ N] exI [of _ bs])
  qed
qed

lemma insert_outcome:
  assumes "has_elems s j es" and "v \<noteq> j" and "length (arr_table (the (arrays s j))) < 2 ^ 58" and "unat index \<le> length es"
  defines "i \<equiv> unat index"
  shows "(\<exists>s'. json_array_insert_new (Some j) index (Some v) s = (Inr (), s') \<and> has_elems s' j (take i es @ v # drop i es) \<and>
      refs s' = refs s \<and> (\<forall>k. k \<noteq> j \<longrightarrow> arrays s' k = arrays s k) \<and> (script s = [] \<longrightarrow> script s' = [])) \<or>
    (\<exists>s'. json_array_insert_new (Some j) index (Some v) s = (Inl ENOMEM, s') \<and> arrays s' = arrays s \<and>
      refs s' = refs s @ [Decref v] \<and> script s \<noteq> [])"
proof -
  obtain a where a: "arrays s j = Some a" "elems es a" using assms(1) by (auto simp: has_elems_def)
  have small: "length (arr_table a) + 1 < 2 ^ 59" "length es < 2 ^ 60" using assms(3) a by (auto simp: elems_def)
  have il: "i \<le> length es" using assms(4) by (simp add: i_def)
  have "\<not> index > arr_entries a" using assms(4) a(2) by (simp add: elems_def word_less_nat_alt)
  then have run: "json_array_insert_new (Some j) index (Some v) s = or_decref (json_array_grow a 1 False) (Some v) (\<lambda>(array, old).
      bindM (case old of
          Some old_table \<Rightarrow>
            bindM (array_copy (arr_table array) 0 old_table 0 index) (\<lambda>table.
            array_copy table (index + 1) old_table index (arr_entries array - index))
        | None \<Rightarrow> array_move (arr_table array) (index + 1) index (arr_entries array - index)) (\<lambda>table.
      bindM (set_slot table (unat index) (Some v)) (\<lambda>table.
      set_array (Some j) (array\<lparr>arr_table := table, arr_entries := arr_entries array + 1\<rparr>)))) s"
    using a assms(2) by (auto simp: json_array_insert_new_def bindM_def am_defs)
  have finish: "\<exists>s''. bindM (set_slot t i (Some v)) (\<lambda>t. set_array (Some j) (a'\<lparr>arr_table := t, arr_entries := arr_entries a' + 1\<rparr>)) s' = (Inr (), s'') \<and>
      has_elems s'' j (take i es @ v # drop i es) \<and> refs s'' = refs s' \<and> (\<forall>k. k \<noteq> j \<longrightarrow> arrays s'' k = arrays s' k) \<and> script s'' = script s'"
    if "length t = unat (arr_size a')" "arr_entries a' = arr_entries a" "t = map Some (take i es) @ c # map Some (drop i es) @ rest"
    for t a' c rest and s' :: "'a aheap_scheme"
    using elems_insert [OF a(2) il small(2) that, of v] that(3) il by (auto simp: bindM_def set_slot_def am_defs has_elems_def)
  from grow_nocopy_outcome [OF a(2) small(1), of s] show ?thesis
  proof (elim disjE exE conjE)
    assume g: "length es < length (arr_table a)" "json_array_grow a 1 False s = (Inr (a, None), s)"
    from move_up [OF a(2) g(1) assms(4) small(2), of s] obtain t c rest where
      t: "array_move (arr_table a) (index + 1) index (arr_entries a - index) s = (Inr t, s)" "length t = unat (arr_size a)"
        "t = map Some (take i es) @ c # map Some (drop i es) @ rest" unfolding i_def by blast
    show ?thesis using finish [OF t(2) refl t(3), of s] g(2) t(1) unfolding run i_def
      by (auto simp: or_decref_def bindM_def tryM_def)
  next
    fix N s' m
    assume g: "length es < unat N" "json_array_grow a 1 False s = (Inr (a\<lparr>arr_size := N, arr_table := replicate (unat N) None\<rparr>, Some (arr_table a)), s')"
      "s' = s\<lparr>script := m\<rparr>" "script s = [] \<longrightarrow> script s' = []"
    define t where "t = map Some (take i es) @ None # map Some (drop i es) @ replicate (unat N - Suc (length es)) None"
    have len: "length t = unat (arr_size (a\<lparr>arr_size := N, arr_table := replicate (unat N) None\<rparr>))" using g(1) il by (simp add: t_def)
    from finish [OF len _ t_def, of s'] obtain s'' where
      f: "bindM (set_slot t i (Some v)) (\<lambda>t. set_array (Some j) (a\<lparr>arr_size := N, arr_table := replicate (unat N) None\<rparr>
          \<lparr>arr_table := t, arr_entries := arr_entries a + 1\<rparr>)) s' = (Inr (), s'')"
        "has_elems s'' j (take i es @ v # drop i es)" "refs s'' = refs s'" "\<forall>k. k \<noteq> j \<longrightarrow> arrays s'' k = arrays s' k" "script s'' = script s'" by auto
    have cp: "bindM (bindM (array_copy (replicate (unat N) None) 0 (arr_table a) 0 index)
        (\<lambda>t. array_copy t (index + 1) (arr_table a) index (arr_entries a - index))) g s' = g t s'" for g :: "_ \<Rightarrow> ('a, unit) AM"
      unfolding t_def i_def by (rule bindM_run(1), rule copy_around [OF a(2) assms(4) g(1) small(2)])
    have "json_array_insert_new (Some j) index (Some v) s = (Inr (), s'')"
      using f(1) g(2) unfolding run by (simp add: or_decref_run cp flip: i_def)
    then show ?thesis using f(2-5) g(3,4) by auto
  next
    fix s' m
    assume "json_array_grow a 1 False s = (Inl ENOMEM, s')" "script s \<noteq> []" "s' = s\<lparr>script := m\<rparr>"
    then show ?thesis unfolding run by (auto simp: or_decref_def bindM_def tryM_def am_defs)
  qed
qed

subsection \<open>Removal\<close>

lemma remove_outcome:
  assumes "has_elems s j es" and "unat index < length es" and "length es < 2 ^ 60"
  defines "i \<equiv> unat index"
  shows "length es < length (arr_table (the (arrays s j))) \<Longrightarrow>
      \<exists>s'. json_array_remove (Some j) index s = (Inr (), s') \<and> has_elems s' j (take i es @ drop (Suc i) es) \<and>
        refs s' = refs s @ [Decref (es ! i)] \<and> (\<forall>k. k \<noteq> j \<longrightarrow> arrays s' k = arrays s k) \<and> script s' = script s"
    and "length es = length (arr_table (the (arrays s j))) \<Longrightarrow> fst (json_array_remove (Some j) index s) = Inl CRASH"
proof -
  obtain a where a: "arrays s j = Some a" "elems es a" using assms(1) by (auto simp: has_elems_def)
  obtain r where t: "arr_table a = map Some es @ r" "unat (arr_entries a) = length es" "unat (arr_size a) = length (arr_table a)"
    using a(2) by (auto simp: elems_def)
  have il: "i < length es" using assms(2) by (simp add: i_def)
  have i1: "unat (index + 1) = Suc i" using assms(2,3) by (subst unat_add_lem [THEN iffD1]) (simp_all add: i_def)
  have "index \<le> arr_entries a" "\<not> index \<ge> arr_entries a" using assms(2) t(2) by (simp_all add: word_le_nat_alt)
  then have n: "unat (arr_entries a - index) = length es - i" and lt: "\<not> arr_entries a \<le> index" using t(2) by (simp_all add: unat_sub i_def)
  have run: "json_array_remove (Some j) index s =
      bindM (array_move (arr_table a) index (index + 1) (arr_entries a - index)) (\<lambda>table.
      set_array (Some j) (a\<lparr>arr_table := table, arr_entries := arr_entries a - 1\<rparr>)) (s\<lparr>refs := refs s @ [Decref (es ! i)]\<rparr>)"
    using a lt il t(1) by (simp add: json_array_remove_def bindM_def am_defs get_slot_def nth_append flip: i_def)
  show "fst (json_array_remove (Some j) index s) = Inl CRASH" if "length es = length (arr_table (the (arrays s j)))"
    using that a(1) il unfolding run by (simp add: bindM_def array_move_def copy_block_def i1 n)
  assume "length es < length (arr_table (the (arrays s j)))"
  then obtain c rest where r: "r = c # rest" using t(1) a(1) by (cases r) auto
  let ?t = "map Some (take i es @ drop (Suc i) es) @ c # drop (length es) (map Some es @ c # rest)"
  have mv: "array_move (arr_table a) index (index + 1) (arr_entries a - index) s' = (Inr ?t, s')" for s' :: "'a aheap_scheme"
    using il by (simp add: array_move_def copy_block_def i1 n t(1) r take_map drop_map Suc_diff_Suc flip: i_def)
  have "1 \<le> arr_entries a" using t(2) il by (simp add: word_le_nat_alt)
  then have "unat (arr_entries a - 1) = length es - 1" using t(2) by (simp add: unat_sub)
  then have "elems (take i es @ drop (Suc i) es) (a\<lparr>arr_table := ?t, arr_entries := arr_entries a - 1\<rparr>)"
    using il t r by (auto simp: elems_def)
  then show "\<exists>s'. json_array_remove (Some j) index s = (Inr (), s') \<and> has_elems s' j (take i es @ drop (Suc i) es) \<and>
        refs s' = refs s @ [Decref (es ! i)] \<and> (\<forall>k. k \<noteq> j \<longrightarrow> arrays s' k = arrays s k) \<and> script s' = script s"
    unfolding run by (auto simp: bindM_def mv am_defs has_elems_def)
qed

subsection \<open>Reading, replacing, clearing\<close>

lemma get_run:
  assumes "has_elems s j es"
  shows "json_array_get (Some j) index s = (Inr (if unat index < length es then Some (es ! unat index) else None), s)"
    and "json_array_size (Some j) s = (Inr (of_nat (length es)), s)"
proof -
  obtain a r where a: "arrays s j = Some a" "arr_table a = map Some es @ r" "unat (arr_entries a) = length es"
    using assms by (auto simp: has_elems_def elems_def)
  have "arr_entries a \<le> index \<longleftrightarrow> length es \<le> unat index" by (simp add: word_le_nat_alt a(3))
  then show "json_array_get (Some j) index s = (Inr (if unat index < length es then Some (es ! unat index) else None), s)"
    using a(1) by (simp add: json_array_get_def bindM_def am_defs get_slot_def a(2) nth_append)
  show "json_array_size (Some j) s = (Inr (of_nat (length es)), s)"
    using a(1) by (simp add: json_array_size_def bindM_def am_defs flip: a(3))
qed

lemma set_outcome:
  fixes index :: size_t
  assumes "has_elems s j es" and "v \<noteq> j"
  defines "i \<equiv> unat index"
  shows "i < length es \<Longrightarrow> \<exists>s'. json_array_set_new (Some j) index (Some v) s = (Inr (), s') \<and> has_elems s' j (es[i := v]) \<and>
      refs s' = refs s @ [Decref (es ! i)] \<and> (\<forall>k. k \<noteq> j \<longrightarrow> arrays s' k = arrays s k) \<and> script s' = script s"
    and "length es \<le> i \<Longrightarrow> json_array_set_new (Some j) index (Some v) s = (Inl NOERRNO, s\<lparr>refs := refs s @ [Decref v]\<rparr>)"
proof -
  obtain a where a: "arrays s j = Some a" "elems es a" using assms(1) by (auto simp: has_elems_def)
  obtain r where t: "arr_table a = map Some es @ r" "unat (arr_entries a) = length es" using a(2) by (auto simp: elems_def)
  have le: "arr_entries a \<le> index \<longleftrightarrow> length es \<le> i" by (simp add: word_le_nat_alt t(2) i_def)
  show "json_array_set_new (Some j) index (Some v) s = (Inl NOERRNO, s\<lparr>refs := refs s @ [Decref v]\<rparr>)" if "length es \<le> i"
    using that a(1) le assms(2) by (auto simp: json_array_set_new_def bindM_def am_defs)
  assume i: "i < length es"
  have "elems (es[i := v]) (a\<lparr>arr_table := (arr_table a)[i := Some v]\<rparr>)"
    using a(2) t i by (auto simp: elems_def list_update_append map_update)
  then show "\<exists>s'. json_array_set_new (Some j) index (Some v) s = (Inr (), s') \<and> has_elems s' j (es[i := v]) \<and>
      refs s' = refs s @ [Decref (es ! i)] \<and> (\<forall>k. k \<noteq> j \<longrightarrow> arrays s' k = arrays s k) \<and> script s' = script s"
    using a(1) le assms(2) i by (auto simp: json_array_set_new_def bindM_def am_defs get_slot_def t(1) nth_append has_elems_def simp flip: i_def)
qed

lemma slots_run:
  assumes "arr_table a = map Some es @ r" and "n \<le> length es"
  shows "decref_slots a [n..<length es] s = (Inr (), s\<lparr>refs := refs s @ map Decref (drop n es)\<rparr>)"
    and "incref_slots a [n..<length es] s = (Inr (), s\<lparr>refs := refs s @ map Incref (drop n es)\<rparr>)"
  using assms(2)
proof (induction "length es - n" arbitrary: n s)
  case (Suc k)
  then have n: "n < length es" "[n..<length es] = n # [Suc n..<length es]" "drop n es = es ! n # drop (Suc n) es"
    by (simp_all add: upt_conv_Cons Cons_nth_drop_Suc)
  { case 1 then show ?case using n Suc(1) [of "Suc n"] Suc(3)
      by (simp add: bindM_def get_slot_def assms(1) nth_append am_defs) }
  { case 2 then show ?case using n Suc(2) [of "Suc n"] Suc(3)
      by (simp add: bindM_def get_slot_def assms(1) nth_append json_incref_def) }
qed simp_all

lemma clear_run:
  assumes "has_elems s j es"
  shows "\<exists>s'. json_array_clear (Some j) s = (Inr (), s') \<and> has_elems s' j [] \<and> refs s' = refs s @ map Decref es \<and>
      (\<forall>k. k \<noteq> j \<longrightarrow> arrays s' k = arrays s k) \<and> script s' = script s"
proof -
  obtain a r where a: "arrays s j = Some a" "arr_table a = map Some es @ r" "unat (arr_entries a) = length es" "elems es a"
    using assms by (auto simp: has_elems_def elems_def)
  have "elems [] (a\<lparr>arr_entries := 0\<rparr>)" using a(4) by (auto simp: elems_def)
  then show ?thesis using a(1) slots_run(1) [OF a(2), of 0 s]
    by (auto simp: json_array_clear_def bindM_def am_defs a(3) has_elems_def)
qed

subsection \<open>Extension, by another array or by the array itself\<close>

lemma copy_to_end:
  assumes "elems es a" and "arr_table b = map Some fs @ r" and "unat (arr_entries b) = length fs"
    and "length es + length fs \<le> length (arr_table a)" and "length es + length fs < 2 ^ 60"
  shows "\<exists>t. array_copy (arr_table a) (arr_entries a) (arr_table b) 0 (arr_entries b) s = (Inr t, s) \<and>
    elems (es @ fs) (a\<lparr>arr_table := t, arr_entries := arr_entries a + arr_entries b\<rparr>)"
proof -
  obtain q where t: "arr_table a = map Some es @ q" "unat (arr_entries a) = length es" using assms(1) by (auto simp: elems_def)
  have "unat (arr_entries a + arr_entries b) = length es + length fs"
    using assms(3,5) t(2) by (subst unat_add_lem [THEN iffD1]) simp_all
  then show ?thesis using assms(1-4) t
    by (auto simp: array_copy_def copy_block_def elems_def take_map)
qed

lemma elems_unique: "elems es a \<Longrightarrow> elems fs a \<Longrightarrow> es = fs"
  unfolding elems_def by (metis append_eq_append_conv inj_Some inj_map_eq_map length_map)

lemma extend_outcome:
  assumes "has_elems s j es" and "has_elems s k fs" and "length (arr_table (the (arrays s j))) + length fs < 2 ^ 58"
  shows "(\<exists>s'. json_array_extend (Some j) (Some k) s = (Inr (), s') \<and> has_elems s' j (es @ fs) \<and>
      refs s' = refs s @ map Incref fs \<and> (\<forall>l. l \<noteq> j \<longrightarrow> arrays s' l = arrays s l) \<and> (script s = [] \<longrightarrow> script s' = [])) \<or>
    (\<exists>s'. json_array_extend (Some j) (Some k) s = (Inl ENOMEM, s') \<and> arrays s' = arrays s \<and> refs s' = refs s \<and> script s \<noteq> [])"
proof -
  obtain a where a: "arrays s j = Some a" "elems es a" using assms(1) by (auto simp: has_elems_def)
  obtain b where b: "arrays s k = Some b" "elems fs b" using assms(2) by (auto simp: has_elems_def)
  have n: "unat (arr_entries b) = length fs" using b(2) by (simp add: elems_def)
  have small: "length (arr_table a) + unat (arr_entries b) < 2 ^ 59" using assms(3) a(1) n by simp
  from grow_copy_outcome [OF a(2) small, of s] show ?thesis
  proof (elim disjE exE conjE)
    fix a' old s' m
    assume g: "json_array_grow a (arr_entries b) True s = (Inr (a', old), s')" "elems es a'" "length es + unat (arr_entries b) \<le> length (arr_table a')"
      "s' = s\<lparr>script := m\<rparr>" "script s = [] \<longrightarrow> script s' = []" "arr_entries a' = arr_entries a"
    define b' where "b' = (if k = j then a' else b)"
    have b': "elems fs b'" using g(2) b a elems_unique [of es a fs] by (auto simp: b'_def)
    obtain r where r: "arr_table b' = map Some fs @ r" "unat (arr_entries b') = length fs" using b' by (auto simp: elems_def)
    define s1 where "s1 = s'\<lparr>arrays := (arrays s')(j \<mapsto> a')\<rparr>"
    have s1: "arrays s1 k = Some b'" using b(1) g(4) by (simp add: s1_def b'_def)
    define s2 where "s2 = s1\<lparr>refs := refs s1 @ map Incref fs\<rparr>"
    have up: "incref_slots b' [0..<unat (arr_entries b')] s1 = (Inr (), s2)"
      using slots_run(2) [OF r(1), of 0 s1] by (simp add: r(2) s2_def)
    obtain t where t: "array_copy (arr_table a') (arr_entries a') (arr_table b') 0 (arr_entries b') s2 = (Inr t, s2)"
      "elems (es @ fs) (a'\<lparr>arr_table := t, arr_entries := arr_entries a' + arr_entries b'\<rparr>)"
      using copy_to_end [OF g(2) r, of s2] g(3) small a(2) n by (auto simp: elems_def)
    have "json_array_extend (Some j) (Some k) s =
        (Inr (), s2\<lparr>arrays := (arrays s2)(j \<mapsto> a'\<lparr>arr_table := t, arr_entries := arr_entries a' + arr_entries b'\<rparr>)\<rparr>)"
      using a(1) b(1) g(1) up t(1) s1 by (simp add: json_array_extend_def bindM_def am_defs flip: s1_def)
    then show ?thesis using t(2) g(4,5) by (auto simp: has_elems_def s2_def s1_def)
  next
    fix s' m
    assume "json_array_grow a (arr_entries b) True s = (Inl ENOMEM, s')" "script s \<noteq> []" "s' = s\<lparr>script := m\<rparr>"
    then show ?thesis using a(1) b(1) by (auto simp: json_array_extend_def bindM_def am_defs)
  qed
qed

end
