(* ===== verification/Jansson.thy ===== *)
theory Jansson
  imports Utf_Correct Lex_Correct Dictionary JArray_Correct
begin

text \<open>
  The properties of the Jansson components: the UTF-8 coder, the string buffer, the hash table, the
  arrays, and strings as they are written and read.
\<close>

definition json_heap :: "nat jheap" where
  "json_heap = \<lparr>script = [], decrefs = []\<rparr>"

section \<open>Text\<close>

text \<open>
  C31. \<^verbatim>\<open>utf8_iterate\<close> undoes \<^verbatim>\<open>utf8_encode\<close>, and nothing else: it takes a code point off a string exactly
  when the string begins with what \<^verbatim>\<open>utf8_encode\<close> writes for it and the code point is a Unicode scalar
  value other than NUL. Overlong forms, surrogates, code points beyond U+10FFFF, stray continuation
  bytes and sequences cut off by the end of the string are all refused.
\<close>

theorem utf8_iterate_decodes:
  "utf8_iterate s = Some (r, Some cp) \<longleftrightarrow> scalar cp \<and> cp \<noteq> 0 \<and> (\<exists>bs. utf8_encode cp = Some bs \<and> s = bs @ r)"
proof (cases "scalar cp")
  case True
  then have "utf8_encode cp = Some (utf8 cp)" by (intro utf8_uints(1)) (simp_all add: scalar_def)
  then show ?thesis by (simp add: utf8_iterate_iff)
qed (simp add: utf8_iterate_iff)

text \<open>
  C32. \<^verbatim>\<open>utf8_check_string\<close> accepts exactly the concatenations of encoded scalar values: of the first
  \<^verbatim>\<open>length\<close> bytes when a length inside the buffer is given, of the bytes before the NUL when it is -1
  and there are fewer than 2 GB of them. From there to 4 GB the length that \<^verbatim>\<open>strlen\<close> returns is negative as an
  \<^verbatim>\<open>int\<close>, and every string is accepted.
\<close>

theorem utf8_check_string_exact:
  assumes "0 \<le> len" and "len \<le> int (length s)"
  shows "(utf8_check_string s len \<longleftrightarrow>
      (\<exists>cps. (\<forall>cp \<in> set cps. scalar cp) \<and> take (nat len) s = concat (map (\<lambda>cp. the (utf8_encode cp)) cps))) \<and>
    (length (takeWhile (\<lambda>c. c \<noteq> 0) s) < 2 ^ 31 \<longrightarrow> (utf8_check_string s (-1) \<longleftrightarrow>
      (\<exists>cps. (\<forall>cp \<in> set cps. scalar cp) \<and> takeWhile (\<lambda>c. c \<noteq> 0) s = concat (map (\<lambda>cp. the (utf8_encode cp)) cps)))) \<and>
    (2 ^ 31 \<le> length (takeWhile (\<lambda>c. c \<noteq> 0) s) \<and> length (takeWhile (\<lambda>c. c \<noteq> 0) s) < 2 ^ 32 \<longrightarrow> utf8_check_string s (-1))"
  using utf8_check_string_wf(1) [OF assms] utf8_check_string_wf(2,3) [of s]
  by (simp add: wf_utf8_def utf8s_def utf8_def [abs_def])

lemma utf8_check_string_exact_witness:
  "utf8_check_string [0xE2, 0x82, 0xAC] 3 \<and>
   (\<exists>cps. (\<forall>cp \<in> set cps. scalar cp) \<and> [0xE2, 0x82, 0xAC] = concat (map (\<lambda>cp. the (utf8_encode cp)) cps))"
proof -
  have "utf8_check_string [0xE2, 0x82, 0xAC] 3" by code_simp
  then show ?thesis using utf8_check_string_exact [of 3 "[0xE2, 0x82, 0xAC]"] by simp
qed

text \<open>
  C33. Appending to a string buffer that holds some bytes gives a buffer that holds them followed by
  the new ones and a NUL, inside its block. It fails only when the allocation does, or when the sizes
  would wrap, and then the buffer is as it was; it never writes outside the block. Popping gives the
  last byte back and the buffer as it was before that byte.
\<close>

theorem strbuffer_append_bytes_safe:
  assumes "holds bs sb" and "unat sz \<le> length data"
  shows "((\<exists>sb' s'. strbuffer_append_bytes data sz (sb, s) = (Inr (), (sb', s')) \<and> holds (bs @ take (unat sz) data) sb' \<and>
        (script s = [] \<longrightarrow> script s' = [])) \<or>
      (\<exists>s'. strbuffer_append_bytes data sz (sb, s) = (Inl ENOMEM, (sb, s')) \<and> script s \<noteq> []) \<or>
      strbuffer_append_bytes data sz (sb, s) = (Inl NOERRNO, (sb, s)) \<and> (2 ^ 63 \<le> unat (sb_size sb) \<or> 2 ^ 64 \<le> length bs + unat sz + 1)) \<and>
    (\<exists>sb'. strbuffer_pop (sb, s) = (Inr (if bs = [] then 0 else last bs), (sb', s)) \<and> holds (butlast bs) sb')"
  using append_bytes_outcome [OF assms, of s] strbuffer_pop_holds(1) [of "butlast bs" "last bs" sb s]
    strbuffer_pop_holds(2) [of sb s] assms(1) by auto

lemma strbuffer_append_bytes_safe_witness:
  "\<exists>sb sb' s'. holds [] sb \<and> strbuffer_append_bytes [65, 66] 2 (sb, \<lparr>script = []\<rparr>) = (Inr (), (sb', s')) \<and> holds [65, 66] sb'"
proof -
  obtain sb where sb: "holds [] sb" "unat (sb_size sb) = 16"
    using that [of "\<lparr>sb_value = Some (Some 0 # replicate 15 None), sb_length = 0, sb_size = 16\<rparr>"] by (simp add: holds_def)
  show ?thesis using strbuffer_append_bytes_safe [OF sb(1), of 2 "[65, 66]" "\<lparr>script = []\<rparr>"] sb by auto
qed

section \<open>The hash table\<close>

text \<open>
  C34. The hash table implements a map from keys to values and serials: after any sequence of
  \<^verbatim>\<open>hashtable_set\<close> and \<^verbatim>\<open>hashtable_del\<close> on a table that represents \<open>m\<close>, with the rehashing they do,
  \<^verbatim>\<open>hashtable_get\<close> finds for every key what the map after these operations has for it. A key that is
  set again keeps its serial, and exactly the values that were replaced or deleted lose a reference,
  in order. The bound is the largest number of buckets the code has, and no allocation fails.
\<close>

theorem hashtable_refines_map:
  fixes s :: "('v, 'z) jheap_scheme"
  assumes "rep m h" and "card (dom m) + length xs \<le> 1610612741" and "script s = []"
  shows "\<exists>h' s'. bindM (run_ops hashtable_set hashtable_del xs) (\<lambda>_. hashtable_get k) (h, s) =
      (Inr (map_option fst (foldl abs_op m xs k)), (h', s')) \<and>
    rep (foldl abs_op m xs) h' \<and> decrefs s' = decrefs s @ all_released m xs"
  by (rule ht.get_after_ops [OF assms])

definition no_table :: "nat hashtable" where
  "no_table = \<lparr>ht_size = 0, ht_buckets = None, ht_num_buckets = 0, ht_next = (\<lambda>_. Head), ht_prev = (\<lambda>_. Head), ht_pairs = Map.empty, ht_fresh = 0\<rparr>"

lemma hashtable_refines_map_witness:
  "\<exists>h' s'. bindM (run_ops hashtable_set hashtable_del [Set [97] 0 7, Set [98] 1 8, Set [97] 2 9, Del [98]]) (\<lambda>_. hashtable_get [97])
      (blank 0 no_table, json_heap) = (Inr (Some 9), (h', s')) \<and> decrefs s' = [7, 8]"
proof -
  have "rep Map.empty (blank 0 no_table)" by (rule rep_blank) (simp add: primes_def)
  from hashtable_refines_map [OF this, of "[Set [97] 0 7, Set [98] 1 8, Set [97] 2 9, Del [98]]" json_heap "[97]"] show ?thesis
    by (auto simp: json_heap_def updated_def old_value_def)
qed

text \<open>
  C35. Iterating from \<^verbatim>\<open>hashtable_iter\<close> with \<^verbatim>\<open>hashtable_iter_next\<close> until it returns a null pointer takes as
  many steps as there are pairs, and visits every key of the table once, with its value and serial.
\<close>

theorem hashtable_iteration_complete:
  assumes "rep m h"
  shows "\<exists>es. bindM hashtable_iter (iterate (unat (ht_size h))) (h, s) = (Inr es, (h, s)) \<and>
    distinct (map fst es) \<and> map_of es = m \<and> length es = card (dom m)"
proof -
  from iterate_all [OF assms, of s] obtain es where
    es: "bindM hashtable_iter (iterate (unat (ht_size h))) (h, s) = (Inr es, (h, s))" "distinct (map fst es)" "map_of es = m" by blast
  have "dom m = set (map fst es)" unfolding es(3) [symmetric] by (simp add: dom_map_of_conv_image_fst)
  then have "card (dom m) = length es" using distinct_card [OF es(2)] by simp
  with es show ?thesis by auto
qed

lemma hashtable_iteration_complete_witness:
  "\<exists>h es. rep [[97] \<mapsto> (7 :: nat, 0), [98] \<mapsto> (8, 1)] h \<and>
     bindM hashtable_iter (iterate (unat (ht_size h))) (h, json_heap) = (Inr es, (h, json_heap)) \<and> length es = 2"
proof -
  have "rep Map.empty (blank 0 no_table)" by (rule rep_blank) (simp add: primes_def)
  from ht.run_ops_law [OF this, of "[Set [97] 0 7, Set [98] 1 8]" json_heap] obtain h where
    "rep [[97] \<mapsto> (7 :: nat, 0), [98] \<mapsto> (8, 1)] h" by (auto simp: json_heap_def updated_def)
  with hashtable_iteration_complete [OF this, of json_heap] show ?thesis by (force simp: card_insert_if)
qed

text \<open>
  C36. What \<^verbatim>\<open>hashtable_set\<close> does when allocations may fail. When it succeeds, the table represents the
  map with the key set, and a value that was replaced loses its reference. When it fails, the reason
  is \<^verbatim>\<open>ENOMEM\<close>, no value loses a reference, and either the table still represents the old map, or the
  table was due for a rehash and is left without its buckets.
\<close>

theorem hashtable_set_under_failure:
  assumes "rep m h" and "card (dom m) < 1610612741"
  shows "(\<exists>h' s'. hashtable_set key serial v (h, s) = (Inr (), (h', s')) \<and> rep (updated m key serial v) h' \<and>
      decrefs s' = decrefs s @ old_value m key \<and> (script s = [] \<longrightarrow> script s' = [])) \<or>
    (\<exists>h' s'. hashtable_set key serial v (h, s) = (Inl ENOMEM, (h', s')) \<and> decrefs s' = decrefs s \<and> script s \<noteq> [] \<and>
      (rep m h' \<and> m key = None \<or> prime h \<le> ht_size h \<and> h' = no_buckets h))"
  by (rule hashtable_set_outcome [OF assms])

lemma hashtable_set_under_failure_witness:
  "\<exists>h' s'. hashtable_set [97] 0 7 (blank 0 no_table, json_heap\<lparr>script := [False]\<rparr>) = (Inl ENOMEM, (h', s')) \<and> rep Map.empty h'"
proof -
  have r: "rep Map.empty (blank 0 no_table)" by (rule rep_blank) (simp add: primes_def)
  have "fst (hashtable_set [97] 0 7 (blank 0 no_table, json_heap\<lparr>script := [False]\<rparr>)) = Inl ENOMEM" by code_simp
  moreover have "\<not> prime (blank 0 no_table) \<le> ht_size (blank 0 no_table)" by (simp add: prime_def blank_def primes_def)
  ultimately show ?thesis
    using hashtable_set_under_failure [OF r, of "[97]" 0 7 "json_heap\<lparr>script := [False]\<rparr>"] by auto
qed

text \<open>
  C37. The rehash frees the old buckets before it has new ones: when the allocation of the new
  buckets fails, \<^verbatim>\<open>hashtable_set\<close> returns an error, and from then on looking up or deleting any
  key reads through the null pointer.
\<close>

lemma no_buckets_crash:
  assumes "ht_num_buckets h + 1 < length primes"
  shows "hashtable_get k (no_buckets h, s) = (Inl CRASH, (no_buckets h, s))"
    and "hashtable_del k (no_buckets h, s) = (Inl CRASH, (no_buckets h, s))"
proof -
  have run: "num_buckets (no_buckets h, s) = (Inr (primes ! (ht_num_buckets h + 1)), (no_buckets h, s))"
    "get_bucket i (no_buckets h, s) = (Inl CRASH, (no_buckets h, s))" for i
    using assms by (simp_all add: num_buckets_def get_bucket_def no_buckets_def bindM_def getO_def)
  show "hashtable_get k (no_buckets h, s) = (Inl CRASH, (no_buckets h, s))"
    by (simp add: hashtable_get_def bindM_def Let_def run)
  show "hashtable_del k (no_buckets h, s) = (Inl CRASH, (no_buckets h, s))"
    by (simp add: hashtable_del_def hashtable_do_del_def bindM_def Let_def run)
qed

theorem rehash_failure_breaks_table:
  assumes "rep m h" and "card (dom m) < 1610612741" and "prime h \<le> ht_size h" and "malloc s = (Inl e, s')"
  shows "hashtable_set key serial v (h, s) = (Inl e, (no_buckets h, s')) \<and>
    hashtable_get k (no_buckets h, s'') = (Inl CRASH, (no_buckets h, s'')) \<and>
    hashtable_del k (no_buckets h, s'') = (Inl CRASH, (no_buckets h, s''))"
proof -
  obtain gs where t: "table h gs" using assms(1) by (auto simp: rep_def)
  have num: "ht_num_buckets h < length primes" using t by (simp add: table_def grouped_def)
  have "unat (ht_size h) < 1610612741" using rep_size [OF t assms(1)] assms(2) by simp
  from last_prime [OF num assms(3) this] have nx: "ht_num_buckets h + 1 < length primes" .
  have "hashtable_set key serial v (h, s) = (Inl e, (no_buckets h, s'))"
    using assms(3) rehash_fails [OF nx assms(4)]
    by (simp add: hashtable_set_parts bindM_getO bindM_run(1) [of num_buckets, OF num_buckets_run [OF num]]) (simp add: bindM_def)
  with no_buckets_crash [OF nx, of k s''] show ?thesis by simp
qed

definition five_keys :: "nat dict_op list" where
  "five_keys = map (\<lambda>i. Set [of_nat i] (of_nat i) i) [1..<6]"

lemma five_keys_table:
  "\<exists>h. rep (foldl abs_op Map.empty five_keys) h \<and> ht_size h = 5 \<and> ht_num_buckets h = 0"
proof -
  let ?r = "run_ops hashtable_set hashtable_del five_keys (blank 0 no_table, json_heap)"
  have "rep Map.empty (blank 0 no_table)" by (rule rep_blank) (simp add: primes_def)
  from ht.run_ops_law [OF this, of five_keys json_heap] obtain h s' where
    "?r = (Inr (), (h, s'))" "rep (foldl abs_op Map.empty five_keys) h" by (auto simp: json_heap_def five_keys_def)
  moreover have "ht_size (fst (snd ?r)) = 5 \<and> ht_num_buckets (fst (snd ?r)) = 0" by code_simp
  ultimately show ?thesis by auto
qed

lemma rehash_failure_breaks_table_witness:
  "\<exists>h h' s'. rep (foldl abs_op Map.empty five_keys) h \<and>
     hashtable_set [9] 9 9 (h, json_heap\<lparr>script := [False]\<rparr>) = (Inl ENOMEM, (h', s')) \<and>
     hashtable_get [1] (h', s') = (Inl CRASH, (h', s'))"
proof -
  obtain h where h: "rep (foldl abs_op Map.empty five_keys) h" "ht_size h = 5" "ht_num_buckets h = 0" using five_keys_table by blast
  have "card (dom (foldl abs_op Map.empty five_keys)) < 1610612741"
    by (simp add: five_keys_def updated_def upt_conv_Cons card_insert_if)
  moreover have "prime h \<le> ht_size h" by (simp add: h prime_def primes_def)
  moreover have "malloc (json_heap\<lparr>script := [False]\<rparr>) = (Inl ENOMEM, json_heap)" by (simp add: malloc_def json_heap_def)
  ultimately show ?thesis using rehash_failure_breaks_table [OF h(1)] h(1) by metis
qed

section \<open>Arrays\<close>

text \<open>
  C38. \<^verbatim>\<open>json_array_insert_new\<close> inserts into the list of elements, whether the table has room or has to
  be replaced, and touches no other array; the new element takes over the reference of the caller.
  When the allocation fails the arrays are unchanged and the reference is given up. The bound keeps
  the size of the table from wrapping.
\<close>

theorem array_insert_refines:
  assumes "has_elems s j es" and "v \<noteq> j" and "length (arr_table (the (arrays s j))) < 2 ^ 58" and "unat index \<le> length es"
  shows "(\<exists>s'. json_array_insert_new (Some j) index (Some v) s = (Inr (), s') \<and>
      has_elems s' j (take (unat index) es @ v # drop (unat index) es) \<and>
      refs s' = refs s \<and> (\<forall>k. k \<noteq> j \<longrightarrow> arrays s' k = arrays s k) \<and> (script s = [] \<longrightarrow> script s' = [])) \<or>
    (\<exists>s'. json_array_insert_new (Some j) index (Some v) s = (Inl ENOMEM, s') \<and> arrays s' = arrays s \<and>
      refs s' = refs s @ [Decref v] \<and> script s \<noteq> [])"
  by (rule insert_outcome [OF assms])

text \<open>An array of eight elements that fill its table, and one that leaves room.\<close>

definition array_heap :: "json list \<Rightarrow> nat \<Rightarrow> aheap" where
  "array_heap es n = \<lparr>script = [], arrays = [0 \<mapsto> \<lparr>arr_size = of_nat (length es + n), arr_entries = of_nat (length es),
     arr_table = map Some es @ replicate n None\<rparr>], next_json = 1, refs = []\<rparr>"

lemma array_heap_elems: "es \<noteq> [] \<Longrightarrow> length es + n < 100 \<Longrightarrow> has_elems (array_heap es n) 0 es"
  by (auto simp: has_elems_def elems_def array_heap_def unat_of_nat simp del: of_nat_add simp flip: of_nat_add)

lemma array_insert_refines_witness:
  "\<exists>s'. json_array_insert_new (Some 0) 1 (Some 9) (array_heap [1, 2, 3, 4, 5, 6, 7, 8] 0) = (Inr (), s') \<and>
     has_elems s' 0 [1, 9, 2, 3, 4, 5, 6, 7, 8]"
  using array_insert_refines [OF array_heap_elems [of "[1, 2, 3, 4, 5, 6, 7, 8]" 0], of 9 1] by (auto simp: array_heap_def)

text \<open>
  C39. \<^verbatim>\<open>json_array_remove\<close> takes the element out of the list and gives its reference up when the table
  is not full. It moves one element too many, so that on an array that fills its table it reads
  behind the end of the block.
\<close>

theorem array_remove_overread:
  assumes "has_elems s j es" and "unat index < length es" and "length es < 2 ^ 60"
  shows "if length es < length (arr_table (the (arrays s j)))
    then \<exists>s'. json_array_remove (Some j) index s = (Inr (), s') \<and>
      has_elems s' j (take (unat index) es @ drop (Suc (unat index)) es) \<and>
      refs s' = refs s @ [Decref (es ! unat index)] \<and> (\<forall>k. k \<noteq> j \<longrightarrow> arrays s' k = arrays s k)
    else fst (json_array_remove (Some j) index s) = Inl CRASH"
proof -
  have "length es \<le> length (arr_table (the (arrays s j)))" using assms(1) by (auto simp: has_elems_def elems_def)
  then show ?thesis using remove_outcome [OF assms] by (simp add: le_less) blast
qed

lemma array_remove_overread_witness:
  "fst (json_array_remove (Some 0) 2 (array_heap [1, 2, 3, 4, 5, 6, 7, 8] 0)) = Inl CRASH \<and>
   (\<exists>s'. json_array_remove (Some 0) 2 (array_heap [1, 2, 3] 5) = (Inr (), s') \<and> has_elems s' 0 [1, 2])"
  using array_remove_overread [OF array_heap_elems [of "[1, 2, 3, 4, 5, 6, 7, 8]" 0], of 2]
    array_remove_overread [OF array_heap_elems [of "[1, 2, 3]" 5], of 2] by (auto simp: array_heap_def)

section \<open>Strings\<close>

lemma written_bound: "char_ok cp \<Longrightarrow> length (written flags cp) \<le> 12 * length (utf8 cp)"
proof -
  assume "char_ok cp"
  then have "1 \<le> length (utf8 cp)" using char_not_empty [of cp] by (cases "utf8 cp") auto
  then show ?thesis using length_escape_text [of cp] by (simp add: written_def)
qed

lemma quoted_bound: "list_all char_ok cps \<Longrightarrow> length (quoted flags cps) \<le> 12 * length (utf8s cps) + 2"
proof -
  have "list_all char_ok cps \<Longrightarrow> length (concat (map (written flags) cps)) \<le> 12 * length (utf8s cps)"
  proof (induction cps)
    case (Cons cp cps)
    then show ?case using written_bound [of cp flags] by simp
  qed simp
  then show "list_all char_ok cps \<Longrightarrow> length (quoted flags cps) \<le> 12 * length (utf8s cps) + 2" by (simp add: quoted_def)
qed

lemma checked_string_chars:
  assumes "utf8_check_string str (-1)" and "0 \<notin> set str" and "length str < 2 ^ 31"
  obtains cps where "list_all char_ok cps" and "str = utf8s cps"
proof -
  have "takeWhile (\<lambda>c. c \<noteq> 0) str = str" using assms(2) by (induction str) auto
  with utf8_check_string_wf(2) [of str] assms(1,3) have "wf_utf8 str" by simp
  then obtain cps where cps: "\<forall>cp \<in> set cps. scalar cp" "str = utf8s cps" by (auto simp: wf_utf8_def)
  have "cp \<noteq> 0" if "cp \<in> set cps" for cp
  proof
    assume "cp = 0"
    then have "0 \<in> set (utf8 cp)" by (simp add: utf8_def utf8_encode_def)
    then show False using that assms(2) cps(2) by (auto simp: utf8s_def)
  qed
  with cps show thesis by (intro that [of cps]) (auto simp: char_ok_def list_all_iff)
qed

text \<open>The lexer with a string to read, and what it has not read yet.\<close>

definition feed :: "u8 list \<Rightarrow> string_data lex_t \<Rightarrow> string_data lex_t" where
  "feed bs lx = lx\<lparr>lx_stream := (lx_stream lx)\<lparr>sm_data := \<lparr>sd_data = bs, sd_pos = 0\<rparr>\<rparr>\<rparr>"

definition unread :: "string_data lex_t \<Rightarrow> u8 list" where
  "unread lx = (let d = sm_data (lx_stream lx) in drop (sd_pos d) (sd_data d))"

text \<open>
  C40. Writing a string and reading it gives the string back. A string that \<^verbatim>\<open>utf8_check_string\<close> accepts
  is written by \<^verbatim>\<open>dump_string\<close> with any flags into a string buffer as a quote followed by some text;
  the lexer, having read the quote, reads from this text, whatever follows it, a string token
  whose value is the string with its NUL, inside the memory allocated for it, and stops behind the
  closing quote. No allocation fails; the string is shorter than 128 MB, so that the text, at most
  twelve bytes for one of the string, keeps the line and the column of the lexer inside \<^verbatim>\<open>int\<close>, and so they are
  at the end. Two turns of fuel more than the text has bytes are enough.
\<close>

theorem string_round_trip:
  fixes s :: "'z heap_scheme"
  assumes "utf8_check_string str (-1)" and "0 \<notin> set str" and "length str < 2 ^ 27" and "buffered [] x"
    and "between lx" and "buffered [0x22] (lx_saved_text lx, s)" and "0 \<notin> set tail"
  shows "\<exists>x' txt. dump_string str dump_to_strbuffer flags x = (Inr (), x') \<and> buffered (0x22 # txt) x' \<and>
    (\<exists>lx' s' junk. lex_scan_string (length txt + 2) string_get (feed (txt @ tail) lx, s) = (Inr (), (lx', s')) \<and>
       lx_token lx' = TOKEN_STRING \<and> lx_string lx' = Some (map Some str @ Some 0 # junk) \<and> unread lx' = tail \<and>
       sm_line (lx_stream lx') < 2 ^ 31 \<and> sm_column (lx_stream lx') < 2 ^ 31)"
proof -
  have "length str < 2 ^ 31" using assms(3) by simp
  then obtain cps where cps: "list_all char_ok cps" "str = utf8s cps" using checked_string_chars [OF assms(1,2)] by blast
  have len: "length (quoted flags cps) < 7 * 2 ^ 28" using quoted_bound [OF cps(1), of flags] assms(3) cps(2) by simp
  obtain x' where out: "dump_string str dump_to_strbuffer flags x = (Inr (), x')" "buffered (quoted flags cps) x'"
    using sb.dump_string_run [OF cps(1) assms(4), of flags] len by (auto simp: cps(2))
  let ?t = "tl (quoted flags cps)"
  have q: "quoted flags cps = 0x22 # ?t" by (simp add: quoted_def)
  obtain ds where ds: "list_all char_ok ds" "utf8s ds = ?t" using quoted_chars [OF cps(1), of flags] by (auto simp: quoted_def)
  have "0 \<notin> set ?t" using chars_no_nul [OF ds(1)] unfolding ds(2) .
  then have src: "drop (sd_pos (sm_data (lx_stream (feed (?t @ tail) lx)))) (sd_data (sm_data (lx_stream (feed (?t @ tail) lx)))) = ?t @ tail \<and> 0 \<notin> set (?t @ tail)"
    using assms(7) by (simp add: feed_def)
  have rdy: "between (feed (?t @ tail) lx)" "buffered [0x22] (lx_saved_text (feed (?t @ tail) lx), s)"
    using assms(5,6) by (simp_all add: between_def feed_def Let_def)
  have "length (quoted flags cps) < length ?t + 2" by (simp add: quoted_def)
  from str_src.lex_scan_string_reads [OF cps(1) len rdy src this] obtain lx' s' junk where
    rd: "lex_scan_string (length ?t + 2) string_get (feed (?t @ tail) lx, s) = (Inr (), (lx', s'))" "lx_token lx' = TOKEN_STRING"
      "lx_string lx' = Some (map Some str @ Some 0 # junk)"
      "fed (\<lambda>bs d. drop (sd_pos d) (sd_data d) = bs \<and> 0 \<notin> set bs) tail [] (lx_stream lx')" by (auto simp: cps(2))
  have "unread lx' = tail" "sm_line (lx_stream lx') < 2 ^ 31" "sm_column (lx_stream lx') < 2 ^ 31"
    using rd(4) by (auto simp: fed_def counters_def unread_def Let_def)
  with out rd q show ?thesis by (intro exI [of _ x'] exI [of _ ?t] conjI exI [of _ lx'] exI [of _ s'] exI [of _ junk]) simp_all
qed

definition lexer_at_quote :: "string_data lex_t" where
  "lexer_at_quote = \<lparr>lx_stream = \<lparr>sm_data = \<lparr>sd_data = [], sd_pos = 0\<rparr>, sm_buffer = [0x22, 0, 0, 0, 0], sm_buffer_pos = 1,
       sm_state = STREAM_OK, sm_line = 1, sm_column = 1, sm_last_column = 0, sm_position = 1\<rparr>,
     lx_saved_text = \<lparr>sb_value = Some (Some 0x22 # Some 0 # replicate 14 None), sb_length = 1, sb_size = 16\<rparr>,
     lx_token = TOKEN_INVALID, lx_string = None, lx_error = None\<rparr>"

lemma string_round_trip_witness:
  "\<exists>x' txt. dump_string [0x61, 0xC3, 0xA9, 0x0A] dump_to_strbuffer 0x40
       (\<lparr>sb_value = Some (Some 0 # replicate 15 None), sb_length = 0, sb_size = 16\<rparr>, \<lparr>script = []\<rparr>) = (Inr (), x') \<and> buffered (0x22 # txt) x' \<and>
     (\<exists>lx' s' junk. lex_scan_string (length txt + 2) string_get (feed (txt @ [0x5D]) lexer_at_quote, \<lparr>script = []\<rparr>) = (Inr (), (lx', s')) \<and>
       lx_token lx' = TOKEN_STRING \<and> lx_string lx' = Some (map Some [0x61, 0xC3, 0xA9, 0x0A] @ Some 0 # junk) \<and> unread lx' = [0x5D])"
proof -
  have "utf8_check_string [0x61, 0xC3, 0xA9, 0x0A] (-1)" by code_simp
  moreover have "buffered [] (\<lparr>sb_value = Some (Some 0 # replicate 15 None), sb_length = 0, sb_size = 16\<rparr>, \<lparr>script = []\<rparr>)"
    by (simp add: buffered_def holds_def)
  moreover have "between lexer_at_quote" "buffered [0x22] (lx_saved_text lexer_at_quote, \<lparr>script = []\<rparr>)"
    by (simp_all add: between_def lexer_at_quote_def buffered_def holds_def)
  ultimately show ?thesis
    using string_round_trip [of "[0x61, 0xC3, 0xA9, 0x0A]" _ lexer_at_quote _ "[0x5D]" "0x40"] by fastforce
qed

text \<open>
  The test for hexadecimal digits accepts every character, so the text \<^verbatim>\<open>\u!!!!\<close> passes the first loop, and
  decoding it reaches a failed assertion.
\<close>

lemma bad_escape_aborts:
  "fst (lex_scan_string 20 string_get (feed [0x5C, 0x75, 0x21, 0x21, 0x21, 0x21, 0x22] lexer_at_quote, \<lparr>script = []\<rparr>)) = Inl CRASH"
  by code_simp

end
