(* ===== verification/Spec2Isabelle.thy ===== *)
theory Spec2Isabelle
  imports Entry_Correct Jansson
begin

text \<open>
  \<^bold>\<open>A verification of libqrencode and of the core of Jansson\<close>

  The repository bundles the third-party libraries a program is built from. This development
  models one of them completely, the C library \<^verbatim>\<open>src/qrencode\<close>, which turns byte strings into QR Code
  and Micro QR Code symbols, and of the JSON library \<^verbatim>\<open>src/jansson\<close> the parts the others are built on and its strings.

  \<^bold>\<open>The parts of libqrencode.\<close> A caller fills a \<^verbatim>\<open>QRinput\<close>, a list of segments with modes
  (\<^verbatim>\<open>qrinput.c\<close>), directly or through the string splitter (\<^verbatim>\<open>split.c\<close>). The encoder (\<^verbatim>\<open>qrencode.c\<close>)
  asks the input for its bytes: the segments are encoded into bit streams (\<^verbatim>\<open>bitstream.c\<close>), a version
  is searched, the stream is padded. It then cuts the bytes into blocks after the tables of
  \<^verbatim>\<open>qrspec.c\<close> and \<^verbatim>\<open>mqrspec.c\<close>, adds the parity of the Reed-Solomon codec (\<^verbatim>\<open>rscode.c\<close>), takes an empty
  frame from a cache, places the codes along a zigzag path, and masks the result (\<^verbatim>\<open>mask.c\<close>,
  \<^verbatim>\<open>mmask.c\<close>).

  \<^bold>\<open>The parts of Jansson.\<close> Strings are checked and taken apart by the UTF-8 coder (\<^verbatim>\<open>utf.c\<close>) and built in a
  growing buffer (\<^verbatim>\<open>strbuffer.c\<close>) on an exchangeable allocator (\<^verbatim>\<open>memory.c\<close>). Objects keep their
  members in a hash table (\<^verbatim>\<open>hashtable.c\<close>), a ring of pairs with an array of buckets into it that is
  rebuilt as it fills. Arrays (\<^verbatim>\<open>value.c\<close>) keep their elements in a table that grows. Both hold
  references to their values and give them up with \<^verbatim>\<open>json_decref\<close>. The printer (\<^verbatim>\<open>dump.c\<close>) hands its output
  to a callback; the lexer (\<^verbatim>\<open>load.c\<close>) takes its input from one, a character at a time, and saves it.

  \<^bold>\<open>The model.\<close> Functions of the C code are HOL functions of the same name. A function that allocates
  or touches static data is a state transformer that returns a value or a failure, the value of
  \<^verbatim>\<open>errno\<close> (theory \<open>Prelude\<close>); the state holds the static caches and an allocation script, which
  says for every coming call of \<^verbatim>\<open>malloc\<close> whether it succeeds, so every out-of-memory path of the code
  is a run of the model. Failures \<open>CRASH\<close> and \<open>DIVERGES\<close> stand for an access through a null
  pointer or outside a block, or a failed assertion, and for a loop without end. A function that changes an object it is given a pointer to
  (an entry, an input) transforms the pair of object and state. Structures are records with a
  prefix on the field names; \<^verbatim>\<open>unsigned char\<close> and \<^verbatim>\<open>unsigned int\<close> are 8- and 32-bit words; \<^verbatim>\<open>int\<close>
  is an unbounded integer (signed overflow is undefined in C; bounds are proved where sums grow, C15),
  except where a wider value is converted to it: differences of pointers in \<^verbatim>\<open>split.c\<close> and the
  results of \<^verbatim>\<open>strlen\<close> are cut to 32 bits (\<open>int32\<close>). Freeing memory has no
  counterpart; static caches that \<^verbatim>\<open>QRcode_clearCache\<close> empties do.

  \<^item> \<open>Prelude\<close>: the monads, \<open>delivers\<close> and \<open>acts\<close>, the locale \<open>heap_invariant\<close> of properties that
    survive allocation.
  \<^item> \<open>RScode\<close> (\<^verbatim>\<open>rscode.c\<close>), \<open>GF256\<close> and \<open>RS_Correct\<close>: the codec, the field, and that parity bytes
    complete codewords; the locale \<open>rs_invariant\<close> of heaps with a valid block cache.
  \<^item> \<open>BitStream\<close> (\<^verbatim>\<open>bitstream.c\<close>) with its refinement to lists of bits.
  \<^item> \<open>QRtypes\<close>, \<open>QRspec\<close>, \<open>MQRspec\<close> (\<^verbatim>\<open>qrspec.c\<close>, \<^verbatim>\<open>mqrspec.c\<close>): tables and frames; \<open>QRspec_Correct\<close>,
    \<open>Frame_Correct\<close>: block structure, BCH codes, the function cells of a frame, the locale
    \<open>frame_cache\<close>, interpreted for both kinds of frames.
  \<^item> \<open>Mask\<close>, \<open>MMask\<close> (\<^verbatim>\<open>mask.c\<close>, \<^verbatim>\<open>mmask.c\<close>), \<open>Mask_Correct\<close>: patterns, format information, demerits, and
    the locale \<open>candidate_loop\<close> of the search for the best mask, interpreted for both.
  \<^item> \<open>QRinput\<close>, \<open>QRinput_Stream\<close>, \<open>QRinput_Struct\<close> (\<^verbatim>\<open>qrinput.c\<close>): entries and inputs, encoding into a
    stream, structured append. \<open>Segments\<close>, \<open>Encode_Correct\<close>, \<open>Stream_Correct\<close>, \<open>Struct_Correct\<close>: a
    reader of segments, the round trip through the byte stream, the search for a version, the split
    into structured symbols; \<open>Capacity\<close>: inputs at the limit.
  \<^item> \<open>Split\<close> (\<^verbatim>\<open>split.c\<close>), \<open>Split_Correct\<close>: the splitter partitions the string.
  \<^item> \<open>QRencode\<close> (\<^verbatim>\<open>qrencode.c\<close>); \<open>Blocks_Correct\<close>, \<open>Fill_Correct\<close>, \<open>QRencode_Correct\<close>: interleaving, the
    path of the filler, and the symbol as a whole, read back by \<open>read_symbol\<close>. \<open>MQRstream_Correct\<close>,
    \<open>MQRframe_Correct\<close>, \<open>MQRread_Correct\<close>, \<open>MQRencode_Correct\<close>: the same for Micro QR Code, with
    \<open>read_symbolMQR\<close>.
  \<^item> \<open>Entry_Correct\<close>: which arguments the entry points for strings and bytes refuse (C28).
  \<^item> \<open>Utf\<close> (\<^verbatim>\<open>utf.c\<close>), \<open>Utf_Correct\<close>: the coder accepts exactly the encoded Unicode scalar values.
  \<^item> \<open>Strbuffer\<close> (\<^verbatim>\<open>memory.c\<close>, \<^verbatim>\<open>strbuffer.c\<close>): blocks of bytes, the buffer, and that it stays inside its
    block. Sizes are 64-bit words.
  \<^item> \<open>Hashtable\<close> (\<^verbatim>\<open>hashtable.c\<close>), \<open>Hashtable_Ring\<close>, \<open>Hashtable_Correct\<close>: the memory split by fields, the ring,
    and what every operation does to the map the table represents; \<open>Dictionary\<close>: the locale
    \<open>dictionary\<close> of the laws a client relies on, interpreted for the table.
  \<^item> \<open>JArray\<close> (the arrays of \<^verbatim>\<open>value.c\<close>), \<open>JArray_Correct\<close>: the operations of arrays as operations of lists.
  \<^item> \<open>Dump\<close> (\<^verbatim>\<open>dump_string\<close>), \<open>Dump_Correct\<close>: what is written for a string; the locale \<open>byte_sink\<close> of output
    callbacks, interpreted for the string buffer.
  \<^item> \<open>Lex\<close> (the stream and \<^verbatim>\<open>lex_scan_string\<close>), \<open>Lex_Correct\<close>: that the lexer reads it back; the locale
    \<open>byte_source\<close> of input callbacks, interpreted for those of \<^verbatim>\<open>json_loads\<close> and \<^verbatim>\<open>json_loadb\<close>.
  \<^item> \<open>Jansson\<close>: the properties of these components (C31 to C40).

  \<^bold>\<open>Bounds and fuel.\<close> The loop of \<^verbatim>\<open>QRinput_convertData\<close> has fuel, 42 turns: the version grows in
  each turn but the last and is at most 40; C20 shows the fuel never runs out. The loops over the
  ring of a hash table have as much fuel as the table has pairs and one more, which C34 to C36 show
  to be enough. The loop that collects a string token has the fuel it is given, as the input may be
  endless; C40 shows that two turns more than the text has bytes are enough, and for the loop that
  decodes it one turn per byte. All other loops are structural or have a termination proof; \<^verbatim>\<open>find_iprim\<close> and \<^verbatim>\<open>modnn\<close>
  are \<open>while\<close> loops. Strings are shorter than 64 MB in C1 and C28, 128 MB in C24 and C40 and 2 GB in C32:
  up to there no pointer difference, number of bits, line or column leaves the range of \<^verbatim>\<open>int\<close>.

  \<^bold>\<open>Not modelled.\<close> The command line tool \<^verbatim>\<open>qrenc.c\<close> is not part of the sources. Printing and freeing,
  the thread locks around the caches (the model is sequential). Of Jansson the objects and scalar
  values of \<^verbatim>\<open>value.c\<close>, the other tokens and the parser of \<^verbatim>\<open>load.c\<close>, the walk over values of \<^verbatim>\<open>dump.c\<close>, the
  conversion of reals (\<^verbatim>\<open>strconv.c\<close>, on \<^verbatim>\<open>strtod\<close>, \<^verbatim>\<open>snprintf\<close> and the locale) and the error texts
  (\<^verbatim>\<open>error.c\<close>); reference counts are
  modelled as the sequence of the calls that change them. The other libraries of the repository.
\<close>


section \<open>A whole symbol\<close>

text \<open>The static data of the library at program start: the caches are empty.\<close>

definition initial_heap :: qr_heap where
  "initial_heap = \<lparr>script = [], rslist = [], frames = (\<lambda>_. None), mqr_frames = (\<lambda>_. None)\<rparr>"

lemma initial_heap [simp]: "qr_ok initial_heap" "script initial_heap = []"
  by (simp_all add: initial_heap_def qr_ok_def rs_cache_ok_def frames_ok_def)

text \<open>
  C1. When no allocation fails, \<^verbatim>\<open>QRcode_encodeString\<close> on a non-empty string with the hint
  \<^verbatim>\<open>QR_MODE_8\<close> returns a symbol of at least the requested version which a reader (format
  information, unmasking, the zigzag path, deinterleaving with a check of every Reed-Solomon block,
  segments) turns back into the requested level and the text: the string, in upper case when the
  call is not case-sensitive. The only other outcome is \<^verbatim>\<open>ERANGE\<close>, and never for a string of at
  most 364 bytes. The caches stay valid. The string is shorter than 64 MB, so that neither a pointer
  difference nor a number of bits (at most 28 for a byte) leaves the range of \<^verbatim>\<open>int\<close>.
\<close>

theorem encodeString_reads_back:
  fixes s :: "'z qr_heap_scheme"
  assumes "string \<noteq> []" and "0 \<notin> set string" and "length string < 2 ^ 26"
    and "0 \<le> version" and "version \<le> 40" and "level \<le> 3" and "qr_ok s" and "script s = []"
  shows "(\<exists>code i segs s'. QRcode_encodeString (Some string) version level QR_MODE_8 casesensitive s = (Inr code, s') \<and>
      qr_ok s' \<and> version \<le> qr_version code \<and>
      read_symbol (qr_width code) (qr_data code) = Some (qr_version code, level, i, segs) \<and>
      concat (map snd segs) = (if casesensitive then string else map upper string)) \<or>
    (\<exists>s'. QRcode_encodeString (Some string) version level QR_MODE_8 casesensitive s = (Inl ERANGE, s') \<and> 364 < length string)"
proof -
  have "length string < 2 ^ 31" using assms(3) by simp
  from QRcode_encodeString_read [OF assms(1,2) this assms(4-8) refl] show ?thesis .
qed

lemma encodeString_reads_back_witness:
  "\<exists>code i segs s'. QRcode_encodeString (Some [104, 105]) 0 1 QR_MODE_8 False initial_heap = (Inr code, s') \<and>
     read_symbol (qr_width code) (qr_data code) = Some (qr_version code, 1, i, segs) \<and> concat (map snd segs) = [72, 73]"
proof -
  have "concat (map snd segs) = (if False then [104, 105] else map upper [104, 105]) \<longleftrightarrow>
      concat (map snd segs) = [72, 73]" for segs :: "(QRencodeMode \<times> u8 list) list"
    by (simp add: upper_def)
  then show ?thesis
    using encodeString_reads_back [of "[104, 105]" 0 1 initial_heap False] by auto
qed

text \<open>
  C2. When no allocation fails, \<^verbatim>\<open>QRcode_encodeMask\<close> turns an input whose segments fit some version
  into a symbol of the version the conversion settles on, of that version's width, with the mask
  that was asked for when it is not negative, and the reader gets back the segments of the input
  with their modes, each cut where it exceeds its length field.
\<close>

theorem encodeMask_reads_back:
  assumes "input_ok input" and "fits input" and "\<forall>e \<in> set (in_head input). data_ok (en_mode e) (en_data e)"
    and "msk \<noteq> -2" and "msk < 8" and "qr_ok s" and "script s = []"
  shows "\<exists>code i s'. QRcode_encodeMask msk (input, s) = (Inr code, (converted input, s')) \<and> qr_ok s' \<and>
    qr_version code = fst (conversion input) \<and> qr_width code = QRspec_getWidth (qr_version code) \<and>
    length (qr_data code) = qr_width code * qr_width code \<and> (0 \<le> msk \<longrightarrow> int i = msk) \<and>
    read_symbol (qr_width code) (qr_data code) =
      Some (qr_version code, in_level input, i, concat (map (entry_segs (qr_version code)) (in_head input)))"
  by (rule QRcode_encodeMask_read [OF assms])

definition two_segments :: "QRinput_List list" where
  "two_segments = [new_entry QR_MODE_NUM 2 [49, 50], new_entry QR_MODE_8 1 [200]]"

lemma two_segments: "split_of QR_MODE_8 [49, 50, 200] two_segments"
  by (auto simp: split_of_def two_segments_def new_entry_def entry_ok_def data_ok_def is_digit_def
      QRinput_check_def QRinput_checkModeNum_def upt_conv_Cons)

lemma encodeMask_reads_back_witness:
  "\<exists>code s'. QRcode_encodeMask 3 (extended (fresh 2 0) two_segments, initial_heap) =
      (Inr code, (converted (extended (fresh 2 0) two_segments), s')) \<and>
     read_symbol (qr_width code) (qr_data code) = Some (qr_version code, 0, 3,
       concat (map (entry_segs (qr_version code)) two_segments))"
proof -
  note ok = split_input_ok [OF two_segments, of 2 0]
  show ?thesis
    using encodeMask_reads_back [OF ok(1) ok(6) ok(2), of 3 initial_heap] ok(3,4) by auto
qed

text \<open>The codes that successive calls of \<^verbatim>\<open>QRraw_getCode\<close> give.\<close>

fun successive_codes :: "nat \<Rightarrow> QRRawCode \<Rightarrow> u8 list" where
  "successive_codes 0 raw = []"
| "successive_codes (Suc n) raw = (case QRraw_getCode raw of (code, raw') \<Rightarrow> code # successive_codes n raw')"

lemma successive_codes_from:
  "int k + int n \<le> raw_dataLength raw + raw_eccLength raw \<Longrightarrow>
     successive_codes n (raw\<lparr>raw_count := int k\<rparr>) = map (\<lambda>i. fst (QRraw_getCode (raw\<lparr>raw_count := int i\<rparr>))) [k..<k + n]"
proof (induction n arbitrary: k)
  case (Suc n)
  have "snd (QRraw_getCode (raw\<lparr>raw_count := int k\<rparr>)) = raw\<lparr>raw_count := int (Suc k)\<rparr>"
    using Suc.prems by (auto simp: QRraw_getCode_def Let_def)
  then show ?case using Suc.IH [of "Suc k"] Suc.prems
    by (simp add: case_prod_beta upt_conv_Cons del: upt_Suc)
qed simp

text \<open>
  C3. \<^verbatim>\<open>QRraw_new\<close> followed by a call of \<^verbatim>\<open>QRraw_getCode\<close> per code gives a sequence that has every
  data and parity byte of the symbol once: dealt out to the blocks of the standard, each block is a
  Reed-Solomon codeword, and the data bytes in block order are the padded byte stream of the input.
\<close>

theorem raw_codes_read_back:
  assumes "input_ok input" and "fits input" and "qr_ok s" and "script s = []"
  defines "v \<equiv> fst (conversion input)"
  shows "\<exists>raw s'. QRraw_new (input, s) = (Inr raw, (converted input, s')) \<and> qr_ok s' \<and> raw_version raw = v \<and>
    raw_dataLength raw + raw_eccLength raw = cap_words (qrspecCapacity ! nat v) \<and>
    read_codes (QRspec_getEccSpec v (in_level input))
      (successive_codes (nat (raw_dataLength raw + raw_eccLength raw)) raw) = Some (data_bytes input)"
proof -
  have v: "1 \<le> v" "v \<le> 40" and l: "in_level input \<le> 3"
    using conversion_fits [OF assms(2)] assms(1) by (simp_all add: input_ok_def v_def)
  define spec where "spec = QRspec_getEccSpec v (in_level input)"
  have spec: "spec_ok spec" using v l by (simp add: spec_def spec_ok)
  have lens: "QRspec_rsDataLength spec = QRspec_getDataLength v (in_level input)"
    "QRspec_rsEccLength spec = QRspec_getECCLength v (in_level input)"
    using ecc_spec_ok [OF v l] by (simp_all add: ecc_spec_ok_def spec_def Let_def)
  have data: "int (length (data_bytes input)) = QRspec_rsDataLength spec"
    using length_data_bytes [OF assms(1,2)] lens by (simp add: v_def)
  have total: "QRspec_getDataLength v (in_level input) + QRspec_getECCLength v (in_level input)
      = cap_words (qrspecCapacity ! nat v)"
    by (simp add: QRspec_getDataLength_def QRspec_getECCLength_def)
  obtain s' where "QRraw_new (input, s) = (Inr (raw_for v spec (data_bytes input)), (converted input, s'))" and "qr_ok s'"
    using qr.QRraw_new_acts [OF assms(1)] assms(2-4) unfolding acts_def by (auto simp: v_def spec_def)
  moreover define raw where "raw = raw_for v spec (data_bytes input)"
  moreover have "successive_codes (nat (raw_dataLength raw + raw_eccLength raw)) (raw\<lparr>raw_count := int 0\<rparr>) =
      symbol_codes spec (data_bytes input)"
    using successive_codes_from [of 0 "nat (raw_dataLength raw + raw_eccLength raw)" raw] raw_codes [OF spec data, of v]
      spec data by (elim spec_okE) (simp add: raw_def raw_for_def)
  moreover have "raw\<lparr>raw_count := int 0\<rparr> = raw" by (simp add: raw_def raw_for_def)
  ultimately show ?thesis
    using read_codes_symbol [OF spec data] lens total
    by (intro exI [of _ raw] exI [of _ s']) (simp add: raw_for_def spec_def v_def)
qed

lemma raw_codes_read_back_witness:
  "\<exists>raw s'. QRraw_new (extended (fresh 2 0) two_segments, initial_heap) =
      (Inr raw, (converted (extended (fresh 2 0) two_segments), s'))"
proof -
  note ok = split_input_ok [OF two_segments, of 2 0]
  show ?thesis using raw_codes_read_back [OF ok(1) ok(6), of initial_heap] by auto
qed

section \<open>Placing the modules\<close>

text \<open>
  C4. \<^verbatim>\<open>QRspec_newFrame\<close> marks exactly the function cells of the standard (finder patterns with
  separators and format areas, timing patterns, alignment patterns, version information), and the
  cells it leaves free are as many as the bits of the codes and the remainder bits of the version.
\<close>

theorem frame_free_cells:
  assumes "1 \<le> v" and "v \<le> 40"
  defines "w \<equiv> QRspec_getWidth v"
  shows "cells w (frame_template v) = func_cells v \<and>
    int (card (grid w - cells w (frame_template v))) = 8 * cap_words (qrspecCapacity ! nat v) + QRspec_getRemainder v"
  using cells_frame_template [OF assms(1,2)] data_path_props [OF assms(1,2)] capacity_modules(1) [OF assms(1,2)]
    distinct_card [OF data_path_props(1) [OF assms(1,2)]]
  by (simp add: w_def mult.commute)

lemma frame_free_cells_witness:
  "int (card (grid (QRspec_getWidth 7) - cells (QRspec_getWidth 7) (frame_template 7))) = 1568"
  using frame_free_cells [THEN conjunct2, of 7] by (simp add: qrspec_tables)

text \<open>
  C5. A filler on the frame of a version hands out every free cell exactly once and never a
  function cell: as many modules as there are free cells can be placed without an error, they
  end up in the free cells in the order of the path, and the next call of \<^verbatim>\<open>FrameFiller_next\<close>
  returns a null pointer.
\<close>

theorem filler_fills_frame:
  assumes "1 \<le> v" and "v \<le> 40" and "\<forall>c \<in> set vs. \<not> marked c" and "length vs = length (data_path v)" and "script s = []"
  defines "w \<equiv> QRspec_getWidth v"
  shows "\<exists>filler filler' g. FrameFiller_new w (frame_template v) False s = (Inr filler, s) \<and>
    foldM put_module filler vs s = (Inr filler', s) \<and> FrameFiller_next filler' = Some (None, g) \<and>
    distinct (data_path v) \<and> set (data_path v) = grid w - cells w (frame_template v) \<and>
    (\<forall>k < length vs. ff_frame filler' ! idx w (data_path v ! k) = vs ! k) \<and>
    (\<forall>p \<in> cells w (frame_template v). ff_frame filler' ! idx w p = frame_template v ! idx w p)"
proof -
  let ?f = "writes (frame_template v) (zip (map (idx w) (data_path v)) vs)"
  obtain st g where put: "(foldM put_module (filler_at w False (frame_template v) (int w - 1, int w - 1, -1, -1)) vs
        :: ('a heap_scheme, FrameFiller) M) = retM (filler_at w False ?f st)"
      and exhausted: "FrameFiller_next (filler_at w False ?f st) = Some (None, g)"
    using put_all_modules [OF assms(1-4)] unfolding w_def by blast
  have path: "distinct (data_path v)" "set (data_path v) = grid w - cells w (frame_template v)"
    using data_path_props [OF assms(1,2)] cells_frame_template [OF assms(1,2)] by (simp_all add: w_def)
  then have sub: "set (data_path v) \<subseteq> grid w" by blast
  have len: "length (frame_template v) = w * w" by (simp add: length_frame_template w_def)
  note at = path_writes [OF path(1) sub assms(4) len]
  have "?f ! idx w (data_path v ! k) = vs ! k" if "k < length vs" for k
    using at(1) that assms(4) by simp
  moreover have "?f ! idx w p = frame_template v ! idx w p" if "p \<in> cells w (frame_template v)" for p
    using at(2) that path(2) by (simp add: cells_def)
  moreover have "FrameFiller_new w (frame_template v) False s =
      (Inr (filler_at w False (frame_template v) (int w - 1, int w - 1, -1, -1)), s)"
    using assms(5) by (simp add: FrameFiller_new_def bindM_def filler_at_def)
  ultimately show ?thesis using put exhausted path
    by (intro exI [of _ "filler_at w False ?f st"] exI [of _ g] exI
        [of _ "filler_at w False (frame_template v) (int w - 1, int w - 1, -1, -1)"]) simp
qed


lemma filler_fills_frame_witness:
  "\<exists>filler filler' g. FrameFiller_new (QRspec_getWidth 1) (frame_template 1) False \<lparr>script = []\<rparr> = (Inr filler, \<lparr>script = []\<rparr>) \<and>
     foldM put_module filler (replicate (length (data_path 1)) 3) \<lparr>script = []\<rparr> = (Inr filler', \<lparr>script = []\<rparr>) \<and>
     FrameFiller_next filler' = Some (None, g)"
  using filler_fills_frame [of 1 "replicate (length (data_path 1)) 3" "\<lparr>script = []\<rparr>"]
  by (auto simp: marked_def)

text \<open>
  C6. Whatever was encoded before and whichever allocations fail, \<^verbatim>\<open>QRspec_newFrame\<close> gives a copy of
  the frame of the version or fails with \<^verbatim>\<open>ENOMEM\<close>, and only when an allocation did fail; the cached
  frames and Reed-Solomon blocks stay valid.
\<close>

theorem newFrame_from_cache:
  assumes "1 \<le> v" and "v \<le> 40" and "qr_ok s" and "QRspec_newFrame v s = (r, s')"
  shows "qr_ok s' \<and> (r = Inr (frame_template v) \<or> r = Inl ENOMEM \<and> script s \<noteq> [])"
  by (rule deliversD [OF QRspec_newFrame_delivers [OF assms(1,2)] assms(4,3)])

lemma newFrame_from_cache_witness:
  "fst (QRspec_newFrame 3 (initial_heap\<lparr>script := [False]\<rparr>)) \<in> {Inr (frame_template 3), Inl ENOMEM}"
  using newFrame_from_cache [of 3 "initial_heap\<lparr>script := [False]\<rparr>"] qr.script_update [of initial_heap]
  by (cases "QRspec_newFrame 3 (initial_heap\<lparr>script := [False]\<rparr>)") auto

section \<open>Reed-Solomon codec\<close>

text \<open>
  C7. Whatever control blocks are in the cache, \<^verbatim>\<open>init_rs\<close> called with the parameters of the
  standard gives a block with which \<^verbatim>\<open>encode_rs_char\<close> turns a data block of the right length
  into a codeword: the \<open>n\<close> parity bytes make the polynomial of data and parity vanish at the
  first \<open>n\<close> powers of the primitive element of GF(256).
\<close>

theorem rs_encode_codeword:
  assumes "0 < n" and "n + pad < 255" and "length data = 255 - n - pad"
    and "rs_cache_ok (s :: 'a rs_heap_scheme)" and "script s = []"
  shows "\<exists>rs s'. init_rs 8 0x11d 0 1 (int n) (int pad) s = (Inr rs, s') \<and> rs_cache_ok s' \<and>
    length (encode_rs_char rs data) = n \<and>
    (\<forall>i < n. gf_eval (alpha i) (data @ encode_rs_char rs data) = 0)"
proof -
  obtain rs where d: "delivers (rs_cache_ok :: 'a rs_heap_scheme \<Rightarrow> bool)
      (init_rs 8 0x11d 0 1 (int n) (int pad)) (Inr rs)" and ok: "rs_ok n pad rs"
    by (rule rs_cache.init_rs_qr [OF assms(2)])
  have "init_rs 8 0x11d 0 1 (int n) (int pad) s =
      (Inr rs, snd (init_rs 8 0x11d 0 1 (int n) (int pad) s))"
    and "rs_cache_ok (snd (init_rs 8 0x11d 0 1 (int n) (int pad) s))"
    using d assms(4,5) by (auto simp: delivers_def prod_eq_iff)
  then show ?thesis using encode_rs_codeword [OF ok assms(1-3)] by blast
qed

lemma rs_encode_codeword_witness:
  "\<exists>rs s'. init_rs 8 0x11d 0 1 (int 2) (int 250) \<lparr>script = [], rslist = []\<rparr> = (Inr rs, s') \<and>
    rs_cache_ok s' \<and> length (encode_rs_char rs [1, 2, 3]) = 2 \<and>
    (\<forall>i < 2. gf_eval (alpha i) ([1, 2, 3] @ encode_rs_char rs [1, 2, 3]) = 0)"
  by (rule rs_encode_codeword) (simp_all add: rs_cache_ok_def)



text \<open>
  C9. The loop of \<^verbatim>\<open>modnn\<close> ends and computes the remainder modulo \<open>2 ^ mm - 1\<close> without a division.
\<close>

theorem modnn_mod:
  assumes "0 < mm" and "0 \<le> x"
  shows "modnn (2 ^ nat mm - 1) mm x = x mod (2 ^ nat mm - 1) \<and>
    (\<exists>y. while_option (\<lambda>x. 2 ^ nat mm - 1 \<le> x)
       (\<lambda>x. let x = x - (2 ^ nat mm - 1) in drop_bit (nat mm) x + (x AND (2 ^ nat mm - 1))) x = Some y)"
proof -
  let ?n = "2 ^ nat mm - 1 :: int"
  have n: "1 \<le> ?n" using assms(1) by (simp add: self_le_power)
  have "\<exists>y. while_option (\<lambda>x. ?n \<le> x) (\<lambda>x. let x = x - ?n in drop_bit (nat mm) x + (x AND ?n)) x = Some y"
  proof (rule measure_while_option_Some [where P = "\<lambda>x. 0 \<le> x" and f = nat, THEN ex_forward])
    fix y assume "0 \<le> y" and "?n \<le> y"
    then show "0 \<le> (let x = y - ?n in drop_bit (nat mm) x + (x AND ?n)) \<and>
        nat (let x = y - ?n in drop_bit (nat mm) x + (x AND ?n)) < nat y"
      using modnn_fold_less(1,2) [of "nat mm" "y - ?n"] n assms(1) unfolding Let_def by linarith
  qed (use assms in auto)
  then show ?thesis using modnn_eq [OF assms(1) refl assms(2)] by blast
qed

lemma modnn_mod_witness: "modnn 255 8 1000 = 235"
  using modnn_mod [of 8 1000] by simp

section \<open>Masking\<close>

text \<open>
  C10. When no allocation fails, \<^verbatim>\<open>Mask_mask\<close> returns the candidate of the smallest demerit, and the
  first of them when several have it.
\<close>

theorem mask_smallest_demerit:
  assumes "script s = []" and "21 \<le> width" and "width \<le> 177"
  shows "\<exists>i < 8. Mask_mask width frame level s = (Inr (snd (mask_candidate width frame level i)), s) \<and>
    (\<forall>j < 8. fst (mask_candidate width frame level i) \<le> fst (mask_candidate width frame level j)) \<and>
    (\<forall>j < i. fst (mask_candidate width frame level i) < fst (mask_candidate width frame level j))"
  by (rule Mask_mask_best [OF assms])

lemma mask_smallest_demerit_witness:
  "\<exists>i < 8. Mask_mask 21 (replicate 441 0) 0 \<lparr>script = []\<rparr> =
    (Inr (snd (mask_candidate 21 (replicate 441 0) 0 i)), \<lparr>script = []\<rparr>)"
  using mask_smallest_demerit [of "\<lparr>script = []\<rparr>" 21 "replicate 441 0" 0] by auto

text \<open>
  C11. A mask changes only the colour of the cells that are not function cells, those where the
  condition of the pattern holds, counts the dark modules of the result, and is undone by
  applying it once more.
\<close>

theorem mask_pattern_correct:
  assumes "i < 8" and "length frame = width * width"
  defines "masked \<equiv> snd ((maskMakers ! i) width frame)"
  shows "fst ((maskMakers ! i) width frame) = darks masked \<and> length masked = width * width \<and>
    snd ((maskMakers ! i) width masked) = frame \<and>
    (\<forall>y < width. \<forall>x < width. let c = frame ! (y * width + x); d = masked ! (y * width + x) in
       if marked c then d = c else \<not> marked d \<and> dark d = (dark c \<noteq> (mask_exp i x y = 0)))"
  using assms(2) unfolding masked_def maskMakers_exp [OF assms(1)]
  by (auto simp: MASKMAKER_darks MASKMAKER_twice MASKMAKER_nth Let_def mask_cell_marked dark_mask_cell)

lemma mask_pattern_correct_witness:
  "snd (Mask_mask3 21 (snd (Mask_mask3 21 (replicate 441 2)))) = replicate 441 2"
  using mask_pattern_correct [of 3 "replicate 441 2" 21] by (simp add: maskMakers_def)

text \<open>
  C12. \<^verbatim>\<open>Mask_makeMask\<close> rejects a mask outside 0..7; otherwise both copies of the format information
  in the symbol it returns hold the fifteen bits of the level and the mask, which a reader gets back.
\<close>

theorem makeMask_format:
  assumes "21 \<le> width" and "length frame = width * width" and "level \<le> 3" and "script s = []"
  shows "if msk < 0 \<or> 8 \<le> msk then Mask_makeMask width frame msk level s = (Inl EINVAL, s)
    else \<exists>masked. Mask_makeMask width frame msk level s = (Inr masked, s) \<and>
      read_format (format_word width masked) = Some (level, nat msk) \<and>
      (\<forall>k < 15. dark (masked ! idx width (format_pos1 width k)) = dark (masked ! idx width (format_pos2 k)))"
proof (cases "msk < 0 \<or> 8 \<le> msk")
  case False
  define m where "m = snd ((maskMakers ! nat msk) width frame)"
  have len: "length m = width * width" and i: "nat msk < 8"
    using False maskMakers_exp [of "nat msk"] by (auto simp: m_def)
  have "Mask_makeMask width frame msk level s = (Inr (snd (Mask_writeFormatInformation width m msk level)), s)"
    using False assms(4) by (simp add: Mask_makeMask_def bindM_def m_def)
  moreover have "snd (Mask_writeFormatInformation width m msk level) = masked_symbol width frame level (nat msk)"
    using False maskMakers_exp [OF i] by (simp add: masked_symbol_def m_def)
  moreover have "snd (Mask_writeFormatInformation width m msk level) ! idx width (format_pos1 width k) =
      snd (Mask_writeFormatInformation width m msk level) ! idx width (format_pos2 k)" if "k < 15" for k
    using format_readback [OF assms(1) len that, of msk level] by (simp add: idx_def case_prod_beta)
  ultimately show ?thesis using False read_format_masked [OF assms(1-3) i] by simp
qed (simp add: Mask_makeMask_def)

lemma makeMask_format_witness:
  "\<exists>masked. Mask_makeMask 21 (replicate 441 2) 6 3 \<lparr>script = []\<rparr> = (Inr masked, \<lparr>script = []\<rparr>) \<and>
     read_format (format_word 21 masked) = Some (3, 6)"
  using makeMask_format [of 21 "replicate 441 2" 3 "\<lparr>script = []\<rparr>" 6] by auto

text \<open>
  C13. The array that \<^verbatim>\<open>Mask_calcRunLength\<close> fills is the run-length code of the line: expanded with
  alternating colours, light first, it is the line, and all runs but an empty light one at the
  start are positive. Every index it writes is below \<open>width + 1\<close>, the size of the buffer.
\<close>

theorem run_lengths_of_line:
  assumes "0 < width" and "width < length runLength"
  shows "\<exists>head rl. Mask_calcRunLength width frame off dir runLength = (head + 1, rl) \<and>
    length rl = length runLength \<and> head \<le> width \<and>
    unrun False (take (head + 1) rl) = line frame off (if dir = 0 then 1 else width) width \<and>
    (\<forall>k. 1 \<le> k \<and> k \<le> head \<longrightarrow> 1 \<le> rl ! k) \<and> (rl ! 0 = -1 \<or> 1 \<le> rl ! 0)"
  using Mask_calcRunLength_upto [OF assms, of frame off dir] by (auto simp: runs_upto_def)

lemma run_lengths_of_line_witness:
  "\<exists>head rl. Mask_calcRunLength 3 [1, 0, 0] 0 0 (replicate 178 0) = (head + 1, rl) \<and>
     unrun False (take (head + 1) rl) = [True, False, False]"
  using run_lengths_of_line [of 3 "replicate 178 0" "[1, 0, 0]" 0 0]
  by (auto simp: line_def upt_rec numeral_3_eq_3)

text \<open>
  C14. \<^verbatim>\<open>Mask_calcN2\<close>, which combines the four cells of a block bitwise, counts three demerits for
  every two by two block of one colour.
\<close>

theorem calcN2_counts_blocks:
  "Mask_calcN2 width frame =
     3 * int (length (filter (block22 width frame) [(y, x). y \<leftarrow> [1..<width], x \<leftarrow> [1..<width]]))"
  by (rule Mask_calcN2_blocks)

text \<open>
  C15. The demerit of a candidate stays below \<^verbatim>\<open>INT_MAX\<close>, the value the search starts with, so no sum
  wraps around and the first candidate always improves on it.
\<close>

theorem demerit_below_INT_MAX:
  assumes "i < 8" and "21 \<le> width" and "width \<le> 177"
  shows "0 \<le> fst (mask_candidate width frame level i) \<and> fst (mask_candidate width frame level i) < 2 ^ 31 - 1"
  using mask_candidate_bound [OF assms, of frame level] by simp

lemma demerit_below_INT_MAX_witness:
  "fst (mask_candidate 177 (replicate 31329 0) 0 7) < 2 ^ 31 - 1"
  using demerit_below_INT_MAX [of 7 177 "replicate 31329 0" 0] by simp

section \<open>Tables\<close>

text \<open>
  C16. For every version and level, the blocks that \<^verbatim>\<open>QRspec_getEccSpec\<close> gives make up exactly the
  data and the error correction codes of the symbol, each block is a codeword of at most 255
  bytes, and the blocks of the second kind are one data byte longer.
\<close>

theorem ecc_blocks_of_symbol:
  assumes "1 \<le> version" and "version \<le> 40" and "level \<le> 3"
  defines "spec \<equiv> QRspec_getEccSpec version level"
  shows "QRspec_rsDataLength spec = QRspec_getDataLength version level \<and>
    QRspec_rsEccLength spec = QRspec_getECCLength version level \<and>
    0 < QRspec_rsBlockNum1 spec \<and> 0 \<le> QRspec_rsBlockNum2 spec \<and> 0 < QRspec_rsDataCodes1 spec \<and>
    0 < QRspec_rsEccCodes1 spec \<and> QRspec_rsDataCodes1 spec + QRspec_rsEccCodes1 spec \<le> 255 \<and>
    (QRspec_rsBlockNum2 spec \<noteq> 0 \<longrightarrow> QRspec_rsDataCodes2 spec = QRspec_rsDataCodes1 spec + 1 \<and>
       QRspec_rsDataCodes2 spec + QRspec_rsEccCodes2 spec \<le> 255)"
  using ecc_spec_ok [OF assms(1-3)] unfolding ecc_spec_ok_def spec_def Let_def .

lemma ecc_blocks_of_symbol_witness:
  "QRspec_rsDataLength (QRspec_getEccSpec 5 2) = QRspec_getDataLength 5 2 \<and> QRspec_rsBlockNum2 (QRspec_getEccSpec 5 2) = 2"
  using ecc_blocks_of_symbol [of 5 2] by (simp add: qrspec_tables)

text \<open>
  C17. The version and format tables are the BCH codes of the standard: the version pattern is the
  (18, 6) code of the version from 7 on, the format information the masked (15, 5) code of level
  and mask, for QR Code and for Micro QR Code.
\<close>

theorem bch_tables:
  "(\<forall>v \<in> set versions. QRspec_getVersionPattern v = (if v < 7 then 0 else bch18_6 (of_int v))) \<and>
   (\<forall>l \<in> {0, 1, 2, 3}. \<forall>m \<in> {0, 1, 2, 3, 4, 5, 6, 7}. QRspec_getFormatInfo m l
      = bch15_5 (8 * level_indicator l + of_int m) XOR 0x5412) \<and>
   (\<forall>v \<in> {1, 2, 3, 4}. \<forall>l \<in> {0, 1, 2, 3}. \<forall>m \<in> {0, 1, 2, 3}. MQRspec_getFormatInfo m v l
      = (case mqr_symbol_number v l of None \<Rightarrow> 0 | Some n \<Rightarrow> bch15_5 (4 * n + of_int m) XOR 0x4445))"
proof (intro conjI)
  show "\<forall>v \<in> set versions. QRspec_getVersionPattern v = (if v < 7 then 0 else bch18_6 (of_int v))"
    using version_pattern_all by (simp only: list_all_iff)
  show "\<forall>l \<in> {0, 1, 2, 3}. \<forall>m \<in> {0, 1, 2, 3, 4, 5, 6, 7}. QRspec_getFormatInfo m l
      = bch15_5 (8 * level_indicator l + of_int m) XOR 0x5412"
    using format_info_all by (simp only: list_all_iff list.set)
  show "\<forall>v \<in> {1, 2, 3, 4}. \<forall>l \<in> {0, 1, 2, 3}. \<forall>m \<in> {0, 1, 2, 3}. MQRspec_getFormatInfo m v l
      = (case mqr_symbol_number v l of None \<Rightarrow> 0 | Some n \<Rightarrow> bch15_5 (4 * n + of_int m) XOR 0x4445)"
    using mqr_format_info_all by (simp only: list_all_iff list.set)
qed

lemma bch_tables_witness: "QRspec_getVersionPattern 40 = bch18_6 40"
proof -
  have "40 \<in> set versions" by (simp add: versions_def)
  then show ?thesis using bch_tables by fastforce
qed

text \<open>
  C18. \<^verbatim>\<open>QRspec_getMinimumVersion\<close> returns the least version whose data area holds the given number of
  bytes, or -1 when no version does.
\<close>

theorem minimum_version_least:
  "let v = QRspec_getMinimumVersion sz level in
   if v = -1 then \<forall>u. 1 \<le> u \<and> u \<le> 40 \<longrightarrow> QRspec_getDataLength u level < sz
   else 1 \<le> v \<and> v \<le> 40 \<and> sz \<le> QRspec_getDataLength v level \<and>
     (\<forall>u. 1 \<le> u \<and> u < v \<longrightarrow> QRspec_getDataLength u level < sz)"
  by (cases rule: getMinimumVersion_cases [of sz level]) (simp_all add: Let_def)

lemma minimum_version_least_witness:
  "QRspec_getMinimumVersion 40 1 = 3 \<and> QRspec_getDataLength 2 1 < 40 \<and> QRspec_getMinimumVersion 3000 0 = -1 \<and>
     QRspec_getDataLength 40 0 < 3000"
proof -
  have v: "QRspec_getMinimumVersion 40 1 = 3" "QRspec_getMinimumVersion 3000 0 = -1" by code_simp+
  then show ?thesis using minimum_version_least [of 40 1] minimum_version_least [of 3000 0] by (simp add: Let_def)
qed

section \<open>Input data\<close>

text \<open>
  C19. When no allocation fails, \<^verbatim>\<open>QRinput_getByteStream\<close> on an input that fits returns as many bytes as
  the data area of the symbol has, from which a reader gets back the segments of the input and
  nothing else; on an input that does not fit it fails with \<^verbatim>\<open>ERANGE\<close>.
\<close>

theorem getByteStream_reads_back:
  assumes "input_ok input" and "\<forall>e \<in> set (in_head input). data_ok (en_mode e) (en_data e)" and "script s = []"
  defines "v \<equiv> fst (conversion input)"
  shows "\<exists>s'. if fits input
    then \<exists>bytes. QRinput_getByteStream (input, s) = (Inr bytes, (converted input, s')) \<and>
      int (length bytes) = QRspec_getDataLength v (in_level input) \<and>
      read_segs v (bytes_bits bytes) = concat (map (entry_segs v) (in_head input))
    else QRinput_getByteStream (input, s) = (Inl ERANGE, (converted input, s'))"
proof -
  have "acts (\<lambda>_. True) QRinput_getByteStream input (if fits input then Inr (data_bytes input) else Inl ERANGE) (converted input)"
    using any_heap.getByteStream_acts [of input] assms(1) unfolding input_ok_def data_bytes_def Let_def by blast
  then show ?thesis
    using length_data_bytes [OF assms(1)] read_data_bytes [OF assms(1) _ assms(2)] assms(3)
    unfolding acts_def v_def by (cases "fits input") auto
qed

lemma getByteStream_reads_back_witness:
  "\<exists>bytes s'. QRinput_getByteStream (extended (fresh 2 0) two_segments, \<lparr>script = []\<rparr>) =
      (Inr bytes, (converted (extended (fresh 2 0) two_segments), s'))"
proof -
  note ok = split_input_ok [OF two_segments, of 2 0]
  show ?thesis using getByteStream_reads_back [OF ok(1) ok(2), of "\<lparr>script = []\<rparr>"] ok(6) by auto
qed

text \<open>
  C20. The loop of \<^verbatim>\<open>QRinput_convertData\<close> ends: it fails with \<^verbatim>\<open>ERANGE\<close>, and then the bits exceed the
  capacity of every version, or it succeeds with a version, at least the one asked for, whose data
  area holds the bits as encoded for that version.
\<close>

theorem convertData_ends:
  assumes "\<not> in_mqr input" and "entries_ok 0 False (in_head input)" and "0 \<le> in_version input"
    and "in_version input \<le> 40" and "in_level input \<le> 3" and "script s = []"
  shows "\<exists>r input' s'. QRinput_convertData (input, s) = (r, (input', s')) \<and>
    (let bits = int (length (enc_entries (in_version input') False (in_head input))) in
     r = Inr () \<and> in_version input \<le> in_version input' \<and> 1 \<le> in_version input' \<and> in_version input' \<le> 40 \<and>
       bits \<le> 8 * QRspec_getDataLength (in_version input') (in_level input) \<or>
     r = Inl ERANGE \<and> (\<forall>u \<in> {1..40}. 8 * QRspec_getDataLength u (in_level input) < bits))"
proof -
  obtain s' where "QRinput_convertData (input, s) = (if snd (conversion input) then Inr () else Inl ERANGE, (converted input, s'))"
    using any_heap.convertData_acts [OF assms(1-4)] assms(6) unfolding acts_def by auto
  then show ?thesis
    using conversion_fits [OF _ assms(5,4)] conversion_fails [OF _ assms(5,4)]
    by (cases "snd (conversion input)") (auto simp: converted_def Let_def)
qed

lemma convertData_ends_witness:
  "\<exists>r input' s'. QRinput_convertData (extended (fresh 2 0) two_segments, \<lparr>script = []\<rparr>) = (r, (input', s')) \<and> r \<in> {Inr (), Inl ERANGE}"
proof -
  note ok = split_input_ok [OF two_segments, of 2 0]
  show ?thesis using convertData_ends [of "extended (fresh 2 0) two_segments" "\<lparr>script = []\<rparr>"] ok(1) ok(3,4)
    by (auto simp: input_ok_def Let_def)
qed

text \<open>
  C21. \<^verbatim>\<open>QRinput_appendPaddingBit\<close> fills a bit stream up to the capacity of the symbol, exactly, keeping
  the bits that are there; what it appends starts with the terminator, as far as there is room. A
  stream beyond the capacity is refused with \<^verbatim>\<open>ERANGE\<close>. Allocations that fail give \<^verbatim>\<open>ENOMEM\<close>.
\<close>

theorem padding_fills_capacity:
  fixes input :: QRinput and s :: "'z heap_scheme"
  defines "n \<equiv> QRspec_getDataLength (in_version input) (in_level input)"
  assumes "QRinput_appendPaddingBit (bs_of xs) input s = (r, s')"
  shows "r = Inl ENOMEM \<and> script s \<noteq> [] \<or> r = Inl ERANGE \<and> 8 * n < int (length xs) \<or>
    (\<exists>pad. r = Inr (bs_of (xs @ pad)) \<and> int (length (xs @ pad)) = 8 * n \<and>
       take 4 pad = replicate (min 4 (length pad)) 0)"
proof (cases "int (length xs) \<le> 8 * n")
  case True
  let ?pad = "padding (nat n) (length xs)"
  have le: "length xs \<le> 8 * nat n" using True by simp
  have "length xs + length ?pad = 8 * nat n" by (rule length_padding [OF le])
  then have len: "8 * nat n - length xs = length ?pad" "int (length xs + length ?pad) = 8 * n" using True by linarith+
  have "r = Inr (bs_of (xs @ ?pad)) \<or> r = Inl ENOMEM \<and> script s \<noteq> []"
    using deliversD [OF any_heap.appendPaddingBit_delivers assms(2)] True by (simp add: n_def)
  then show ?thesis
    using padding_terminator [of "nat n" "length xs"] le len by (auto simp: min.commute)
next
  case False
  then have "r = Inl ERANGE \<or> r = Inl ENOMEM \<and> script s \<noteq> []"
    using deliversD [OF any_heap.appendPaddingBit_overflow assms(2)] False by (simp add: n_def)
  then show ?thesis using False by auto
qed

lemma padding_fills_capacity_witness:
  "\<exists>pad. fst (QRinput_appendPaddingBit (bs_of [1, 0]) (fresh 1 0) \<lparr>script = []\<rparr>) = Inr (bs_of ([1, 0] @ pad)) \<and>
     length pad = 150"
proof (cases "QRinput_appendPaddingBit (bs_of [1, 0]) (fresh 1 0) \<lparr>script = []\<rparr>")
  case (Pair r s')
  then show ?thesis
    using padding_fills_capacity [of "[1, 0]" "fresh 1 0" "\<lparr>script = []\<rparr>" r s']
    by (auto simp: fresh_def qrspec_tables)
qed

text \<open>
  C22. An input in the first-position FNC1 mode is never encoded: \<^verbatim>\<open>QRinput_check\<close> refuses the empty
  header entry that \<^verbatim>\<open>QRinput_insertFNC1Header\<close> wants to make, so \<^verbatim>\<open>QRcode_encodeMask\<close> fails with \<^verbatim>\<open>EINVAL\<close>.
\<close>

theorem fnc1_first_rejected:
  assumes "QRinput_setFNC1First input = Inr input'" and "script s = []"
  shows "\<exists>s'. QRcode_encodeMask msk (input', s) = (Inl EINVAL, (input', s'))"
proof -
  have i: "\<not> in_mqr input'" "in_fnc1 input' = 1"
    using assms(1) by (auto simp: QRinput_setFNC1First_def split: if_splits)
  have "acts (\<lambda>_. True) QRinput_mergeBitStream input' (Inl EINVAL) input'"
    unfolding QRinput_mergeBitStream_def
    by (intro acts_get_then acts_bind_fail)
      (simp add: i acts_bind_fail [OF any_heap.insertFNC1Header_first [OF i(2)]])
  then have "acts (\<lambda>_. True) QRraw_new input' (Inl EINVAL) input'"
    unfolding QRraw_new_def QRinput_getByteStream_def QRinput_getBitStream_def
    by (intro acts_lift_then [OF delivers_runs [OF any_heap.malloc_delivers]] acts_bind_fail)
  then have "acts (\<lambda>_. True) (QRcode_encodeMask msk) input' (Inl EINVAL) input'"
    unfolding QRcode_encodeMask_parts by (intro acts_get_then) (auto simp: i intro: acts_fail acts_bind_fail)
  then show ?thesis using assms(2) unfolding acts_def by auto
qed

lemma fnc1_first_rejected_witness:
  "\<exists>s'. QRcode_encodeMask 0 (fresh 1 0\<lparr>in_fnc1 := 1\<rparr>, initial_heap) = (Inl EINVAL, (fresh 1 0\<lparr>in_fnc1 := 1\<rparr>, s'))"
  using fnc1_first_rejected [of "fresh 1 0" "fresh 1 0\<lparr>in_fnc1 := 1\<rparr>" initial_heap 0]
  by (simp add: QRinput_setFNC1First_def fresh_def)


text \<open>
  C23. \<^verbatim>\<open>QRinput_append\<close> adds an entry with the first \<open>sz\<close> bytes at the end of the list when
  \<^verbatim>\<open>QRinput_check\<close> accepts them, and runs into undefined behaviour when there are fewer; otherwise it
  fails with \<^verbatim>\<open>EINVAL\<close>, whatever the allocations do.
\<close>

theorem append_checked:
  assumes "tail_ok input" and "QRinput_append input mode sz data s = (r, s')"
  shows "if QRinput_check mode sz data
    then r = Inl ENOMEM \<and> script s \<noteq> [] \<or>
      (if sz \<le> int (length data)
       then r = Inr (extended input [\<lparr>en_mode = mode, en_size = sz, en_data = take (nat sz) data, en_bstream = None\<rparr>])
       else r = Inl CRASH)
    else r = Inl EINVAL"
proof (cases "QRinput_check mode sz data")
  case True
  show ?thesis
  proof (cases "sz \<le> int (length data)")
    case le: True
    then show ?thesis using True deliversD [OF any_heap.QRinput_append_delivers [OF True le assms(1)] assms(2)]
      by (auto simp: new_entry_def)
  next
    case False
    then have "delivers (\<lambda>_. True) (QRinput_append input mode sz data) (Inl CRASH)"
      using True QRinput_check_pos [OF True] unfolding QRinput_append_def QRinput_List_newEntry_def
      by (auto intro!: delivers_bind_fail any_heap.malloc_then delivers_fail simp: nat_le_iff)
    from deliversD [OF this assms(2)] show ?thesis using True False by auto
  qed
next
  case False
  then show ?thesis using assms(2) by (simp add: QRinput_append_def QRinput_List_newEntry_def)
qed

lemma append_checked_witness:
  "QRinput_append (fresh 1 0) QR_MODE_NUM 1 [65] \<lparr>script = [False]\<rparr> = (Inl EINVAL, \<lparr>script = [False]\<rparr>)"
proof (cases "QRinput_append (fresh 1 0) QR_MODE_NUM 1 [65] \<lparr>script = [False]\<rparr>")
  case (Pair r s')
  have "\<not> QRinput_check QR_MODE_NUM 1 [65]" by code_simp
  then show ?thesis
    using append_checked [OF _ Pair] Pair by (auto simp: tail_ok_def fresh_def QRinput_append_def QRinput_List_newEntry_def)
qed

text \<open>
  C24. \<^verbatim>\<open>Split_splitString\<close> splits a string into entries whose data, put together, are the string; every
  entry passes \<^verbatim>\<open>QRinput_check\<close>, has only digits in the numeric and only characters of the table in the
  alphanumeric mode, and the kanji mode occurs only under the kanji hint. The string is shorter than
  128 MB: from 2 GB on a pointer difference does not fit into \<^verbatim>\<open>int\<close>, and before that the estimates of the
  number of bits overflow.
\<close>

theorem splitString_partition:
  assumes "0 \<notin> set string" and "tail_ok input" and "script s = []" and "length string < 2 ^ 27"
  shows "\<exists>es s'. Split_splitString string hint (input, s) = (Inr (), (extended input es, s')) \<and>
    concat (map en_data es) = string \<and>
    (\<forall>e \<in> set es. QRinput_check (en_mode e) (en_size e) (en_data e) \<and> en_size e = int (length (en_data e)) \<and>
       (case en_mode e of
          QR_MODE_NUM \<Rightarrow> list_all is_digit (en_data e)
        | QR_MODE_AN \<Rightarrow> list_all is_an (en_data e)
        | QR_MODE_8 \<Rightarrow> True
        | QR_MODE_KANJI \<Rightarrow> hint = QR_MODE_KANJI
        | _ \<Rightarrow> False))"
proof -
  obtain es s' where es: "split_of hint string es"
      and run: "Split_splitString string hint (input, s) = (Inr (), (extended input es, s'))"
    using any_heap.splitString_acts [OF assms(1,2), of hint] assms(3,4) unfolding acts_def by fastforce
  have "\<forall>e \<in> set es. QRinput_check (en_mode e) (en_size e) (en_data e) \<and> en_size e = int (length (en_data e)) \<and>
       (case en_mode e of
          QR_MODE_NUM \<Rightarrow> list_all is_digit (en_data e)
        | QR_MODE_AN \<Rightarrow> list_all is_an (en_data e)
        | QR_MODE_8 \<Rightarrow> True
        | QR_MODE_KANJI \<Rightarrow> hint = QR_MODE_KANJI
        | _ \<Rightarrow> False)"
    using es unfolding split_of_def entry_ok_def data_ok_def by (auto split: QRencodeMode.splits)
  then show ?thesis using es run by (auto simp: split_of_def)
qed

lemma splitString_partition_witness:
  "\<exists>es s'. Split_splitString [65, 49, 50] QR_MODE_8 (fresh 1 0, \<lparr>script = []\<rparr>) = (Inr (), (extended (fresh 1 0) es, s')) \<and>
     concat (map en_data es) = [65, 49, 50]"
  using splitString_partition [of "[65, 49, 50]" "fresh 1 0" "\<lparr>script = []\<rparr>" QR_MODE_8]
  by (auto simp: tail_ok_def fresh_def)

text \<open>
  C25. \<^verbatim>\<open>QRinput_lengthOfCode\<close> returns a number of bytes whose segment, header included, fits into the
  given bits and whose count fits into the length field; for kanji it is even.
\<close>

theorem lengthOfCode_segment_fits:
  assumes "QRinput_isSplittableMode mode" and "0 < QRinput_lengthOfCode mode version bits"
    and "int (length data) = QRinput_lengthOfCode mode version bits"
  shows "int (length (seg_bits version mode data)) \<le> bits \<and>
    seg_count mode data < 2 ^ nat (QRspec_lengthIndicator mode version) \<and> (mode = QR_MODE_KANJI \<longrightarrow> even (length data))"
proof -
  note fit = lengthOfCode_fits [OF assms(1,2)]
  have "int (length (payload mode data)) = est mode (int (length data))" by (rule length_payload_est [OF assms(1)])
  moreover have "mode = QR_MODE_KANJI \<longrightarrow> even (length data)" using fit(3) assms(3) by (metis even_of_nat)
  ultimately show ?thesis
    using fit(1,2) assms(3) lengthIndicator_bounds [of mode version] seg_count_bound [OF assms(1), of data version]
    by (simp add: seg_bits_def)
qed

lemma lengthOfCode_segment_fits_witness:
  "int (length (seg_bits 1 QR_MODE_8 [1, 2, 3])) \<le> 40"
  using lengthOfCode_segment_fits [of QR_MODE_8 1 40 "[1, 2, 3]"]
  by (simp add: QRinput_lengthOfCode_def QRspec_lengthIndicator_def QRspec_maximumWords_def
      QRinput_isSplittableMode_def lengthTableBits_def)


section \<open>Structured append\<close>

text \<open>
  C26. Refinement of the splitting into structured append symbols: when no allocation fails,
  \<^verbatim>\<open>QRinput_splitQRinputToStruct\<close> either fails with \<^verbatim>\<open>EINVAL\<close> or \<^verbatim>\<open>ERANGE\<close> or returns at most sixteen inputs
  of the version and level of the original, whose data one after the other are its data, mode by
  mode; the parity is the exclusive or of all data bytes and, when there is more than one symbol,
  every input starts with a header of the total, its own number and the parity.
\<close>

theorem splitQRinputToStruct_refines:
  assumes "\<not> in_mqr input" and "1 \<le> in_version input" and "in_version input \<le> 40" and "in_level input \<le> 3"
    and "list_all simple (in_head input)" and "script h = []"
  shows "\<exists>r h'. QRinput_splitQRinputToStruct input h = (r, h') \<and>
    (r = Inl EINVAL \<or> r = Inl ERANGE \<or> (\<exists>st. r = Inr st \<and> struct_of input st))"
  using any_heap.splitQRinputToStruct_outcome [OF assms(1-5) TrueI assms(6)] by blast

lemma simple_two_segments: "list_all simple two_segments"
  using two_segments by (auto simp: split_of_def simple_def list_all_iff splittable_modes)

lemma splitQRinputToStruct_refines_witness:
  "\<exists>r h'. QRinput_splitQRinputToStruct (extended (fresh 1 0) two_segments) \<lparr>script = []\<rparr> = (r, h') \<and>
    (r = Inl EINVAL \<or> r = Inl ERANGE \<or> (\<exists>st. r = Inr st \<and> struct_of (extended (fresh 1 0) two_segments) st))"
  by (rule splitQRinputToStruct_refines) (simp_all add: extended_def fresh_def simple_two_segments)

text \<open>
  C27. Every input of the structure, with its header, encodes to no more bits than the data area of
  the version has.
\<close>

theorem struct_inputs_fit:
  assumes "\<not> in_mqr input" and "1 \<le> in_version input" and "in_version input \<le> 40" and "in_level input \<le> 3"
    and "list_all simple (in_head input)" and "script h = []"
    and "QRinput_splitQRinputToStruct input h = (Inr st, h')" and "i \<in> set (st_head st)"
  shows "in_version i = in_version input \<and> in_level i = in_level input \<and>
    int (length (enc_entries (in_version i) False (in_head i))) \<le> 8 * QRspec_getDataLength (in_version i) (in_level i)"
proof -
  have "struct_of input st"
    using any_heap.splitQRinputToStruct_outcome [OF assms(1-5) TrueI assms(6)] assms(7) by auto
  then show ?thesis using struct_of_fits [of input st i] assms(8) by blast
qed


lemma split_two_segments:
  "map_sum id (\<lambda>st. length (st_head st)) (fst (QRinput_splitQRinputToStruct (extended (fresh 1 0) two_segments) \<lparr>script = []\<rparr>))
    = Inr 1"
  by code_simp

lemma struct_inputs_fit_witness:
  "\<exists>st h'. QRinput_splitQRinputToStruct (extended (fresh 1 0) two_segments) \<lparr>script = []\<rparr> = (Inr st, h') \<and>
    st_head st \<noteq> [] \<and> in_version (hd (st_head st)) = 1 \<and>
    int (length (enc_entries 1 False (in_head (hd (st_head st))))) \<le> 8 * QRspec_getDataLength 1 0"
proof -
  obtain st h' where st: "QRinput_splitQRinputToStruct (extended (fresh 1 0) two_segments) \<lparr>script = []\<rparr> = (Inr st, h')"
      and one: "length (st_head st) = 1"
    using split_two_segments by (cases "QRinput_splitQRinputToStruct (extended (fresh 1 0) two_segments) \<lparr>script = []\<rparr>"; cases "fst (QRinput_splitQRinputToStruct (extended (fresh 1 0) two_segments) \<lparr>script = []\<rparr>)") auto
  then have "hd (st_head st) \<in> set (st_head st)" by (cases "st_head st") auto
  from struct_inputs_fit [OF _ _ _ _ _ _ st this] show ?thesis
    using st one by (auto simp: extended_def fresh_def simple_two_segments)
qed

section \<open>Errors at the interface\<close>



text \<open>
  C29. The search for a version gives up too early: 2953 bytes in 8-bit mode at level L are encoded
  when version 40 is asked for, and a reader gets them back, but with version 0, which asks for the
  smallest sufficient version, \<^verbatim>\<open>QRcode_encodeData\<close> fails with \<^verbatim>\<open>ERANGE\<close>: at the short length field of
  the small versions the data need twelve segments, whose headers exceed even version 40.
\<close>

theorem encodeData_capacity_gap:
  assumes "length data = 2953" and "qr_ok s" and "script s = []"
  shows "(\<exists>s'. QRcode_encodeData 2953 (Some data) 0 0 s = (Inl ERANGE, s')) \<and>
    (\<exists>code i s'. QRcode_encodeData 2953 (Some data) 40 0 s = (Inr code, s') \<and> qr_version code = 40 \<and>
       read_symbol (qr_width code) (qr_data code) = Some (40, 0, i, [(QR_MODE_8, data)]))"
proof
  have ne: "data \<noteq> []" and sz: "int (length data) = 2953" using assms(1) by auto
  note fit = capacity_input_fits [OF assms(1)]
  obtain s0 where s0: "qr_ok s0" "script s0 = []"
      "QRcode_encodeData 2953 (Some data) 0 0 s = evalO (QRcode_encodeMask (-1)) (eight_bit_input 0 0 data) s0"
    using encodeData_input [OF ne _ _ _ assms(2,3), of 0 0] sz by auto
  show "\<exists>s'. QRcode_encodeData 2953 (Some data) 0 0 s = (Inl ERANGE, s')"
    using QRcode_encodeMask_range [OF eight_bit_input_ok(2) [OF ne] fit(1) s0(1,2), of "-1"] s0(3)
    by (auto simp: evalO_def)
  obtain s1 where s1: "qr_ok s1" "script s1 = []"
      "QRcode_encodeData 2953 (Some data) 40 0 s = evalO (QRcode_encodeMask (-1)) (eight_bit_input 40 0 data) s1"
    using encodeData_input [OF ne _ _ _ assms(2,3), of 40 0] sz by auto
  have "QRspec_maximumWords QR_MODE_8 40 = 65535"
    by (simp add: QRspec_maximumWords_def QRinput_isSplittableMode_def lengthTableBits_def Let_def)
  then have segs: "concat (map (entry_segs 40) (in_head (eight_bit_input 40 0 data))) = [(QR_MODE_8, data)]"
    and level: "in_level (eight_bit_input 40 0 data) = 0"
    using assms(1) by (simp_all add: eight_bit_input_def extended_def fresh_def new_entry_def entry_segs_def chunks_whole)
  obtain code i s2 where "QRcode_encodeMask (-1) (eight_bit_input 40 0 data, s1) =
        (Inr code, (converted (eight_bit_input 40 0 data), s2))" and "qr_version code = 40"
      and "read_symbol (qr_width code) (qr_data code) = Some (40, 0, i, [(QR_MODE_8, data)])"
    using QRcode_encodeMask_read [OF eight_bit_input_ok(2) [OF ne, of 40 0] fit(2) eight_bit_input_ok(3) [OF ne, of 40 0] _ _ s1(1,2), of "-1"]
    unfolding fit(3) by (auto simp: segs level)
  then show "\<exists>code i s'. QRcode_encodeData 2953 (Some data) 40 0 s = (Inr code, s') \<and> qr_version code = 40 \<and>
       read_symbol (qr_width code) (qr_data code) = Some (40, 0, i, [(QR_MODE_8, data)])"
    using s1(3) by (auto simp: evalO_def)
qed

lemma encodeData_capacity_gap_witness:
  "\<exists>s'. QRcode_encodeData 2953 (Some (replicate 2953 65)) 0 0 initial_heap = (Inl ERANGE, s')"
  using encodeData_capacity_gap [of "replicate 2953 65" initial_heap] by simp

section \<open>Micro QR Code\<close>

text \<open>
  C30. When no allocation fails, \<^verbatim>\<open>QRcode_encodeMaskMQR\<close> turns an input whose segments fit the version
  and level it asks for into a symbol of that version and its width, with the mask that was asked
  for when it is not negative; a reader of Micro QR Code symbols (format information, unmasking, the
  path, a check of the Reed-Solomon block, segments) gets back the version, the level and the
  segments. An input that does not fit is refused with \<^verbatim>\<open>ERANGE\<close>. Kanji segments need version 3:
  in version 2, which the code also accepts, a Kanji segment has no length indicator.
\<close>

theorem encodeMaskMQR_reads_back:
  assumes "mqr_input_ok input" and "\<forall>e \<in> set (in_head input). mqr_readable (in_version input) e"
    and "msk < 4" and "qr_ok s" and "script s = []"
  shows "if mqr_fits input
    then \<exists>code i s'. QRcode_encodeMaskMQR msk (input, s) = (Inr code, (mqr_encoded input, s')) \<and> qr_ok s' \<and>
      qr_version code = in_version input \<and> (0 \<le> msk \<longrightarrow> int i = msk) \<and>
      read_symbolMQR (qr_width code) (qr_data code) =
        Some (in_version input, in_level input, i, map (\<lambda>e. (en_mode e, en_data e)) (in_head input))
    else \<exists>s'. QRcode_encodeMaskMQR msk (input, s) = (Inl ERANGE, (mqr_encoded input, s'))"
  using QRcode_encodeMaskMQR_reads [OF assms(1) _ assms(2-5)] QRcode_encodeMaskMQR_overflow [OF assms(1) _ assms(4,5)]
  by simp

definition micro_input :: QRinput where
  "micro_input = \<lparr>in_version = 3, in_level = 1, in_head = [new_entry QR_MODE_NUM 2 [49, 50], new_entry QR_MODE_8 1 [200]],
     in_tail = True, in_mqr = True, in_fnc1 = 0, in_appid = 0\<rparr>"

lemma encodeMaskMQR_reads_back_witness:
  "\<exists>code s'. QRcode_encodeMaskMQR 2 (micro_input, initial_heap) = (Inr code, (mqr_encoded micro_input, s')) \<and>
     read_symbolMQR (qr_width code) (qr_data code) = Some (3, 1, 2, [(QR_MODE_NUM, [49, 50]), (QR_MODE_8, [200])])"
proof -
  have "mqr_input_ok micro_input" "\<forall>e \<in> set (in_head micro_input). mqr_readable (in_version micro_input) e"
    by (auto simp: micro_input_def mqr_input_ok_def mqr_kinds_def entry_ok_def entries_ok_def new_entry_def mqr_readable_def data_ok_def
      is_digit_def QRinput_check_def QRinput_checkModeNum_def upt_conv_Cons mode_ok_def mode_ids_def mqr_min_version_def
      QRinput_isSplittableMode_def)
  moreover have "mqr_fits micro_input" by code_simp
  ultimately show ?thesis
    using encodeMaskMQR_reads_back [of micro_input 2 initial_heap] by (auto simp: micro_input_def new_entry_def)
qed

end
